(* ===== verification/Zephyr_Prelude.thy ===== *)
theory Zephyr_Prelude
  imports Main "HOL-Library.Word"
begin

text \<open>
  Shared vocabulary of the development: the types that stand for C addresses, thread and
  wait-queue pointers, errno values, and the generic lemmas on lists and words that the
  component theories use, and the collections the definitions of constants, of thread flags and of
  the operations on thread flags are declared into.
\<close>

unbundle bit_operations_syntax

section \<open>Addresses and constants\<close>

text \<open>
  A C pointer is a natural number, and 0 is the null pointer.  Threads, wait queues and list
  nodes are named by their addresses.
\<close>

type_synonym addr = nat
type_synonym tid = addr
type_synonym wqid = addr
type_synonym u8 = "8 word"
type_synonym u16 = "16 word"
type_synonym u32 = "32 word"

abbreviation NULL :: addr where "NULL \<equiv> 0"

named_theorems const_defs \<open>constants of the interface: timeouts and errno values\<close>
named_theorems flag_defs \<open>the thread flags\<close>
named_theorems mark_defs \<open>operations on the flags and return value of one thread\<close>

section \<open>Lists\<close>

lemma remove1_append_mid [simp]:
  "x \<notin> set xs \<Longrightarrow> remove1 x (xs @ x # ys) = xs @ ys"
  by (induction xs) auto

lemma set_remove1D: "x \<in> set (remove1 y xs) \<Longrightarrow> x \<in> set xs"
  by (metis notin_set_remove1)

lemma distinct_split_unique:
  assumes "distinct (xs @ x # ys)" and "xs @ x # ys = us @ x # vs"
  shows "xs = us \<and> ys = vs"
  using assms by (metis append_Cons_eq_iff distinct_append not_distinct_conv_prefix
      distinct.simps(2))

text \<open>
  Insertion at the first position a test accepts.  The test may update a state as it walks,
  as the callback of \<open>sys_dlist_insert_at\<close> does through its \<open>data\<close> pointer.
\<close>

fun list_insert_at :: "('s \<Rightarrow> 'a \<Rightarrow> bool \<times> 's) \<Rightarrow> 's \<Rightarrow> 'a \<Rightarrow> 'a list \<Rightarrow> 'a list \<times> 's" where
  "list_insert_at cond s n [] = ([n], s)"
| "list_insert_at cond s n (x # xs) =
     (case cond s x of
        (True, s') \<Rightarrow> (n # x # xs, s')
      | (False, s') \<Rightarrow> (case list_insert_at cond s' n xs of (ys, s'') \<Rightarrow> (x # ys, s'')))"

lemma list_insert_at_split:
  "\<exists>us vs. xs = us @ vs \<and> fst (list_insert_at cond s n xs) = us @ n # vs"
proof (induction xs arbitrary: s)
  case Nil
  then show ?case by simp
next
  case (Cons x xs)
  obtain b s' where c: "cond s x = (b, s')" by force
  show ?case
  proof (cases b)
    case True
    with c show ?thesis by auto
  next
    case False
    obtain us vs where "xs = us @ vs" "fst (list_insert_at cond s' n xs) = us @ n # vs"
      using Cons.IH by blast
    with c False show ?thesis
      by (intro exI[of _ "x # us"] exI[of _ vs]) (auto split: prod.splits)
  qed
qed

lemma set_list_insert_at [simp]:
  "set (fst (list_insert_at cond s n xs)) = insert n (set xs)"
  using list_insert_at_split[of xs cond s n] by auto

lemma distinct_list_insert_at [simp]:
  "distinct (fst (list_insert_at cond s n xs)) \<longleftrightarrow> n \<notin> set xs \<and> distinct xs"
proof -
  obtain us vs where "xs = us @ vs" "fst (list_insert_at cond s n xs) = us @ n # vs"
    using list_insert_at_split by metis
  then show ?thesis by auto
qed

section \<open>Words\<close>

text \<open>Increment and decrement of an unsigned counter that cannot wrap.\<close>

lemma unat_inc: "a < b \<Longrightarrow> unat (a + 1) = unat a + 1" for a b :: "'a :: len word"
proof -
  assume "a < b"
  then have "unat a + 1 < 2 ^ LENGTH('a)"
    using unsigned_less[of b, where 'a = nat] unfolding word_less_nat_alt by linarith
  then show ?thesis by (simp add: unat_word_ariths)
qed

lemma unat_dec: "0 < w \<Longrightarrow> unat (w - 1) + 1 = unat w" for w :: "'a :: len word"
proof -
  assume "0 < w"
  then have "w \<noteq> 0" "0 < unat w" by (simp_all add: word_gt_0 unat_gt_0)
  then show ?thesis by (simp add: unat_minus_one)
qed

lemma dec_le: "0 < w \<Longrightarrow> w \<le> m \<Longrightarrow> w - 1 \<le> m" for w m :: "'a :: len word"
  using unat_dec[of w] by (simp add: word_le_nat_alt)

lemma inc_nonzero: "unat w + 1 < 2 ^ LENGTH('a) \<Longrightarrow> w + 1 \<noteq> 0" for w :: "'a :: len word"
proof -
  assume "unat w + 1 < 2 ^ LENGTH('a)"
  then have "unat (w + 1) = unat w + 1" by (simp add: unat_word_ariths)
  then show ?thesis by (metis Suc_eq_plus1 nat.distinct(1) unat_0)
qed

end
