(* ===== verification/Sys_Dlist.thy ===== *)
theory Sys_Dlist
  imports Zephyr_Prelude
begin

text \<open>
  The doubly-linked list of \<^verbatim>\<open>include/misc/dlist.h\<close> at pointer level: a heap with the two
  link fields of \<^verbatim>\<open>struct _dnode\<close>, every inline routine as a heap transformer, and the proof
  that on a well-formed list each routine does what the list operation of the same name does.
  The scheduler, the wait queues and the timeout queue are built from these lists; their
  theories work on HOL lists, which the lemmas of the interface \<open>intrusive_list\<close> justify.
\<close>

section \<open>The heap and the inline routines\<close>

text \<open>
  \<^verbatim>\<open>struct _dnode\<close>: \<open>dnext\<close> is the union \<^verbatim>\<open>head\<close>/\<^verbatim>\<open>next\<close>, \<open>dprev\<close> the union
  \<^verbatim>\<open>tail\<close>/\<^verbatim>\<open>prev\<close>.
\<close>

record dheap =
  dnext :: "addr \<Rightarrow> addr"
  dprev :: "addr \<Rightarrow> addr"

definition set_next :: "dheap \<Rightarrow> addr \<Rightarrow> addr \<Rightarrow> dheap" where
  "set_next h p v = h\<lparr>dnext := (dnext h)(p := v)\<rparr>"

definition set_prev :: "dheap \<Rightarrow> addr \<Rightarrow> addr \<Rightarrow> dheap" where
  "set_prev h p v = h\<lparr>dprev := (dprev h)(p := v)\<rparr>"

definition sys_dlist_init :: "dheap \<Rightarrow> addr \<Rightarrow> dheap" where
  "sys_dlist_init h l = (let h1 = set_next h l l in set_prev h1 l l)"

definition sys_dlist_is_head :: "dheap \<Rightarrow> addr \<Rightarrow> addr \<Rightarrow> bool" where
  "sys_dlist_is_head h l n \<longleftrightarrow> dnext h l = n"

definition sys_dlist_is_tail :: "dheap \<Rightarrow> addr \<Rightarrow> addr \<Rightarrow> bool" where
  "sys_dlist_is_tail h l n \<longleftrightarrow> dprev h l = n"

definition sys_dlist_is_empty :: "dheap \<Rightarrow> addr \<Rightarrow> bool" where
  "sys_dlist_is_empty h l \<longleftrightarrow> dnext h l = l"

definition sys_dlist_peek_head :: "dheap \<Rightarrow> addr \<Rightarrow> addr" where
  "sys_dlist_peek_head h l = (if sys_dlist_is_empty h l then NULL else dnext h l)"

definition sys_dlist_peek_head_not_empty :: "dheap \<Rightarrow> addr \<Rightarrow> addr" where
  "sys_dlist_peek_head_not_empty h l = dnext h l"

definition sys_dlist_peek_next :: "dheap \<Rightarrow> addr \<Rightarrow> addr \<Rightarrow> addr" where
  "sys_dlist_peek_next h l n = (if n = NULL \<or> n = dprev h l then NULL else dnext h n)"

definition sys_dlist_append :: "dheap \<Rightarrow> addr \<Rightarrow> addr \<Rightarrow> dheap" where
  "sys_dlist_append h l n =
     (let h1 = set_next h n l;
          h2 = set_prev h1 n (dprev h1 l);
          h3 = set_next h2 (dprev h2 l) n
      in set_prev h3 l n)"

definition sys_dlist_prepend :: "dheap \<Rightarrow> addr \<Rightarrow> addr \<Rightarrow> dheap" where
  "sys_dlist_prepend h l n =
     (let h1 = set_next h n (dnext h l);
          h2 = set_prev h1 n l;
          h3 = set_prev h2 (dnext h2 l) n
      in set_next h3 l n)"

definition sys_dlist_insert_after :: "dheap \<Rightarrow> addr \<Rightarrow> addr \<Rightarrow> addr \<Rightarrow> dheap" where
  "sys_dlist_insert_after h l insert_point n =
     (if insert_point = NULL then sys_dlist_prepend h l n
      else
        let h1 = set_next h n (dnext h insert_point);
            h2 = set_prev h1 n insert_point;
            h3 = set_prev h2 (dnext h2 insert_point) n
        in set_next h3 insert_point n)"

definition sys_dlist_insert_before :: "dheap \<Rightarrow> addr \<Rightarrow> addr \<Rightarrow> addr \<Rightarrow> dheap" where
  "sys_dlist_insert_before h l insert_point n =
     (if insert_point = NULL then sys_dlist_append h l n
      else
        let h1 = set_prev h n (dprev h insert_point);
            h2 = set_next h1 n insert_point;
            h3 = set_next h2 (dprev h2 insert_point) n
        in set_prev h3 insert_point n)"

text \<open>
  The search loop of \<open>sys_dlist_insert_at\<close>.  On a malformed list the C loop may never end,
  which is the value \<open>None\<close>.  The callback may change the data it is given, so it is a
  function of a data state \<open>s\<close>.
\<close>

partial_function (option) insert_point ::
  "dheap \<Rightarrow> addr \<Rightarrow> ('s \<Rightarrow> addr \<Rightarrow> bool \<times> 's) \<Rightarrow> addr \<Rightarrow> 's \<Rightarrow> (addr \<times> 's) option" where
  "insert_point h l cond pos s =
     (if pos = NULL then Some (NULL, s)
      else if fst (cond s pos) then Some (pos, snd (cond s pos))
      else insert_point h l cond (sys_dlist_peek_next h l pos) (snd (cond s pos)))"

definition sys_dlist_insert_at ::
  "dheap \<Rightarrow> addr \<Rightarrow> addr \<Rightarrow> ('s \<Rightarrow> addr \<Rightarrow> bool \<times> 's) \<Rightarrow> 's \<Rightarrow> (dheap \<times> 's) option" where
  "sys_dlist_insert_at h l n cond s =
     (if sys_dlist_is_empty h l then Some (sys_dlist_append h l n, s)
      else (case insert_point h l cond (sys_dlist_peek_head h l) s of
              None \<Rightarrow> None
            | Some (pos, s') \<Rightarrow> Some (sys_dlist_insert_before h l pos n, s')))"

definition sys_dlist_remove :: "dheap \<Rightarrow> addr \<Rightarrow> dheap" where
  "sys_dlist_remove h n =
     (let h1 = set_next h (dprev h n) (dnext h n)
      in set_prev h1 (dnext h1 n) (dprev h1 n))"

definition sys_dlist_get :: "dheap \<Rightarrow> addr \<Rightarrow> addr \<times> dheap" where
  "sys_dlist_get h l =
     (if sys_dlist_is_empty h l then (NULL, h)
      else let n = dnext h l in (n, sys_dlist_remove h n))"

section \<open>Well-formed lists\<close>

text \<open>
  \<open>dseg h a xs b\<close>: following \<open>dnext\<close> from \<open>a\<close> visits exactly \<open>xs\<close> and then \<open>b\<close>, and every
  link has its \<open>dprev\<close> counterpart.  A list is a segment from its header back to itself.
\<close>

primrec dseg :: "dheap \<Rightarrow> addr \<Rightarrow> addr list \<Rightarrow> addr \<Rightarrow> bool" where
  "dseg h a [] b \<longleftrightarrow> dnext h a = b \<and> dprev h b = a"
| "dseg h a (x # xs) b \<longleftrightarrow> dnext h a = x \<and> dprev h x = a \<and> dseg h x xs b"

definition dlist :: "dheap \<Rightarrow> addr \<Rightarrow> addr list \<Rightarrow> bool" where
  "dlist h l xs \<longleftrightarrow> NULL \<notin> set (l # xs) \<and> distinct (l # xs) \<and> dseg h l xs l"

lemma heap_simps [simp]:
  "dnext (set_next h p v) = (dnext h)(p := v)" "dprev (set_next h p v) = dprev h"
  "dnext (set_prev h p v) = dnext h" "dprev (set_prev h p v) = (dprev h)(p := v)"
  by (simp_all add: set_next_def set_prev_def)

lemma dseg_append [simp]:
  "dseg h a (xs @ x # ys) b \<longleftrightarrow> dseg h a xs x \<and> dseg h x ys b"
  by (induction xs arbitrary: a) auto

text \<open>A segment only depends on the \<open>dnext\<close> of its sources and the \<open>dprev\<close> of its targets.\<close>

lemma dseg_cong:
  assumes "\<And>p. p \<in> insert a (set xs) \<Longrightarrow> dnext h' p = dnext h p"
    and "\<And>p. p \<in> insert b (set xs) \<Longrightarrow> dprev h' p = dprev h p"
  shows "dseg h' a xs b = dseg h a xs b"
  using assms by (induction xs arbitrary: a) auto

lemma dlist_Nil [simp]: "dlist h l [] \<longleftrightarrow> l \<noteq> NULL \<and> dnext h l = l \<and> dprev h l = l"
  by (auto simp: dlist_def)

lemma dlist_frame:
  assumes "\<And>p. p \<in> insert l (set xs) \<Longrightarrow> dnext h' p = dnext h p \<and> dprev h' p = dprev h p"
  shows "dlist h' l xs = dlist h l xs"
  unfolding dlist_def using dseg_cong[of l xs h' h l] assms by auto

lemma dlist_first: "dlist h l xs \<Longrightarrow> dnext h l = hd (xs @ [l])"
  by (cases xs) (auto simp: dlist_def)

lemma dlist_last: "dlist h l xs \<Longrightarrow> dprev h l = last (l # xs)"
  by (cases xs rule: rev_cases) (auto simp: dlist_def)

lemma is_empty_iff: "dlist h l xs \<Longrightarrow> sys_dlist_is_empty h l \<longleftrightarrow> xs = []"
  by (cases xs) (auto simp: dlist_def sys_dlist_is_empty_def)

lemma peek_head_eq:
  "dlist h l xs \<Longrightarrow> sys_dlist_peek_head h l = (case xs of [] \<Rightarrow> NULL | x # _ \<Rightarrow> x)"
  using is_empty_iff[of h l xs] dlist_first[of h l xs]
  by (cases xs) (auto simp: sys_dlist_peek_head_def)

lemma dseg_next: "dseg h a (xs @ x # ys) b \<Longrightarrow> dnext h x = hd (ys @ [b])"
  by (cases ys) auto

lemma peek_next_eq:
  assumes "dlist h l (us @ x # vs)"
  shows "sys_dlist_peek_next h l x = (case vs of [] \<Rightarrow> NULL | y # _ \<Rightarrow> y)"
proof -
  have tail: "dprev h l = last (x # vs)" using dlist_last[OF assms] by simp
  have x: "x \<noteq> NULL" "dseg h l (us @ x # vs) l" "distinct (us @ x # vs)"
    using assms by (auto simp: dlist_def)
  show ?thesis
  proof (cases vs)
    case Nil
    with tail show ?thesis by (simp add: sys_dlist_peek_next_def)
  next
    case (Cons y ys)
    have "x \<noteq> last (x # vs)" using x(3) Cons by auto
    moreover have "dnext h x = y" using x(2) Cons by simp
    ultimately show ?thesis using tail x(1) Cons by (simp add: sys_dlist_peek_next_def)
  qed
qed

lemma init_dlist: "l \<noteq> NULL \<Longrightarrow> dlist (sys_dlist_init h l) l []"
  by (simp add: sys_dlist_init_def)

text \<open>Linking a fresh node between two neighbours of a segment.\<close>

lemma link_between:
  assumes d: "dlist h l (us @ vs)" and n: "n \<noteq> NULL" "n \<notin> insert l (set (us @ vs))"
    and a: "a = last (l # us)" and b: "b = hd (vs @ [l])"
    and nx: "dnext h' = (dnext h)(n := b, a := n)" and pv: "dprev h' = (dprev h)(n := a, b := n)"
  shows "dlist h' l (us @ n # vs)"
proof -
  have dist: "distinct (l # us @ vs)" and z: "NULL \<notin> set (l # us @ vs)"
    and s: "dseg h l (us @ vs) l"
    using d by (auto simp: dlist_def)
  have av: "a \<notin> set vs" "a \<noteq> n" using dist n last_in_set[of "l # us"] a by auto
  have left: "dseg h' l us n"
  proof (cases us rule: rev_cases)
    case Nil
    with a n nx pv show ?thesis by (cases vs) (auto simp: b)
  next
    case (snoc us' a')
    with a have [simp]: "a' = a" by simp
    have "dseg h l us' a" using s snoc by simp
    moreover have "dseg h' l us' a = dseg h l us' a"
      by (rule dseg_cong) (use dist n snoc nx pv b in \<open>auto simp: hd_append split: list.splits\<close>)
    ultimately show ?thesis using snoc n nx pv by (cases vs) (auto simp: b)
  qed
  have right: "dseg h' n vs l"
  proof (cases vs)
    case Nil
    with b n nx pv dist a show ?thesis by (auto split: if_splits)
  next
    case (Cons b' vs')
    with b have [simp]: "b' = b" by simp
    have "dseg h b vs' l" using s Cons by simp
    moreover have "dseg h' b vs' l = dseg h b vs' l"
      by (rule dseg_cong) (use dist n Cons nx pv av in auto)
    ultimately show ?thesis using Cons n nx pv dist av by auto
  qed
  show ?thesis using left right dist z n by (auto simp: dlist_def)
qed

text \<open>Unlinking a node from between its neighbours.\<close>

lemma unlink_between:
  assumes d: "dlist h l (us @ n # vs)"
    and nx: "dnext h' = (dnext h)(dprev h n := dnext h n)"
    and pv: "dprev h' = (dprev h)(dnext h n := dprev h n)"
  shows "dlist h' l (us @ vs)"
proof -
  have dist: "distinct (l # us @ n # vs)" and z: "NULL \<notin> set (l # us @ n # vs)"
    and s: "dseg h l us n" "dseg h n vs l"
    using d by (auto simp: dlist_def)
  show ?thesis
  proof (cases us rule: rev_cases)
    case Nil
    then have p: "dprev h n = l" using s by simp
    show ?thesis
    proof (cases vs)
      case Nil
      with \<open>us = []\<close> p s z nx pv dist show ?thesis by simp
    next
      case (Cons b vs')
      have "dseg h' b vs' l = dseg h b vs' l"
        by (rule dseg_cong) (use dist Cons nx pv p s in auto)
      with Cons \<open>us = []\<close> p s z nx pv dist show ?thesis by (auto simp: dlist_def)
    qed
  next
    case (snoc us' a)
    then have p: "dprev h n = a" using s by simp
    show ?thesis
    proof (cases vs)
      case Nil
      have "dseg h' l us' a = dseg h l us' a"
        by (rule dseg_cong) (use dist Nil snoc nx pv p s in auto)
      with Nil snoc p s z nx pv dist show ?thesis by (auto simp: dlist_def)
    next
      case (Cons b vs')
      have "dseg h' l us' a = dseg h l us' a"
        by (rule dseg_cong) (use dist Cons snoc nx pv p s in auto)
      moreover have "dseg h' b vs' l = dseg h b vs' l"
        by (rule dseg_cong) (use dist Cons snoc nx pv p s in auto)
      moreover have "dseg h l us' a" "dseg h b vs' l" "dnext h n = b" using s Cons snoc by auto
      ultimately have "dseg h' l us' a" "dseg h' b vs' l" "dnext h' a = b" "dprev h' b = a"
        using nx pv p by auto
      with Cons snoc z dist show ?thesis by (simp add: dlist_def)
    qed
  qed
qed

section \<open>Every routine refines its list operation\<close>

lemma append_dlist:
  assumes "dlist h l xs" "n \<noteq> NULL" "n \<notin> insert l (set xs)"
  shows "dlist (sys_dlist_append h l n) l (xs @ [n])"
  by (rule link_between[of h l xs "[]"])
    (use assms dlist_last[OF assms(1)] in \<open>auto simp: sys_dlist_append_def Let_def\<close>)

lemma prepend_dlist:
  assumes "dlist h l xs" "n \<noteq> NULL" "n \<notin> insert l (set xs)"
  shows "dlist (sys_dlist_prepend h l n) l (n # xs)"
proof -
  have "dlist (sys_dlist_prepend h l n) l ([] @ n # xs)"
    by (rule link_between)
      (use assms dlist_first[OF assms(1)] in \<open>auto simp: sys_dlist_prepend_def Let_def\<close>)
  then show ?thesis by simp
qed

lemma insert_before_dlist:
  assumes "dlist h l (us @ p # vs)" "n \<noteq> NULL" "n \<notin> insert l (set (us @ p # vs))"
  shows "dlist (sys_dlist_insert_before h l p n) l (us @ n # p # vs)"
proof -
  have p: "p \<noteq> NULL" and s: "dseg h l us p" and "p \<noteq> n"
    using assms by (auto simp: dlist_def)
  have "dprev h p = last (l # us)"
    using s by (cases us rule: rev_cases) auto
  then show ?thesis
    by (intro link_between[OF assms(1,2,3)])
      (use assms p \<open>p \<noteq> n\<close> in \<open>auto simp: sys_dlist_insert_before_def Let_def\<close>)
qed

lemma insert_after_dlist:
  assumes "dlist h l (us @ p # vs)" "n \<noteq> NULL" "n \<notin> insert l (set (us @ p # vs))"
  shows "dlist (sys_dlist_insert_after h l p n) l (us @ p # n # vs)"
proof -
  have d: "dlist h l ((us @ [p]) @ vs)" and n: "n \<notin> insert l (set ((us @ [p]) @ vs))"
    using assms by auto
  have p: "p \<noteq> NULL" "dseg h p vs l" "p \<noteq> n"
    using assms by (auto simp: dlist_def)
  have "dnext h p = hd (vs @ [l])" using p(2) by (cases vs) auto
  then have "dlist (sys_dlist_insert_after h l p n) l ((us @ [p]) @ n # vs)"
    by (intro link_between[OF d assms(2) n])
      (use p in \<open>auto simp: sys_dlist_insert_after_def Let_def\<close>)
  then show ?thesis by simp
qed

lemma remove_dlist:
  assumes "dlist h l xs" "n \<in> set xs"
  shows "dlist (sys_dlist_remove h n) l (remove1 n xs)"
proof -
  obtain us vs where xs: "xs = us @ n # vs" "n \<notin> set us"
    using assms(2) by (meson split_list_first)
  have "dseg h l us n" "dseg h n vs l" "distinct (l # us @ n # vs)"
    using assms(1) xs by (auto simp: dlist_def)
  then have "dprev h n \<noteq> n"
    by (cases us rule: rev_cases) auto
  then have "dlist (sys_dlist_remove h n) l (us @ vs)"
    using assms(1) xs by (intro unlink_between[of h l us n vs])
      (auto simp: sys_dlist_remove_def Let_def)
  with xs show ?thesis by simp
qed

lemma get_dlist:
  assumes "dlist h l xs"
  shows "case sys_dlist_get h l of (n, h') \<Rightarrow>
           (case xs of [] \<Rightarrow> n = NULL \<and> h' = h | x # xs' \<Rightarrow> n = x \<and> dlist h' l xs')"
proof (cases xs)
  case Nil
  with is_empty_iff[OF assms] show ?thesis by (simp add: sys_dlist_get_def)
next
  case (Cons x xs')
  have "dnext h l = x" using dlist_first[OF assms] Cons by simp
  moreover have "dlist (sys_dlist_remove h x) l xs'"
    using remove_dlist[OF assms, of x] Cons by simp
  ultimately show ?thesis
    using is_empty_iff[OF assms] Cons by (simp add: sys_dlist_get_def)
qed

text \<open>
  The search loop ends on every well-formed list, and the position it finds is where the
  list-level insertion puts the node.
\<close>

lemma insert_point_ends:
  assumes "dlist h l (us @ vs)"
  shows "\<exists>ws zs s'. vs = ws @ zs \<and>
           insert_point h l cond (case vs of [] \<Rightarrow> NULL | x # _ \<Rightarrow> x) s =
             Some (case zs of [] \<Rightarrow> NULL | x # _ \<Rightarrow> x, s') \<and>
           list_insert_at cond s n vs = (ws @ n # zs, s')"
  using assms
proof (induction vs arbitrary: us s)
  case Nil
  then show ?case by (subst insert_point.simps) simp
next
  case (Cons x vs)
  obtain b s' where c: "cond s x = (b, s')" by force
  have x: "x \<noteq> NULL" using Cons.prems by (auto simp: dlist_def)
  show ?case
  proof (cases b)
    case True
    with c x show ?thesis
      by (intro exI[of _ "[]"] exI[of _ "x # vs"] exI[of _ s'])
        (simp add: insert_point.simps[of h l cond x s])
  next
    case False
    have "dlist h l ((us @ [x]) @ vs)" using Cons.prems by simp
    from Cons.IH[OF this, of s'] obtain ws zs s'' where
      ih: "vs = ws @ zs"
        "insert_point h l cond (case vs of [] \<Rightarrow> NULL | x # _ \<Rightarrow> x) s' =
           Some (case zs of [] \<Rightarrow> NULL | x # _ \<Rightarrow> x, s'')"
        "list_insert_at cond s' n vs = (ws @ n # zs, s'')" by blast
    have "sys_dlist_peek_next h l x = (case vs of [] \<Rightarrow> NULL | y # _ \<Rightarrow> y)"
      by (rule peek_next_eq[OF Cons.prems])
    with ih c x False show ?thesis
      by (intro exI[of _ "x # ws"] exI[of _ zs] exI[of _ s''])
        (simp add: insert_point.simps[of h l cond x s])
  qed
qed

lemma insert_at_dlist:
  assumes "dlist h l xs" "n \<noteq> NULL" "n \<notin> insert l (set xs)"
  shows "\<exists>h' s'. sys_dlist_insert_at h l n cond s = Some (h', s') \<and>
           dlist h' l (fst (list_insert_at cond s n xs)) \<and>
           s' = snd (list_insert_at cond s n xs)"
proof (cases xs)
  case Nil
  with append_dlist[OF assms] is_empty_iff[OF assms(1)] show ?thesis
    by (simp add: sys_dlist_insert_at_def)
next
  case (Cons x xs')
  have d: "dlist h l ([] @ xs)" using assms(1) by simp
  obtain ws zs s' where f: "xs = ws @ zs"
    "insert_point h l cond (case xs of [] \<Rightarrow> NULL | x # _ \<Rightarrow> x) s =
       Some (case zs of [] \<Rightarrow> NULL | x # _ \<Rightarrow> x, s')"
    "list_insert_at cond s n xs = (ws @ n # zs, s')"
    using insert_point_ends[OF d, of cond s n] by blast
  have res: "sys_dlist_insert_at h l n cond s =
      Some (sys_dlist_insert_before h l (case zs of [] \<Rightarrow> NULL | x # _ \<Rightarrow> x) n, s')"
    using f(2) is_empty_iff[OF assms(1)] peek_head_eq[OF assms(1)] Cons
    by (simp add: sys_dlist_insert_at_def)
  have "dlist (sys_dlist_insert_before h l (case zs of [] \<Rightarrow> NULL | x # _ \<Rightarrow> x) n) l (ws @ n # zs)"
  proof (cases zs)
    case Nil
    with append_dlist[OF assms] f(1) show ?thesis by (simp add: sys_dlist_insert_before_def)
  next
    case (Cons z zs')
    with insert_before_dlist[of h l ws z zs' n] assms f(1) show ?thesis by simp
  qed
  with res f(3) show ?thesis by simp
qed

section \<open>The interface the kernel's queues rely on\<close>

text \<open>
  What a client of the intrusive lists may assume: a node belongs to one list at a time,
  appending, removing and taking the head act on the contents as expected, and a list that
  shares no node with the one operated on keeps its contents.
\<close>

locale intrusive_list =
  fixes repr :: "'h \<Rightarrow> addr \<Rightarrow> addr list \<Rightarrow> bool"
    and app :: "'h \<Rightarrow> addr \<Rightarrow> addr \<Rightarrow> 'h"
    and rem :: "'h \<Rightarrow> addr \<Rightarrow> 'h"
    and get :: "'h \<Rightarrow> addr \<Rightarrow> addr \<times> 'h"
  assumes repr_distinct: "repr h l xs \<Longrightarrow> NULL \<notin> set (l # xs) \<and> distinct (l # xs)"
    and app_repr: "repr h l xs \<Longrightarrow> n \<noteq> NULL \<Longrightarrow> n \<notin> insert l (set xs) \<Longrightarrow>
      repr (app h l n) l (xs @ [n])"
    and app_frame: "repr h l xs \<Longrightarrow> repr h m ys \<Longrightarrow> n \<notin> insert l (set xs) \<Longrightarrow>
      insert n (insert l (set xs)) \<inter> insert m (set ys) = {} \<Longrightarrow> repr (app h l n) m ys"
    and rem_repr: "repr h l xs \<Longrightarrow> n \<in> set xs \<Longrightarrow> repr (rem h n) l (remove1 n xs)"
    and rem_frame: "repr h l xs \<Longrightarrow> repr h m ys \<Longrightarrow> n \<in> set xs \<Longrightarrow>
      insert l (set xs) \<inter> insert m (set ys) = {} \<Longrightarrow> repr (rem h n) m ys"
    and get_repr: "repr h l (x # xs) \<Longrightarrow> get h l = (x, rem h x)"
    and get_empty: "repr h l [] \<Longrightarrow> get h l = (NULL, h)"
begin

text \<open>Taking the head of one queue and appending it to another, as waking a thread does.\<close>

lemma transfer_head:
  assumes l: "repr h l (x # xs)" and m: "repr h m ys"
    and disj: "insert l (set (x # xs)) \<inter> insert m (set ys) = {}"
  shows "case get h l of (n, h') \<Rightarrow>
           n = x \<and> repr (app h' m n) l xs \<and> repr (app h' m n) m (ys @ [x])"
proof -
  have d: "x \<noteq> NULL" "x \<notin> insert l (set xs)" using repr_distinct[OF l] by auto
  have h1: "repr (rem h x) l xs" using rem_repr[OF l, of x] by simp
  have h2: "repr (rem h x) m ys" using rem_frame[OF l m, of x] disj by simp
  have "repr (app (rem h x) m x) m (ys @ [x])"
    using app_repr[OF h2] d disj by auto
  moreover have "repr (app (rem h x) m x) l xs"
    using app_frame[OF h2 h1, of x] d disj by auto
  ultimately show ?thesis using get_repr[OF l] by simp
qed

text \<open>Moving a node to the end of its own queue, as a yield does.\<close>

lemma rotate_node:
  assumes l: "repr h l xs" and x: "x \<in> set xs"
  shows "repr (app (rem h x) l x) l (remove1 x xs @ [x])"
proof -
  have d: "distinct xs" "x \<noteq> l" using repr_distinct[OF l] x by auto
  have z: "x \<noteq> NULL" using repr_distinct[OF l] x by (metis list.set_intros(2))
  have "x \<notin> insert l (set (remove1 x xs))" using d by simp
  then show ?thesis using app_repr[OF rem_repr[OF l x]] z by simp
qed

text \<open>A run of appends followed by a drain hands the nodes back in order.\<close>

primrec app_all :: "'h \<Rightarrow> addr \<Rightarrow> addr list \<Rightarrow> 'h" where
  "app_all h l [] = h"
| "app_all h l (n # ns) = app_all (app h l n) l ns"

primrec drain :: "nat \<Rightarrow> 'h \<Rightarrow> addr \<Rightarrow> addr list \<times> 'h" where
  "drain 0 h l = ([], h)"
| "drain (Suc k) h l =
     (case get h l of (n, h') \<Rightarrow> (case drain k h' l of (ns, h'') \<Rightarrow> (n # ns, h'')))"

lemma app_all_repr:
  assumes "repr h l xs" "distinct ns" "NULL \<notin> set ns" "set ns \<inter> insert l (set xs) = {}"
  shows "repr (app_all h l ns) l (xs @ ns)"
  using assms
proof (induction ns arbitrary: h xs)
  case (Cons n ns)
  from Cons.prems have "repr (app h l n) l (xs @ [n])" by (intro app_repr) auto
  from Cons.IH[OF this] Cons.prems show ?case by auto
qed simp

lemma drain_repr:
  "repr h l xs \<Longrightarrow> \<exists>h'. drain (length xs) h l = (xs, h') \<and> repr h' l []"
proof (induction xs arbitrary: h)
  case (Cons x xs)
  have "repr (rem h x) l xs" using rem_repr[OF Cons.prems, of x] by simp
  from Cons.IH[OF this] get_repr[OF Cons.prems] show ?case by auto
qed simp

lemma append_drain_order:
  assumes "repr h l []" "distinct ns" "NULL \<notin> set ns" "l \<notin> set ns"
  shows "\<exists>h'. drain (length ns) (app_all h l ns) l = (ns, h') \<and> repr h' l []"
  using drain_repr[OF app_all_repr[of h l "[]" ns]] assms by simp

end

lemma append_frame:
  assumes "dlist h l xs" "p \<notin> insert n (insert l (set xs))"
  shows "dnext (sys_dlist_append h l n) p = dnext h p \<and>
         dprev (sys_dlist_append h l n) p = dprev h p"
proof -
  have "dprev h l \<in> set (l # xs)" using dlist_last[OF assms(1)] last_in_set by force
  then show ?thesis using assms(2) by (auto simp: sys_dlist_append_def Let_def)
qed

lemma neighbours_in_list:
  assumes "dlist h l xs" "n \<in> set xs"
  shows "dnext h n \<in> insert l (set xs) \<and> dprev h n \<in> insert l (set xs)"
proof -
  obtain us vs where xs: "xs = us @ n # vs" using assms(2) by (meson split_list)
  then have "dseg h l us n" "dseg h n vs l" using assms(1) by (auto simp: dlist_def)
  then have "dprev h n = last (l # us)" "dnext h n = hd (vs @ [l])"
    by (cases us rule: rev_cases, auto) (cases vs, auto)
  with xs show ?thesis by (cases us rule: rev_cases; cases vs) auto
qed

lemma remove_frame:
  assumes "dlist h l xs" "n \<in> set xs" "p \<notin> insert l (set xs)"
  shows "dnext (sys_dlist_remove h n) p = dnext h p \<and>
         dprev (sys_dlist_remove h n) p = dprev h p"
  using neighbours_in_list[OF assms(1,2)] assms(2,3)
  by (auto simp: sys_dlist_remove_def Let_def)

interpretation sys_dlist: intrusive_list dlist sys_dlist_append sys_dlist_remove sys_dlist_get
proof unfold_locales
  fix h l xs m ys n
  assume d: "dlist h l xs" "dlist h m ys" and n: "n \<notin> insert l (set xs)"
    and disj: "insert n (insert l (set xs)) \<inter> insert m (set ys) = {}"
  have "dlist (sys_dlist_append h l n) m ys = dlist h m ys"
    by (rule dlist_frame) (use append_frame[OF d(1), of _ n] disj in blast)
  with d(2) show "dlist (sys_dlist_append h l n) m ys" by simp
next
  fix h l xs m ys n
  assume d: "dlist h l xs" "dlist h m ys" and n: "n \<in> set xs"
    and disj: "insert l (set xs) \<inter> insert m (set ys) = {}"
  have "dlist (sys_dlist_remove h n) m ys = dlist h m ys"
    by (rule dlist_frame) (use remove_frame[OF d(1) n] disj in blast)
  with d(2) show "dlist (sys_dlist_remove h n) m ys" by simp
next
  fix h l x xs
  assume "dlist h l (x # xs)"
  then show "sys_dlist_get h l = (x, sys_dlist_remove h x)"
    using dlist_first[of h l "x # xs"] is_empty_iff[of h l "x # xs"]
    by (simp add: sys_dlist_get_def)
qed (use append_dlist remove_dlist in
    \<open>auto simp: dlist_def sys_dlist_get_def sys_dlist_is_empty_def\<close>)

end
