(* ===== verification/Kernel_State.thy ===== *)
theory Kernel_State
  imports Zephyr_Prelude
begin

text \<open>
  The data of the unified kernel (\<^verbatim>\<open>kernel/unified/include/kernel_structs.h\<close>,
  \<^verbatim>\<open>include/kernel.h\<close>) and the one-line helpers of \<^verbatim>\<open>kernel/unified/include/ksched.h\<close>:
  priorities, thread flags, and the arithmetic of the ready-queue bitmap.

  Every list a thread can be on uses the one node \<^verbatim>\<open>thread->base.k_q_node\<close>, so ready queues
  and wait queues are one family \<open>queues\<close> indexed by \<open>qid\<close>.  \<^verbatim>\<open>sys_dlist_remove\<close> names no
  list: it takes the node off whichever list holds it, and so does the model.
\<close>

section \<open>Configuration\<close>

text \<open>
  Kconfig values and link-time constants the kernel is built with.  They never change at run
  time, so every routine takes them as its first argument.
\<close>

record kconfig =
  NUM_COOP_PRIORITIES :: nat
  NUM_PREEMPT_PRIORITIES :: nat
  PRIORITY_CEILING :: int
  idle_thread :: tid
  sys_clock_ticks_per_sec :: int

definition K_NUM_PRIORITIES :: "kconfig \<Rightarrow> nat" where
  "K_NUM_PRIORITIES c = NUM_COOP_PRIORITIES c + NUM_PREEMPT_PRIORITIES c + 1"

definition K_NUM_PRIO_BITMAPS :: "kconfig \<Rightarrow> nat" where
  "K_NUM_PRIO_BITMAPS c = drop_bit 5 (K_NUM_PRIORITIES c + 31)"

definition K_NO_WAIT :: int where "K_NO_WAIT = 0"
definition K_FOREVER :: int where "K_FOREVER = -1"
definition TICK_ALIGN :: int where "TICK_ALIGN = 1"

text \<open>The errno values the kernel returns (negated), \<^verbatim>\<open>lib/libc/minimal/include/errno.h\<close>.\<close>

definition EIO :: int where "EIO = 5"
definition EAGAIN :: int where "EAGAIN = 11"
definition ENOMEM :: int where "ENOMEM = 12"
definition EBUSY :: int where "EBUSY = 16"
definition EINVAL :: int where "EINVAL = 22"
definition ENOMSG :: int where "ENOMSG = 80"
definition EADDRINUSE :: int where "EADDRINUSE = 48"
definition EINPROGRESS :: int where "EINPROGRESS = 68"
definition EMSGSIZE :: int where "EMSGSIZE = 36"

lemmas [const_defs] = K_NO_WAIT_def K_FOREVER_def TICK_ALIGN_def EIO_def EAGAIN_def ENOMEM_def
  EBUSY_def EINVAL_def ENOMSG_def EADDRINUSE_def EINPROGRESS_def EMSGSIZE_def

section \<open>Records\<close>

text \<open>
  The objects that embed a \<^verbatim>\<open>struct _timeout\<close>: a thread, a timer, a delayed work item.  The
  constructor plays the part of \<^verbatim>\<open>CONTAINER_OF\<close>.
\<close>

datatype toid = ThreadTO tid | TimerTO addr | WorkTO addr

datatype timeout_func = NoFunc | TimerExpirationHandler | WorkTimeout

record timeout =
  to_thread :: tid
  to_wait_q :: wqid
  delta_ticks_from_prev :: int
  to_func :: timeout_func

record thread_base =
  flags :: u32
  prio :: int
  sched_locked :: u32
  swap_data :: nat
  swap_return_value :: int
  fn_abort :: addr
  init_data :: addr
  custom_data :: nat

datatype qid = ReadyQ nat | WaitQ wqid

record kernel =
  in_isr :: bool
  current :: tid
  cache :: tid
  prio_bmap :: "nat \<Rightarrow> u32"
  queues :: "qid \<Rightarrow> tid list"
  timeout_q :: "toid list"
  timeouts :: "toid \<Rightarrow> timeout"
  thread :: "tid \<Rightarrow> thread_base"

text \<open>Assignment to a field of a thread or of a timeout object.\<close>

definition upd_thread :: "('z kernel_scheme) \<Rightarrow> tid \<Rightarrow> (thread_base \<Rightarrow> thread_base) \<Rightarrow> 'z kernel_scheme" where
  "upd_thread k t f = k\<lparr>thread := (thread k)(t := f (thread k t))\<rparr>"

definition upd_timeout :: "('z kernel_scheme) \<Rightarrow> toid \<Rightarrow> (timeout \<Rightarrow> timeout) \<Rightarrow> 'z kernel_scheme" where
  "upd_timeout k x f = k\<lparr>timeouts := (timeouts k)(x := f (timeouts k x))\<rparr>"

definition upd_queue :: "('z kernel_scheme) \<Rightarrow> qid \<Rightarrow> (tid list \<Rightarrow> tid list) \<Rightarrow> 'z kernel_scheme" where
  "upd_queue k q f = k\<lparr>queues := (queues k)(q := f (queues k q))\<rparr>"

text \<open>\<^verbatim>\<open>sys_dlist_remove(&thread->base.k_q_node)\<close>.\<close>

definition unlink_node :: "('z kernel_scheme) \<Rightarrow> tid \<Rightarrow> 'z kernel_scheme" where
  "unlink_node k t = k\<lparr>queues := (\<lambda>q. remove1 t (queues k q))\<rparr>"

lemma upd_thread_simps [simp]:
  "in_isr (upd_thread k t f) = in_isr k" "current (upd_thread k t f) = current k"
  "cache (upd_thread k t f) = cache k" "prio_bmap (upd_thread k t f) = prio_bmap k"
  "queues (upd_thread k t f) = queues k" "timeout_q (upd_thread k t f) = timeout_q k"
  "timeouts (upd_thread k t f) = timeouts k"
  "thread (upd_thread k t f) = (thread k)(t := f (thread k t))"
  by (simp_all add: upd_thread_def)

lemma upd_timeout_simps [simp]:
  "in_isr (upd_timeout k x f) = in_isr k" "current (upd_timeout k x f) = current k"
  "cache (upd_timeout k x f) = cache k" "prio_bmap (upd_timeout k x f) = prio_bmap k"
  "queues (upd_timeout k x f) = queues k" "timeout_q (upd_timeout k x f) = timeout_q k"
  "timeouts (upd_timeout k x f) = (timeouts k)(x := f (timeouts k x))"
  "thread (upd_timeout k x f) = thread k"
  by (simp_all add: upd_timeout_def)

lemma upd_queue_simps [simp]:
  "in_isr (upd_queue k q g) = in_isr k" "current (upd_queue k q g) = current k"
  "cache (upd_queue k q g) = cache k" "prio_bmap (upd_queue k q g) = prio_bmap k"
  "queues (upd_queue k q g) = (queues k)(q := g (queues k q))"
  "timeout_q (upd_queue k q g) = timeout_q k"
  "timeouts (upd_queue k q g) = timeouts k" "thread (upd_queue k q g) = thread k"
  by (simp_all add: upd_queue_def)

lemma unlink_node_simps [simp]:
  "in_isr (unlink_node k t) = in_isr k" "current (unlink_node k t) = current k"
  "cache (unlink_node k t) = cache k" "prio_bmap (unlink_node k t) = prio_bmap k"
  "queues (unlink_node k t) = (\<lambda>q. remove1 t (queues k q))"
  "timeout_q (unlink_node k t) = timeout_q k"
  "timeouts (unlink_node k t) = timeouts k" "thread (unlink_node k t) = thread k"
  by (simp_all add: unlink_node_def)

section \<open>Priorities\<close>

definition is_prio_higher :: "int \<Rightarrow> int \<Rightarrow> bool" where
  "is_prio_higher prio1 prio2 \<longleftrightarrow> prio1 < prio2"

definition is_prio_higher_or_equal :: "int \<Rightarrow> int \<Rightarrow> bool" where
  "is_prio_higher_or_equal prio1 prio2 \<longleftrightarrow> prio1 \<le> prio2"

definition is_prio_lower :: "int \<Rightarrow> int \<Rightarrow> bool" where
  "is_prio_lower prio1 prio2 \<longleftrightarrow> prio1 > prio2"

definition is_prio_lower_or_equal :: "int \<Rightarrow> int \<Rightarrow> bool" where
  "is_prio_lower_or_equal prio1 prio2 \<longleftrightarrow> prio1 \<ge> prio2"

definition is_t1_higher_prio_than_t2 :: "'z kernel_scheme \<Rightarrow> tid \<Rightarrow> tid \<Rightarrow> bool" where
  "is_t1_higher_prio_than_t2 k t1 t2 \<longleftrightarrow> is_prio_higher (prio (thread k t1)) (prio (thread k t2))"

definition is_higher_prio_than_current :: "'z kernel_scheme \<Rightarrow> tid \<Rightarrow> bool" where
  "is_higher_prio_than_current k t \<longleftrightarrow> is_t1_higher_prio_than_t2 k t (current k)"

definition is_coop :: "'z kernel_scheme \<Rightarrow> tid \<Rightarrow> bool" where
  "is_coop k t \<longleftrightarrow> prio (thread k t) < 0"

definition is_preempt :: "'z kernel_scheme \<Rightarrow> tid \<Rightarrow> bool" where
  "is_preempt k t \<longleftrightarrow> \<not> is_coop k t \<and> sched_locked (thread k t) = 0"

definition is_current_execution_context_preemptible :: "'z kernel_scheme \<Rightarrow> bool" where
  "is_current_execution_context_preemptible k \<longleftrightarrow> \<not> in_isr k \<and> is_preempt k (current k)"

definition is_under_prio_ceiling :: "kconfig \<Rightarrow> int \<Rightarrow> bool" where
  "is_under_prio_ceiling c p \<longleftrightarrow> p \<ge> PRIORITY_CEILING c"

definition get_new_prio_with_ceiling :: "kconfig \<Rightarrow> int \<Rightarrow> int" where
  "get_new_prio_with_ceiling c p = (if is_under_prio_ceiling c p then p else PRIORITY_CEILING c)"

text \<open>Index and bit of a priority in the bitmap, and its index in the array of queues.\<close>

definition get_ready_q_prio_bmap_index :: "kconfig \<Rightarrow> int \<Rightarrow> nat" where
  "get_ready_q_prio_bmap_index c p = nat (drop_bit 5 (p + int (NUM_COOP_PRIORITIES c)))"

definition get_ready_q_prio_bit :: "kconfig \<Rightarrow> int \<Rightarrow> u32" where
  "get_ready_q_prio_bit c p = push_bit (nat ((p + int (NUM_COOP_PRIORITIES c)) AND 0x1f)) 1"

definition get_ready_q_q_index :: "kconfig \<Rightarrow> int \<Rightarrow> nat" where
  "get_ready_q_q_index c p = nat (p + int (NUM_COOP_PRIORITIES c))"

text \<open>\<^verbatim>\<open>find_lsb_set\<close>: one more than the index of the least significant set bit, 0 for 0.\<close>

definition find_lsb_set :: "u32 \<Rightarrow> nat" where
  "find_lsb_set w = (case filter (bit w) [0..<32] of [] \<Rightarrow> 0 | i # _ \<Rightarrow> Suc i)"

text \<open>
  The search of \<^verbatim>\<open>_get_highest_ready_prio\<close> for a non-empty bitmap word.  The C loop has no exit
  but a hit; its assertion says the index stays below the number of words, which is where the
  recursion stops.
\<close>

function find_bitmap :: "kconfig \<Rightarrow> (nat \<Rightarrow> u32) \<Rightarrow> nat \<Rightarrow> nat" where
  "find_bitmap c bm bitmap =
     (if bitmap \<ge> K_NUM_PRIO_BITMAPS c then bitmap
      else if bm bitmap \<noteq> 0 then bitmap else find_bitmap c bm (Suc bitmap))"
  by pat_completeness auto
termination by (relation "measure (\<lambda>(c, bm, b). K_NUM_PRIO_BITMAPS c - b)") auto

declare find_bitmap.simps [simp del]

definition get_highest_ready_prio :: "kconfig \<Rightarrow> 'z kernel_scheme \<Rightarrow> int" where
  "get_highest_ready_prio c k =
     (let bitmap = (if K_NUM_PRIORITIES c \<le> 32 then 0 else find_bitmap c (prio_bmap k) 0);
          ready_range = prio_bmap k bitmap;
          abs_prio = (int (find_lsb_set ready_range) - 1) + int (push_bit 5 bitmap)
      in abs_prio - int (NUM_COOP_PRIORITIES c))"

section \<open>Thread flags\<close>

definition K_STATIC :: u32 where "K_STATIC = push_bit 8 1"
definition K_ESSENTIAL :: u32 where "K_ESSENTIAL = push_bit 9 1"
definition K_PENDING :: u32 where "K_PENDING = push_bit 13 1"
definition K_PRESTART :: u32 where "K_PRESTART = push_bit 14 1"
definition K_DEAD :: u32 where "K_DEAD = push_bit 15 1"
definition K_SUSPENDED :: u32 where "K_SUSPENDED = push_bit 16 1"
definition K_DUMMY :: u32 where "K_DUMMY = push_bit 17 1"

lemmas [flag_defs] = K_STATIC_def K_ESSENTIAL_def K_PENDING_def K_PRESTART_def K_DEAD_def
  K_SUSPENDED_def K_DUMMY_def

definition set_thread_states :: "'z kernel_scheme \<Rightarrow> tid \<Rightarrow> u32 \<Rightarrow> 'z kernel_scheme" where
  "set_thread_states k t states = upd_thread k t (\<lambda>th. th\<lparr>flags := flags th OR states\<rparr>)"

definition reset_thread_states :: "'z kernel_scheme \<Rightarrow> tid \<Rightarrow> u32 \<Rightarrow> 'z kernel_scheme" where
  "reset_thread_states k t states = upd_thread k t (\<lambda>th. th\<lparr>flags := flags th AND NOT states\<rparr>)"

definition mark_thread_as_suspended :: "'z kernel_scheme \<Rightarrow> tid \<Rightarrow> 'z kernel_scheme" where
  "mark_thread_as_suspended k t = upd_thread k t (\<lambda>th. th\<lparr>flags := flags th OR K_SUSPENDED\<rparr>)"

definition mark_thread_as_not_suspended :: "'z kernel_scheme \<Rightarrow> tid \<Rightarrow> 'z kernel_scheme" where
  "mark_thread_as_not_suspended k t =
     upd_thread k t (\<lambda>th. th\<lparr>flags := flags th AND NOT K_SUSPENDED\<rparr>)"

definition is_thread_timeout_active :: "'z kernel_scheme \<Rightarrow> tid \<Rightarrow> bool" where
  "is_thread_timeout_active k t \<longleftrightarrow> delta_ticks_from_prev (timeouts k (ThreadTO t)) \<noteq> -1"

definition has_thread_started :: "'z kernel_scheme \<Rightarrow> tid \<Rightarrow> bool" where
  "has_thread_started k t \<longleftrightarrow> flags (thread k t) AND K_PRESTART = 0"

definition is_thread_prevented_from_running :: "'z kernel_scheme \<Rightarrow> tid \<Rightarrow> bool" where
  "is_thread_prevented_from_running k t \<longleftrightarrow>
     flags (thread k t) AND (K_PENDING OR K_PRESTART OR K_DEAD OR K_DUMMY OR K_SUSPENDED) \<noteq> 0"

definition is_thread_ready :: "'z kernel_scheme \<Rightarrow> tid \<Rightarrow> bool" where
  "is_thread_ready k t \<longleftrightarrow> \<not> (is_thread_prevented_from_running k t \<or> is_thread_timeout_active k t)"

definition mark_thread_as_pending :: "'z kernel_scheme \<Rightarrow> tid \<Rightarrow> 'z kernel_scheme" where
  "mark_thread_as_pending k t = upd_thread k t (\<lambda>th. th\<lparr>flags := flags th OR K_PENDING\<rparr>)"

definition mark_thread_as_not_pending :: "'z kernel_scheme \<Rightarrow> tid \<Rightarrow> 'z kernel_scheme" where
  "mark_thread_as_not_pending k t = upd_thread k t (\<lambda>th. th\<lparr>flags := flags th AND NOT K_PENDING\<rparr>)"

definition is_thread_pending :: "'z kernel_scheme \<Rightarrow> tid \<Rightarrow> bool" where
  "is_thread_pending k t \<longleftrightarrow> flags (thread k t) AND K_PENDING \<noteq> 0"

definition mark_thread_as_started :: "'z kernel_scheme \<Rightarrow> tid \<Rightarrow> 'z kernel_scheme" where
  "mark_thread_as_started k t = upd_thread k t (\<lambda>th. th\<lparr>flags := flags th AND NOT K_PRESTART\<rparr>)"

definition mark_thread_as_dead :: "'z kernel_scheme \<Rightarrow> tid \<Rightarrow> 'z kernel_scheme" where
  "mark_thread_as_dead k t = upd_thread k t (\<lambda>th. th\<lparr>flags := flags th OR K_DEAD\<rparr>)"

definition set_thread_return_value :: "'z kernel_scheme \<Rightarrow> tid \<Rightarrow> int \<Rightarrow> 'z kernel_scheme" where
  "set_thread_return_value k t v = upd_thread k t (\<lambda>th. th\<lparr>swap_return_value := v\<rparr>)"

definition set_thread_return_value_with_data ::
  "'z kernel_scheme \<Rightarrow> tid \<Rightarrow> int \<Rightarrow> nat \<Rightarrow> 'z kernel_scheme" where
  "set_thread_return_value_with_data k t v d =
     upd_thread (set_thread_return_value k t v) t (\<lambda>th. th\<lparr>swap_data := d\<rparr>)"

text \<open>What a flag test says, bit by bit.\<close>

lemma bit_exp_u32: "bit (push_bit n 1 :: u32) m \<longleftrightarrow> n < 32 \<and> m = n"
  by (auto simp: bit_exp_iff possible_bit_word)

lemma bit_flags:
  "bit K_ESSENTIAL n \<longleftrightarrow> n = 9" "bit K_PENDING n \<longleftrightarrow> n = 13" "bit K_PRESTART n \<longleftrightarrow> n = 14"
  "bit K_DEAD n \<longleftrightarrow> n = 15" "bit K_SUSPENDED n \<longleftrightarrow> n = 16" "bit K_DUMMY n \<longleftrightarrow> n = 17"
  unfolding flag_defs bit_exp_u32 by auto

lemma and_single_bit:
  fixes w m :: u32
  assumes "\<And>i. bit m i \<longleftrightarrow> i = n" "n < 32"
  shows "w AND m = 0 \<longleftrightarrow> \<not> bit w n"
  using assms by (auto simp: bit_eq_iff[of "w AND m" 0] bit_and_iff possible_bit_word)

lemma flag_tests:
  "w AND K_PENDING = 0 \<longleftrightarrow> \<not> bit w 13" "w AND K_PRESTART = 0 \<longleftrightarrow> \<not> bit w 14"
  "w AND K_DEAD = 0 \<longleftrightarrow> \<not> bit w 15" "w AND K_SUSPENDED = 0 \<longleftrightarrow> \<not> bit w 16"
  "w AND K_DUMMY = 0 \<longleftrightarrow> \<not> bit w 17" "w AND K_ESSENTIAL = 0 \<longleftrightarrow> \<not> bit w 9"
  by (rule and_single_bit; simp add: bit_flags)+

lemma pending_bit: "is_thread_pending k t \<longleftrightarrow> bit (flags (thread k t)) 13"
  by (simp add: is_thread_pending_def flag_tests)

lemma started_bit: "has_thread_started k t \<longleftrightarrow> \<not> bit (flags (thread k t)) 14"
  by (simp add: has_thread_started_def flag_tests)

lemma and_or_zero: "w AND (a OR b) = 0 \<longleftrightarrow> w AND a = 0 \<and> w AND b = 0" for w a b :: u32
  by (auto simp: bit_eq_iff bit_and_iff bit_or_iff)

abbreviation prevented :: "u32 \<Rightarrow> bool" where
  "prevented w \<equiv> bit w 13 \<or> bit w 14 \<or> bit w 15 \<or> bit w 16 \<or> bit w 17"

lemma prevented_bits:
  "is_thread_prevented_from_running k t \<longleftrightarrow> prevented (flags (thread k t))"
  by (auto simp: is_thread_prevented_from_running_def and_or_zero flag_tests)

lemma ready_bits:
  "is_thread_ready k t \<longleftrightarrow> \<not> prevented (flags (thread k t)) \<and>
     delta_ticks_from_prev (timeouts k (ThreadTO t)) = -1"
  by (simp add: is_thread_ready_def prevented_bits is_thread_timeout_active_def)

lemma bit_ops_flags:
  "bit (w OR K_PENDING) n \<longleftrightarrow> bit w n \<or> n = 13"
  "bit (w OR K_DEAD) n \<longleftrightarrow> bit w n \<or> n = 15"
  "bit (w OR K_SUSPENDED) n \<longleftrightarrow> bit w n \<or> n = 16"
  "bit (w AND NOT K_PENDING) n \<longleftrightarrow> bit w n \<and> n \<noteq> 13"
  "bit (w AND NOT K_PRESTART) n \<longleftrightarrow> bit w n \<and> n \<noteq> 14"
  "bit (w AND NOT K_SUSPENDED) n \<longleftrightarrow> bit w n \<and> n \<noteq> 16"
  by (auto simp: bit_or_iff bit_and_iff bit_not_iff bit_flags possible_bit_word
      dest: bit_imp_possible_bit)

lemmas [mark_defs] = set_thread_states_def reset_thread_states_def mark_thread_as_suspended_def
  mark_thread_as_not_suspended_def mark_thread_as_pending_def mark_thread_as_not_pending_def
  mark_thread_as_started_def mark_thread_as_dead_def set_thread_return_value_def
  set_thread_return_value_with_data_def

section \<open>The bitmap arithmetic\<close>

text \<open>A priority the configuration has: an index below \<^verbatim>\<open>K_NUM_PRIORITIES\<close>.\<close>

definition valid_prio :: "kconfig \<Rightarrow> int \<Rightarrow> bool" where
  "valid_prio c p \<longleftrightarrow> - int (NUM_COOP_PRIORITIES c) \<le> p \<and> p \<le> int (NUM_PREEMPT_PRIORITIES c)"

lemma q_index_lt: "valid_prio c p \<Longrightarrow> get_ready_q_q_index c p < K_NUM_PRIORITIES c"
  by (auto simp: valid_prio_def get_ready_q_q_index_def K_NUM_PRIORITIES_def)

lemma q_index_less_iff:
  "valid_prio c p \<Longrightarrow> valid_prio c r \<Longrightarrow>
     get_ready_q_q_index c p < get_ready_q_q_index c r \<longleftrightarrow> p < r"
  by (auto simp: valid_prio_def get_ready_q_q_index_def)

lemma q_index_inj:
  "valid_prio c p \<Longrightarrow> valid_prio c r \<Longrightarrow>
     get_ready_q_q_index c p = get_ready_q_q_index c r \<longleftrightarrow> p = r"
  by (auto simp: valid_prio_def get_ready_q_q_index_def)

lemma bmap_index_div:
  "valid_prio c p \<Longrightarrow> get_ready_q_prio_bmap_index c p = get_ready_q_q_index c p div 32"
  by (simp add: get_ready_q_prio_bmap_index_def get_ready_q_q_index_def drop_bit_eq_div
      valid_prio_def nat_div_distrib)

lemma and_mask5: "(x :: int) AND 31 = x mod 32"
  using take_bit_eq_mask[of 5 x] by (simp add: take_bit_eq_mod mask_eq_exp_minus_1)

lemma prio_bit_iff:
  assumes "valid_prio c p"
  shows "bit (get_ready_q_prio_bit c p) n \<longleftrightarrow> n = get_ready_q_q_index c p mod 32"
proof -
  have e: "nat ((p + int (NUM_COOP_PRIORITIES c)) AND 31) = get_ready_q_q_index c p mod 32"
    using assms by (simp add: and_mask5 get_ready_q_q_index_def nat_mod_distrib valid_prio_def)
  show ?thesis unfolding get_ready_q_prio_bit_def e bit_exp_u32 by auto
qed

lemma find_lsb_set_eq:
  assumes "bit w i" "\<And>j. j < i \<Longrightarrow> \<not> bit w j"
  shows "find_lsb_set w = Suc i"
proof -
  have i: "i < 32" using assms(1) bit_imp_le_length by fastforce
  then have "[0..<32] = [0..<i] @ i # [Suc i..<32]"
    by (metis le_add_same_cancel1 less_imp_add_positive upt_add_eq_append upt_conv_Cons zero_le)
  moreover have "filter (bit w) [0..<i] = []" using assms(2) by (simp add: filter_empty_conv)
  ultimately show ?thesis using assms(1) by (simp add: find_lsb_set_def)
qed

lemma find_lsb_set_0 [simp]: "find_lsb_set 0 = 0"
  by (simp add: find_lsb_set_def)

lemma find_bitmap_eq:
  assumes "b \<le> i" "i < K_NUM_PRIO_BITMAPS c" "bm i \<noteq> 0" "\<And>j. j < i \<Longrightarrow> bm j = 0"
  shows "find_bitmap c bm b = i"
  using assms
proof (induction c bm b rule: find_bitmap.induct)
  case (1 c bm b)
  show ?case
  proof (cases "bm b = 0")
    case True
    then have "Suc b \<le> i" using "1.prems" by (metis Suc_leI le_neq_implies_less)
    then show ?thesis using "1" True by (subst find_bitmap.simps) auto
  next
    case False
    then have "b = i" using "1.prems" by (metis le_neq_implies_less)
    then show ?thesis using "1.prems" False by (subst find_bitmap.simps) auto
  qed
qed

text \<open>Is bit \<open>i\<close> of the bitmap array set?\<close>

definition ready_bit :: "'z kernel_scheme \<Rightarrow> nat \<Rightarrow> bool" where
  "ready_bit k i \<longleftrightarrow> bit (prio_bmap k (i div 32)) (i mod 32)"

text \<open>
  The heart of the bitmap scheduler: the search returns the lowest set bit of the whole array,
  for one bitmap word and for many.
\<close>

lemma highest_ready_prio_eq:
  assumes i: "i < K_NUM_PRIORITIES c" "ready_bit k i" and least: "\<And>j. j < i \<Longrightarrow> \<not> ready_bit k j"
  shows "get_highest_ready_prio c k = int i - int (NUM_COOP_PRIORITIES c)"
proof -
  let ?b = "i div 32" and ?w = "prio_bmap k (i div 32)"
  have low: "prio_bmap k j = 0" if "j < ?b" for j
  proof -
    have "\<not> bit (prio_bmap k j) m" if "m < 32" for m
      using least[of "32 * j + m"] \<open>j < ?b\<close> that by (simp add: ready_bit_def)
    then show ?thesis by (auto simp: bit_eq_iff possible_bit_word dest: bit_imp_possible_bit)
  qed
  have nz: "?w \<noteq> 0" using i(2) by (auto simp: ready_bit_def)
  have bm: "(if K_NUM_PRIORITIES c \<le> 32 then 0 else find_bitmap c (prio_bmap k) 0) = ?b"
  proof (cases "K_NUM_PRIORITIES c \<le> 32")
    case True
    with i(1) show ?thesis by simp
  next
    case False
    have "?b < K_NUM_PRIO_BITMAPS c" using i(1) by (simp add: K_NUM_PRIO_BITMAPS_def drop_bit_eq_div)
    then show ?thesis using False find_bitmap_eq[of 0 ?b c "prio_bmap k"] nz low by simp
  qed
  have lsb: "find_lsb_set ?w = Suc (i mod 32)"
  proof (rule find_lsb_set_eq)
    show "bit ?w (i mod 32)" using i(2) by (simp add: ready_bit_def)
    fix j assume j: "j < i mod 32"
    then have "32 * ?b + j < i" "(32 * ?b + j) div 32 = ?b" "(32 * ?b + j) mod 32 = j"
      by auto (metis add.commute add_less_cancel_left div_mult_mod_eq mult.commute)
    then show "\<not> bit ?w j" using least[of "32 * ?b + j"] by (simp add: ready_bit_def)
  qed
  have "int (find_lsb_set ?w) - 1 + int (push_bit 5 ?b) = int i"
    by (simp add: lsb push_bit_eq_mult flip: of_nat_add of_nat_mult)
  then show ?thesis by (simp only: get_highest_ready_prio_def Let_def bm)
qed

end
