(* ===== verification/Ready_Queue.thy ===== *)
theory Ready_Queue
  imports Kernel_State
begin

text \<open>
  The ready queue of \<^verbatim>\<open>kernel/unified/sched.c\<close>: one FIFO per priority, a bitmap of the non-empty
  ones, and a cache of the next thread.  Its contract is a single list ordered by priority and,
  within a priority, by arrival; adding, removing, rotating and picking the next thread are
  proved to be the corresponding operations on that list.
\<close>

section \<open>Operations\<close>

definition set_ready_q_prio_bit :: "kconfig \<Rightarrow> 'z kernel_scheme \<Rightarrow> int \<Rightarrow> 'z kernel_scheme" where
  "set_ready_q_prio_bit c k p =
     (let bmap_index = get_ready_q_prio_bmap_index c p
      in k\<lparr>prio_bmap := (prio_bmap k)(bmap_index :=
             prio_bmap k bmap_index OR get_ready_q_prio_bit c p)\<rparr>)"

definition clear_ready_q_prio_bit :: "kconfig \<Rightarrow> 'z kernel_scheme \<Rightarrow> int \<Rightarrow> 'z kernel_scheme" where
  "clear_ready_q_prio_bit c k p =
     (let bmap_index = get_ready_q_prio_bmap_index c p
      in k\<lparr>prio_bmap := (prio_bmap k)(bmap_index :=
             prio_bmap k bmap_index AND NOT (get_ready_q_prio_bit c p))\<rparr>)"

definition add_thread_to_ready_q :: "kconfig \<Rightarrow> 'z kernel_scheme \<Rightarrow> tid \<Rightarrow> 'z kernel_scheme" where
  "add_thread_to_ready_q c k t =
     (let q_index = get_ready_q_q_index c (prio (thread k t));
          k1 = set_ready_q_prio_bit c k (prio (thread k t));
          k2 = upd_queue k1 (ReadyQ q_index) (\<lambda>q. q @ [t])
      in k2\<lparr>cache := (if cache k2 \<noteq> NULL \<and>
                         is_prio_higher (prio (thread k2 t)) (prio (thread k2 (cache k2)))
                      then t else cache k2)\<rparr>)"

definition remove_thread_from_ready_q :: "kconfig \<Rightarrow> 'z kernel_scheme \<Rightarrow> tid \<Rightarrow> 'z kernel_scheme" where
  "remove_thread_from_ready_q c k t =
     (let q_index = get_ready_q_q_index c (prio (thread k t));
          k1 = unlink_node k t;
          k2 = (if queues k1 (ReadyQ q_index) = []
                then clear_ready_q_prio_bit c k1 (prio (thread k1 t)) else k1)
      in k2\<lparr>cache := (if cache k2 = t then NULL else cache k2)\<rparr>)"

definition move_thread_to_end_of_prio_q :: "kconfig \<Rightarrow> 'z kernel_scheme \<Rightarrow> tid \<Rightarrow> 'z kernel_scheme" where
  "move_thread_to_end_of_prio_q c k t =
     (let q_index = get_ready_q_q_index c (prio (thread k t));
          q = queues k (ReadyQ q_index)
      in if q \<noteq> [] \<and> last q = t then k
         else let k1 = unlink_node k t;
                  k2 = upd_queue k1 (ReadyQ q_index) (\<lambda>q. q @ [t])
              in k2\<lparr>cache := (if cache k2 = t then NULL else cache k2)\<rparr>)"

text \<open>
  \<^verbatim>\<open>__get_next_ready_thread\<close> (the slow path, which also fills the cache).  An assertion of the C
  code says the queue it reads is not empty; on an empty one the result here is the null
  pointer.
\<close>

definition get_next_ready_thread_slow :: "kconfig \<Rightarrow> 'z kernel_scheme \<Rightarrow> tid \<times> 'z kernel_scheme" where
  "get_next_ready_thread_slow c k =
     (let p = get_highest_ready_prio c k;
          q_index = get_ready_q_q_index c p;
          t = (case queues k (ReadyQ q_index) of [] \<Rightarrow> NULL | x # _ \<Rightarrow> x)
      in (t, k\<lparr>cache := t\<rparr>))"

definition get_next_ready_thread :: "kconfig \<Rightarrow> 'z kernel_scheme \<Rightarrow> tid \<times> 'z kernel_scheme" where
  "get_next_ready_thread c k =
     (if cache k \<noteq> NULL then (cache k, k) else get_next_ready_thread_slow c k)"

lemma prio_bit_simps [simp]:
  "in_isr (set_ready_q_prio_bit c k p) = in_isr k"
  "current (set_ready_q_prio_bit c k p) = current k"
  "cache (set_ready_q_prio_bit c k p) = cache k"
  "queues (set_ready_q_prio_bit c k p) = queues k"
  "timeout_q (set_ready_q_prio_bit c k p) = timeout_q k"
  "timeouts (set_ready_q_prio_bit c k p) = timeouts k"
  "thread (set_ready_q_prio_bit c k p) = thread k"
  "in_isr (clear_ready_q_prio_bit c k p) = in_isr k"
  "current (clear_ready_q_prio_bit c k p) = current k"
  "cache (clear_ready_q_prio_bit c k p) = cache k"
  "queues (clear_ready_q_prio_bit c k p) = queues k"
  "timeout_q (clear_ready_q_prio_bit c k p) = timeout_q k"
  "timeouts (clear_ready_q_prio_bit c k p) = timeouts k"
  "thread (clear_ready_q_prio_bit c k p) = thread k"
  by (simp_all add: set_ready_q_prio_bit_def clear_ready_q_prio_bit_def Let_def)

lemma ready_q_frame [simp]:
  "in_isr (add_thread_to_ready_q c k t) = in_isr k"
  "current (add_thread_to_ready_q c k t) = current k"
  "timeout_q (add_thread_to_ready_q c k t) = timeout_q k"
  "timeouts (add_thread_to_ready_q c k t) = timeouts k"
  "thread (add_thread_to_ready_q c k t) = thread k"
  "in_isr (remove_thread_from_ready_q c k t) = in_isr k"
  "current (remove_thread_from_ready_q c k t) = current k"
  "timeout_q (remove_thread_from_ready_q c k t) = timeout_q k"
  "timeouts (remove_thread_from_ready_q c k t) = timeouts k"
  "thread (remove_thread_from_ready_q c k t) = thread k"
  "in_isr (move_thread_to_end_of_prio_q c k t) = in_isr k"
  "current (move_thread_to_end_of_prio_q c k t) = current k"
  "timeout_q (move_thread_to_end_of_prio_q c k t) = timeout_q k"
  "timeouts (move_thread_to_end_of_prio_q c k t) = timeouts k"
  "thread (move_thread_to_end_of_prio_q c k t) = thread k"
  by (simp_all add: add_thread_to_ready_q_def remove_thread_from_ready_q_def
      move_thread_to_end_of_prio_q_def Let_def)

lemma next_frame [simp]:
  "in_isr (snd (get_next_ready_thread c k)) = in_isr k"
  "current (snd (get_next_ready_thread c k)) = current k"
  "timeout_q (snd (get_next_ready_thread c k)) = timeout_q k"
  "timeouts (snd (get_next_ready_thread c k)) = timeouts k"
  "thread (snd (get_next_ready_thread c k)) = thread k"
  "queues (snd (get_next_ready_thread c k)) = queues k"
  "prio_bmap (snd (get_next_ready_thread c k)) = prio_bmap k"
  by (simp_all add: get_next_ready_thread_def get_next_ready_thread_slow_def Let_def)

lemma queues_add: "queues (add_thread_to_ready_q c k t) =
   (queues k)(ReadyQ (get_ready_q_q_index c (prio (thread k t))) :=
      queues k (ReadyQ (get_ready_q_q_index c (prio (thread k t)))) @ [t])"
  by (simp add: add_thread_to_ready_q_def Let_def)

lemma queues_remove: "queues (remove_thread_from_ready_q c k t) = (\<lambda>q. remove1 t (queues k q))"
  by (simp add: remove_thread_from_ready_q_def Let_def)

section \<open>The invariant\<close>

text \<open>
  A thread's node is on at most one list; threads sit in the queue of their priority; the bitmap
  has exactly the bits of the non-empty queues; a non-null cache is the head of the first
  non-empty queue.
\<close>

definition queues_wf :: "'z kernel_scheme \<Rightarrow> bool" where
  "queues_wf k \<longleftrightarrow> (\<forall>q. distinct (queues k q) \<and> NULL \<notin> set (queues k q)) \<and>
     (\<forall>q r t. t \<in> set (queues k q) \<longrightarrow> t \<in> set (queues k r) \<longrightarrow> q = r)"

definition highest_q :: "'z kernel_scheme \<Rightarrow> nat \<Rightarrow> bool" where
  "highest_q k i \<longleftrightarrow> queues k (ReadyQ i) \<noteq> [] \<and> (\<forall>j<i. queues k (ReadyQ j) = [])"

definition rq_wf :: "kconfig \<Rightarrow> 'z kernel_scheme \<Rightarrow> bool" where
  "rq_wf c k \<longleftrightarrow>
     (\<forall>i t. t \<in> set (queues k (ReadyQ i)) \<longrightarrow>
        valid_prio c (prio (thread k t)) \<and> get_ready_q_q_index c (prio (thread k t)) = i) \<and>
     (\<forall>i<K_NUM_PRIORITIES c. ready_bit k i \<longleftrightarrow> queues k (ReadyQ i) \<noteq> []) \<and>
     (cache k \<noteq> NULL \<longrightarrow> (\<exists>i. highest_q k i \<and> hd (queues k (ReadyQ i)) = cache k))"

definition rq_inv :: "kconfig \<Rightarrow> 'z kernel_scheme \<Rightarrow> bool" where
  "rq_inv c k \<longleftrightarrow> queues_wf k \<and> rq_wf c k"

lemma highest_q_unique: "highest_q k i \<Longrightarrow> highest_q k j \<Longrightarrow> i = j"
  by (metis highest_q_def linorder_neqE_nat)

lemma queue_index_lt:
  "rq_wf c k \<Longrightarrow> queues k (ReadyQ i) \<noteq> [] \<Longrightarrow> i < K_NUM_PRIORITIES c"
  by (metis hd_in_set q_index_lt rq_wf_def)

lemma in_readyq_index:
  "rq_wf c k \<Longrightarrow> t \<in> set (queues k (ReadyQ i)) \<Longrightarrow>
     i = get_ready_q_q_index c (prio (thread k t))"
  by (auto simp: rq_wf_def)

lemma in_readyq_valid:
  "rq_wf c k \<Longrightarrow> t \<in> set (queues k (ReadyQ i)) \<Longrightarrow> valid_prio c (prio (thread k t))"
  by (auto simp: rq_wf_def)

lemma rq_wf_bit:
  "rq_wf c k \<Longrightarrow> i < K_NUM_PRIORITIES c \<Longrightarrow> ready_bit k i \<longleftrightarrow> queues k (ReadyQ i) \<noteq> []"
  by (auto simp: rq_wf_def)

lemma word_index_split: "i div 32 = j div 32 \<and> i mod 32 = j mod 32 \<longleftrightarrow> i = (j :: nat)"
  by (metis div_mult_mod_eq)

lemma ready_bit_set:
  assumes "valid_prio c p"
  shows "ready_bit (set_ready_q_prio_bit c k p) i \<longleftrightarrow> i = get_ready_q_q_index c p \<or> ready_bit k i"
  using assms word_index_split[of i "get_ready_q_q_index c p"]
  by (auto simp: ready_bit_def set_ready_q_prio_bit_def Let_def bmap_index_div bit_or_iff
      prio_bit_iff)

lemma ready_bit_clear:
  assumes "valid_prio c p"
  shows "ready_bit (clear_ready_q_prio_bit c k p) i \<longleftrightarrow> i \<noteq> get_ready_q_q_index c p \<and> ready_bit k i"
  using assms word_index_split[of i "get_ready_q_q_index c p"]
  by (auto simp: ready_bit_def clear_ready_q_prio_bit_def Let_def bmap_index_div bit_and_iff
      bit_not_iff prio_bit_iff dest: bit_imp_possible_bit)

lemma ready_bit_cong [simp]:
  "ready_bit (k\<lparr>cache := x\<rparr>) i = ready_bit k i"
  "ready_bit (upd_queue k q f) i = ready_bit k i"
  "ready_bit (unlink_node k t) i = ready_bit k i"
  by (simp_all add: ready_bit_def)

lemma queues_wf_unlink: "queues_wf k \<Longrightarrow> queues_wf (unlink_node k t)"
  unfolding queues_wf_def
  by (simp add: distinct_remove1) (metis set_remove1_subset subsetD)

lemma queues_wf_append:
  "queues_wf k \<Longrightarrow> t \<noteq> NULL \<Longrightarrow> (\<And>q. t \<notin> set (queues k q)) \<Longrightarrow>
     queues_wf (upd_queue k q (\<lambda>xs. xs @ [t]))"
  by (auto simp: queues_wf_def split: if_splits)

lemma unlinked: "queues_wf k \<Longrightarrow> t \<notin> set (remove1 t (queues k q))"
  by (simp add: queues_wf_def)

lemma add_cache:
  assumes wf: "rq_wf c k" and v: "valid_prio c (prio (thread k t))"
    and nz: "cache (add_thread_to_ready_q c k t) \<noteq> NULL"
  shows "\<exists>i. highest_q (add_thread_to_ready_q c k t) i \<and>
    hd (queues (add_thread_to_ready_q c k t) (ReadyQ i)) = cache (add_thread_to_ready_q c k t)"
proof -
  let ?i = "get_ready_q_q_index c (prio (thread k t))"
  have cz: "cache k \<noteq> NULL"
    using nz by (auto simp: add_thread_to_ready_q_def Let_def split: if_splits)
  then obtain h where h: "highest_q k h" "hd (queues k (ReadyQ h)) = cache k"
    using wf by (auto simp: rq_wf_def)
  have ch: "cache k \<in> set (queues k (ReadyQ h))" using h by (metis hd_in_set highest_q_def)
  then have hi: "valid_prio c (prio (thread k (cache k)))"
    "get_ready_q_q_index c (prio (thread k (cache k))) = h" using wf by (auto simp: rq_wf_def)
  have less: "is_prio_higher (prio (thread k t)) (prio (thread k (cache k))) \<longleftrightarrow> ?i < h"
    using q_index_less_iff[OF v hi(1)] hi(2) by (simp add: is_prio_higher_def)
  show ?thesis
  proof (cases "?i < h")
    case True
    then have "queues k (ReadyQ ?i) = []" using h by (auto simp: highest_q_def)
    with True h less cz show ?thesis
      by (intro exI[of _ ?i])
        (auto simp: highest_q_def queues_add add_thread_to_ready_q_def Let_def)
  next
    case False
    have "hd (queues k (ReadyQ h) @ [t]) = hd (queues k (ReadyQ h))"
      using h by (simp add: highest_q_def)
    with False h less cz show ?thesis
      by (intro exI[of _ h])
        (auto simp: highest_q_def queues_add add_thread_to_ready_q_def Let_def)
  qed
qed

lemma add_thread_inv:
  assumes inv: "rq_inv c k" and t: "t \<noteq> NULL" "\<And>q. t \<notin> set (queues k q)"
    and v: "valid_prio c (prio (thread k t))"
  shows "rq_inv c (add_thread_to_ready_q c k t)"
proof -
  let ?k = "add_thread_to_ready_q c k t"
  have wf: "queues_wf k" "rq_wf c k" using inv by (auto simp: rq_inv_def)
  have "queues_wf ?k"
    using wf(1) t unfolding queues_wf_def queues_add by (auto split: if_splits)
  moreover have "ready_bit ?k i \<longleftrightarrow> queues ?k (ReadyQ i) \<noteq> []" if "i < K_NUM_PRIORITIES c" for i
    using that wf(2) by (auto simp: rq_wf_def add_thread_to_ready_q_def Let_def
        ready_bit_set[OF v])
  ultimately show ?thesis
    using wf add_cache[OF wf(2) v] v
    by (auto simp: rq_inv_def rq_wf_def queues_add split: if_splits)
qed

lemma hd_remove1: "x \<noteq> hd xs \<Longrightarrow> xs \<noteq> [] \<Longrightarrow> hd (remove1 x xs) = hd xs \<and> remove1 x xs \<noteq> []"
  by (cases xs) auto

lemma remove_cache:
  assumes wf: "rq_wf c k" and nz: "cache k \<noteq> NULL" "cache k \<noteq> t"
  shows "\<exists>i. queues k (ReadyQ i) \<noteq> [] \<and> remove1 t (queues k (ReadyQ i)) \<noteq> [] \<and>
    (\<forall>j<i. queues k (ReadyQ j) = []) \<and>
    hd (remove1 t (queues k (ReadyQ i))) = cache k \<and> hd (queues k (ReadyQ i)) = cache k"
proof -
  obtain h where h: "highest_q k h" "hd (queues k (ReadyQ h)) = cache k"
    using nz wf by (auto simp: rq_wf_def)
  then show ?thesis using hd_remove1[of t "queues k (ReadyQ h)"] nz
    by (intro exI[of _ h]) (auto simp: highest_q_def)
qed

lemma remove_thread_inv:
  assumes inv: "rq_inv c k" and t: "t \<in> set (queues k (ReadyQ i))"
  shows "rq_inv c (remove_thread_from_ready_q c k t)"
proof -
  let ?k = "remove_thread_from_ready_q c k t" and ?i = "get_ready_q_q_index c (prio (thread k t))"
  have wf: "queues_wf k" "rq_wf c k" using inv by (auto simp: rq_inv_def)
  have v: "valid_prio c (prio (thread k t))" and i: "i = ?i" using t wf(2) by (auto simp: rq_wf_def)
  have "queues_wf ?k" using queues_wf_unlink[OF wf(1), of t] by (simp add: queues_wf_def queues_remove)
  moreover have "ready_bit ?k j \<longleftrightarrow> queues ?k (ReadyQ j) \<noteq> []" if "j < K_NUM_PRIORITIES c" for j
  proof -
    have "ready_bit ?k j \<longleftrightarrow> (j \<noteq> ?i \<or> remove1 t (queues k (ReadyQ ?i)) \<noteq> []) \<and> ready_bit k j"
      by (auto simp: remove_thread_from_ready_q_def Let_def ready_bit_clear[OF v])
    moreover have "remove1 t (queues k (ReadyQ j)) = queues k (ReadyQ j)" if "j \<noteq> ?i"
      using that in_readyq_index[OF wf(2), of t j] by (metis remove1_idem)
    moreover have "queues k (ReadyQ ?i) \<noteq> []" using t i by auto
    ultimately show ?thesis using rq_wf_bit[OF wf(2) that]
      by (cases "j = ?i") (auto simp: queues_remove)
  qed
  moreover have "\<exists>h. highest_q ?k h \<and> hd (queues ?k (ReadyQ h)) = cache ?k" if nz: "cache ?k \<noteq> NULL"
  proof -
    have "cache k \<noteq> NULL" "cache k \<noteq> t" "cache ?k = cache k"
      using nz by (auto simp: remove_thread_from_ready_q_def Let_def split: if_splits)
    then show ?thesis using remove_cache[OF wf(2)] by (fastforce simp: highest_q_def queues_remove)
  qed
  ultimately show ?thesis
    using wf(2) by (auto simp: rq_inv_def rq_wf_def queues_remove dest: notin_set_remove1)
qed

lemma queues_move:
  assumes "queues_wf k" "t \<in> set (queues k (ReadyQ (get_ready_q_q_index c (prio (thread k t)))))"
  shows "queues (move_thread_to_end_of_prio_q c k t) =
    (queues k)(ReadyQ (get_ready_q_q_index c (prio (thread k t))) :=
       remove1 t (queues k (ReadyQ (get_ready_q_q_index c (prio (thread k t))))) @ [t])"
    (is "_ = (queues k)(?q := _)")
proof (cases "queues k ?q \<noteq> [] \<and> last (queues k ?q) = t")
  case True
  then obtain us where us: "queues k ?q = us @ [t]" by (metis append_butlast_last_id)
  then have "t \<notin> set us" using assms(1) by (auto simp: queues_wf_def dest!: spec[of _ ?q])
  with True us show ?thesis
    by (auto simp: move_thread_to_end_of_prio_q_def Let_def remove1_append)
next
  case False
  have "remove1 t (queues k r) = queues k r" if "r \<noteq> ?q" for r
    using assms that by (metis queues_wf_def remove1_idem)
  with False show ?thesis
    by (auto simp: move_thread_to_end_of_prio_q_def Let_def fun_eq_iff)
qed

lemma move_thread_inv:
  assumes inv: "rq_inv c k" and t: "t \<in> set (queues k (ReadyQ i))"
  shows "rq_inv c (move_thread_to_end_of_prio_q c k t)"
proof -
  let ?k = "move_thread_to_end_of_prio_q c k t" and ?i = "get_ready_q_q_index c (prio (thread k t))"
  have wf: "queues_wf k" "rq_wf c k" using inv by (auto simp: rq_inv_def)
  have i: "i = ?i" using t wf(2) by (auto simp: rq_wf_def)
  have q: "queues ?k = (queues k)(ReadyQ ?i := remove1 t (queues k (ReadyQ ?i)) @ [t])"
    using queues_move[OF wf(1)] t i by simp
  have sets: "set (queues ?k r) = set (queues k r)" for r
    using t i wf(1) by (auto simp: q queues_wf_def)
  have nonempty: "queues ?k r = [] \<longleftrightarrow> queues k r = []" for r
    using sets[of r] by (metis set_empty)
  have "queues_wf ?k"
    using wf(1) unfolding queues_wf_def sets by (auto simp: q distinct_remove1)
  moreover have "prio_bmap ?k = prio_bmap k"
    by (simp add: move_thread_to_end_of_prio_q_def Let_def)
  moreover have "\<exists>h. highest_q ?k h \<and> hd (queues ?k (ReadyQ h)) = cache ?k" if nz: "cache ?k \<noteq> NULL"
  proof (cases "queues k (ReadyQ ?i) \<noteq> [] \<and> last (queues k (ReadyQ ?i)) = t")
    case True
    then have "?k = k" by (simp add: move_thread_to_end_of_prio_q_def Let_def)
    with nz wf(2) show ?thesis by (simp add: rq_wf_def)
  next
    case False
    then have c: "cache k \<noteq> NULL" "cache k \<noteq> t" "cache ?k = cache k"
      using nz by (auto simp: move_thread_to_end_of_prio_q_def Let_def split: if_splits)
    then obtain h where h: "queues k (ReadyQ h) \<noteq> []" "\<forall>j<h. queues k (ReadyQ j) = []"
      "remove1 t (queues k (ReadyQ h)) \<noteq> []" "hd (remove1 t (queues k (ReadyQ h))) = cache k"
      "hd (queues k (ReadyQ h)) = cache k"
      using remove_cache[OF wf(2), of t] by blast
    then have "highest_q ?k h" by (simp add: highest_q_def nonempty)
    moreover have "hd (queues ?k (ReadyQ h)) = cache k"
      using h by (cases "h = ?i") (auto simp: q hd_append)
    ultimately show ?thesis using c by auto
  qed
  ultimately show ?thesis
    using wf(2) by (auto simp: rq_inv_def rq_wf_def sets nonempty ready_bit_def)
qed

text \<open>The next thread is the head of the first non-empty queue, from the cache or not.\<close>

lemma highest_q_prio:
  assumes "rq_wf c k" "highest_q k i"
  shows "get_highest_ready_prio c k = int i - int (NUM_COOP_PRIORITIES c)"
proof (rule highest_ready_prio_eq)
  have "queues k (ReadyQ i) \<noteq> []" using assms(2) by (simp add: highest_q_def)
  then show lt: "i < K_NUM_PRIORITIES c" by (rule queue_index_lt[OF assms(1)])
  then show "ready_bit k i" using assms by (auto simp: rq_wf_def highest_q_def)
  show "\<not> ready_bit k j" if "j < i" for j
    using assms that lt by (auto simp: rq_wf_def highest_q_def)
qed

lemma get_next_eq:
  assumes "rq_inv c k" "highest_q k i"
  shows "get_next_ready_thread c k =
    (hd (queues k (ReadyQ i)), k\<lparr>cache := hd (queues k (ReadyQ i))\<rparr>)"
proof (cases "cache k = NULL")
  case True
  have "get_highest_ready_prio c k = int i - int (NUM_COOP_PRIORITIES c)"
    using assms highest_q_prio by (auto simp: rq_inv_def)
  then have "get_ready_q_q_index c (get_highest_ready_prio c k) = i"
    by (simp add: get_ready_q_q_index_def)
  then show ?thesis using True assms(2)
    by (auto simp: get_next_ready_thread_def get_next_ready_thread_slow_def Let_def highest_q_def
        split: list.splits)
next
  case False
  obtain j where "highest_q k j" "hd (queues k (ReadyQ j)) = cache k"
    using assms(1) False by (auto simp: rq_inv_def rq_wf_def)
  then have "hd (queues k (ReadyQ i)) = cache k" using highest_q_unique[OF assms(2)] by metis
  then show ?thesis using False by (simp add: get_next_ready_thread_def)
qed

lemma get_next_inv:
  assumes "rq_inv c k" "highest_q k i"
  shows "rq_inv c (snd (get_next_ready_thread c k))"
  using assms unfolding get_next_eq[OF assms]
  by (auto simp: rq_inv_def rq_wf_def queues_wf_def highest_q_def ready_bit_def)

lemma highest_q_exists:
  "queues k (ReadyQ i) \<noteq> [] \<Longrightarrow> \<exists>h\<le>i. highest_q k h"
proof (induction i rule: less_induct)
  case (less i)
  show ?case
  proof (cases "\<forall>j<i. queues k (ReadyQ j) = []")
    case True
    with less.prems show ?thesis by (auto simp: highest_q_def)
  next
    case False
    then obtain j where "j < i" "queues k (ReadyQ j) \<noteq> []" by blast
    with less.IH[of j] show ?thesis by (meson less_imp_le_nat order_trans)
  qed
qed

section \<open>The contract: one list in priority order\<close>

definition ready_list :: "kconfig \<Rightarrow> 'z kernel_scheme \<Rightarrow> tid list" where
  "ready_list c k = concat (map (\<lambda>i. queues k (ReadyQ i)) [0..<K_NUM_PRIORITIES c])"

text \<open>Insertion after every element of the same or a higher priority.\<close>

definition insert_by_prio :: "(tid \<Rightarrow> int) \<Rightarrow> tid \<Rightarrow> tid list \<Rightarrow> tid list" where
  "insert_by_prio pr t xs =
     takeWhile (\<lambda>x. pr x \<le> pr t) xs @ t # dropWhile (\<lambda>x. pr x \<le> pr t) xs"

lemma insert_by_prio_append:
  assumes "\<And>x. x \<in> set us \<Longrightarrow> pr x \<le> pr t" "\<And>x. x \<in> set vs \<Longrightarrow> pr t < pr x"
  shows "insert_by_prio pr t (us @ vs) = us @ t # vs"
proof -
  have "vs = [] \<or> pr t < pr (hd vs)" using assms(2) by (metis hd_in_set)
  then have "takeWhile (\<lambda>x. pr x \<le> pr t) vs = []" "dropWhile (\<lambda>x. pr x \<le> pr t) vs = vs"
    by (auto simp: takeWhile_eq_Nil_iff dropWhile_eq_self_iff)
  moreover have "\<forall>x\<in>set us. pr x \<le> pr t" using assms(1) by simp
  ultimately show ?thesis by (simp add: insert_by_prio_def)
qed

lemma ready_list_split:
  assumes "i < K_NUM_PRIORITIES c"
  shows "ready_list c k = concat (map (\<lambda>i. queues k (ReadyQ i)) [0..<i]) @ queues k (ReadyQ i) @
           concat (map (\<lambda>i. queues k (ReadyQ i)) [Suc i..<K_NUM_PRIORITIES c])"
proof -
  have "[0..<K_NUM_PRIORITIES c] = [0..<i] @ i # [Suc i..<K_NUM_PRIORITIES c]"
    using assms
    by (metis le_add_same_cancel1 less_imp_add_positive upt_add_eq_append upt_conv_Cons zero_le)
  then show ?thesis by (simp add: ready_list_def)
qed

lemma ready_list_cong:
  "(\<And>i. i < K_NUM_PRIORITIES c \<Longrightarrow> queues k' (ReadyQ i) = queues k (ReadyQ i)) \<Longrightarrow>
     ready_list c k' = ready_list c k"
  unfolding ready_list_def by (intro arg_cong[of _ _ concat] map_cong) auto

lemma ready_list_upd:
  assumes "i < K_NUM_PRIORITIES c" "queues k' = (queues k)(ReadyQ i := v)"
  shows "ready_list c k' = concat (map (\<lambda>i. queues k (ReadyQ i)) [0..<i]) @ v @
           concat (map (\<lambda>i. queues k (ReadyQ i)) [Suc i..<K_NUM_PRIORITIES c])"
proof -
  have m: "map (\<lambda>i. queues k' (ReadyQ i)) is = map (\<lambda>i. queues k (ReadyQ i)) is" if "i \<notin> set is" for "is"
    using that assms(2) by (intro map_cong) auto
  have "queues k' (ReadyQ i) = v" using assms(2) by simp
  then show ?thesis using m[of "[0..<i]"] m[of "[Suc i..<K_NUM_PRIORITIES c]"]
    by (simp add: ready_list_split[OF assms(1)] del: map_eq_conv)
qed

lemma set_ready_list:
  "rq_wf c k \<Longrightarrow> t \<in> set (ready_list c k) \<longleftrightarrow> (\<exists>i. t \<in> set (queues k (ReadyQ i)))"
  using queue_index_lt[of c k] by (force simp: ready_list_def)

lemma ready_list_add:
  assumes inv: "rq_inv c k" and v: "valid_prio c (prio (thread k t))"
  shows "ready_list c (add_thread_to_ready_q c k t) =
           insert_by_prio (\<lambda>x. prio (thread k x)) t (ready_list c k)"
proof -
  let ?i = "get_ready_q_q_index c (prio (thread k t))" and ?q = "\<lambda>i. queues k (ReadyQ i)"
  have i: "?i < K_NUM_PRIORITIES c" by (rule q_index_lt[OF v])
  have wf: "rq_wf c k" using inv by (simp add: rq_inv_def)
  have key: "x \<in> set (?q j) \<Longrightarrow> (prio (thread k x) \<le> prio (thread k t) \<longleftrightarrow> j \<le> ?i)" for x j
    using in_readyq_index[OF wf, of x j] q_index_less_iff[OF v in_readyq_valid[OF wf], of x j]
    by (metis linorder_not_less)
  have "insert_by_prio (\<lambda>x. prio (thread k x)) t
      ((concat (map ?q [0..<?i]) @ ?q ?i) @ concat (map ?q [Suc ?i..<K_NUM_PRIORITIES c])) =
      (concat (map ?q [0..<?i]) @ ?q ?i) @ t # concat (map ?q [Suc ?i..<K_NUM_PRIORITIES c])"
  proof (rule insert_by_prio_append)
    show "prio (thread k x) \<le> prio (thread k t)" if "x \<in> set (concat (map ?q [0..<?i]) @ ?q ?i)" for x
      using that key by auto
    show "prio (thread k t) < prio (thread k x)"
      if x: "x \<in> set (concat (map ?q [Suc ?i..<K_NUM_PRIORITIES c]))" for x
    proof -
      obtain j where "Suc ?i \<le> j" "x \<in> set (?q j)" using x by auto
      with key[of x j] show ?thesis by simp
    qed
  qed
  then show ?thesis
    using ready_list_upd[OF i queues_add] ready_list_split[OF i, of k] by simp
qed

lemma ready_list_remove:
  assumes inv: "rq_inv c k"
  shows "ready_list c (remove_thread_from_ready_q c k t) = remove1 t (ready_list c k)"
proof -
  have one: "remove1 t (concat (map f is)) = concat (map (\<lambda>i. remove1 t (f i)) is)"
    if "\<And>i j. i \<in> set is \<Longrightarrow> j \<in> set is \<Longrightarrow> t \<in> set (f i) \<Longrightarrow> t \<in> set (f j) \<Longrightarrow> i = j" "distinct is"
    for f :: "nat \<Rightarrow> tid list" and "is"
    using that
  proof (induction "is")
    case (Cons a "is")
    show ?case
    proof (cases "t \<in> set (f a)")
      case True
      then have "\<forall>i\<in>set is. t \<notin> set (f i)" using Cons.prems by fastforce
      then have "map (\<lambda>i. remove1 t (f i)) is = map f is"
        by (intro map_cong refl) (metis remove1_idem)
      then show ?thesis using True by (simp add: remove1_append del: map_eq_conv)
    next
      case False
      then show ?thesis using Cons by (simp add: remove1_append remove1_idem)
    qed
  qed simp
  show ?thesis unfolding ready_list_def queues_remove
    by (rule one[symmetric]) (use inv in \<open>unfold rq_inv_def queues_wf_def, blast\<close>, simp)
qed

lemma ready_list_hd:
  assumes "rq_inv c k" "ready_list c k \<noteq> []"
  shows "fst (get_next_ready_thread c k) = hd (ready_list c k)"
proof -
  obtain t where "t \<in> set (ready_list c k)" using assms(2) by (metis hd_in_set)
  then obtain j where "t \<in> set (queues k (ReadyQ j))" by (auto simp: ready_list_def)
  then have j: "queues k (ReadyQ j) \<noteq> []" by auto
  then obtain i where i: "highest_q k i" using highest_q_exists by blast
  then have lt: "i < K_NUM_PRIORITIES c"
    using assms(1) queue_index_lt by (auto simp: rq_inv_def highest_q_def)
  have "concat (map (\<lambda>i. queues k (ReadyQ i)) [0..<i]) = []"
    using i by (simp add: highest_q_def)
  then have "hd (ready_list c k) = hd (queues k (ReadyQ i))"
    using i ready_list_split[OF lt, of k] by (simp add: highest_q_def hd_append)
  then show ?thesis using get_next_eq[OF assms(1) i] by simp
qed

lemma ready_list_sorted:
  assumes "rq_wf c k"
  shows "sorted (map (\<lambda>t. prio (thread k t)) (ready_list c k))"
proof -
  have "sorted (map (\<lambda>t. prio (thread k t)) (concat (map (\<lambda>i. queues k (ReadyQ i)) [0..<n])))" for n
  proof (induction n)
    case (Suc n)
    have le: "prio (thread k x) \<le> prio (thread k y)"
      if "x \<in> set (queues k (ReadyQ i))" "y \<in> set (queues k (ReadyQ j))" "i \<le> j" for x y i j
      using that in_readyq_index[OF assms] in_readyq_valid[OF assms] q_index_less_iff
      by (metis linorder_not_less)
    then have "sorted (map (\<lambda>t. prio (thread k t)) (queues k (ReadyQ n)))"
      by (auto simp: sorted_iff_nth_mono intro: le[of _ n _ n])
    with Suc le show ?case by (auto simp: sorted_append)
  qed simp
  then show ?thesis by (simp add: ready_list_def)
qed

lemma ready_list_distinct:
  assumes "queues_wf k"
  shows "distinct (ready_list c k)"
proof -
  have "distinct (concat (map (\<lambda>i. queues k (ReadyQ i)) [0..<n]))" for n
  proof (induction n)
    case (Suc n)
    have "set (queues k (ReadyQ i)) \<inter> set (queues k (ReadyQ n)) = {}" if "i < n" for i
      using assms that unfolding queues_wf_def by (metis disjoint_iff nat_neq_iff qid.inject(1))
    with Suc assms show ?case by (fastforce simp: queues_wf_def)
  qed simp
  then show ?thesis by (simp add: ready_list_def)
qed

text \<open>
  What the scheduler may rely on: a container of threads ordered by priority and arrival, with
  insertion, removal and a choice of the next thread.
\<close>

locale prio_fifo =
  fixes invar :: "'q \<Rightarrow> bool"
    and alist :: "'q \<Rightarrow> tid list"
    and pr :: "'q \<Rightarrow> tid \<Rightarrow> int"
    and addable :: "'q \<Rightarrow> tid \<Rightarrow> bool"
    and add :: "'q \<Rightarrow> tid \<Rightarrow> 'q"
    and rem :: "'q \<Rightarrow> tid \<Rightarrow> 'q"
    and pick :: "'q \<Rightarrow> tid"
  assumes alist_sorted: "invar q \<Longrightarrow> sorted (map (pr q) (alist q))"
    and alist_distinct: "invar q \<Longrightarrow> distinct (alist q)"
    and invar_add: "invar q \<Longrightarrow> addable q t \<Longrightarrow> invar (add q t)"
    and invar_rem: "invar q \<Longrightarrow> t \<in> set (alist q) \<Longrightarrow> invar (rem q t)"
    and alist_add: "invar q \<Longrightarrow> addable q t \<Longrightarrow> alist (add q t) = insert_by_prio (pr q) t (alist q)"
    and alist_rem: "invar q \<Longrightarrow> alist (rem q t) = remove1 t (alist q)"
    and pick_hd: "invar q \<Longrightarrow> alist q \<noteq> [] \<Longrightarrow> pick q = hd (alist q)"
begin

lemma pick_highest: "invar q \<Longrightarrow> t \<in> set (alist q) \<Longrightarrow> pr q (pick q) \<le> pr q t"
  using alist_sorted[of q] pick_hd[of q] by (cases "alist q") auto

lemma pick_ready: "invar q \<Longrightarrow> alist q \<noteq> [] \<Longrightarrow> pick q \<in> set (alist q)"
  by (simp add: pick_hd)

text \<open>A thread that does not beat the next one queues behind it.\<close>

lemma pick_add_lower:
  assumes "invar q" "addable q t" "alist q \<noteq> []" "pr q (pick q) \<le> pr q t"
  shows "pick (add q t) = pick q"
proof -
  have "alist (add q t) = insert_by_prio (pr q) t (alist q)" using alist_add assms by blast
  moreover have "hd (insert_by_prio (pr q) t (alist q)) = hd (alist q)"
    using assms pick_hd by (cases "alist q") (auto simp: insert_by_prio_def)
  moreover have "alist (add q t) \<noteq> []" using calculation by (simp add: insert_by_prio_def)
  ultimately show ?thesis using pick_hd invar_add assms by metis
qed

text \<open>A thread of a strictly higher priority becomes the next one.\<close>

lemma pick_add_higher:
  assumes "invar q" "addable q t" "\<And>u. u \<in> set (alist q) \<Longrightarrow> pr q t < pr q u"
  shows "pick (add q t) = t"
proof -
  have "insert_by_prio (pr q) t ([] @ alist q) = [] @ t # alist q"
    by (rule insert_by_prio_append) (use assms(3) in auto)
  then have "alist (add q t) = t # alist q" using alist_add[OF assms(1,2)] by simp
  then show ?thesis using pick_hd[OF invar_add[OF assms(1,2)]] by simp
qed

text \<open>Adding a thread and taking it off again leaves the order of the others alone.\<close>

lemma add_rem_alist:
  assumes "invar q" "addable q t" "t \<notin> set (alist q)"
  shows "alist (rem (add q t) t) = alist q"
proof -
  have "t \<notin> set (takeWhile (\<lambda>x. pr q x \<le> pr q t) (alist q))"
    using assms(3) set_takeWhileD by metis
  then have "remove1 t (insert_by_prio (pr q) t (alist q)) = alist q"
    by (simp add: insert_by_prio_def)
  then show ?thesis using assms alist_rem[OF invar_add] alist_add by simp
qed

end

interpretation ready_q: prio_fifo "rq_inv c" "ready_list c" "\<lambda>k t. prio (thread k t)"
  "\<lambda>k t. t \<noteq> NULL \<and> (\<forall>q. t \<notin> set (queues k q)) \<and> valid_prio c (prio (thread k t))"
  "add_thread_to_ready_q c" "remove_thread_from_ready_q c" "\<lambda>k. fst (get_next_ready_thread c k)"
  for c
proof unfold_locales
  fix k :: "'a kernel_scheme" and t
  assume k: "rq_inv c k"
  show "sorted (map (\<lambda>t. prio (thread k t)) (ready_list c k))" "distinct (ready_list c k)"
    using k ready_list_sorted ready_list_distinct by (auto simp: rq_inv_def)
  show "t \<in> set (ready_list c k) \<Longrightarrow> rq_inv c (remove_thread_from_ready_q c k t)"
    using remove_thread_inv[OF k] set_ready_list[of c k t] k by (auto simp: rq_inv_def)
  show "ready_list c (remove_thread_from_ready_q c k t) = remove1 t (ready_list c k)"
    by (rule ready_list_remove[OF k])
  show "ready_list c k \<noteq> [] \<Longrightarrow> fst (get_next_ready_thread c k) = hd (ready_list c k)"
    by (rule ready_list_hd[OF k])
qed (auto intro: add_thread_inv simp: ready_list_add)

end
