(* ===== verification/Timeout_Queue.thy ===== *)
theory Timeout_Queue
  imports Ready_Queue
begin

text \<open>
  The timeout queue of \<^verbatim>\<open>kernel/unified/include/timeout_q.h\<close>.  The queue stores each timeout as
  the number of ticks after its predecessor; what it promises is stated over the absolute
  expiries, which are the prefix sums.  Inserting and aborting are proved to leave the expiry of
  every other timeout alone.
\<close>

section \<open>Operations\<close>

definition init_timeout :: "'z kernel_scheme \<Rightarrow> toid \<Rightarrow> timeout_func \<Rightarrow> 'z kernel_scheme" where
  "init_timeout k x func = upd_timeout k x (\<lambda>t. t\<lparr>delta_ticks_from_prev := -1, to_wait_q := NULL,
     to_thread := NULL, to_func := func\<rparr>)"

definition init_thread_timeout :: "'z kernel_scheme \<Rightarrow> tid \<Rightarrow> 'z kernel_scheme" where
  "init_thread_timeout k t = init_timeout k (ThreadTO t) NoFunc"

text \<open>\<^verbatim>\<open>_init_thread_base\<close> of \<^verbatim>\<open>thread.c\<close>.\<close>

definition init_thread_base ::
  "'z kernel_scheme \<Rightarrow> tid \<Rightarrow> int \<Rightarrow> u32 \<Rightarrow> u32 \<Rightarrow> 'z kernel_scheme" where
  "init_thread_base k t priority initial_state options =
     init_thread_timeout (upd_thread k t (\<lambda>th. th\<lparr>flags := options OR initial_state,
       prio := priority, sched_locked := 0\<rparr>)) t"

text \<open>
  The callback of \<^verbatim>\<open>sys_dlist_insert_at\<close>.  Its \<^verbatim>\<open>data\<close> argument points to the delta of the timeout
  \<open>x\<close> being inserted, so the state it threads through the walk is the store of timeouts.
\<close>

definition is_timeout_insert_point ::
  "toid \<Rightarrow> (toid \<Rightarrow> timeout) \<Rightarrow> toid \<Rightarrow> bool \<times> (toid \<Rightarrow> timeout)" where
  "is_timeout_insert_point x tos test =
     (let dx = delta_ticks_from_prev (tos x); dt = delta_ticks_from_prev (tos test)
      in if dx > dt
         then (False, tos(x := (tos x)\<lparr>delta_ticks_from_prev := dx - dt\<rparr>))
         else (True, tos(test := (tos test)\<lparr>delta_ticks_from_prev := dt - dx\<rparr>)))"

definition add_timeout ::
  "'z kernel_scheme \<Rightarrow> tid \<Rightarrow> toid \<Rightarrow> wqid \<Rightarrow> int \<Rightarrow> 'z kernel_scheme" where
  "add_timeout k t x wait_q ticks =
     (let k1 = upd_timeout k x (\<lambda>u. u\<lparr>to_thread := t, delta_ticks_from_prev := ticks,
                 to_wait_q := wait_q\<rparr>);
          r = list_insert_at (is_timeout_insert_point x) (timeouts k1) x (timeout_q k1)
      in k1\<lparr>timeout_q := fst r, timeouts := snd r\<rparr>)"

definition add_thread_timeout ::
  "'z kernel_scheme \<Rightarrow> tid \<Rightarrow> wqid \<Rightarrow> int \<Rightarrow> 'z kernel_scheme" where
  "add_thread_timeout k t wait_q ticks = add_timeout k t (ThreadTO t) wait_q ticks"

text \<open>\<^verbatim>\<open>sys_dlist_peek_next\<close> on the abstract queue.\<close>

fun next_of :: "'a \<Rightarrow> 'a list \<Rightarrow> 'a option" where
  "next_of x (y # z # zs) = (if y = x then Some z else next_of x (z # zs))"
| "next_of x _ = None"

text \<open>
  \<^verbatim>\<open>_abort_timeout\<close>.  The C code asks whether the node is the tail and otherwise updates the node
  after it; a node that is not the tail of its list has a next node.
\<close>

definition abort_timeout :: "'z kernel_scheme \<Rightarrow> toid \<Rightarrow> int \<times> 'z kernel_scheme" where
  "abort_timeout k x =
     (if delta_ticks_from_prev (timeouts k x) = -1 then (-1, k)
      else let k1 = (if timeout_q k \<noteq> [] \<and> last (timeout_q k) = x then k
                     else case next_of x (timeout_q k) of
                            None \<Rightarrow> k
                          | Some n \<Rightarrow> upd_timeout k n (\<lambda>u. u\<lparr>delta_ticks_from_prev :=
                              delta_ticks_from_prev u +
                              delta_ticks_from_prev (timeouts k x)\<rparr>));
               k2 = k1\<lparr>timeout_q := remove1 x (timeout_q k1)\<rparr>
           in (0, upd_timeout k2 x (\<lambda>u. u\<lparr>delta_ticks_from_prev := -1\<rparr>)))"

definition abort_thread_timeout :: "'z kernel_scheme \<Rightarrow> tid \<Rightarrow> int \<times> 'z kernel_scheme" where
  "abort_thread_timeout k t = abort_timeout k (ThreadTO t)"

definition get_next_timeout_expiry :: "'z kernel_scheme \<Rightarrow> int" where
  "get_next_timeout_expiry k =
     (case timeout_q k of [] \<Rightarrow> K_FOREVER | x # _ \<Rightarrow> delta_ticks_from_prev (timeouts k x))"

lemma timeout_frame [simp]:
  "in_isr (add_timeout k t x w n) = in_isr k" "current (add_timeout k t x w n) = current k"
  "cache (add_timeout k t x w n) = cache k" "prio_bmap (add_timeout k t x w n) = prio_bmap k"
  "queues (add_timeout k t x w n) = queues k" "thread (add_timeout k t x w n) = thread k"
  "in_isr (snd (abort_timeout k x)) = in_isr k" "current (snd (abort_timeout k x)) = current k"
  "cache (snd (abort_timeout k x)) = cache k" "prio_bmap (snd (abort_timeout k x)) = prio_bmap k"
  "queues (snd (abort_timeout k x)) = queues k" "thread (snd (abort_timeout k x)) = thread k"
  by (simp_all add: add_timeout_def abort_timeout_def Let_def split: option.splits)

section \<open>Absolute expiries\<close>

text \<open>The queue with each timeout's distance from the last tick, the sum of the deltas up to it.\<close>

fun prefix_sums :: "('a \<Rightarrow> int) \<Rightarrow> int \<Rightarrow> 'a list \<Rightarrow> ('a \<times> int) list" where
  "prefix_sums d s [] = []"
| "prefix_sums d s (x # xs) = (x, s + d x) # prefix_sums d (s + d x) xs"

abbreviation delta :: "'z kernel_scheme \<Rightarrow> toid \<Rightarrow> int" where
  "delta k x \<equiv> delta_ticks_from_prev (timeouts k x)"

definition expiries :: "'z kernel_scheme \<Rightarrow> (toid \<times> int) list" where
  "expiries k = prefix_sums (delta k) 0 (timeout_q k)"

definition expiry :: "'z kernel_scheme \<Rightarrow> toid \<Rightarrow> int option" where
  "expiry k x = map_of (expiries k) x"

text \<open>
  The invariant: a timeout is queued at most once, exactly when its delta is not -1, and then its
  delta is not negative and its expiry fits the 32 bits the C code stores it in.
\<close>

definition timeout_inv :: "'z kernel_scheme \<Rightarrow> bool" where
  "timeout_inv k \<longleftrightarrow> distinct (timeout_q k) \<and>
     (\<forall>x. x \<in> set (timeout_q k) \<longleftrightarrow> delta k x \<noteq> -1) \<and>
     (\<forall>x \<in> set (timeout_q k). 0 \<le> delta k x) \<and>
     (\<forall>p \<in> set (expiries k). snd p < 2 ^ 31)"

lemma map_fst_prefix_sums [simp]: "map fst (prefix_sums d s xs) = xs"
  by (induction xs arbitrary: s) auto

lemma prefix_sums_cong:
  "(\<And>x. x \<in> set xs \<Longrightarrow> d x = e x) \<Longrightarrow> prefix_sums d s xs = prefix_sums e s xs"
  by (induction xs arbitrary: s) auto

lemma prefix_sums_append:
  "prefix_sums d s (xs @ ys) = prefix_sums d s xs @ prefix_sums d (s + sum_list (map d xs)) ys"
  by (induction xs arbitrary: s) (auto simp: algebra_simps)

lemma prefix_sums_ge:
  "(\<And>x. x \<in> set xs \<Longrightarrow> 0 \<le> d x) \<Longrightarrow> p \<in> set (prefix_sums d s xs) \<Longrightarrow> s \<le> snd p"
proof (induction xs arbitrary: s)
  case (Cons x xs)
  then have "p = (x, s + d x) \<or> p \<in> set (prefix_sums d (s + d x) xs)" by simp
  then have "s + d x \<le> snd p" using Cons.IH[of "s + d x"] Cons.prems(1) by auto
  then show ?case using Cons.prems(1)[of x] by simp
qed simp

lemma set_fst_prefix_sums [simp]: "fst ` set (prefix_sums d s xs) = set xs"
  by (metis map_fst_prefix_sums set_map)

lemma in_prefix_sums: "p \<in> set (prefix_sums d s xs) \<Longrightarrow> fst p \<in> set xs"
  by (metis image_eqI set_fst_prefix_sums)

text \<open>Insertion in front of the first entry that does not expire earlier.\<close>

definition insert_expiry :: "'a \<Rightarrow> int \<Rightarrow> ('a \<times> int) list \<Rightarrow> ('a \<times> int) list" where
  "insert_expiry x n ps =
     takeWhile (\<lambda>p. snd p < n) ps @ (x, n) # dropWhile (\<lambda>p. snd p < n) ps"

text \<open>What the walk of \<^verbatim>\<open>_is_timeout_insert_point\<close> does to the expiries, for a timeout \<open>s\<close> ticks along.\<close>

lemma walk_frame:
  "y \<noteq> x \<Longrightarrow> y \<notin> set xs \<Longrightarrow>
     snd (list_insert_at (is_timeout_insert_point x) tos x xs) y = tos y"
  by (induction xs arbitrary: tos) (auto simp: is_timeout_insert_point_def Let_def case_prod_beta)

lemma walk_expiries:
  assumes "x \<notin> set xs" "distinct xs"
  shows "prefix_sums (\<lambda>y. delta_ticks_from_prev (snd (list_insert_at (is_timeout_insert_point x) tos x xs) y)) s
           (fst (list_insert_at (is_timeout_insert_point x) tos x xs)) =
         insert_expiry x (s + delta_ticks_from_prev (tos x))
           (prefix_sums (\<lambda>y. delta_ticks_from_prev (tos y)) s xs)"
  using assms
proof (induction xs arbitrary: tos s)
  case Nil
  then show ?case by (simp add: insert_expiry_def)
next
  case (Cons y xs)
  let ?d = "\<lambda>t z. delta_ticks_from_prev (t z)"
  show ?case
  proof (cases "?d tos x > ?d tos y")
    case True
    define tos' where "tos' = tos(x := (tos x)\<lparr>delta_ticks_from_prev := ?d tos x - ?d tos y\<rparr>)"
    obtain zs tos'' where r: "list_insert_at (is_timeout_insert_point x) tos' x xs = (zs, tos'')" by force
    have c: "is_timeout_insert_point x tos y = (False, tos')"
      using True by (simp add: is_timeout_insert_point_def tos'_def)
    have "prefix_sums (?d tos'') (s + ?d tos y) zs =
        insert_expiry x (s + ?d tos y + ?d tos' x) (prefix_sums (?d tos') (s + ?d tos y) xs)"
      using Cons.IH[of tos' "s + ?d tos y"] Cons.prems r by simp
    moreover have "prefix_sums (?d tos') (s + ?d tos y) xs = prefix_sums (?d tos) (s + ?d tos y) xs"
      by (rule prefix_sums_cong) (use Cons.prems in \<open>auto simp: tos'_def\<close>)
    moreover have "tos'' y = tos y"
      using walk_frame[of y x xs tos'] Cons.prems r by (auto simp: tos'_def)
    moreover have "?d tos' x = ?d tos x - ?d tos y" by (simp add: tos'_def)
    ultimately show ?thesis using True by (simp add: c r insert_expiry_def)
  next
    case False
    have "prefix_sums (?d (tos(y := (tos y)\<lparr>delta_ticks_from_prev := ?d tos y - ?d tos x\<rparr>)))
        (s + ?d tos y) xs = prefix_sums (?d tos) (s + ?d tos y) xs"
      by (rule prefix_sums_cong) (use Cons.prems in auto)
    with False Cons.prems show ?thesis
      by (simp add: is_timeout_insert_point_def insert_expiry_def)
  qed
qed

lemma expiries_add:
  assumes "x \<notin> set (timeout_q k)" "distinct (timeout_q k)"
  shows "expiries (add_timeout k t x w n) = insert_expiry x n (expiries k)"
proof -
  let ?tos = "(timeouts k)(x := (timeouts k x)\<lparr>to_thread := t, delta_ticks_from_prev := n, to_wait_q := w\<rparr>)"
  have "prefix_sums (\<lambda>y. delta_ticks_from_prev (?tos y)) 0 (timeout_q k) = expiries k"
    unfolding expiries_def by (rule prefix_sums_cong) (use assms in auto)
  then show ?thesis
    using walk_expiries[OF assms, of ?tos 0] by (simp add: add_timeout_def Let_def expiries_def)
qed

lemma next_of_split:
  "x \<notin> set us \<Longrightarrow> next_of x (us @ x # vs) = (case vs of [] \<Rightarrow> None | n # _ \<Rightarrow> Some n)"
proof (induction us)
  case Nil
  then show ?case by (cases vs) auto
next
  case (Cons u us)
  then show ?case by (cases us) auto
qed

lemma expiries_abort:
  assumes "x \<in> set (timeout_q k)" "distinct (timeout_q k)" "delta k x \<noteq> -1"
  shows "expiries (snd (abort_timeout k x)) = filter (\<lambda>p. fst p \<noteq> x) (expiries k)"
proof -
  obtain us vs where q: "timeout_q k = us @ x # vs" using assms(1) by (metis in_set_conv_decomp)
  have nin: "x \<notin> set us" "x \<notin> set vs" using assms(2) q by auto
  let ?s = "sum_list (map (delta k) us)" and ?k = "snd (abort_timeout k x)"
  have keep: "filter (\<lambda>p. fst p \<noteq> x) (prefix_sums (delta k) s ys) = prefix_sums (delta k) s ys"
    if "x \<notin> set ys" for s ys
    using that by (intro filter_True) (auto dest: in_prefix_sums)
  have old: "filter (\<lambda>p. fst p \<noteq> x) (expiries k) =
      prefix_sums (delta k) 0 us @ prefix_sums (delta k) (?s + delta k x) vs"
    using nin by (simp add: expiries_def q prefix_sums_append keep)
  have q': "timeout_q ?k = us @ vs"
    using assms(3) q nin by (simp add: abort_timeout_def Let_def split: option.splits)
  have same: "delta ?k y = delta k y" if "y \<noteq> x" "vs = [] \<or> y \<noteq> hd vs" for y
    using assms(3) that nin by (auto simp: abort_timeout_def Let_def q next_of_split split: list.splits)
  have hdus: "vs = [] \<or> hd vs \<notin> set us" using assms(2) q by (cases vs) auto
  have us: "prefix_sums (delta ?k) 0 us = prefix_sums (delta k) 0 us"
    "sum_list (map (delta ?k) us) = ?s"
    using nin hdus
    by (auto intro!: prefix_sums_cong arg_cong[of _ _ sum_list] same)
  show ?thesis
  proof (cases vs)
    case Nil
    then show ?thesis using old q' us by (simp add: expiries_def)
  next
    case (Cons n ws)
    have "delta ?k n = delta k n + delta k x"
      using assms(3) nin Cons assms(2) q by (auto simp: abort_timeout_def Let_def next_of_split)
    moreover have "prefix_sums (delta ?k) s ws = prefix_sums (delta k) s ws" for s
      by (rule prefix_sums_cong, rule same) (use nin Cons assms(2) q in auto)
    ultimately show ?thesis using old q' us Cons
      by (simp add: expiries_def prefix_sums_append add.commute add.left_commute)
  qed
qed

section \<open>The invariant\<close>

lemma deltas_sorted:
  "(\<forall>x \<in> set xs. 0 \<le> d x) \<longleftrightarrow> sorted (s # map snd (prefix_sums d s xs))"
proof (induction xs arbitrary: s)
  case (Cons x xs)
  have "sorted (s # map snd (prefix_sums d s (x # xs))) \<longleftrightarrow>
      s \<le> s + d x \<and> sorted ((s + d x) # map snd (prefix_sums d (s + d x) xs))"
    by (auto simp: order_trans)
  with Cons.IH[of "s + d x"] show ?case by simp
qed simp

lemma timeout_inv_sorted:
  "timeout_inv k \<Longrightarrow> sorted (map snd (expiries k)) \<and> (\<forall>p \<in> set (expiries k). 0 \<le> snd p)"
  using deltas_sorted[of "timeout_q k" "delta k" 0] by (auto simp: timeout_inv_def expiries_def)

lemma set_insert_expiry [simp]: "set (insert_expiry x n ps) = insert (x, n) (set ps)"
  by (metis (no_types) insert_expiry_def list.simps(15) set_append Un_insert_right takeWhile_dropWhile_id)

lemma sorted_insert_expiry:
  assumes "sorted (map snd ps)"
  shows "sorted (map snd (insert_expiry x n ps))"
proof -
  let ?a = "takeWhile (\<lambda>p. snd p < n) ps" and ?b = "dropWhile (\<lambda>p. snd p < n) ps"
  have "sorted (map snd ?a @ map snd ?b)" using assms by (simp flip: map_append)
  moreover have "\<forall>p \<in> set ?b. n \<le> snd p" using assms by (induction ps) auto
  moreover have "\<forall>p \<in> set ?a. snd p < n" using set_takeWhileD by fastforce
  ultimately show ?thesis by (auto simp: insert_expiry_def sorted_append dest!: bspec)
qed

lemma map_of_insert_expiry:
  "x \<notin> fst ` set ps \<Longrightarrow> map_of (insert_expiry x n ps) = (map_of ps)(x \<mapsto> n)"
proof -
  assume x: "x \<notin> fst ` set ps"
  have "map_of (us @ (x, n) # vs) = (map_of (us @ vs))(x \<mapsto> n)" if "x \<notin> fst ` set us" for us vs :: "('a \<times> int) list"
    using that by (induction us) (auto simp: fun_upd_twist)
  from this[of "takeWhile (\<lambda>p. snd p < n) ps"] x show ?thesis
    unfolding insert_expiry_def by (metis (no_types, lifting) image_iff set_takeWhileD takeWhile_dropWhile_id)
qed

lemma map_of_filter_neq: "map_of (filter (\<lambda>p. fst p \<noteq> x) ps) = (map_of ps)(x := None)"
  by (induction ps) (auto simp: fun_eq_iff)

lemma expiry_None: "expiry k x = None \<longleftrightarrow> x \<notin> set (timeout_q k)"
  by (simp add: expiry_def expiries_def map_of_eq_None_iff)

lemma expiry_active: "timeout_inv k \<Longrightarrow> expiry k x = None \<longleftrightarrow> delta k x = -1"
  by (auto simp: expiry_None timeout_inv_def)

lemma expiry_add:
  "timeout_inv k \<Longrightarrow> expiry k x = None \<Longrightarrow> expiry (add_timeout k t x w n) = (expiry k)(x \<mapsto> n)"
  unfolding expiry_None unfolding expiry_def timeout_inv_def
  by (simp add: expiries_add map_of_insert_expiry) (simp add: expiries_def map_of_insert_expiry)

lemma abort_inactive: "delta k x = -1 \<Longrightarrow> abort_timeout k x = (-1, k)"
  by (simp add: abort_timeout_def)

lemma expiry_abort: "timeout_inv k \<Longrightarrow> expiry (snd (abort_timeout k x)) = (expiry k)(x := None)"
proof (cases "delta k x = -1")
  case True
  then show "timeout_inv k \<Longrightarrow> ?thesis" using expiry_active[of k x] by (simp add: abort_inactive fun_upd_idem)
next
  case False
  then show "timeout_inv k \<Longrightarrow> ?thesis"
    using expiries_abort[of x k] by (simp add: timeout_inv_def expiry_def map_of_filter_neq fun_eq_iff)
qed

lemma timeout_q_add:
  "set (timeout_q (add_timeout k t x w n)) = insert x (set (timeout_q k))"
  by (simp add: add_timeout_def Let_def)

lemma add_timeout_inv:
  assumes inv: "timeout_inv k" and x: "expiry k x = None" and n: "0 \<le> n" "n < 2 ^ 31"
  shows "timeout_inv (add_timeout k t x w n)"
proof -
  let ?k = "add_timeout k t x w n"
  have q: "x \<notin> set (timeout_q k)" "distinct (timeout_q k)" using inv x by (auto simp: expiry_None timeout_inv_def)
  have e: "expiries ?k = insert_expiry x n (expiries k)" by (rule expiries_add[OF q])
  have "sorted (0 # map snd (expiries ?k))"
    using timeout_inv_sorted[OF inv] sorted_insert_expiry n(1) by (auto simp: e)
  then have pos: "\<forall>y \<in> set (timeout_q ?k). 0 \<le> delta ?k y"
    using deltas_sorted[of "timeout_q ?k" "delta ?k" 0] by (simp add: expiries_def)
  moreover have "distinct (timeout_q ?k)" using q by (simp add: add_timeout_def Let_def)
  moreover have "delta ?k y = -1" if "y \<notin> set (timeout_q ?k)" for y
  proof -
    have "y \<noteq> x" "y \<notin> set (timeout_q k)" using that by (auto simp: timeout_q_add)
    then show ?thesis using inv walk_frame by (simp add: add_timeout_def Let_def timeout_inv_def)
  qed
  ultimately show ?thesis using inv n(2) by (force simp: timeout_inv_def e)
qed

lemma abort_frame_delta:
  "y \<noteq> x \<Longrightarrow> y \<notin> set (timeout_q k) \<Longrightarrow> delta (snd (abort_timeout k x)) y = delta k y"
proof -
  have "n \<in> set xs" if "next_of x xs = Some n" for n xs
    using that by (induction x xs rule: next_of.induct) (auto split: if_splits)
  then show "y \<noteq> x \<Longrightarrow> y \<notin> set (timeout_q k) \<Longrightarrow> ?thesis"
    by (auto simp: abort_timeout_def Let_def split: option.splits)
qed

lemma timeout_q_abort:
  "delta k x \<noteq> -1 \<Longrightarrow> timeout_q (snd (abort_timeout k x)) = remove1 x (timeout_q k)"
  by (simp add: abort_timeout_def Let_def split: option.splits)

lemma delta_abort: "delta k x \<noteq> -1 \<Longrightarrow> delta (snd (abort_timeout k x)) x = -1"
  by (simp add: abort_timeout_def Let_def)

lemma abort_timeout_inv:
  assumes inv: "timeout_inv k"
  shows "timeout_inv (snd (abort_timeout k x))"
proof (cases "delta k x = -1")
  case True
  then show ?thesis using inv by (simp add: abort_inactive)
next
  case False
  let ?k = "snd (abort_timeout k x)"
  have q: "x \<in> set (timeout_q k)" "distinct (timeout_q k)" using inv False by (auto simp: timeout_inv_def)
  have e: "expiries ?k = filter (\<lambda>p. fst p \<noteq> x) (expiries k)" by (rule expiries_abort[OF q False])
  have "sorted (0 # map snd (expiries ?k))"
    using timeout_inv_sorted[OF inv] sorted_filter[of snd] by (auto simp: e)
  then have "\<forall>y \<in> set (timeout_q ?k). 0 \<le> delta ?k y"
    using deltas_sorted[of "timeout_q ?k" "delta ?k" 0] by (simp add: expiries_def)
  moreover have "delta ?k y = -1" if "y \<notin> set (timeout_q ?k)" for y
  proof (cases "y = x")
    case True
    then show ?thesis by (simp add: delta_abort[OF False])
  next
    case ne: False
    then have "y \<notin> set (timeout_q k)" using that q by (simp add: timeout_q_abort[OF False])
    then show ?thesis using inv by (simp add: abort_frame_delta[OF ne] timeout_inv_def)
  qed
  ultimately show ?thesis using inv q
    by (force simp: timeout_inv_def e timeout_q_abort[OF False])
qed

lemma next_timeout_expiry_least:
  assumes "timeout_inv k" "expiry k x = Some n"
  shows "get_next_timeout_expiry k \<le> n" "\<exists>y. expiry k y = Some (get_next_timeout_expiry k)"
proof -
  have "(x, n) \<in> set (expiries k)" using assms(2) by (simp add: expiry_def map_of_SomeD)
  moreover obtain y ys where q: "timeout_q k = y # ys"
    using assms(2) expiry_None[of k x] by (cases "timeout_q k") auto
  ultimately show "get_next_timeout_expiry k \<le> n"
    using timeout_inv_sorted[OF assms(1)] by (fastforce simp: expiries_def get_next_timeout_expiry_def)
  show "\<exists>y. expiry k y = Some (get_next_timeout_expiry k)"
    using q by (intro exI[of _ y]) (simp add: expiry_def expiries_def get_next_timeout_expiry_def)
qed

lemma active_add:
  "timeout_inv k \<Longrightarrow> expiry k x = None \<Longrightarrow> 0 \<le> n \<Longrightarrow> n < 2 ^ 31 \<Longrightarrow>
     delta (add_timeout k t x w n) y = -1 \<longleftrightarrow> y \<noteq> x \<and> delta k y = -1"
  using expiry_active[OF add_timeout_inv, of k x n t w y] expiry_active[of k y]
  by (simp add: expiry_add split: if_splits)

lemma active_abort:
  "timeout_inv k \<Longrightarrow> delta (snd (abort_timeout k x)) y = -1 \<longleftrightarrow> y = x \<or> delta k y = -1"
  using expiry_active[OF abort_timeout_inv, of k x y] expiry_active[of k y]
  by (auto simp: expiry_abort split: if_splits)

lemma walk_owner:
  "to_thread (snd (list_insert_at (is_timeout_insert_point x) tos x xs) y) = to_thread (tos y)"
  "to_wait_q (snd (list_insert_at (is_timeout_insert_point x) tos x xs) y) = to_wait_q (tos y)"
  "to_func (snd (list_insert_at (is_timeout_insert_point x) tos x xs) y) = to_func (tos y)"
  by (induction xs arbitrary: tos)
    (auto simp: is_timeout_insert_point_def Let_def case_prod_beta)

lemma owner_add [simp]:
  "to_thread (timeouts (add_timeout k t x w n) y) = (if y = x then t else to_thread (timeouts k y))"
  "to_wait_q (timeouts (add_timeout k t x w n) y) = (if y = x then w else to_wait_q (timeouts k y))"
  "to_func (timeouts (add_timeout k t x w n) y) = to_func (timeouts k y)"
  by (simp_all add: add_timeout_def Let_def walk_owner)

lemma owner_abort [simp]:
  "to_thread (timeouts (snd (abort_timeout k x)) y) = to_thread (timeouts k y)"
  "to_wait_q (timeouts (snd (abort_timeout k x)) y) = to_wait_q (timeouts k y)"
  "to_func (timeouts (snd (abort_timeout k x)) y) = to_func (timeouts k y)"
  by (simp_all add: abort_timeout_def Let_def split: option.splits)

lemma timeout_inv_cong:
  "timeout_q k' = timeout_q k \<Longrightarrow> timeouts k' = timeouts k \<Longrightarrow> timeout_inv k' \<longleftrightarrow> timeout_inv k"
  by (simp add: timeout_inv_def expiries_def)

lemma timeout_inv_frame [simp]:
  "timeout_inv (upd_thread k t f) \<longleftrightarrow> timeout_inv k" "timeout_inv (upd_queue k q g) \<longleftrightarrow> timeout_inv k"
  "timeout_inv (unlink_node k t) \<longleftrightarrow> timeout_inv k" "timeout_inv (k\<lparr>current := t\<rparr>) \<longleftrightarrow> timeout_inv k"
  "timeout_inv (add_thread_to_ready_q c k t) \<longleftrightarrow> timeout_inv k"
  "timeout_inv (remove_thread_from_ready_q c k t) \<longleftrightarrow> timeout_inv k"
  "timeout_inv (move_thread_to_end_of_prio_q c k t) \<longleftrightarrow> timeout_inv k"
  "timeout_inv (snd (get_next_ready_thread c k)) \<longleftrightarrow> timeout_inv k"
  by (rule timeout_inv_cong; simp)+

section \<open>The contract\<close>

text \<open>
  What the users of the queue (sleeping threads, waits with a timeout, timers, delayed work) rely
  on: a finite map from timeouts to the ticks left.
\<close>

locale deadline_queue =
  fixes invar :: "'q \<Rightarrow> bool"
    and deadline :: "'q \<Rightarrow> toid \<Rightarrow> int option"
    and arm :: "'q \<Rightarrow> toid \<Rightarrow> int \<Rightarrow> 'q"
    and disarm :: "'q \<Rightarrow> toid \<Rightarrow> 'q"
  assumes arm_invar: "invar q \<Longrightarrow> deadline q x = None \<Longrightarrow> 0 \<le> n \<Longrightarrow> n < 2 ^ 31 \<Longrightarrow> invar (arm q x n)"
    and disarm_invar: "invar q \<Longrightarrow> invar (disarm q x)"
    and deadline_arm: "invar q \<Longrightarrow> deadline q x = None \<Longrightarrow> deadline (arm q x n) = (deadline q)(x \<mapsto> n)"
    and deadline_disarm: "invar q \<Longrightarrow> deadline (disarm q x) = (deadline q)(x := None)"
begin

lemma rearm:
  assumes "invar q" "0 \<le> n" "n < 2 ^ 31"
  shows "deadline (arm (disarm q x) x n) = (deadline q)(x \<mapsto> n)" "invar (arm (disarm q x) x n)"
  using assms arm_invar[OF disarm_invar] deadline_arm[OF disarm_invar] deadline_disarm by auto

lemma arm_disarm:
  assumes "invar q" "deadline q x = None" "0 \<le> n" "n < 2 ^ 31"
  shows "deadline (disarm (arm q x n) x) = deadline q"
  using assms deadline_disarm[OF arm_invar] deadline_arm by (simp add: fun_upd_idem)

lemma arm_order_irrelevant:
  assumes "invar q" "deadline q x = None" "deadline q y = None" "x \<noteq> y"
    and "0 \<le> n" "n < 2 ^ 31" "0 \<le> m" "m < 2 ^ 31"
  shows "deadline (arm (arm q x n) y m) = deadline (arm (arm q y m) x n)"
  using assms by (simp add: deadline_arm arm_invar fun_upd_twist)

end

interpretation timeouts: deadline_queue timeout_inv expiry
  "\<lambda>k x n. add_timeout k (th x) x (wq x) n" "\<lambda>k x. snd (abort_timeout k x)"
  for th :: "toid \<Rightarrow> tid" and wq :: "toid \<Rightarrow> wqid"
  by unfold_locales (auto intro: add_timeout_inv abort_timeout_inv simp: expiry_add expiry_abort)

end
