(* ===== verification/Scheduler.thy ===== *)
theory Scheduler
  imports Timeout_Queue "HOL-Library.Signed_Division" "HOL-Library.Multiset"
begin

text \<open>
  The scheduler of \<^verbatim>\<open>kernel/unified/sched.c\<close> and the thread-state helpers of
  \<^verbatim>\<open>kernel/unified/include/ksched.h\<close>: pending and unpending on wait queues, readying, priority
  changes, rescheduling, yield, sleep and wakeup, and the context switch of
  \<^verbatim>\<open>arch/arm/core/swap.S\<close>.  A section between \<^verbatim>\<open>irq_lock\<close> and \<^verbatim>\<open>irq_unlock\<close> is one step of the
  model.  Every operation is proved to keep one invariant that ties thread flags, ready queue,
  wait queues and timeout queue together.
\<close>

section \<open>Thread states\<close>

definition ready_thread :: "kconfig \<Rightarrow> 'z kernel_scheme \<Rightarrow> tid \<Rightarrow> 'z kernel_scheme" where
  "ready_thread c k t =
     (let k1 = mark_thread_as_started k t
      in if is_thread_ready k1 t then add_thread_to_ready_q c k1 t else k1)"

definition thread_priority_set :: "kconfig \<Rightarrow> 'z kernel_scheme \<Rightarrow> tid \<Rightarrow> int \<Rightarrow> 'z kernel_scheme" where
  "thread_priority_set c k t p =
     (if is_thread_ready k t
      then let k1 = remove_thread_from_ready_q c k t;
               k2 = upd_thread k1 t (\<lambda>th. th\<lparr>prio := p\<rparr>)
           in add_thread_to_ready_q c k2 t
      else upd_thread k t (\<lambda>th. th\<lparr>prio := p\<rparr>))"

definition peek_first_pending_thread :: "'z kernel_scheme \<Rightarrow> wqid \<Rightarrow> tid" where
  "peek_first_pending_thread k w = (case queues k (WaitQ w) of [] \<Rightarrow> NULL | t # _ \<Rightarrow> t)"

definition unpend_first_thread :: "'z kernel_scheme \<Rightarrow> wqid \<Rightarrow> tid \<times> 'z kernel_scheme" where
  "unpend_first_thread k w =
     (case queues k (WaitQ w) of
        [] \<Rightarrow> (NULL, k)
      | t # _ \<Rightarrow> (t, mark_thread_as_not_pending (unlink_node k t) t))"

definition unpend_thread :: "'z kernel_scheme \<Rightarrow> tid \<Rightarrow> 'z kernel_scheme" where
  "unpend_thread k t = mark_thread_as_not_pending (unlink_node k t) t"

definition is_wait_q_insert_point :: "'z kernel_scheme \<Rightarrow> tid \<Rightarrow> int \<Rightarrow> bool" where
  "is_wait_q_insert_point k node insert_prio \<longleftrightarrow> is_prio_higher insert_prio (prio (thread k node))"

text \<open>
  \<^verbatim>\<open>_ms_to_ticks\<close>: the product and the quotient are 64-bit, the division truncates toward zero,
  and the result is cut to 32 bits.
\<close>

definition ms_to_ticks :: "kconfig \<Rightarrow> int \<Rightarrow> int" where
  "ms_to_ticks c ms =
     (let ms_ticks_per_sec = signed_take_bit 63 (ms * sys_clock_ticks_per_sec c)
      in signed_take_bit 31 (signed_take_bit 63 (ms_ticks_per_sec + (1000 - 1)) sdiv 1000))"

definition pend_thread :: "kconfig \<Rightarrow> 'z kernel_scheme \<Rightarrow> tid \<Rightarrow> wqid \<Rightarrow> int \<Rightarrow> 'z kernel_scheme" where
  "pend_thread c k t w timeout =
     (let k1 = upd_queue k (WaitQ w) (\<lambda>q. fst (list_insert_at
                 (\<lambda>s node. (is_wait_q_insert_point k node (prio (thread k t)), s)) () t q));
          k2 = mark_thread_as_pending k1 t
      in if timeout \<noteq> K_FOREVER
         then add_thread_timeout k2 t w (TICK_ALIGN + ms_to_ticks c timeout)
         else k2)"

definition pend_current_thread :: "kconfig \<Rightarrow> 'z kernel_scheme \<Rightarrow> wqid \<Rightarrow> int \<Rightarrow> 'z kernel_scheme" where
  "pend_current_thread c k w timeout =
     pend_thread c (remove_thread_from_ready_q c k (current k)) (current k) w timeout"

section \<open>Switching threads\<close>

text \<open>\<^verbatim>\<open>__must_switch_threads\<close> and \<^verbatim>\<open>_must_switch_threads\<close>.\<close>

definition must_switch_to_higher :: "kconfig \<Rightarrow> 'z kernel_scheme \<Rightarrow> bool" where
  "must_switch_to_higher c k \<longleftrightarrow>
     is_prio_higher (get_highest_ready_prio c k) (prio (thread k (current k)))"

definition must_switch_threads :: "kconfig \<Rightarrow> 'z kernel_scheme \<Rightarrow> bool" where
  "must_switch_threads c k \<longleftrightarrow> is_preempt k (current k) \<and> must_switch_to_higher c k"

text \<open>\<^verbatim>\<open>__pendsv\<close>: the next ready thread becomes the current one.\<close>

definition pendsv :: "kconfig \<Rightarrow> 'z kernel_scheme \<Rightarrow> 'z kernel_scheme" where
  "pendsv c k = (case get_next_ready_thread c k of (t, k1) \<Rightarrow> k1\<lparr>current := t\<rparr>)"

text \<open>
  \<^verbatim>\<open>_Swap\<close>: the outgoing thread will return \<^verbatim>\<open>-EAGAIN\<close> from its call unless someone stores another
  value before it runs again.
\<close>

definition Swap :: "kconfig \<Rightarrow> 'z kernel_scheme \<Rightarrow> 'z kernel_scheme" where
  "Swap c k = pendsv c (set_thread_return_value k (current k) (- EAGAIN))"

definition reschedule_threads :: "kconfig \<Rightarrow> 'z kernel_scheme \<Rightarrow> 'z kernel_scheme" where
  "reschedule_threads c k = (if must_switch_threads c k then Swap c k else k)"

definition is_next_thread_current :: "kconfig \<Rightarrow> 'z kernel_scheme \<Rightarrow> bool \<times> 'z kernel_scheme" where
  "is_next_thread_current c k =
     (case get_next_ready_thread c k of (t, k1) \<Rightarrow> (t = current k1, k1))"

text \<open>\<^verbatim>\<open>_ExcExit\<close> (\<^verbatim>\<open>arch/arm/core/exc_exit.S\<close>): the scheduling point at the end of an interrupt.\<close>

definition ExcExit :: "kconfig \<Rightarrow> 'z kernel_scheme \<Rightarrow> 'z kernel_scheme" where
  "ExcExit c k =
     (if prio (thread k (current k)) < 0 then k
      else if sint (sched_locked (thread k (current k))) > 0 then k
      else case is_next_thread_current c k of
             (True, k1) \<Rightarrow> k1
           | (False, k1) \<Rightarrow> pendsv c k1)"

definition k_sched_lock :: "'z kernel_scheme \<Rightarrow> 'z kernel_scheme" where
  "k_sched_lock k = upd_thread k (current k) (\<lambda>th. th\<lparr>sched_locked := sched_locked th + 1\<rparr>)"

definition sched_unlock_no_reschedule :: "'z kernel_scheme \<Rightarrow> 'z kernel_scheme" where
  "sched_unlock_no_reschedule k =
     upd_thread k (current k) (\<lambda>th. th\<lparr>sched_locked := sched_locked th - 1\<rparr>)"

definition k_sched_unlock :: "kconfig \<Rightarrow> 'z kernel_scheme \<Rightarrow> 'z kernel_scheme" where
  "k_sched_unlock c k = reschedule_threads c
     (upd_thread k (current k) (\<lambda>th. th\<lparr>sched_locked := sched_locked th - 1\<rparr>))"

definition k_thread_priority_get :: "'z kernel_scheme \<Rightarrow> tid \<Rightarrow> int" where
  "k_thread_priority_get k t = prio (thread k t)"

definition k_thread_priority_set :: "kconfig \<Rightarrow> 'z kernel_scheme \<Rightarrow> tid \<Rightarrow> int \<Rightarrow> 'z kernel_scheme" where
  "k_thread_priority_set c k t p = reschedule_threads c (thread_priority_set c k t p)"

definition k_yield :: "kconfig \<Rightarrow> 'z kernel_scheme \<Rightarrow> 'z kernel_scheme" where
  "k_yield c k =
     (let k1 = move_thread_to_end_of_prio_q c k (current k)
      in case get_next_ready_thread c k1 of
           (t, k2) \<Rightarrow> if current k2 = t then k2 else Swap c k2)"

definition k_sleep :: "kconfig \<Rightarrow> 'z kernel_scheme \<Rightarrow> int \<Rightarrow> 'z kernel_scheme" where
  "k_sleep c k duration =
     (if duration = 0 then k_yield c k
      else let ticks = TICK_ALIGN + ms_to_ticks c duration;
               k1 = remove_thread_from_ready_q c k (current k);
               k2 = add_thread_timeout k1 (current k) NULL ticks
           in Swap c k2)"

definition k_wakeup :: "kconfig \<Rightarrow> 'z kernel_scheme \<Rightarrow> tid \<Rightarrow> 'z kernel_scheme" where
  "k_wakeup c k t =
     (if is_thread_pending k t then k
      else case abort_thread_timeout k t of (rc, k1) \<Rightarrow>
        if rc < 0 then k1
        else let k2 = ready_thread c k1 t
             in if in_isr k2 then k2 else reschedule_threads c k2)"

definition k_current_get :: "'z kernel_scheme \<Rightarrow> tid" where
  "k_current_get k = current k"

definition k_is_preempt_thread :: "'z kernel_scheme \<Rightarrow> bool" where
  "k_is_preempt_thread k \<longleftrightarrow> \<not> in_isr k \<and> is_preempt k (current k)"

section \<open>The invariant\<close>

text \<open>
  \<open>X\<close> holds the threads that are not in the scheduler's hands: addresses that are no initialised
  thread, and a thread that an operation has taken off one queue and not yet put on another.
  Between operations of the kernel \<open>X\<close> holds no live thread.
\<close>

definition ready_iff_queued :: "tid set \<Rightarrow> 'z kernel_scheme \<Rightarrow> bool" where
  "ready_iff_queued X k \<longleftrightarrow> (\<forall>t. t \<notin> X \<longrightarrow>
     (is_thread_ready k t \<longleftrightarrow> (\<exists>i. t \<in> set (queues k (ReadyQ i)))))"

definition timeout_owner :: "tid set \<Rightarrow> 'z kernel_scheme \<Rightarrow> toid \<Rightarrow> bool" where
  "timeout_owner X k x \<longleftrightarrow>
     (case x of
        ThreadTO t \<Rightarrow> to_thread (timeouts k x) = t \<and> t \<noteq> NULL \<and>
          (t \<notin> X \<longrightarrow> to_wait_q (timeouts k x) \<noteq> NULL \<longrightarrow>
             t \<in> set (queues k (WaitQ (to_wait_q (timeouts k x)))))
      | _ \<Rightarrow> to_thread (timeouts k x) = NULL)"

definition sched_inv :: "kconfig \<Rightarrow> tid set \<Rightarrow> 'z kernel_scheme \<Rightarrow> bool" where
  "sched_inv c X k \<longleftrightarrow> rq_inv c k \<and> timeout_inv k \<and> NULL \<in> X \<and>
     ready_iff_queued X k \<and>
     (\<forall>t \<in> X. \<forall>q. t \<notin> set (queues k q)) \<and>
     (\<forall>w. \<forall>t \<in> set (queues k (WaitQ w)). is_thread_pending k t) \<and>
     (\<forall>x \<in> set (timeout_q k). timeout_owner X k x) \<and>
     (\<forall>t. t \<notin> X \<longrightarrow> valid_prio c (prio (thread k t)))"

text \<open>The idle thread is always ready, so there is always a thread to run.\<close>

definition idle_ready :: "kconfig \<Rightarrow> tid set \<Rightarrow> 'z kernel_scheme \<Rightarrow> bool" where
  "idle_ready c X k \<longleftrightarrow> idle_thread c \<notin> X \<and> is_thread_ready k (idle_thread c)"

section \<open>Frame rules\<close>

lemma rq_inv_upd_prio:
  "(\<And>i. t \<notin> set (queues k (ReadyQ i))) \<Longrightarrow> rq_inv c k \<Longrightarrow> rq_inv c (upd_thread k t f)"
  by (auto simp: rq_inv_def rq_wf_def queues_wf_def highest_q_def ready_bit_def)

lemma rq_inv_cong:
  assumes "queues k' = queues k" "prio_bmap k' = prio_bmap k" "cache k' = cache k"
    "\<And>t. prio (thread k' t) = prio (thread k t)"
  shows "rq_inv c k' \<longleftrightarrow> rq_inv c k"
  using assms by (simp add: rq_inv_def rq_wf_def queues_wf_def highest_q_def ready_bit_def)

lemma rq_inv_upd_thread:
  "(\<And>th. prio (f th) = prio th) \<Longrightarrow> rq_inv c (upd_thread k t f) \<longleftrightarrow> rq_inv c k"
  by (rule rq_inv_cong) auto

lemma rq_inv_waitq:
  assumes "rq_inv c k" "queues_wf k'" "\<And>i. queues k' (ReadyQ i) = queues k (ReadyQ i)"
    "prio_bmap k' = prio_bmap k" "cache k' = cache k" "thread k' = thread k"
  shows "rq_inv c k'"
  using assms by (simp add: rq_inv_def rq_wf_def highest_q_def ready_bit_def)

text \<open>The wait-queue insertion of \<^verbatim>\<open>_pend_thread\<close> is insertion by priority.\<close>

lemma wait_q_insert:
  "fst (list_insert_at (\<lambda>s node. (is_wait_q_insert_point k node (prio (thread k t)), s)) () t q) =
     insert_by_prio (\<lambda>x. prio (thread k x)) t q"
proof (induction q)
  case Nil
  then show ?case by (simp add: insert_by_prio_def)
next
  case (Cons x q)
  then show ?case
    by (auto simp: insert_by_prio_def is_wait_q_insert_point_def is_prio_higher_def case_prod_beta)
qed

lemma set_insert_by_prio [simp]: "set (insert_by_prio f t q) = insert t (set q)"
  unfolding insert_by_prio_def
  by (metis Un_insert_right list.simps(15) set_append takeWhile_dropWhile_id)

lemma distinct_insert_by_prio [simp]: "distinct (insert_by_prio f t q) \<longleftrightarrow> t \<notin> set q \<and> distinct q"
proof -
  have "mset (insert_by_prio f t q) = mset (t # q)" unfolding insert_by_prio_def
    by (metis add_mset_add_single mset.simps(2) mset_append takeWhile_dropWhile_id union_mset_add_mset_right)
  then show ?thesis by (metis distinct.simps(2) mset_eq_imp_distinct_iff)
qed

lemma timeout_owner_cong:
  assumes "timeouts k' = timeouts k" "\<And>w. queues k' (WaitQ w) = queues k (WaitQ w)"
  shows "timeout_owner X k' x \<longleftrightarrow> timeout_owner X k x"
  using assms by (cases x) (simp_all add: timeout_owner_def)

text \<open>The consequences of the invariant that the proofs use.\<close>

lemma sched_invD:
  assumes "sched_inv c X k"
  shows "rq_inv c k" "queues_wf k" "rq_wf c k" "timeout_inv k" "NULL \<in> X" "ready_iff_queued X k"
    and "\<And>t q. t \<in> X \<Longrightarrow> t \<notin> set (queues k q)"
    and "\<And>t w. t \<in> set (queues k (WaitQ w)) \<Longrightarrow> is_thread_pending k t"
    and "\<And>x. x \<in> set (timeout_q k) \<Longrightarrow> timeout_owner X k x"
    and "\<And>t. t \<notin> X \<Longrightarrow> valid_prio c (prio (thread k t))"
  using assms by (auto simp: sched_inv_def rq_inv_def)

lemma readyq_ready:
  "sched_inv c X k \<Longrightarrow> t \<in> set (queues k (ReadyQ i)) \<Longrightarrow> is_thread_ready k t"
  unfolding sched_inv_def ready_iff_queued_def by metis

lemma ready_in_readyq:
  assumes "sched_inv c X k" "t \<notin> X" "is_thread_ready k t"
  shows "t \<in> set (queues k (ReadyQ (get_ready_q_q_index c (prio (thread k t)))))"
proof -
  obtain i where i: "t \<in> set (queues k (ReadyQ i))"
    using assms by (auto simp: sched_inv_def ready_iff_queued_def)
  then show ?thesis using in_readyq_index[OF sched_invD(3)[OF assms(1)] i] by simp
qed

lemma pending_not_ready: "is_thread_pending k t \<Longrightarrow> \<not> is_thread_ready k t"
  by (simp add: pending_bit ready_bits)

lemma unqueued:
  assumes "sched_inv c X k" "\<not> is_thread_pending k t" "\<not> is_thread_ready k t"
  shows "t \<notin> set (queues k q)"
  using sched_invD(8)[OF assms(1)] readyq_ready[OF assms(1)] assms(2,3) by (cases q) auto

section \<open>Every operation keeps the invariant\<close>

text \<open>
  An update of a thread that touches neither the flags nor the priority.
\<close>

lemma sched_inv_upd_thread:
  assumes "sched_inv c X k" "\<And>th. flags (f th) = flags th" "\<And>th. prio (f th) = prio th"
  shows "sched_inv c X (upd_thread k t f)"
  using assms unfolding sched_inv_def ready_iff_queued_def rq_inv_upd_thread[OF assms(3)]
  by (simp add: timeout_owner_cong[of "upd_thread k t f" k] ready_bits pending_bit)

lemma set_return_value_inv [intro]:
  "sched_inv c X k \<Longrightarrow> sched_inv c X (set_thread_return_value k t v)"
  "sched_inv c X k \<Longrightarrow> sched_inv c X (set_thread_return_value_with_data k t v d)"
  by (simp_all add: mark_defs sched_inv_upd_thread)

lemma sched_inv_current [simp]: "sched_inv c X (k\<lparr>current := t\<rparr>) \<longleftrightarrow> sched_inv c X k"
proof -
  have "rq_inv c (k\<lparr>current := t\<rparr>) \<longleftrightarrow> rq_inv c k" by (rule rq_inv_cong) auto
  then show ?thesis
    by (simp add: sched_inv_def ready_iff_queued_def timeout_owner_cong[of "k\<lparr>current := t\<rparr>" k]
        ready_bits pending_bit)
qed

lemma unpend_thread_inv:
  assumes inv: "sched_inv c X k" and t: "is_thread_pending k t"
  shows "sched_inv c (insert t X) (unpend_thread k t)"
proof -
  note D = sched_invD[OF inv]
  let ?k = "unlink_node k t" and ?f = "\<lambda>th. th\<lparr>flags := flags th AND NOT K_PENDING\<rparr>"
  have nr: "t \<notin> set (queues k (ReadyQ i))" for i
    using readyq_ready[OF inv] pending_not_ready[OF t] by blast
  have "rq_inv c ?k"
    by (rule rq_inv_waitq[OF D(1) queues_wf_unlink[OF D(2)]]) (simp_all add: nr remove1_idem)
  then have "rq_inv c (upd_thread ?k t ?f)" by (simp add: rq_inv_upd_thread)
  moreover have "timeout_owner (insert t X) (upd_thread ?k t ?f) x" if "x \<in> set (timeout_q k)" for x
    using D(9)[OF that] by (auto simp: timeout_owner_def split: toid.splits)
  moreover have "ready_iff_queued (insert t X) (upd_thread ?k t ?f)"
    using D(6) by (auto simp: ready_iff_queued_def ready_bits)
  ultimately show ?thesis
    using D unlinked[OF D(2), of t]
    by (auto simp: sched_inv_def unpend_thread_def mark_thread_as_not_pending_def pending_bit
        dest: set_remove1D)
qed

lemma unpend_first_eq:
  "queues k (WaitQ w) = t # ts \<Longrightarrow> unpend_first_thread k w = (t, unpend_thread k t)"
  by (simp add: unpend_first_thread_def unpend_thread_def)

lemma unpend_first_inv:
  assumes inv: "sched_inv c X k" and q: "queues k (WaitQ w) = t # ts"
  shows "unpend_first_thread k w = (t, unpend_thread k t)" "sched_inv c (insert t X) (unpend_thread k t)"
    "t \<notin> X" "t \<noteq> NULL" "is_thread_pending k t" "valid_prio c (prio (thread k t))"
proof -
  have t: "t \<in> set (queues k (WaitQ w))" using q by simp
  show "unpend_first_thread k w = (t, unpend_thread k t)" by (rule unpend_first_eq[OF q])
  show p: "is_thread_pending k t" by (rule sched_invD(8)[OF inv t])
  show "sched_inv c (insert t X) (unpend_thread k t)" by (rule unpend_thread_inv[OF inv p])
  show x: "t \<notin> X" using sched_invD(7)[OF inv] t by blast
  show "t \<noteq> NULL" using x sched_invD(5)[OF inv] by metis
  show "valid_prio c (prio (thread k t))" by (rule sched_invD(10)[OF inv x])
qed

lemma abort_thread_timeout_inv:
  assumes inv: "sched_inv c X k" and t: "\<And>q. t \<notin> set (queues k q)"
  shows "sched_inv c (insert t X) (snd (abort_thread_timeout k t))"
proof -
  note D = sched_invD[OF inv]
  let ?k = "snd (abort_timeout k (ThreadTO t))"
  have "rq_inv c ?k" using D(1) rq_inv_cong[of ?k k] by simp
  moreover have "timeout_owner (insert t X) ?k x" if "x \<in> set (timeout_q ?k)" for x
  proof -
    have "x \<in> set (timeout_q k)"
      using that by (cases "delta k (ThreadTO t) = -1")
        (auto simp: abort_inactive timeout_q_abort dest: set_remove1D)
    from D(9)[OF this] show ?thesis by (auto simp: timeout_owner_def split: toid.splits)
  qed
  moreover have "ready_iff_queued (insert t X) ?k"
    using D(6) by (auto simp: ready_iff_queued_def ready_bits active_abort[OF D(4)])
  ultimately show ?thesis using D t
    by (auto simp: sched_inv_def abort_thread_timeout_def pending_bit intro: abort_timeout_inv)
qed

lemma ready_thread_inv:
  assumes inv: "sched_inv c X k" and t: "t \<in> X" "t \<noteq> NULL" "valid_prio c (prio (thread k t))"
    and to: "delta k (ThreadTO t) = -1 \<or> to_wait_q (timeouts k (ThreadTO t)) = NULL"
  shows "sched_inv c (X - {t}) (ready_thread c k t)"
proof -
  note D = sched_invD[OF inv]
  let ?k1 = "mark_thread_as_started k t" and ?k = "ready_thread c k t"
  have q1: "queues ?k1 = queues k" by (simp add: mark_defs)
  have "rq_inv c ?k1" using D(1) by (simp add: mark_defs rq_inv_upd_thread)
  then have rq: "rq_inv c ?k"
    using D(7)[OF t(1)] t(2,3) by (auto simp: ready_thread_def Let_def mark_defs intro!: add_thread_inv)
  have th: "thread ?k = thread ?k1" "timeouts ?k = timeouts k" "timeout_q ?k = timeout_q k"
    by (auto simp: ready_thread_def Let_def mark_defs)
  have wq: "queues ?k (WaitQ w) = queues k (WaitQ w)" for w
    by (simp add: ready_thread_def Let_def queues_add q1)
  have rd: "is_thread_ready ?k u \<longleftrightarrow> is_thread_ready ?k1 u" for u
    by (simp add: ready_bits th mark_defs)
  have other: "is_thread_ready ?k1 u \<longleftrightarrow> is_thread_ready k u" if "u \<noteq> t" for u
    using that by (simp add: ready_bits mark_defs)
  have rdq: "(\<exists>i. u \<in> set (queues ?k (ReadyQ i))) \<longleftrightarrow>
      (u = t \<and> is_thread_ready ?k1 t) \<or> (\<exists>i. u \<in> set (queues k (ReadyQ i)))" for u
    by (auto simp: ready_thread_def Let_def queues_add q1) metis+
  have "ready_iff_queued (X - {t}) ?k"
    using D(6) D(7)[OF t(1)] other unfolding ready_iff_queued_def rd rdq by (metis DiffI singletonD)
  moreover have "timeout_owner (X - {t}) ?k x" if x: "x \<in> set (timeout_q k)" for x
  proof -
    have "delta k x \<noteq> -1" using x D(4) by (simp add: timeout_inv_def)
    then show ?thesis using D(9)[OF x] to by (auto simp: timeout_owner_def th wq split: toid.splits)
  qed
  moreover have "u \<notin> set (queues ?k q)" if "u \<in> X - {t}" for u q
    using D(7)[of u] that by (auto simp: ready_thread_def Let_def queues_add q1)
  moreover have "is_thread_pending ?k u" if "u \<in> set (queues k (WaitQ w))" for u w
    using D(8)[OF that] by (auto simp: pending_bit th mark_defs bit_ops_flags)
  moreover have "timeout_inv ?k" using D(4) timeout_inv_cong[OF th(3,2)] by simp
  moreover have "valid_prio c (prio (thread ?k u))" if "u \<notin> X - {t}" for u
    using D(10)[of u] t(3) that by (auto simp: th mark_defs)
  ultimately show ?thesis using D(5) t(2) rq by (simp add: sched_inv_def th(3) wq)
qed

lemma remove_ready_inv:
  assumes inv: "sched_inv c X k" and t: "t \<notin> X" "is_thread_ready k t"
  shows "sched_inv c (insert t X) (remove_thread_from_ready_q c k t)"
proof -
  note D = sched_invD[OF inv]
  let ?k = "remove_thread_from_ready_q c k t"
  have rq: "rq_inv c ?k" by (rule remove_thread_inv[OF D(1) ready_in_readyq[OF inv t]])
  have nw: "t \<notin> set (queues k (WaitQ w))" for w
    using D(8) pending_not_ready t(2) by blast
  have rdq: "(\<exists>i. u \<in> set (queues ?k (ReadyQ i))) \<longleftrightarrow> u \<noteq> t \<and> (\<exists>i. u \<in> set (queues k (ReadyQ i)))" for u
    using D(2) by (auto simp: queues_remove queues_wf_def)
  have "ready_iff_queued (insert t X) ?k"
    using D(6) unfolding ready_iff_queued_def rdq by (simp add: ready_bits)
  moreover have "timeout_owner (insert t X) ?k x" if "x \<in> set (timeout_q k)" for x
    using D(9)[OF that] by (auto simp: timeout_owner_def queues_remove split: toid.splits)
  ultimately show ?thesis using D rq unlinked[OF D(2), of t]
    by (auto simp: sched_inv_def queues_remove pending_bit nw remove1_idem dest: set_remove1D)
qed

text \<open>Priority change; a pending thread keeps its place in its wait queue.\<close>

lemma thread_priority_set_inv:
  assumes inv: "sched_inv c X k" and t: "t \<notin> X" and p: "valid_prio c p"
  shows "sched_inv c X (thread_priority_set c k t p)"
proof (cases "is_thread_ready k t")
  case True
  note D = sched_invD[OF inv]
  let ?k1 = "remove_thread_from_ready_q c k t" and ?f = "\<lambda>th. th\<lparr>prio := p\<rparr>"
  let ?k2 = "upd_thread ?k1 t ?f" and ?k = "thread_priority_set c k t p"
  have k: "?k = add_thread_to_ready_q c ?k2 t" using True by (simp add: thread_priority_set_def Let_def)
  have i1: "sched_inv c (insert t X) ?k1" by (rule remove_ready_inv[OF inv t True])
  have nq: "t \<notin> set (queues ?k1 q)" for q using sched_invD(7)[OF i1] by blast
  have t0: "t \<noteq> NULL" using t D(5) by metis
  have rq: "rq_inv c ?k"
    unfolding k using rq_inv_upd_prio[OF nq sched_invD(1)[OF i1]] nq t0 p by (auto intro!: add_thread_inv)
  have wq: "queues ?k (WaitQ w) = queues k (WaitQ w)" for w
  proof -
    have "t \<notin> set (queues k (WaitQ w))" using D(8)[of t w] pending_not_ready[of k t] True by blast
    then show ?thesis by (simp add: k queues_add queues_remove remove1_idem)
  qed
  have rdq: "(\<exists>i. u \<in> set (queues ?k (ReadyQ i))) \<longleftrightarrow> u = t \<or> (\<exists>i. u \<in> set (queues ?k1 (ReadyQ i)))" for u
    by (auto simp: k queues_add) metis
  have "ready_iff_queued X ?k"
    using sched_invD(6)[OF i1] True unfolding ready_iff_queued_def rdq by (auto simp: k ready_bits)
  moreover have "timeout_owner X ?k x \<longleftrightarrow> timeout_owner X k x" for x
    by (rule timeout_owner_cong) (simp_all add: wq, simp add: k)
  moreover have "u \<notin> set (queues ?k q)" if "u \<in> X" for u q
    using sched_invD(7)[OF i1, of u] that t by (auto simp: k queues_add)
  moreover have "is_thread_pending ?k u" if "u \<in> set (queues k (WaitQ w))" for u w
    using D(8)[OF that] by (auto simp: k pending_bit)
  moreover have "valid_prio c (prio (thread ?k u))" if "u \<notin> X" for u
    using D(10)[OF that] p by (simp add: k)
  moreover have "timeout_inv ?k" "timeout_q ?k = timeout_q k" using D(4) by (simp_all add: k)
  ultimately show ?thesis using D(5,9) rq by (simp add: sched_inv_def wq)
next
  case False
  note D = sched_invD[OF inv]
  let ?k = "upd_thread k t (\<lambda>th. th\<lparr>prio := p\<rparr>)"
  have "rq_inv c ?k" using D(1) rq_inv_upd_prio readyq_ready[OF inv] False by blast
  moreover have "timeout_owner X ?k x \<longleftrightarrow> timeout_owner X k x" for x by (rule timeout_owner_cong) simp_all
  ultimately show ?thesis using False D p
    by (auto simp: thread_priority_set_def sched_inv_def ready_iff_queued_def ready_bits pending_bit)
qed

text \<open>
  Putting a thread on the timeout queue.  The wait queue it names, if any, must be the one the
  thread is on.
\<close>

lemma add_thread_timeout_inv:
  assumes inv: "sched_inv c X k" and t: "t \<noteq> NULL" "delta k (ThreadTO t) = -1"
    and n: "0 \<le> n" "n < 2 ^ 31" and nr: "t \<in> X \<or> is_thread_pending k t"
    and w: "w = NULL \<or> t \<in> set (queues k (WaitQ w))" and p: "valid_prio c (prio (thread k t))"
  shows "sched_inv c (X - {t}) (add_thread_timeout k t w n)"
proof -
  note D = sched_invD[OF inv]
  let ?k = "add_timeout k t (ThreadTO t) w n"
  have e: "expiry k (ThreadTO t) = None" using expiry_active[OF D(4)] t(2) by simp
  have ti: "timeout_inv ?k" by (rule add_timeout_inv[OF D(4) e n])
  have "rq_inv c ?k" using D(1) rq_inv_cong[of ?k k] by simp
  moreover have nrq: "t \<notin> set (queues k (ReadyQ i))" for i
    using nr D(7) readyq_ready[OF inv] pending_not_ready by blast
  moreover have "ready_iff_queued (X - {t}) ?k"
    using D(6) nrq unfolding ready_iff_queued_def
    by (auto simp: ready_bits active_add[OF D(4) e n])
  moreover have "timeout_owner (X - {t}) ?k x" if "x \<in> set (timeout_q ?k)" for x
    using that D(9)[of x] t w by (cases "x = ThreadTO t") (auto simp: timeout_q_add timeout_owner_def split: toid.splits)
  ultimately show ?thesis using D ti p t
    by (auto simp: sched_inv_def add_thread_timeout_def pending_bit)
qed

lemma pend_thread_inv:
  assumes inv: "sched_inv c X k" and t: "t \<in> X" "t \<noteq> NULL" "valid_prio c (prio (thread k t))"
    and to: "delta k (ThreadTO t) = -1"
    and n: "timeout \<noteq> K_FOREVER \<Longrightarrow> 0 \<le> ms_to_ticks c timeout \<and> ms_to_ticks c timeout < 2 ^ 31 - 1"
  shows "sched_inv c (X - {t}) (pend_thread c k t w timeout)"
proof -
  note D = sched_invD[OF inv]
  let ?pr = "\<lambda>x. prio (thread k x)"
  let ?k1 = "upd_queue k (WaitQ w) (insert_by_prio ?pr t)" and ?f = "\<lambda>th. th\<lparr>flags := flags th OR K_PENDING\<rparr>"
  let ?k2 = "upd_thread ?k1 t ?f"
  have nq: "t \<notin> set (queues k q)" for q using D(7)[OF t(1)] .
  have "queues_wf ?k1" using D(2) nq t(2) by (auto simp: queues_wf_def split: if_splits)
  then have "rq_inv c ?k1" by (rule rq_inv_waitq[OF D(1)]) simp_all
  then have rq: "rq_inv c ?k2" by (simp add: rq_inv_upd_thread)
  have "ready_iff_queued (X - {t}) ?k2"
    using D(6) nq by (auto simp: ready_iff_queued_def ready_bits bit_ops_flags)
  moreover have "timeout_owner (X - {t}) ?k2 x" if x: "x \<in> set (timeout_q k)" for x
  proof -
    have "x \<noteq> ThreadTO t" using to x D(4) by (auto simp: timeout_inv_def)
    then show ?thesis using D(9)[OF x] by (auto simp: timeout_owner_def split: toid.splits)
  qed
  ultimately have i2: "sched_inv c (X - {t}) ?k2"
    using D rq t by (auto simp: sched_inv_def pending_bit bit_ops_flags split: if_splits)
  have k: "pend_thread c k t w timeout =
      (if timeout \<noteq> K_FOREVER then add_thread_timeout ?k2 t w (1 + ms_to_ticks c timeout) else ?k2)"
    unfolding pend_thread_def wait_q_insert by (simp add: mark_defs TICK_ALIGN_def Let_def)
  show ?thesis
    using i2 add_thread_timeout_inv[OF i2, of t "1 + ms_to_ticks c timeout" w] n to t(2,3)
    by (auto simp: k pending_bit bit_ops_flags)
qed

section \<open>The next thread\<close>

definition kernel_inv :: "kconfig \<Rightarrow> tid set \<Rightarrow> 'z kernel_scheme \<Rightarrow> bool" where
  "kernel_inv c X k \<longleftrightarrow> sched_inv c X k \<and> idle_ready c X k"

text \<open>A thread is executing: the code is not in an interrupt and the current thread is runnable.\<close>

definition thread_ctx :: "tid set \<Rightarrow> 'z kernel_scheme \<Rightarrow> bool" where
  "thread_ctx X k \<longleftrightarrow> \<not> in_isr k \<and> current k \<notin> X \<and> is_thread_ready k (current k)"

lemma idle_queued:
  assumes "kernel_inv c X k"
  shows "idle_thread c \<in> set (ready_list c k)"
proof -
  have inv: "sched_inv c X k" "idle_thread c \<notin> X" "is_thread_ready k (idle_thread c)"
    using assms by (auto simp: kernel_inv_def idle_ready_def)
  show ?thesis using ready_in_readyq[OF inv] set_ready_list[OF sched_invD(3)[OF inv(1)]] by blast
qed

lemma in_ready_list:
  assumes "sched_inv c X k"
  shows "t \<in> set (ready_list c k) \<longleftrightarrow> t \<notin> X \<and> is_thread_ready k t"
  using set_ready_list[OF sched_invD(3)[OF assms], of t] readyq_ready[OF assms, of t]
    ready_in_readyq[OF assms, of t] sched_invD(7)[OF assms, of t] by blast

lemma next_thread:
  assumes "kernel_inv c X k"
  shows "get_next_ready_thread c k = (hd (ready_list c k), k\<lparr>cache := hd (ready_list c k)\<rparr>)"
    and "sched_inv c X (k\<lparr>cache := hd (ready_list c k)\<rparr>)"
proof -
  have inv: "sched_inv c X k" and ne: "ready_list c k \<noteq> []"
    using assms idle_queued[OF assms] by (auto simp: kernel_inv_def)
  note D = sched_invD[OF inv]
  obtain i where "queues k (ReadyQ i) \<noteq> []"
    using ne set_ready_list[OF D(3)] by (metis hd_in_set length_greater_0_conv length_pos_if_in_set)
  then obtain h where h: "highest_q k h" using highest_q_exists by blast
  show eq: "get_next_ready_thread c k = (hd (ready_list c k), k\<lparr>cache := hd (ready_list c k)\<rparr>)"
    using get_next_eq[OF D(1) h] ready_list_hd[OF D(1) ne] by simp
  have "rq_inv c (k\<lparr>cache := hd (ready_list c k)\<rparr>)" using get_next_inv[OF D(1) h] by (simp add: eq)
  moreover have "timeout_owner X (k\<lparr>cache := hd (ready_list c k)\<rparr>) x \<longleftrightarrow> timeout_owner X k x" for x
    by (rule timeout_owner_cong) simp_all
  moreover have "timeout_inv (k\<lparr>cache := hd (ready_list c k)\<rparr>)"
    using D(4) by (simp add: timeout_inv_def expiries_def)
  ultimately show "sched_inv c X (k\<lparr>cache := hd (ready_list c k)\<rparr>)" using inv
    by (simp add: sched_inv_def ready_iff_queued_def ready_bits pending_bit)
qed

lemma highest_ready_prio_hd:
  assumes "kernel_inv c X k"
  shows "get_highest_ready_prio c k = prio (thread k (hd (ready_list c k)))"
proof -
  have inv: "sched_inv c X k" and ne: "ready_list c k \<noteq> []"
    using assms idle_queued[OF assms] by (auto simp: kernel_inv_def)
  note D = sched_invD[OF inv]
  let ?h = "hd (ready_list c k)"
  have "?h \<in> set (ready_list c k)" using ne by simp
  then obtain i where i: "?h \<in> set (queues k (ReadyQ i))" using set_ready_list[OF D(3)] by blast
  then obtain j where j: "highest_q k j" using highest_q_exists by (metis list.set_cases list.discI)
  then have "hd (queues k (ReadyQ j)) = ?h"
    using get_next_eq[OF D(1) j] next_thread(1)[OF assms] by simp
  then have m: "?h \<in> set (queues k (ReadyQ j))" using j by (metis hd_in_set highest_q_def)
  have "int j = prio (thread k ?h) + int (NUM_COOP_PRIORITIES c)"
    using in_readyq_index[OF D(3) m] in_readyq_valid[OF D(3) m]
    by (simp add: get_ready_q_q_index_def valid_prio_def)
  then show ?thesis using highest_q_prio[OF D(3) j] by simp
qed

lemma pendsv_eq:
  "kernel_inv c X k \<Longrightarrow> pendsv c k = k\<lparr>cache := hd (ready_list c k), current := hd (ready_list c k)\<rparr>"
  by (simp add: pendsv_def next_thread)

lemma pendsv_frame [simp]:
  "in_isr (pendsv c k) = in_isr k" "queues (pendsv c k) = queues k" "thread (pendsv c k) = thread k"
  "timeouts (pendsv c k) = timeouts k" "timeout_q (pendsv c k) = timeout_q k"
  by (simp_all add: pendsv_def case_prod_beta)

lemma is_thread_ready_cong:
  "flags (thread k' t) = flags (thread k t) \<Longrightarrow> delta k' (ThreadTO t) = delta k (ThreadTO t) \<Longrightarrow>
     is_thread_ready k' t \<longleftrightarrow> is_thread_ready k t"
  by (simp add: ready_bits)

lemma ready_list_frame [simp]:
  "ready_list c (pendsv c k) = ready_list c k" "ready_list c (upd_thread k t f) = ready_list c k"
  "ready_list c (k\<lparr>current := x\<rparr>) = ready_list c k" "ready_list c (k\<lparr>cache := x\<rparr>) = ready_list c k"
  by (rule ready_list_cong; simp)+

lemma pendsv_inv:
  assumes "kernel_inv c X k"
  shows "kernel_inv c X (pendsv c k)" "current (pendsv c k) = hd (ready_list c k)"
    "hd (ready_list c k) \<notin> X" "is_thread_ready (pendsv c k) (hd (ready_list c k))"
proof -
  have e: "is_thread_ready (pendsv c k) t \<longleftrightarrow> is_thread_ready k t" for t
    by (rule is_thread_ready_cong) simp_all
  have "hd (ready_list c k) \<in> set (ready_list c k)" using idle_queued[OF assms] by (intro hd_in_set) auto
  then show "hd (ready_list c k) \<notin> X" "is_thread_ready (pendsv c k) (hd (ready_list c k))"
    using in_ready_list[of c X k] assms by (simp_all add: e kernel_inv_def)
  show "current (pendsv c k) = hd (ready_list c k)" by (simp add: pendsv_eq[OF assms])
  show "kernel_inv c X (pendsv c k)"
    using next_thread(2)[OF assms] assms
    by (simp add: kernel_inv_def idle_ready_def e) (simp add: pendsv_eq[OF assms])
qed

lemma Swap_frame [simp]:
  "in_isr (Swap c k) = in_isr k" "queues (Swap c k) = queues k" "timeouts (Swap c k) = timeouts k"
  "timeout_q (Swap c k) = timeout_q k" "ready_list c (Swap c k) = ready_list c k"
  "prio (thread (Swap c k) t) = prio (thread k t)" "flags (thread (Swap c k) t) = flags (thread k t)"
  "sched_locked (thread (Swap c k) t) = sched_locked (thread k t)"
  "swap_data (thread (Swap c k) t) = swap_data (thread k t)"
  by (simp_all add: Swap_def mark_defs)

lemma is_thread_ready_Swap [simp]: "is_thread_ready (Swap c k) t \<longleftrightarrow> is_thread_ready k t"
  by (rule is_thread_ready_cong) simp_all

lemma kernel_inv_upd_thread:
  assumes "kernel_inv c X k" "\<And>th. flags (f th) = flags th" "\<And>th. prio (f th) = prio th"
  shows "kernel_inv c X (upd_thread k t f)"
  using assms sched_inv_upd_thread[of c X k f t] is_thread_ready_cong[of "upd_thread k t f" _ k]
  by (simp add: kernel_inv_def idle_ready_def)

text \<open>The context switch runs the first thread of the ready list, whatever was running before.\<close>

lemma Swap_inv:
  assumes "kernel_inv c X k"
  shows "kernel_inv c X (Swap c k)" "current (Swap c k) = hd (ready_list c k)"
    "current (Swap c k) \<notin> X" "is_thread_ready (Swap c k) (current (Swap c k))"
proof -
  let ?k = "set_thread_return_value k (current k) (- EAGAIN)"
  have i: "kernel_inv c X ?k" unfolding mark_defs by (rule kernel_inv_upd_thread[OF assms]) simp_all
  have r: "ready_list c ?k = ready_list c k" by (simp add: mark_defs)
  show "kernel_inv c X (Swap c k)" "current (Swap c k) = hd (ready_list c k)"
    "current (Swap c k) \<notin> X" "is_thread_ready (Swap c k) (current (Swap c k))"
    using pendsv_inv[OF i] by (simp_all add: Swap_def r)
qed

lemma Swap_return_value:
  "swap_return_value (thread (Swap c k) t) =
     (if t = current k then - EAGAIN else swap_return_value (thread k t))"
  by (simp add: Swap_def mark_defs)

text \<open>
  The scheduling guarantee: the running thread is ready and, unless it is cooperative or holds the
  scheduler lock, no ready thread has a higher priority.
\<close>

definition well_scheduled :: "kconfig \<Rightarrow> tid set \<Rightarrow> 'z kernel_scheme \<Rightarrow> bool" where
  "well_scheduled c X k \<longleftrightarrow> thread_ctx X k \<and>
     (is_preempt k (current k) \<longrightarrow>
        (\<forall>t. t \<notin> X \<and> is_thread_ready k t \<longrightarrow> prio (thread k (current k)) \<le> prio (thread k t)))"

lemma hd_ready_highest:
  assumes "sched_inv c X k" "t \<notin> X" "is_thread_ready k t"
  shows "prio (thread k (hd (ready_list c k))) \<le> prio (thread k t)"
  using assms in_ready_list[OF assms(1), of t] ready_list_sorted[OF sched_invD(3)[OF assms(1)]]
  by (cases "ready_list c k") auto

lemma Swap_well_scheduled:
  assumes "kernel_inv c X k" "\<not> in_isr k"
  shows "well_scheduled c X (Swap c k)"
  using Swap_inv[OF assms(1)] assms hd_ready_highest[of c X k]
  by (auto simp: well_scheduled_def thread_ctx_def kernel_inv_def)

lemma reschedule_inv:
  assumes "kernel_inv c X k"
  shows "kernel_inv c X (reschedule_threads c k)"
  using assms Swap_inv(1)[OF assms] by (simp add: reschedule_threads_def)

lemma reschedule_well_scheduled:
  assumes "kernel_inv c X k" "thread_ctx X k"
  shows "well_scheduled c X (reschedule_threads c k)"
proof (cases "must_switch_threads c k")
  case True
  then show ?thesis using Swap_well_scheduled[OF assms(1)] assms(2) by (simp add: reschedule_threads_def thread_ctx_def)
next
  case False
  then have "is_preempt k (current k) \<longrightarrow>
      prio (thread k (current k)) \<le> prio (thread k (hd (ready_list c k)))"
    by (auto simp: must_switch_threads_def must_switch_to_higher_def is_prio_higher_def
        highest_ready_prio_hd[OF assms(1)])
  then show ?thesis using False assms hd_ready_highest[of c X k]
    by (fastforce simp: well_scheduled_def reschedule_threads_def kernel_inv_def)
qed

lemma reschedule_frame [simp]:
  "in_isr (reschedule_threads c k) = in_isr k" "queues (reschedule_threads c k) = queues k"
  "timeouts (reschedule_threads c k) = timeouts k" "timeout_q (reschedule_threads c k) = timeout_q k"
  "prio (thread (reschedule_threads c k) t) = prio (thread k t)"
  "flags (thread (reschedule_threads c k) t) = flags (thread k t)"
  "swap_data (thread (reschedule_threads c k) t) = swap_data (thread k t)"
  "ready_list c (reschedule_threads c k) = ready_list c k"
  by (simp_all add: reschedule_threads_def)

lemma kernel_inv_current [simp]: "kernel_inv c X (k\<lparr>current := t\<rparr>) \<longleftrightarrow> kernel_inv c X k"
  by (simp add: kernel_inv_def idle_ready_def ready_bits)

section \<open>Ticks\<close>

lemma signed_take_bit_int_id:
  "- (2 ^ n) \<le> x \<Longrightarrow> x < 2 ^ n \<Longrightarrow> signed_take_bit n (x :: int) = x"
  by (simp add: signed_take_bit_int_eq_self)

text \<open>Within range the conversion rounds up to whole ticks.\<close>

lemma ms_to_ticks_ceiling:
  assumes "0 \<le> ms" "ms < 2 ^ 31" "0 \<le> sys_clock_ticks_per_sec c" "sys_clock_ticks_per_sec c < 2 ^ 31"
    and "(ms * sys_clock_ticks_per_sec c + 999) div 1000 < 2 ^ 31"
  shows "ms_to_ticks c ms = (ms * sys_clock_ticks_per_sec c + 999) div 1000"
proof -
  let ?p = "ms * sys_clock_ticks_per_sec c"
  have p: "0 \<le> ?p" "?p \<le> 2 ^ 31 * 2 ^ 31"
    using assms by (auto intro!: mult_mono)
  then have "signed_take_bit 63 ?p = ?p" "signed_take_bit 63 (?p + 999) = ?p + 999"
    by (auto intro!: signed_take_bit_int_id)
  moreover have "(?p + 999) sdiv 1000 = (?p + 999) div 1000"
    using p by (simp add: signed_divide_int_def)
  moreover have "0 \<le> (?p + 999) div 1000" using p by (simp add: pos_imp_zdiv_nonneg_iff)
  ultimately show ?thesis using assms(5) by (simp add: ms_to_ticks_def signed_take_bit_int_id)
qed

text \<open>At up to 1000 ticks a second no duration overflows.\<close>

lemma ms_to_ticks_bounds:
  assumes "0 \<le> ms" "ms < 2 ^ 31 - 1" "0 \<le> sys_clock_ticks_per_sec c" "sys_clock_ticks_per_sec c \<le> 1000"
  shows "0 \<le> ms_to_ticks c ms" "ms_to_ticks c ms < 2 ^ 31 - 1"
    "ms_to_ticks c ms = (ms * sys_clock_ticks_per_sec c + 999) div 1000"
proof -
  have "ms * sys_clock_ticks_per_sec c \<le> ms * 1000" using assms by (intro mult_left_mono) auto
  then have le: "(ms * sys_clock_ticks_per_sec c + 999) div 1000 \<le> ms" by simp
  then show eq: "ms_to_ticks c ms = (ms * sys_clock_ticks_per_sec c + 999) div 1000"
    using assms by (intro ms_to_ticks_ceiling) auto
  show "0 \<le> ms_to_ticks c ms" unfolding eq using assms by (simp add: pos_imp_zdiv_nonneg_iff)
  show "ms_to_ticks c ms < 2 ^ 31 - 1" unfolding eq using le assms by linarith
qed

section \<open>Yield, sleep, wakeup\<close>

lemma ready_list_move:
  assumes inv: "sched_inv c X k" and t: "t \<notin> X" "is_thread_ready k t"
  shows "ready_list c (move_thread_to_end_of_prio_q c k t) =
    insert_by_prio (\<lambda>x. prio (thread k x)) t (remove1 t (ready_list c k))"
proof -
  note D = sched_invD[OF inv]
  let ?i = "get_ready_q_q_index c (prio (thread k t))" and ?k = "remove_thread_from_ready_q c k t"
  have m: "t \<in> set (queues k (ReadyQ ?i))" by (rule ready_in_readyq[OF inv t])
  have "remove1 t (queues k (ReadyQ j)) = queues k (ReadyQ j)" if "j \<noteq> ?i" for j
    using m that D(2) by (metis qid.inject(1) queues_wf_def remove1_idem)
  then have "ready_list c (move_thread_to_end_of_prio_q c k t) = ready_list c (add_thread_to_ready_q c ?k t)"
    by (intro ready_list_cong) (simp add: queues_move[OF D(2) m] queues_add queues_remove)
  also have "\<dots> = insert_by_prio (\<lambda>x. prio (thread k x)) t (ready_list c ?k)"
    using ready_list_add[OF remove_thread_inv[OF D(1) m]] D(10)[OF t(1)] by simp
  finally show ?thesis by (simp add: ready_list_remove[OF D(1)])
qed

lemma move_inv:
  assumes inv: "kernel_inv c X k" and t: "t \<notin> X" "is_thread_ready k t"
  shows "kernel_inv c X (move_thread_to_end_of_prio_q c k t)"
proof -
  have s: "sched_inv c X k" using inv by (simp add: kernel_inv_def)
  note D = sched_invD[OF s]
  let ?k = "move_thread_to_end_of_prio_q c k t"
  have m: "t \<in> set (queues k (ReadyQ (get_ready_q_q_index c (prio (thread k t)))))"
    by (rule ready_in_readyq[OF s t])
  have sets: "set (queues ?k q) = set (queues k q)" for q
    using m D(2) by (auto simp: queues_move[OF D(2) m] queues_wf_def)
  have wq: "queues ?k (WaitQ w) = queues k (WaitQ w)" for w by (simp add: queues_move[OF D(2) m])
  have "timeout_owner X ?k x \<longleftrightarrow> timeout_owner X k x" for x by (rule timeout_owner_cong) (simp_all add: wq)
  then show ?thesis using inv move_thread_inv[OF D(1) m]
    by (simp add: kernel_inv_def sched_inv_def ready_iff_queued_def idle_ready_def ready_bits pending_bit sets wq)
qed

lemma k_yield_eq:
  assumes inv: "kernel_inv c X k" and ctx: "thread_ctx X k"
  shows "kernel_inv c X (k_yield c k)" "well_scheduled c X (k_yield c k)"
    "current (k_yield c k) =
       hd (insert_by_prio (\<lambda>x. prio (thread k x)) (current k) (remove1 (current k) (ready_list c k)))"
proof -
  let ?m = "move_thread_to_end_of_prio_q c k (current k)"
  define n where "n = hd (ready_list c ?m)"
  define k' where "k' = ?m\<lparr>cache := n\<rparr>"
  have s: "sched_inv c X k" and t: "current k \<notin> X" "is_thread_ready k (current k)"
    using inv ctx by (auto simp: thread_ctx_def kernel_inv_def)
  have i: "kernel_inv c X ?m" by (rule move_inv[OF inv t])
  have i': "kernel_inv c X k'"
    using next_thread(2)[OF i] i by (simp add: kernel_inv_def idle_ready_def ready_bits k'_def n_def)
  have y: "k_yield c k = (if current k = n then k' else Swap c k')"
    by (simp add: k_yield_def next_thread(1)[OF i] k'_def n_def)
  have c: "current k' = current k" "n = hd (ready_list c k')" "\<not> in_isr k'"
    using ctx by (simp_all add: k'_def n_def thread_ctx_def)
  show "kernel_inv c X (k_yield c k)" using i' Swap_inv(1)[OF i'] by (simp add: y)
  have "current (k_yield c k) = n" using Swap_inv(2)[OF i'] c by (simp add: y)
  then show "current (k_yield c k) =
      hd (insert_by_prio (\<lambda>x. prio (thread k x)) (current k) (remove1 (current k) (ready_list c k)))"
    using ready_list_move[OF s t] by (simp add: n_def)
  have "is_thread_ready k' (current k)" using t by (simp add: k'_def ready_bits)
  then have "well_scheduled c X k'" if "current k = n"
    using hd_ready_highest[of c X k'] i' c that t(1)
    by (simp add: well_scheduled_def thread_ctx_def kernel_inv_def)
  then show "well_scheduled c X (k_yield c k)"
    using Swap_well_scheduled[OF i' c(3)] by (simp add: y)
qed

lemma idle_other:
  assumes "idle_ready c X k" "idle_thread c \<noteq> t" "flags (thread k' (idle_thread c)) = flags (thread k (idle_thread c))"
    "delta k' (ThreadTO (idle_thread c)) = -1 \<longleftrightarrow> delta k (ThreadTO (idle_thread c)) = -1"
  shows "idle_ready c (insert t X) k'"  "idle_ready c X k'" "idle_ready c (X - {t}) k'"
  using assms by (auto simp: idle_ready_def ready_bits)

lemma ready_inactive: "is_thread_ready k t \<Longrightarrow> delta k (ThreadTO t) = -1"
  by (simp add: ready_bits)

lemma k_sleep_inv:
  assumes inv: "kernel_inv c X k" and ctx: "thread_ctx X k" and ni: "current k \<noteq> idle_thread c"
    and d: "duration \<noteq> 0" and n: "0 \<le> ms_to_ticks c duration" "ms_to_ticks c duration < 2 ^ 31 - 1"
  shows "kernel_inv c X (k_sleep c k duration)" "well_scheduled c X (k_sleep c k duration)"
    "expiry (k_sleep c k duration) = (expiry k)(ThreadTO (current k) \<mapsto> 1 + ms_to_ticks c duration)"
    "ready_list c (k_sleep c k duration) = remove1 (current k) (ready_list c k)"
proof -
  let ?t = "current k"
  let ?k1 = "remove_thread_from_ready_q c k ?t"
  let ?k2 = "add_thread_timeout ?k1 ?t NULL (1 + ms_to_ticks c duration)"
  have s: "sched_inv c X k" and t: "?t \<notin> X" "is_thread_ready k ?t"
    using inv ctx by (auto simp: kernel_inv_def thread_ctx_def)
  have i1: "sched_inv c (insert ?t X) ?k1" by (rule remove_ready_inv[OF s t])
  have t0: "?t \<noteq> NULL" "valid_prio c (prio (thread k ?t))" "delta k (ThreadTO ?t) = -1"
    using t sched_invD(5,10)[OF s] ready_inactive by metis+
  then have "sched_inv c (insert ?t X - {?t}) ?k2"
    using add_thread_timeout_inv[OF i1, of ?t "1 + ms_to_ticks c duration" NULL] n by simp
  then have i2: "sched_inv c X ?k2" using t(1) by simp
  have e: "timeout_inv ?k1" "expiry ?k1 (ThreadTO ?t) = None"
    using sched_invD(4)[OF i1] expiry_active[of ?k1 "ThreadTO ?t"] t0(3) by simp_all
  have "delta ?k2 (ThreadTO (idle_thread c)) = -1 \<longleftrightarrow> delta ?k1 (ThreadTO (idle_thread c)) = -1"
    using active_add[OF e, of "1 + ms_to_ticks c duration"] n ni by (simp add: add_thread_timeout_def)
  then have k2: "kernel_inv c X ?k2"
    using inv i2 ni by (auto simp: kernel_inv_def add_thread_timeout_def intro!: idle_other(2)[of c X k ?t])
  have y: "k_sleep c k duration = Swap c ?k2" using d by (simp add: k_sleep_def TICK_ALIGN_def)
  show "kernel_inv c X (k_sleep c k duration)" "well_scheduled c X (k_sleep c k duration)"
    using Swap_inv(1)[OF k2] Swap_well_scheduled[OF k2] ctx by (simp_all add: y thread_ctx_def add_thread_timeout_def)
  have "expiry ?k1 = expiry k" by (simp add: expiry_def expiries_def fun_eq_iff)
  moreover have "expiry (Swap c ?k2) = expiry ?k2" by (simp add: expiry_def expiries_def fun_eq_iff)
  ultimately show "expiry (k_sleep c k duration) = (expiry k)(ThreadTO ?t \<mapsto> 1 + ms_to_ticks c duration)"
    using expiry_add[OF e, of ?t NULL "1 + ms_to_ticks c duration"] by (simp add: y add_thread_timeout_def)
  have "ready_list c ?k2 = ready_list c ?k1" by (rule ready_list_cong) (simp add: add_thread_timeout_def)
  then show "ready_list c (k_sleep c k duration) = remove1 (current k) (ready_list c k)"
    using ready_list_remove[OF sched_invD(1)[OF s]] by (simp add: y)
qed

end
