(* ===== verification/Wait_Queue.thy ===== *)
theory Wait_Queue
  imports Scheduler
begin

text \<open>
  What the kernel objects use of the scheduler: block the current thread on a wait queue, and take
  the first thread off a wait queue, cancel its timeout and make it ready.  Each of the two is a
  sequence of calls that \<^verbatim>\<open>sem.c\<close>, \<^verbatim>\<open>mutex.c\<close>, \<^verbatim>\<open>msg_q.c\<close>, \<^verbatim>\<open>fifo.c\<close>, \<^verbatim>\<open>lifo.c\<close>,
  \<^verbatim>\<open>stack.c\<close> and \<^verbatim>\<open>mem_slab.c\<close> repeat; their joint effect is proved here once.  The locale
  \<open>blocking_resource\<close> is the contract those objects share.
\<close>

section \<open>Blocking\<close>

text \<open>A timeout argument the kernel can honour: forever, or ticks that fit 32 bits.\<close>

definition timeout_ok :: "kconfig \<Rightarrow> int \<Rightarrow> bool" where
  "timeout_ok c timeout \<longleftrightarrow> timeout = K_FOREVER \<or>
     (0 \<le> ms_to_ticks c timeout \<and> ms_to_ticks c timeout < 2 ^ 31 - 1)"

text \<open>The current thread may block: it is a running thread other than the idle thread.\<close>

definition may_block :: "kconfig \<Rightarrow> tid set \<Rightarrow> 'z kernel_scheme \<Rightarrow> bool" where
  "may_block c X k \<longleftrightarrow> kernel_inv c X k \<and> thread_ctx X k \<and> current k \<noteq> idle_thread c"

lemma pend_thread_frame [simp]:
  "in_isr (pend_thread c k t w n) = in_isr k" "current (pend_thread c k t w n) = current k"
  "prio (thread (pend_thread c k t w n) u) = prio (thread k u)"
  "swap_data (thread (pend_thread c k t w n) u) = swap_data (thread k u)"
  "swap_return_value (thread (pend_thread c k t w n) u) = swap_return_value (thread k u)"
  "sched_locked (thread (pend_thread c k t w n) u) = sched_locked (thread k u)"
  "u \<noteq> t \<Longrightarrow> thread (pend_thread c k t w n) u = thread k u"
  by (simp_all add: pend_thread_def Let_def add_thread_timeout_def mark_defs)

lemma queues_pend_thread:
  "queues (pend_thread c k t w n) =
     (queues k)(WaitQ w := insert_by_prio (\<lambda>x. prio (thread k x)) t (queues k (WaitQ w)))"
  unfolding pend_thread_def wait_q_insert
  by (simp add: Let_def add_thread_timeout_def mark_defs)

lemma flags_pend_thread:
  "flags (thread (pend_thread c k t w n) u) =
     (if u = t then flags (thread k t) OR K_PENDING else flags (thread k u))"
  by (simp add: pend_thread_def Let_def add_thread_timeout_def mark_defs)

lemma expiry_frame [simp]:
  "expiry (upd_thread k t f) = expiry k" "expiry (upd_queue k q g) = expiry k"
  "expiry (unlink_node k t) = expiry k" "expiry (Swap c k) = expiry k"
  "expiry (remove_thread_from_ready_q c k t) = expiry k"
  "expiry (add_thread_to_ready_q c k t) = expiry k"
  "expiry (ready_thread c k t) = expiry k" "expiry (reschedule_threads c k) = expiry k"
  by (simp_all add: expiry_def expiries_def fun_eq_iff ready_thread_def Let_def mark_defs)

lemma expiry_pend_thread:
  assumes "timeout_inv k" "expiry k (ThreadTO t) = None"
  shows "expiry (pend_thread c k t w n) =
    (if n = K_FOREVER then expiry k else (expiry k)(ThreadTO t \<mapsto> 1 + ms_to_ticks c n))"
  unfolding pend_thread_def wait_q_insert
  using assms by (simp add: Let_def add_thread_timeout_def mark_defs TICK_ALIGN_def expiry_add)

lemma pend_current_inv:
  assumes "may_block c X k" "timeout_ok c n"
  shows "kernel_inv c X (pend_current_thread c k w n)"
    "expiry (pend_current_thread c k w n) =
       (if n = K_FOREVER then expiry k else (expiry k)(ThreadTO (current k) \<mapsto> 1 + ms_to_ticks c n))"
proof -
  let ?t = "current k"
  let ?k1 = "remove_thread_from_ready_q c k ?t"
  have s: "sched_inv c X k" and id: "idle_ready c X k" and t: "?t \<notin> X" "is_thread_ready k ?t"
    and ni: "?t \<noteq> idle_thread c"
    using assms(1) by (auto simp: may_block_def kernel_inv_def thread_ctx_def)
  have i1: "sched_inv c (insert ?t X) ?k1" by (rule remove_ready_inv[OF s t])
  have t0: "?t \<noteq> NULL" "valid_prio c (prio (thread k ?t))" "delta k (ThreadTO ?t) = -1"
    using t sched_invD(5,10)[OF s] ready_inactive by metis+
  have "sched_inv c (insert ?t X - {?t}) (pend_thread c ?k1 ?t w n)"
    using pend_thread_inv[OF i1, of ?t n w] t0 assms(2) by (auto simp: timeout_ok_def)
  then have i2: "sched_inv c X (pend_current_thread c k w n)"
    using t(1) by (simp add: pend_current_thread_def)
  have e: "expiry ?k1 (ThreadTO ?t) = None"
    using sched_invD(4)[OF i1] expiry_active[of ?k1 "ThreadTO ?t"] t0(3) by simp
  show ex: "expiry (pend_current_thread c k w n) =
      (if n = K_FOREVER then expiry k else (expiry k)(ThreadTO ?t \<mapsto> 1 + ms_to_ticks c n))"
    using expiry_pend_thread[OF sched_invD(4)[OF i1] e, of c w n] by (simp add: pend_current_thread_def)
  have "delta (pend_current_thread c k w n) (ThreadTO (idle_thread c)) = -1 \<longleftrightarrow>
      delta k (ThreadTO (idle_thread c)) = -1"
    using expiry_active[OF sched_invD(4)[OF i2], of "ThreadTO (idle_thread c)"]
      expiry_active[OF sched_invD(4)[OF s], of "ThreadTO (idle_thread c)"] ni
    by (simp add: ex split: if_splits)
  then have "idle_ready c X (pend_current_thread c k w n)"
    using ni by (intro idle_other(2)[OF id ni[symmetric]]) (simp_all add: pend_current_thread_def flags_pend_thread)
  with i2 show "kernel_inv c X (pend_current_thread c k w n)" by (simp add: kernel_inv_def)
qed

lemma pend_current_waitq:
  assumes "may_block c X k"
  shows "queues (pend_current_thread c k w n) (WaitQ v) =
    (if v = w then insert_by_prio (\<lambda>x. prio (thread k x)) (current k) (queues k (WaitQ w))
     else queues k (WaitQ v))"
    and "ready_list c (pend_current_thread c k w n) = remove1 (current k) (ready_list c k)"
proof -
  let ?t = "current k"
  have s: "sched_inv c X k" and t: "is_thread_ready k ?t"
    using assms by (auto simp: may_block_def kernel_inv_def thread_ctx_def)
  have "?t \<notin> set (queues k (WaitQ u))" for u using sched_invD(8)[OF s] pending_not_ready t by blast
  then show "queues (pend_current_thread c k w n) (WaitQ v) =
      (if v = w then insert_by_prio (\<lambda>x. prio (thread k x)) ?t (queues k (WaitQ w)) else queues k (WaitQ v))"
    by (simp add: pend_current_thread_def queues_pend_thread queues_remove remove1_idem)
  have "ready_list c (pend_current_thread c k w n) = ready_list c (remove_thread_from_ready_q c k ?t)"
    by (rule ready_list_cong) (simp add: pend_current_thread_def queues_pend_thread)
  then show "ready_list c (pend_current_thread c k w n) = remove1 ?t (ready_list c k)"
    using ready_list_remove[OF sched_invD(1)[OF s]] by simp
qed

lemma pend_current_frame [simp]:
  "in_isr (pend_current_thread c k w n) = in_isr k"
  "current (pend_current_thread c k w n) = current k"
  "prio (thread (pend_current_thread c k w n) u) = prio (thread k u)"
  "swap_data (thread (pend_current_thread c k w n) u) = swap_data (thread k u)"
  "swap_return_value (thread (pend_current_thread c k w n) u) = swap_return_value (thread k u)"
  by (simp_all add: pend_current_thread_def)

text \<open>Blocking as the kernel objects do it: pend the current thread and switch.\<close>

lemma block_inv:
  assumes "may_block c X k" "timeout_ok c n"
  shows "kernel_inv c X (Swap c (pend_current_thread c k w n))"
    "well_scheduled c X (Swap c (pend_current_thread c k w n))"
  using Swap_inv(1)[OF pend_current_inv(1)[OF assms]] Swap_well_scheduled[OF pend_current_inv(1)[OF assms]] assms(1)
  by (simp_all add: may_block_def thread_ctx_def)

section \<open>Waking\<close>

text \<open>
  \<^verbatim>\<open>_unpend_first_thread\<close>, \<^verbatim>\<open>_abort_thread_timeout\<close>, \<^verbatim>\<open>_ready_thread\<close> in a row, for the first
  thread \<open>t\<close> of a wait queue.
\<close>

definition wake :: "kconfig \<Rightarrow> 'z kernel_scheme \<Rightarrow> tid \<Rightarrow> 'z kernel_scheme" where
  "wake c k t = ready_thread c (snd (abort_thread_timeout (unpend_thread k t) t)) t"

lemma unpend_frame [simp]:
  "in_isr (unpend_thread k t) = in_isr k" "current (unpend_thread k t) = current k"
  "timeouts (unpend_thread k t) = timeouts k" "timeout_q (unpend_thread k t) = timeout_q k"
  "prio (thread (unpend_thread k t) u) = prio (thread k u)"
  "swap_data (thread (unpend_thread k t) u) = swap_data (thread k u)"
  "swap_return_value (thread (unpend_thread k t) u) = swap_return_value (thread k u)"
  "queues (unpend_thread k t) = (\<lambda>q. remove1 t (queues k q))"
  "expiry (unpend_thread k t) = expiry k"
  by (simp_all add: unpend_thread_def mark_defs)

lemma flags_unpend [simp]:
  "flags (thread (unpend_thread k t) u) =
     (if u = t then flags (thread k t) AND NOT K_PENDING else flags (thread k u))"
  by (simp add: unpend_thread_def mark_defs)

lemma ready_thread_frame [simp]:
  "in_isr (ready_thread c k t) = in_isr k" "current (ready_thread c k t) = current k"
  "timeouts (ready_thread c k t) = timeouts k" "timeout_q (ready_thread c k t) = timeout_q k"
  "prio (thread (ready_thread c k t) u) = prio (thread k u)"
  "swap_data (thread (ready_thread c k t) u) = swap_data (thread k u)"
  "swap_return_value (thread (ready_thread c k t) u) = swap_return_value (thread k u)"
  "queues (ready_thread c k t) (WaitQ w) = queues k (WaitQ w)"
  "flags (thread (ready_thread c k t) u) =
     (if u = t then flags (thread k t) AND NOT K_PRESTART else flags (thread k u))"
  by (simp_all add: ready_thread_def Let_def mark_defs queues_add)

lemma wake_frame [simp]:
  "in_isr (wake c k t) = in_isr k" "current (wake c k t) = current k"
  "prio (thread (wake c k t) u) = prio (thread k u)"
  "swap_data (thread (wake c k t) u) = swap_data (thread k u)"
  "swap_return_value (thread (wake c k t) u) = swap_return_value (thread k u)"
  "queues (wake c k t) (WaitQ w) = remove1 t (queues k (WaitQ w))"
  "flags (thread (wake c k t) u) =
     (if u = t then (flags (thread k t) AND NOT K_PENDING) AND NOT K_PRESTART else flags (thread k u))"
  by (simp_all add: wake_def abort_thread_timeout_def)

lemma ready_list_ready_thread:
  assumes "rq_inv c k" "valid_prio c (prio (thread k t))"
  shows "ready_list c (ready_thread c k t) =
    (if is_thread_ready (mark_thread_as_started k t) t
     then insert_by_prio (\<lambda>x. prio (thread k x)) t (ready_list c k) else ready_list c k)"
proof -
  have pr: "prio (thread (mark_thread_as_started k t) x) = prio (thread k x)" for x
    by (simp add: mark_defs)
  have "rq_inv c (mark_thread_as_started k t)" using assms(1) by (simp add: mark_defs rq_inv_upd_thread)
  then have "ready_list c (add_thread_to_ready_q c (mark_thread_as_started k t) t) =
      insert_by_prio (\<lambda>x. prio (thread k x)) t (ready_list c k)"
    using ready_list_add[of c "mark_thread_as_started k t" t] assms(2) unfolding pr
    by (simp add: mark_defs)
  then show ?thesis by (simp add: ready_thread_def Let_def mark_defs)
qed

lemma delta_abort_self: "delta (snd (abort_timeout k x)) x = -1"
  by (cases "delta k x = -1") (simp_all add: abort_inactive delta_abort)

text \<open>
  What waking does when \<open>t\<close> is pending on a wait queue: the invariant is kept, the timeout is gone,
  and \<open>t\<close> enters the ready list behind its equals unless something else, such as a suspension, still
  holds it.
\<close>

lemma wake_inv:
  assumes inv: "kernel_inv c X k" and t: "is_thread_pending k t" "t \<notin> X"
  shows "kernel_inv c X (wake c k t)" "expiry (wake c k t) = (expiry k)(ThreadTO t := None)"
    "delta (wake c k t) (ThreadTO t) = -1"
proof -
  let ?k1 = "unpend_thread k t"
  let ?k2 = "snd (abort_thread_timeout ?k1 t)"
  have s: "sched_inv c X k" and id: "idle_ready c X k" using inv by (auto simp: kernel_inv_def)
  have i1: "sched_inv c (insert t X) ?k1" by (rule unpend_thread_inv[OF s t(1)])
  then have i2: "sched_inv c (insert t X) ?k2"
    using abort_thread_timeout_inv[OF i1, of t] sched_invD(7)[OF i1, of t] by simp
  have v: "t \<noteq> NULL" "valid_prio c (prio (thread k t))" using sched_invD(5,10)[OF s] t(2) by metis+
  have d: "delta ?k2 (ThreadTO t) = -1" by (simp add: abort_thread_timeout_def delta_abort_self)
  have "sched_inv c (insert t X - {t}) (wake c k t)"
    unfolding wake_def using v d by (intro ready_thread_inv[OF i2]) (auto simp: abort_thread_timeout_def)
  then have i3: "sched_inv c X (wake c k t)" using t(2) by simp
  show e: "expiry (wake c k t) = (expiry k)(ThreadTO t := None)"
    using expiry_abort[OF sched_invD(4)[OF i1], of "ThreadTO t"] by (simp add: wake_def abort_thread_timeout_def)
  show "delta (wake c k t) (ThreadTO t) = -1" using d by (simp add: wake_def)
  have ni: "t \<noteq> idle_thread c" using id t pending_not_ready by (auto simp: idle_ready_def)
  then have "idle_ready c X (wake c k t)"
    using expiry_active[OF sched_invD(4)[OF i3], of "ThreadTO (idle_thread c)"]
      expiry_active[OF sched_invD(4)[OF s], of "ThreadTO (idle_thread c)"]
    by (intro idle_other(2)[OF id ni[symmetric]]) (simp_all add: e)
  with i3 show "kernel_inv c X (wake c k t)" by (simp add: kernel_inv_def)
qed

lemma wake_ready:
  assumes inv: "kernel_inv c X k" and t: "is_thread_pending k t" "t \<notin> X"
  shows "is_thread_ready (wake c k t) t \<longleftrightarrow>
      \<not> bit (flags (thread k t)) 15 \<and> \<not> bit (flags (thread k t)) 16 \<and> \<not> bit (flags (thread k t)) 17"
    and "u \<noteq> t \<Longrightarrow> is_thread_ready (wake c k t) u \<longleftrightarrow> is_thread_ready k u"
proof -
  show "is_thread_ready (wake c k t) t \<longleftrightarrow>
      \<not> bit (flags (thread k t)) 15 \<and> \<not> bit (flags (thread k t)) 16 \<and> \<not> bit (flags (thread k t)) 17"
    using wake_inv(3)[OF assms] by (auto simp: ready_bits bit_ops_flags)
  have s: "sched_inv c X k" "sched_inv c X (wake c k t)"
    using inv wake_inv(1)[OF assms] by (auto simp: kernel_inv_def)
  show "u \<noteq> t \<Longrightarrow> is_thread_ready (wake c k t) u \<longleftrightarrow> is_thread_ready k u"
    using expiry_active[OF sched_invD(4)[OF s(1)], of "ThreadTO u"]
      expiry_active[OF sched_invD(4)[OF s(2)], of "ThreadTO u"] wake_inv(2)[OF assms]
    by (simp add: ready_bits)
qed

lemma wake_thread_ctx:
  assumes "kernel_inv c X k" "is_thread_pending k t" "t \<notin> X" "thread_ctx X k"
  shows "thread_ctx X (wake c k t)"
  using assms wake_ready(2)[OF assms(1-3), of "current k"] pending_not_ready[OF assms(2)]
  by (auto simp: thread_ctx_def)

text \<open>Storing a return value commutes with everything above.\<close>

lemma thread_ctx_upd [simp]:
  "(\<And>th. flags (f th) = flags th) \<Longrightarrow> thread_ctx X (upd_thread k t f) \<longleftrightarrow> thread_ctx X k"
  using is_thread_ready_cong[of "upd_thread k t f" _ k] by (simp add: thread_ctx_def)

lemma first_waiter:
  assumes "kernel_inv c X k" "queues k (WaitQ w) = t # ts"
  shows "t \<notin> X" "t \<noteq> NULL" "is_thread_pending k t" "t \<notin> set ts"
  using unpend_first_inv[OF _ assms(2), of c X] assms sched_invD(2)[of c X k]
  by (auto simp: kernel_inv_def queues_wf_def) (metis distinct.simps(2))

text \<open>
  Handing a value to the waiter that is woken, \<^verbatim>\<open>_set_thread_return_value_with_data\<close>.  Some objects
  store the value before they ready the thread, some after: the result is the same.
\<close>

definition handed :: "kconfig \<Rightarrow> 'z kernel_scheme \<Rightarrow> tid \<Rightarrow> int \<Rightarrow> nat \<Rightarrow> 'z kernel_scheme" where
  "handed c k t v d = set_thread_return_value_with_data (wake c k t) t v d"

definition woken :: "kconfig \<Rightarrow> 'z kernel_scheme \<Rightarrow> tid \<Rightarrow> int \<Rightarrow> 'z kernel_scheme" where
  "woken c k t v = set_thread_return_value (wake c k t) t v"

lemma abort_upd_thread:
  "snd (abort_timeout (upd_thread k t f) x) = upd_thread (snd (abort_timeout k x)) t f"
  by (simp add: abort_timeout_def Let_def upd_thread_def upd_timeout_def split: option.splits)

lemma add_ready_upd_thread:
  assumes "\<And>th. prio (f th) = prio th"
  shows "add_thread_to_ready_q c (upd_thread k t f) u = upd_thread (add_thread_to_ready_q c k u) t f"
  using assms by (simp add: add_thread_to_ready_q_def Let_def upd_thread_def upd_queue_def
      set_ready_q_prio_bit_def fun_upd_def if_distrib cong: if_cong)

lemma ready_thread_upd_thread:
  assumes "\<And>th. prio (f th) = prio th" "\<And>th. flags (f th) = flags th"
    "\<And>th g. f (th\<lparr>flags := g\<rparr>) = (f th)\<lparr>flags := g\<rparr>"
  shows "ready_thread c (upd_thread k t f) t = upd_thread (ready_thread c k t) t f"
proof -
  have m: "mark_thread_as_started (upd_thread k t f) t = upd_thread (mark_thread_as_started k t) t f"
    using assms by (simp add: mark_thread_as_started_def upd_thread_def)
  have "is_thread_ready (upd_thread k' t f) t \<longleftrightarrow> is_thread_ready k' t" for k' :: "'a kernel_scheme"
    by (rule is_thread_ready_cong) (simp_all add: assms(2))
  then show ?thesis by (simp add: ready_thread_def Let_def m add_ready_upd_thread[OF assms(1)])
qed

lemma handed_early:
  "ready_thread c (snd (abort_thread_timeout
     (set_thread_return_value_with_data (unpend_thread k t) t v d) t)) t = handed c k t v d"
  "ready_thread c (snd (abort_thread_timeout
     (set_thread_return_value (unpend_thread k t) t v) t)) t = woken c k t v"
  by (simp_all add: handed_def woken_def wake_def mark_defs abort_thread_timeout_def abort_upd_thread
      ready_thread_upd_thread)

lemma handed_frame [simp]:
  "in_isr (handed c k t v d) = in_isr k" "current (handed c k t v d) = current k"
  "prio (thread (handed c k t v d) u) = prio (thread k u)"
  "queues (handed c k t v d) (WaitQ w) = remove1 t (queues k (WaitQ w))"
  "swap_return_value (thread (handed c k t v d) t) = v" "swap_data (thread (handed c k t v d) t) = d"
  "u \<noteq> t \<Longrightarrow> swap_data (thread (handed c k t v d) u) = swap_data (thread k u)"
  "expiry (handed c k t v d) = expiry (wake c k t)"
  "is_thread_ready (handed c k t v d) u \<longleftrightarrow> is_thread_ready (wake c k t) u"
  by (simp_all add: handed_def mark_defs ready_bits)

lemma woken_frame [simp]:
  "in_isr (woken c k t v) = in_isr k" "current (woken c k t v) = current k"
  "prio (thread (woken c k t v) u) = prio (thread k u)"
  "queues (woken c k t v) (WaitQ w) = remove1 t (queues k (WaitQ w))"
  "flags (thread (woken c k t v) u) = flags (thread (wake c k t) u)"
  "swap_return_value (thread (woken c k t v) t) = v"
  "swap_data (thread (woken c k t v) u) = swap_data (thread k u)"
  "expiry (woken c k t v) = expiry (wake c k t)"
  "is_thread_ready (woken c k t v) u \<longleftrightarrow> is_thread_ready (wake c k t) u"
  by (simp_all add: woken_def mark_defs ready_bits)

lemma kernel_inv_set_return [intro]:
  "kernel_inv c X k \<Longrightarrow> kernel_inv c X (set_thread_return_value k t v)"
  "kernel_inv c X k \<Longrightarrow> kernel_inv c X (set_thread_return_value_with_data k t v d)"
  by (simp_all add: mark_defs kernel_inv_upd_thread)

lemma handed_inv:
  assumes "kernel_inv c X k" "queues k (WaitQ w) = t # ts"
  shows "kernel_inv c X (handed c k t v d)" "kernel_inv c X (woken c k t v)"
    "thread_ctx X k \<Longrightarrow> thread_ctx X (handed c k t v d)" "thread_ctx X k \<Longrightarrow> thread_ctx X (woken c k t v)"
  unfolding handed_def woken_def
  using wake_inv(1)[OF assms(1) first_waiter(3,1)[OF assms]]
    wake_thread_ctx[OF assms(1) first_waiter(3,1)[OF assms]]
  by (auto simp: mark_defs kernel_inv_upd_thread)

text \<open>\<^verbatim>\<open>if (!_is_in_isr() && _must_switch_threads()) _Swap(key)\<close>, the end of most wake-ups.\<close>

definition resched_unless_isr :: "kconfig \<Rightarrow> 'z kernel_scheme \<Rightarrow> 'z kernel_scheme" where
  "resched_unless_isr c k = (if \<not> in_isr k \<and> must_switch_threads c k then Swap c k else k)"

lemma resched_unless_isr_inv:
  assumes "kernel_inv c X k"
  shows "kernel_inv c X (resched_unless_isr c k)"
    "thread_ctx X k \<Longrightarrow> well_scheduled c X (resched_unless_isr c k)"
proof -
  show "kernel_inv c X (resched_unless_isr c k)"
    using assms Swap_inv(1)[OF assms] by (simp add: resched_unless_isr_def)
  assume "thread_ctx X k"
  then have "resched_unless_isr c k = reschedule_threads c k"
    by (simp add: resched_unless_isr_def reschedule_threads_def thread_ctx_def)
  then show "well_scheduled c X (resched_unless_isr c k)"
    using reschedule_well_scheduled[OF assms \<open>thread_ctx X k\<close>] by simp
qed

lemma resched_unless_isr_frame [simp]:
  "in_isr (resched_unless_isr c k) = in_isr k" "queues (resched_unless_isr c k) = queues k"
  "timeouts (resched_unless_isr c k) = timeouts k" "timeout_q (resched_unless_isr c k) = timeout_q k"
  "flags (thread (resched_unless_isr c k) t) = flags (thread k t)"
  "prio (thread (resched_unless_isr c k) t) = prio (thread k t)"
  "swap_data (thread (resched_unless_isr c k) t) = swap_data (thread k t)"
  "expiry (resched_unless_isr c k) = expiry k"
  "is_thread_ready (resched_unless_isr c k) t \<longleftrightarrow> is_thread_ready k t"
  by (simp_all add: resched_unless_isr_def)

lemma resched_return_value:
  "t \<noteq> current k \<Longrightarrow>
     swap_return_value (thread (resched_unless_isr c k) t) = swap_return_value (thread k t)"
  by (simp add: resched_unless_isr_def Swap_return_value)

section \<open>The contract of a blocking object\<close>

text \<open>
  A stock of items and a queue of waiting threads.  A give serves the first waiter or adds to the
  stock; a take removes from the stock or waits.  From these laws it follows that in every run of
  gives and takes nobody waits while there is stock.
\<close>

definition resource_run ::
  "('v \<Rightarrow> 's \<Rightarrow> 's) \<Rightarrow> (int \<Rightarrow> 's \<Rightarrow> 's) \<Rightarrow> ('v \<Rightarrow> 's \<Rightarrow> bool) \<Rightarrow> ('s \<Rightarrow> bool) \<Rightarrow>
     ('v + int) list \<Rightarrow> 's \<Rightarrow> 's" where
  "resource_run give acquire can_give can_block ops s =
     fold (\<lambda>p s. case p of Inl v \<Rightarrow> if can_give v s then give v s else s
                        | Inr n \<Rightarrow> if can_block s then acquire n s else s) ops s"

locale blocking_resource =
  fixes invar :: "'s \<Rightarrow> bool"
    and can_give :: "'v \<Rightarrow> 's \<Rightarrow> bool"
    and can_block :: "'s \<Rightarrow> bool"
    and good_timeout :: "int \<Rightarrow> bool"
    and avail :: "'s \<Rightarrow> nat"
    and waiting :: "'s \<Rightarrow> tid list"
    and give :: "'v \<Rightarrow> 's \<Rightarrow> 's"
    and acquire :: "int \<Rightarrow> 's \<Rightarrow> 's"
  assumes give_invar: "invar s \<Longrightarrow> can_give v s \<Longrightarrow> invar (give v s)"
    and take_invar: "invar s \<Longrightarrow> can_block s \<Longrightarrow> good_timeout n \<Longrightarrow> invar (acquire n s)"
    and give_waiting: "invar s \<Longrightarrow> can_give v s \<Longrightarrow> waiting s = t # ts \<Longrightarrow>
      waiting (give v s) = ts \<and> avail (give v s) = avail s"
    and give_stock: "invar s \<Longrightarrow> can_give v s \<Longrightarrow> waiting s = [] \<Longrightarrow>
      waiting (give v s) = [] \<and> avail s \<le> avail (give v s) \<and> avail (give v s) \<le> avail s + 1"
    and take_stock: "invar s \<Longrightarrow> can_block s \<Longrightarrow> good_timeout n \<Longrightarrow> 0 < avail s \<Longrightarrow>
      waiting (acquire n s) = waiting s \<and> avail (acquire n s) + 1 = avail s"
    and take_empty: "invar s \<Longrightarrow> can_block s \<Longrightarrow> good_timeout n \<Longrightarrow> avail s = 0 \<Longrightarrow>
      avail (acquire n s) = 0"
begin

lemma give_no_idle_stock:
  "invar s \<Longrightarrow> can_give v s \<Longrightarrow> avail s = 0 \<or> waiting s = [] \<Longrightarrow> avail (give v s) = 0 \<or> waiting (give v s) = []"
  using give_waiting[of s v] give_stock[of s v] by (cases "waiting s") auto

lemma take_no_idle_stock:
  assumes "invar s" "can_block s" "good_timeout n" "avail s = 0 \<or> waiting s = []"
  shows "avail (acquire n s) = 0 \<or> waiting (acquire n s) = []"
  using take_stock[OF assms(1-3)] take_empty[OF assms(1-3)] assms(4) by (cases "avail s = 0") auto

lemma run_no_idle_stock:
  assumes "invar s" "avail s = 0 \<or> waiting s = []" "\<forall>p \<in> set ops. \<forall>n. p = Inr n \<longrightarrow> good_timeout n"
  shows "invar (resource_run give acquire can_give can_block ops s)"
    "avail (resource_run give acquire can_give can_block ops s) = 0 \<or>
     waiting (resource_run give acquire can_give can_block ops s) = []"
  using assms unfolding resource_run_def
  by (induction ops arbitrary: s)
    (auto split: sum.splits simp: give_invar take_invar give_no_idle_stock take_no_idle_stock)

lemma gives_serve_in_order:
  assumes "length ws = length us" "invar s" "waiting s = us @ vs" "\<And>w s. can_give w s"
  shows "waiting (fold give ws s) = vs \<and> avail (fold give ws s) = avail s"
  using assms
proof (induction us arbitrary: ws s)
  case (Cons u us)
  obtain w ws' where ws: "ws = w # ws'" using Cons.prems(1) by (cases ws) auto
  have "waiting (give w s) = us @ vs" "avail (give w s) = avail s" "invar (give w s)"
    using Cons.prems give_waiting[of s w u "us @ vs"] give_invar by auto
  then show ?case using Cons.IH[of ws' "give w s"] Cons.prems ws by simp
qed simp

end

text \<open>The scheduler lock.\<close>

lemma sched_lock_frame [simp]:
  "in_isr (k_sched_lock k) = in_isr k" "current (k_sched_lock k) = current k"
  "queues (k_sched_lock k) = queues k" "timeouts (k_sched_lock k) = timeouts k"
  "prio (thread (k_sched_lock k) u) = prio (thread k u)" "flags (thread (k_sched_lock k) u) = flags (thread k u)"
  "swap_data (thread (k_sched_lock k) u) = swap_data (thread k u)" "is_thread_ready (k_sched_lock k) u \<longleftrightarrow> is_thread_ready k u"
  "thread_ctx X (k_sched_lock k) \<longleftrightarrow> thread_ctx X k"
  by (simp_all add: k_sched_lock_def ready_bits)

lemma sched_unlock_frame [simp]:
  "queues (k_sched_unlock c k) = queues k" "timeouts (k_sched_unlock c k) = timeouts k"
  "prio (thread (k_sched_unlock c k) u) = prio (thread k u)"
  "flags (thread (k_sched_unlock c k) u) = flags (thread k u)" "swap_data (thread (k_sched_unlock c k) u) = swap_data (thread k u)"
  by (simp_all add: k_sched_unlock_def)

lemma sched_unlock_no_reschedule_frame [simp]:
  "in_isr (sched_unlock_no_reschedule k) = in_isr k" "current (sched_unlock_no_reschedule k) = current k"
  "queues (sched_unlock_no_reschedule k) = queues k" "prio (thread (sched_unlock_no_reschedule k) u) = prio (thread k u)"
  "swap_data (thread (sched_unlock_no_reschedule k) u) = swap_data (thread k u)"
  "is_thread_ready (sched_unlock_no_reschedule k) u \<longleftrightarrow> is_thread_ready k u"
  by (simp_all add: sched_unlock_no_reschedule_def ready_bits)

lemma sched_lock_inv:
  "kernel_inv c X k \<Longrightarrow> kernel_inv c X (k_sched_lock k)" "kernel_inv c X k \<Longrightarrow> kernel_inv c X (k_sched_unlock c k)"
  by (simp_all add: k_sched_lock_def k_sched_unlock_def kernel_inv_upd_thread reschedule_inv)

lemma lock_unlock [simp]: "sched_unlock_no_reschedule (k_sched_lock k) = k" "k_sched_unlock c (k_sched_lock k) = reschedule_threads c k"
  by (simp_all add: sched_unlock_no_reschedule_def k_sched_lock_def k_sched_unlock_def upd_thread_def)

end
