(* ===== verification/Threads.thy ===== *)
theory Threads
  imports Wait_Queue
begin

text \<open>
  Threads: \<^verbatim>\<open>kernel/unified/thread.c\<close> (creation, start, cancellation, suspension, groups, abort),
  \<^verbatim>\<open>arch/arm/core/thread.c\<close> and \<^verbatim>\<open>arch/arm/core/thread_abort.c\<close>, and the part of
  \<^verbatim>\<open>kernel/unified/init.c\<close> that builds the first threads.  The stack frame of a new thread and the
  thread monitor are not modelled.
\<close>

section \<open>Creation and start\<close>

text \<open>\<^verbatim>\<open>_new_thread\<close>: the control structure of a new thread at the bottom of its stack.\<close>

definition new_thread :: "'z kernel_scheme \<Rightarrow> tid \<Rightarrow> int \<Rightarrow> u32 \<Rightarrow> 'z kernel_scheme" where
  "new_thread k t priority options =
     upd_thread (init_thread_base k t priority K_PRESTART options) t
       (\<lambda>th. th\<lparr>init_data := NULL, fn_abort := NULL, custom_data := NULL\<rparr>)"

definition start_thread :: "kconfig \<Rightarrow> 'z kernel_scheme \<Rightarrow> tid \<Rightarrow> 'z kernel_scheme" where
  "start_thread c k t =
     (let k1 = mark_thread_as_started k t
      in if is_thread_ready k1 t
         then let k2 = add_thread_to_ready_q c k1 t
              in if must_switch_threads c k2 then Swap c k2 else k2
         else k1)"

definition schedule_new_thread :: "kconfig \<Rightarrow> 'z kernel_scheme \<Rightarrow> tid \<Rightarrow> int \<Rightarrow> 'z kernel_scheme" where
  "schedule_new_thread c k t delay =
     (if delay = 0 then start_thread c k t
      else add_thread_timeout k t NULL (TICK_ALIGN + ms_to_ticks c delay))"

definition k_thread_spawn ::
  "kconfig \<Rightarrow> 'z kernel_scheme \<Rightarrow> tid \<Rightarrow> int \<Rightarrow> u32 \<Rightarrow> int \<Rightarrow> tid \<times> 'z kernel_scheme" where
  "k_thread_spawn c k stack p options delay =
     (stack, schedule_new_thread c (new_thread k stack p options) stack delay)"

definition k_thread_cancel :: "'z kernel_scheme \<Rightarrow> tid \<Rightarrow> int \<times> 'z kernel_scheme" where
  "k_thread_cancel k t =
     (if has_thread_started k t \<or> \<not> is_thread_timeout_active k t then (- EINVAL, k)
      else (0, snd (abort_thread_timeout k t)))"

definition k_thread_single_start :: "kconfig \<Rightarrow> 'z kernel_scheme \<Rightarrow> tid \<Rightarrow> 'z kernel_scheme" where
  "k_thread_single_start c k t =
     (let k1 = mark_thread_as_started k t
      in if is_thread_ready k1 t then add_thread_to_ready_q c k1 t else k1)"

definition task_start :: "kconfig \<Rightarrow> 'z kernel_scheme \<Rightarrow> tid \<Rightarrow> 'z kernel_scheme" where
  "task_start c k t = reschedule_threads c (k_thread_single_start c k t)"

section \<open>Suspension and abort\<close>

definition k_thread_single_suspend :: "kconfig \<Rightarrow> 'z kernel_scheme \<Rightarrow> tid \<Rightarrow> 'z kernel_scheme" where
  "k_thread_single_suspend c k t =
     mark_thread_as_suspended (if is_thread_ready k t then remove_thread_from_ready_q c k t else k) t"

definition k_thread_suspend :: "kconfig \<Rightarrow> 'z kernel_scheme \<Rightarrow> tid \<Rightarrow> 'z kernel_scheme" where
  "k_thread_suspend c k t =
     (let k1 = k_thread_single_suspend c k t in if t = current k1 then Swap c k1 else k1)"

definition k_thread_single_resume :: "kconfig \<Rightarrow> 'z kernel_scheme \<Rightarrow> tid \<Rightarrow> 'z kernel_scheme" where
  "k_thread_single_resume c k t =
     (let k1 = mark_thread_as_not_suspended k t
      in if is_thread_ready k1 t then add_thread_to_ready_q c k1 t else k1)"

definition k_thread_resume :: "kconfig \<Rightarrow> 'z kernel_scheme \<Rightarrow> tid \<Rightarrow> 'z kernel_scheme" where
  "k_thread_resume c k t = reschedule_threads c (k_thread_single_resume c k t)"

text \<open>
  The abort handler \<^verbatim>\<open>fn_abort\<close> is application code: \<open>call_abort\<close> stands for calling it through
  its address.
\<close>

definition k_thread_single_abort ::
  "kconfig \<Rightarrow> (addr \<Rightarrow> 'z kernel_scheme \<Rightarrow> 'z kernel_scheme) \<Rightarrow> 'z kernel_scheme \<Rightarrow> tid \<Rightarrow>
     'z kernel_scheme" where
  "k_thread_single_abort c call_abort k t =
     (let k1 = (if fn_abort (thread k t) \<noteq> NULL then call_abort (fn_abort (thread k t)) k else k);
          k2 = (if is_thread_ready k1 t then remove_thread_from_ready_q c k1 t
                else let k' = (if is_thread_pending k1 t then unpend_thread k1 t else k1)
                     in if is_thread_timeout_active k' t then snd (abort_thread_timeout k' t) else k')
      in mark_thread_as_dead k2 t)"

text \<open>
  \<^verbatim>\<open>k_thread_abort\<close>, ARM version.  Aborting the current thread from an exception handler pends
  PendSV, which is taken when the handler returns; the flag says that it is pending.
\<close>

definition k_thread_abort ::
  "kconfig \<Rightarrow> (addr \<Rightarrow> 'z kernel_scheme \<Rightarrow> 'z kernel_scheme) \<Rightarrow> 'z kernel_scheme \<Rightarrow> tid \<Rightarrow>
     bool \<times> 'z kernel_scheme" where
  "k_thread_abort c call_abort k t =
     (let k1 = k_thread_single_abort c call_abort k t
      in if current k1 = t
         then if \<not> in_isr k1 then (False, Swap c k1) else (True, reschedule_threads c k1)
         else (False, reschedule_threads c k1))"

section \<open>Current-thread attributes\<close>

definition thread_essential_set :: "'z kernel_scheme \<Rightarrow> 'z kernel_scheme" where
  "thread_essential_set k = upd_thread k (current k) (\<lambda>th. th\<lparr>flags := flags th OR K_ESSENTIAL\<rparr>)"

definition thread_essential_clear :: "'z kernel_scheme \<Rightarrow> 'z kernel_scheme" where
  "thread_essential_clear k =
     upd_thread k (current k) (\<lambda>th. th\<lparr>flags := flags th AND NOT K_ESSENTIAL\<rparr>)"

definition is_thread_essential :: "'z kernel_scheme \<Rightarrow> bool" where
  "is_thread_essential k \<longleftrightarrow> flags (thread k (current k)) AND K_ESSENTIAL \<noteq> 0"

definition k_thread_custom_data_set :: "'z kernel_scheme \<Rightarrow> nat \<Rightarrow> 'z kernel_scheme" where
  "k_thread_custom_data_set k v = upd_thread k (current k) (\<lambda>th. th\<lparr>custom_data := v\<rparr>)"

definition k_thread_custom_data_get :: "'z kernel_scheme \<Rightarrow> nat" where
  "k_thread_custom_data_get k = custom_data (thread k (current k))"

datatype nano_context_type = NANO_CTX_ISR | NANO_CTX_FIBER | NANO_CTX_TASK

definition sys_execution_context_type_get :: "'z kernel_scheme \<Rightarrow> nano_context_type" where
  "sys_execution_context_type_get k =
     (if in_isr k then NANO_CTX_ISR
      else if prio (thread k (current k)) < 0 then NANO_CTX_FIBER else NANO_CTX_TASK)"

text \<open>
  \<^verbatim>\<open>k_busy_wait\<close>.  The hardware counter is the sequence \<open>cyc\<close> of the values its successive reads
  return; the loop may read for ever, so its result is the index of the read it stops at.
\<close>

partial_function (option) busy_wait_loop :: "(nat \<Rightarrow> u32) \<Rightarrow> u32 \<Rightarrow> u32 \<Rightarrow> nat \<Rightarrow> nat option" where
  "busy_wait_loop cyc start_cycles cycles_to_wait i =
     (if cyc i - start_cycles \<ge> cycles_to_wait then Some i
      else busy_wait_loop cyc start_cycles cycles_to_wait (Suc i))"

definition cycles_to_wait :: "u32 \<Rightarrow> u32 \<Rightarrow> u32" where
  "cycles_to_wait usec hw_cycles_per_sec =
     ucast ((ucast usec :: 64 word) * ucast hw_cycles_per_sec div 1000000)"

definition k_busy_wait :: "u32 \<Rightarrow> (nat \<Rightarrow> u32) \<Rightarrow> u32 \<Rightarrow> nat option" where
  "k_busy_wait hw_cycles_per_sec cyc usec =
     busy_wait_loop cyc (cyc 0) (cycles_to_wait usec hw_cycles_per_sec) 1"

section \<open>Static threads and groups\<close>

record static_thread_data =
  st_thread :: tid
  init_prio :: int
  init_options :: u32
  init_delay :: int
  init_groups :: u32

definition is_in_any_group :: "static_thread_data \<Rightarrow> u32 \<Rightarrow> bool" where
  "is_in_any_group d groups \<longleftrightarrow> init_groups d AND groups \<noteq> 0"

definition k_thread_group_op ::
  "kconfig \<Rightarrow> static_thread_data list \<Rightarrow> u32 \<Rightarrow> ('z kernel_scheme \<Rightarrow> tid \<Rightarrow> 'z kernel_scheme) \<Rightarrow>
     'z kernel_scheme \<Rightarrow> 'z kernel_scheme" where
  "k_thread_group_op c statics groups func k =
     (let k1 = k_sched_lock k;
          k2 = fold (\<lambda>d k. if is_in_any_group d groups then func k (st_thread d) else k) statics k1
      in if is_thread_ready k2 (current k2) then k_sched_unlock c k2
         else Swap c (sched_unlock_no_reschedule k2))"

definition K_TASK_GROUP_EXE :: u32 where "K_TASK_GROUP_EXE = 1"

text \<open>The two loops of \<^verbatim>\<open>_init_static_threads\<close>; \<open>addr_of\<close> gives the address of a table entry.\<close>

definition init_static_threads ::
  "kconfig \<Rightarrow> (static_thread_data \<Rightarrow> addr) \<Rightarrow> static_thread_data list \<Rightarrow> 'z kernel_scheme \<Rightarrow>
     'z kernel_scheme" where
  "init_static_threads c addr_of statics k =
     (let k1 = fold (\<lambda>d k. upd_thread (new_thread k (st_thread d) (init_prio d) (init_options d))
                 (st_thread d) (\<lambda>th. th\<lparr>init_data := addr_of d\<rparr>)) statics k;
          k2 = k_sched_lock k1;
          k3 = k_thread_group_op c statics K_TASK_GROUP_EXE (k_thread_single_start c) k2;
          k4 = fold (\<lambda>d k. if init_delay d \<noteq> K_FOREVER
                           then schedule_new_thread c k (st_thread d) (init_delay d) else k) statics k3
      in k_sched_unlock c k4)"

definition k_thread_group_mask_get :: "(addr \<Rightarrow> static_thread_data) \<Rightarrow> 'z kernel_scheme \<Rightarrow> tid \<Rightarrow> u32" where
  "k_thread_group_mask_get sd k t = init_groups (sd (init_data (thread k t)))"

definition k_thread_group_join ::
  "(addr \<Rightarrow> static_thread_data) \<Rightarrow> 'z kernel_scheme \<Rightarrow> u32 \<Rightarrow> tid \<Rightarrow> (addr \<Rightarrow> static_thread_data)" where
  "k_thread_group_join sd k groups t =
     (let a = init_data (thread k t) in sd(a := (sd a)\<lparr>init_groups := init_groups (sd a) OR groups\<rparr>))"

definition k_thread_group_leave ::
  "(addr \<Rightarrow> static_thread_data) \<Rightarrow> 'z kernel_scheme \<Rightarrow> u32 \<Rightarrow> tid \<Rightarrow> (addr \<Rightarrow> static_thread_data)" where
  "k_thread_group_leave sd k groups t =
     (let a = init_data (thread k t) in sd(a := (sd a)\<lparr>init_groups := init_groups (sd a) AND groups\<rparr>))"

section \<open>Booting\<close>

text \<open>
  \<^verbatim>\<open>prepare_multithreading\<close> on a kernel whose memory is zero.  A field of the dummy thread that
  stands in as the current thread is written; it is never queued.
\<close>

definition prepare_multithreading ::
  "kconfig \<Rightarrow> tid \<Rightarrow> tid \<Rightarrow> int \<Rightarrow> 'z kernel_scheme \<Rightarrow> 'z kernel_scheme" where
  "prepare_multithreading c dummy_thread main_thread main_prio k =
     (let k1 = k\<lparr>current := dummy_thread\<rparr>;
          k2 = upd_thread k1 dummy_thread (\<lambda>th. th\<lparr>flags := K_ESSENTIAL,
                 prio := - int (NUM_COOP_PRIORITIES c)\<rparr>);
          k3 = k2\<lparr>queues := (\<lambda>q. case q of ReadyQ i \<Rightarrow> if i < K_NUM_PRIORITIES c then [] else queues k2 q
                               | WaitQ w \<Rightarrow> queues k2 q)\<rparr>;
          k4 = new_thread k3 main_thread main_prio K_ESSENTIAL;
          k5 = add_thread_to_ready_q c (mark_thread_as_started k4 main_thread) main_thread;
          k6 = new_thread k5 (idle_thread c) (int (NUM_PREEMPT_PRIORITIES c)) K_ESSENTIAL;
          k7 = add_thread_to_ready_q c (mark_thread_as_started k6 (idle_thread c)) (idle_thread c)
      in k7\<lparr>timeout_q := []\<rparr>)"

definition switch_to_main_thread :: "kconfig \<Rightarrow> 'z kernel_scheme \<Rightarrow> 'z kernel_scheme" where
  "switch_to_main_thread c k = Swap c k"

section \<open>Handing threads to the scheduler and taking them back\<close>

lemma sched_inv_retire:
  assumes "sched_inv c X k" "\<And>q. t \<notin> set (queues k q)"
  shows "sched_inv c (insert t X) k"
  using assms by (auto simp: sched_inv_def ready_iff_queued_def timeout_owner_def split: toid.splits)

lemma sched_inv_upd_X:
  assumes inv: "sched_inv c X k" and t: "t \<in> X"
  shows "sched_inv c X (upd_thread k t f)"
proof -
  note D = sched_invD[OF inv]
  have nq: "t \<notin> set (queues k q)" for q using D(7)[OF t] .
  have o: "timeout_owner X (upd_thread k t f) x \<longleftrightarrow> timeout_owner X k x" for x
    by (rule timeout_owner_cong) simp_all
  have "is_thread_ready (upd_thread k t f) u \<longleftrightarrow> is_thread_ready k u" if "u \<noteq> t" for u
    by (rule is_thread_ready_cong) (use that in simp_all)
  then have r: "ready_iff_queued X (upd_thread k t f)"
    using D(6) t unfolding ready_iff_queued_def by (metis upd_thread_simps(5))
  show ?thesis using D rq_inv_upd_prio[OF nq D(1), of f] o r nq t
    by (auto simp: sched_inv_def pending_bit)
qed

lemma sched_inv_admit:
  assumes inv: "sched_inv c X k" and t: "t \<noteq> NULL" "valid_prio c (prio (thread k t))" "\<not> is_thread_ready k t"
    and to: "delta k (ThreadTO t) = -1 \<or> to_wait_q (timeouts k (ThreadTO t)) = NULL" and X: "t \<in> X"
  shows "sched_inv c (X - {t}) k"
proof -
  note D = sched_invD[OF inv]
  have "timeout_owner (X - {t}) k x" if x: "x \<in> set (timeout_q k)" for x
  proof -
    have "delta k x \<noteq> -1" using x D(4) by (simp add: timeout_inv_def)
    then show ?thesis using D(9)[OF x] to by (auto simp: timeout_owner_def split: toid.splits)
  qed
  moreover have "ready_iff_queued (X - {t}) k"
    using D(6) D(7)[OF X] t(3) unfolding ready_iff_queued_def by blast
  ultimately show ?thesis using inv t by (auto simp: sched_inv_def)
qed

lemma add_ready_inv:
  assumes inv: "sched_inv c X k" and t: "t \<in> X" "t \<noteq> NULL" "valid_prio c (prio (thread k t))"
    and r: "is_thread_ready k t"
  shows "sched_inv c (X - {t}) (add_thread_to_ready_q c k t)"
proof -
  have same: "mark_thread_as_started k t = k"
  proof -
    have "\<not> bit (flags (thread k t)) 14" using r by (simp add: ready_bits)
    then have "flags (thread k t) AND NOT K_PRESTART = flags (thread k t)"
      by (intro bit_eqI) (auto simp: bit_ops_flags)
    then show ?thesis by (simp add: mark_thread_as_started_def upd_thread_def)
  qed
  show ?thesis using ready_thread_inv[OF inv t] r ready_inactive[OF r]
    by (simp add: ready_thread_def same)
qed

text \<open>A flag update of a thread that is not ready before nor after and stays pending if queued.\<close>

lemma sched_inv_flags:
  assumes inv: "sched_inv c X k" and t: "t \<notin> X"
    and nr: "\<not> is_thread_ready k t" "\<not> is_thread_ready (upd_thread k t f) t"
    and p: "\<And>th. prio (f th) = prio th" "is_thread_pending k t \<longrightarrow> is_thread_pending (upd_thread k t f) t"
  shows "sched_inv c X (upd_thread k t f)"
proof -
  note D = sched_invD[OF inv]
  have o: "timeout_owner X (upd_thread k t f) x \<longleftrightarrow> timeout_owner X k x" for x
    by (rule timeout_owner_cong) simp_all
  have "is_thread_ready (upd_thread k t f) u \<longleftrightarrow> is_thread_ready k u" for u
    using nr is_thread_ready_cong[of "upd_thread k t f" u k] by (cases "u = t") auto
  then have "ready_iff_queued X (upd_thread k t f)" using D(6) by (simp add: ready_iff_queued_def)
  moreover have "is_thread_pending (upd_thread k t f) u" if "u \<in> set (queues k (WaitQ w))" for u w
    using D(8)[OF that] p(2) by (cases "u = t") (auto simp: pending_bit)
  moreover have "rq_inv c (upd_thread k t f)" using D(1) by (simp add: rq_inv_upd_thread p(1))
  ultimately show ?thesis using D o p(1) by (simp add: sched_inv_def)
qed

lemma idle_ready_other:
  assumes "idle_ready c X k" "t \<noteq> idle_thread c"
  shows "idle_ready c X (upd_thread k t f)" "idle_ready c (insert t X) k" "idle_ready c (X - {t}) k"
    "idle_ready c X (add_thread_to_ready_q c k u)" "idle_ready c X (remove_thread_from_ready_q c k u)"
  using assms by (auto simp: idle_ready_def ready_bits)

lemma idle_ready_abort:
  "timeout_inv k \<Longrightarrow> idle_ready c X k \<Longrightarrow> idle_ready c X (snd (abort_timeout k x))"
  by (simp add: idle_ready_def ready_bits active_abort)

section \<open>Operations keep the invariant\<close>

lemma new_thread_frame [simp]:
  "queues (new_thread k t p o1) = queues k" "current (new_thread k t p o1) = current k"
  "in_isr (new_thread k t p o1) = in_isr k" "timeout_q (new_thread k t p o1) = timeout_q k"
  "prio (thread (new_thread k t p o1) t) = p" "u \<noteq> t \<Longrightarrow> thread (new_thread k t p o1) u = thread k u"
  "flags (thread (new_thread k t p o1) t) = o1 OR K_PRESTART"
  "delta (new_thread k t p o1) (ThreadTO t) = -1"
  "to_wait_q (timeouts (new_thread k t p o1) (ThreadTO t)) = NULL"
  "x \<noteq> ThreadTO t \<Longrightarrow> timeouts (new_thread k t p o1) x = timeouts k x"
  by (simp_all add: new_thread_def init_thread_base_def init_thread_timeout_def init_timeout_def)

lemma new_thread_inv:
  assumes inv: "sched_inv c X k" and t: "t \<in> X" "delta k (ThreadTO t) = -1"
  shows "sched_inv c X (new_thread k t p o1)"
proof -
  let ?b = "\<lambda>th. th\<lparr>flags := o1 OR K_PRESTART, prio := p, sched_locked := 0\<rparr>"
  let ?k1 = "upd_thread k t ?b" and ?x = "ThreadTO t"
  let ?k2 = "init_timeout ?k1 ?x NoFunc"
  have i1: "sched_inv c X ?k1" by (rule sched_inv_upd_X[OF inv t(1)])
  note D = sched_invD[OF i1]
  have d: "delta ?k2 x = delta ?k1 x" for x using t(2) by (simp add: init_timeout_def)
  have "expiries ?k2 = expiries ?k1" unfolding expiries_def d by (simp add: init_timeout_def)
  then have "timeout_inv ?k2" using D(4) unfolding timeout_inv_def d by (simp add: init_timeout_def)
  moreover have "timeout_owner X ?k2 x" if x: "x \<in> set (timeout_q k)" for x
  proof -
    have "x \<noteq> ?x" using x t(2) sched_invD(4)[OF inv] by (auto simp: timeout_inv_def)
    then show ?thesis using D(9)[of x] x by (cases x) (auto simp: timeout_owner_def init_timeout_def)
  qed
  moreover have "rq_inv c ?k2" using D(1) rq_inv_cong[of ?k2 ?k1] by (simp add: init_timeout_def)
  moreover have "ready_iff_queued X ?k2" using D(6) unfolding ready_iff_queued_def ready_bits d
    by (simp add: init_timeout_def)
  ultimately have "sched_inv c X ?k2" using D
    by (simp add: sched_inv_def pending_bit) (simp add: init_timeout_def)
  then show ?thesis unfolding new_thread_def init_thread_base_def init_thread_timeout_def
    by (rule sched_inv_upd_X[OF _ t(1)])
qed

lemma start_thread_eq:
  "start_thread c k t =
     (if is_thread_ready (mark_thread_as_started k t) t then reschedule_threads c (ready_thread c k t)
      else ready_thread c k t)"
  by (simp add: start_thread_def ready_thread_def reschedule_threads_def Let_def)

lemma single_start_eq: "k_thread_single_start c k t = ready_thread c k t"
  by (simp add: k_thread_single_start_def ready_thread_def)

lemma idle_ready_ready_thread:
  "idle_ready c X k \<Longrightarrow> t \<noteq> idle_thread c \<Longrightarrow> idle_ready c X (ready_thread c k t)"
  by (simp add: idle_ready_def ready_bits)

lemma idle_ready_new_thread:
  "idle_ready c X k \<Longrightarrow> t \<noteq> idle_thread c \<Longrightarrow> idle_ready c X (new_thread k t p o1)"
  by (simp add: idle_ready_def ready_bits)

text \<open>Spawning takes a fresh thread into the scheduler's hands, at once or after its delay.\<close>

lemma k_thread_spawn_inv:
  assumes inv: "kernel_inv c X k" and t: "t \<in> X" "t \<noteq> NULL" "delta k (ThreadTO t) = -1"
    and p: "valid_prio c p" and n: "delay \<noteq> 0 \<Longrightarrow> 0 \<le> ms_to_ticks c delay \<and> ms_to_ticks c delay < 2 ^ 31 - 1"
  shows "kernel_inv c (X - {t}) (snd (k_thread_spawn c k t p opts delay))"
proof -
  let ?k1 = "new_thread k t p opts"
  have ni: "t \<noteq> idle_thread c" using inv t(1) by (auto simp: kernel_inv_def idle_ready_def)
  have s: "sched_inv c X k" and id: "idle_ready c X k" using inv by (auto simp: kernel_inv_def)
  have i1: "sched_inv c X ?k1" by (rule new_thread_inv[OF s t(1,3)])
  have id1: "idle_ready c X ?k1" by (rule idle_ready_new_thread[OF id ni])
  have "sched_inv c (X - {t}) (ready_thread c ?k1 t)"
    by (rule ready_thread_inv[OF i1 t(1,2)]) (simp_all add: p)
  then have r: "kernel_inv c (X - {t}) (ready_thread c ?k1 t)"
    using idle_ready_ready_thread[OF idle_ready_other(3)[OF id1 ni] ni] by (simp add: kernel_inv_def)
  have "sched_inv c (X - {t}) (add_thread_timeout ?k1 t NULL (1 + ms_to_ticks c delay))" if "delay \<noteq> 0"
    by (rule add_thread_timeout_inv[OF i1 t(2)]) (use n[OF that] t(1) p in simp_all)
  moreover have "idle_ready c (X - {t}) (add_thread_timeout ?k1 t NULL (1 + ms_to_ticks c delay))" if "delay \<noteq> 0"
    using idle_ready_other(3)[OF id1 ni] ni n[OF that] sched_invD(4)[OF i1]
      active_add[OF sched_invD(4)[OF i1], of "ThreadTO t" "1 + ms_to_ticks c delay" t NULL]
    by (simp add: idle_ready_def ready_bits add_thread_timeout_def expiry_active)
  ultimately show ?thesis using r reschedule_inv[OF r]
    by (simp add: k_thread_spawn_def schedule_new_thread_def start_thread_eq kernel_inv_def TICK_ALIGN_def)
qed

lemma bit_suspended:
  "bit (flags (thread (mark_thread_as_suspended k t) t)) 16"
  by (simp add: mark_defs bit_ops_flags)

text \<open>Suspending any thread but the idle thread.\<close>

lemma single_suspend_inv:
  assumes inv: "kernel_inv c X k" and t: "t \<notin> X" "t \<noteq> idle_thread c"
  shows "kernel_inv c X (k_thread_single_suspend c k t)"
    "\<not> is_thread_ready (k_thread_single_suspend c k t) t"
proof -
  let ?f = "\<lambda>th. th\<lparr>flags := flags th OR K_SUSPENDED\<rparr>"
  have s: "sched_inv c X k" and id: "idle_ready c X k" using inv by (auto simp: kernel_inv_def)
  have v: "t \<noteq> NULL" "valid_prio c (prio (thread k t))" using sched_invD(5,10)[OF s] t(1) by metis+
  show nr: "\<not> is_thread_ready (k_thread_single_suspend c k t) t"
    unfolding k_thread_single_suspend_def ready_bits using bit_suspended by blast
  have "sched_inv c X (k_thread_single_suspend c k t)"
  proof (cases "is_thread_ready k t")
    case True
    let ?k1 = "remove_thread_from_ready_q c k t"
    have "sched_inv c (insert t X) ?k1" by (rule remove_ready_inv[OF s t(1) True])
    then have "sched_inv c (insert t X) (upd_thread ?k1 t ?f)" by (rule sched_inv_upd_X) simp
    then have "sched_inv c (insert t X - {t}) (upd_thread ?k1 t ?f)"
      by (rule sched_inv_admit) (use v True nr ready_inactive[OF True] in
          \<open>simp_all add: k_thread_single_suspend_def mark_thread_as_suspended_def\<close>)
    then show ?thesis using True t(1) by (simp add: k_thread_single_suspend_def mark_thread_as_suspended_def)
  next
    case False
    then show ?thesis using nr unfolding k_thread_single_suspend_def mark_thread_as_suspended_def
      by (simp add: sched_inv_flags[OF s t(1) False] pending_bit bit_ops_flags)
  qed
  then show "kernel_inv c X (k_thread_single_suspend c k t)"
    using id t(2) by (simp add: kernel_inv_def k_thread_single_suspend_def mark_thread_as_suspended_def
        idle_ready_other)
qed

lemma k_thread_suspend_inv:
  assumes "kernel_inv c X k" "t \<notin> X" "t \<noteq> idle_thread c"
  shows "kernel_inv c X (k_thread_suspend c k t)"
  using single_suspend_inv(1)[OF assms] Swap_inv(1)[OF single_suspend_inv(1)[OF assms]]
  by (simp add: k_thread_suspend_def Let_def)

text \<open>Resuming a thread that is suspended.\<close>

lemma single_resume_inv:
  assumes inv: "kernel_inv c X k" and t: "t \<notin> X" and sus: "bit (flags (thread k t)) 16"
  shows "kernel_inv c X (k_thread_single_resume c k t)"
proof -
  let ?f = "\<lambda>th. th\<lparr>flags := flags th AND NOT K_SUSPENDED\<rparr>"
  let ?k1 = "upd_thread k t ?f"
  have s: "sched_inv c X k" and id: "idle_ready c X k" using inv by (auto simp: kernel_inv_def)
  have v: "t \<noteq> NULL" "valid_prio c (prio (thread k t))" using sched_invD(5,10)[OF s] t by metis+
  have nr: "\<not> is_thread_ready k t" using sus by (simp add: ready_bits)
  have ni: "t \<noteq> idle_thread c" using nr id by (auto simp: idle_ready_def)
  have "sched_inv c X (k_thread_single_resume c k t)"
  proof (cases "is_thread_ready ?k1 t")
    case True
    have np: "\<not> is_thread_pending k t" using True by (auto simp: ready_bits pending_bit bit_ops_flags)
    have "sched_inv c (insert t X) k" using sched_inv_retire[OF s] unqueued[OF s np nr] by blast
    then have "sched_inv c (insert t X) ?k1" by (rule sched_inv_upd_X) simp
    then have "sched_inv c (insert t X - {t}) (add_thread_to_ready_q c ?k1 t)"
      by (rule add_ready_inv) (use v True in simp_all)
    then show ?thesis using True t by (simp add: k_thread_single_resume_def mark_thread_as_not_suspended_def)
  next
    case False
    then show ?thesis unfolding k_thread_single_resume_def mark_thread_as_not_suspended_def
      by (simp add: sched_inv_flags[OF s t nr] pending_bit bit_ops_flags)
  qed
  then show ?thesis using id ni
    by (simp add: kernel_inv_def k_thread_single_resume_def mark_thread_as_not_suspended_def
        idle_ready_other Let_def)
qed

text \<open>Aborting: the thread leaves every queue, is dead, and its memory can be reused.\<close>

lemma single_abort_inv:
  assumes inv: "kernel_inv c X k" and t: "t \<notin> X" "t \<noteq> idle_thread c" and na: "fn_abort (thread k t) = NULL"
  shows "kernel_inv c (insert t X) (k_thread_single_abort c call k t)"
    "\<not> is_thread_ready (k_thread_single_abort c call k t) t"
    "expiry (k_thread_single_abort c call k t) = (expiry k)(ThreadTO t := None)"
proof -
  let ?f = "\<lambda>th. th\<lparr>flags := flags th OR K_DEAD\<rparr>"
  have s: "sched_inv c X k" and id: "idle_ready c X k" using inv by (auto simp: kernel_inv_def)
  define k' where "k' = (if is_thread_pending k t then unpend_thread k t else k)"
  define k2 where "k2 = (if is_thread_ready k t then remove_thread_from_ready_q c k t
     else if is_thread_timeout_active k' t then snd (abort_thread_timeout k' t) else k')"
  have eq: "k_thread_single_abort c call k t = upd_thread k2 t ?f"
    using na by (simp add: k_thread_single_abort_def k2_def k'_def Let_def mark_thread_as_dead_def)
  show "\<not> is_thread_ready (k_thread_single_abort c call k t) t"
    by (simp add: eq ready_bits bit_ops_flags)
  have "sched_inv c (insert t X) k2 \<and> idle_ready c X k2 \<and> expiry k2 = (expiry k)(ThreadTO t := None)"
  proof (cases "is_thread_ready k t")
    case True
    have "expiry k (ThreadTO t) = None"
      using expiry_active[OF sched_invD(4)[OF s]] ready_inactive[OF True] by simp
    then have "expiry k2 = (expiry k)(ThreadTO t := None)" using True by (simp add: k2_def fun_upd_idem)
    then show ?thesis using remove_ready_inv[OF s t(1) True] idle_ready_other(5)[OF id t(2)] True
      by (simp add: k2_def)
  next
    case False
    have i1: "sched_inv c (insert t X) k'"
      using unpend_thread_inv[OF s] sched_inv_retire[OF s] unqueued[OF s _ False] by (auto simp: k'_def)
    have id1: "idle_ready c X k'" "expiry k' = expiry k"
      using id t(2) by (auto simp: k'_def idle_ready_def ready_bits)
    have i2: "sched_inv c (insert t X) (snd (abort_thread_timeout k' t))"
      using abort_thread_timeout_inv[OF i1, of t] sched_invD(7)[OF i1, of t] by (simp add: insert_absorb)
    have e: "expiry (snd (abort_thread_timeout k' t)) = (expiry k)(ThreadTO t := None)"
      using expiry_abort[OF sched_invD(4)[OF i1]] id1 by (simp add: abort_thread_timeout_def)
    have "k2 = snd (abort_thread_timeout k' t)"
      using False abort_inactive[of k' "ThreadTO t"]
      by (simp add: k2_def is_thread_timeout_active_def abort_thread_timeout_def)
    then show ?thesis using i2 e idle_ready_abort[OF sched_invD(4)[OF i1] id1(1)]
      by (simp add: abort_thread_timeout_def)
  qed
  then show "kernel_inv c (insert t X) (k_thread_single_abort c call k t)"
    "expiry (k_thread_single_abort c call k t) = (expiry k)(ThreadTO t := None)"
    using sched_inv_upd_X[of c "insert t X" k2 t ?f] t(2)
      idle_ready_other(1)[OF idle_ready_other(2)[of c X k2 t], of t ?f]
    by (auto simp: eq kernel_inv_def)
qed

text \<open>Cancelling a delayed start.\<close>

lemma k_thread_cancel_inv:
  assumes inv: "kernel_inv c X k" and t: "\<not> has_thread_started k t" "is_thread_timeout_active k t"
    "\<not> is_thread_pending k t"
  shows "kernel_inv c (insert t X) (snd (k_thread_cancel k t))" "fst (k_thread_cancel k t) = 0"
    "expiry (snd (k_thread_cancel k t)) = (expiry k)(ThreadTO t := None)"
proof -
  have s: "sched_inv c X k" and id: "idle_ready c X k" using inv by (auto simp: kernel_inv_def)
  have nr: "\<not> is_thread_ready k t" using t by (simp add: ready_bits started_bit)
  have "idle_ready c X (snd (abort_thread_timeout k t))"
    using idle_ready_abort[OF sched_invD(4)[OF s] id] by (simp add: abort_thread_timeout_def)
  moreover have "t \<noteq> idle_thread c" using nr id by (auto simp: idle_ready_def)
  ultimately show "kernel_inv c (insert t X) (snd (k_thread_cancel k t))" "fst (k_thread_cancel k t) = 0"
    using abort_thread_timeout_inv[OF s unqueued[OF s t(3) nr]] t idle_ready_other(2)
    by (auto simp: k_thread_cancel_def kernel_inv_def)
  show "expiry (snd (k_thread_cancel k t)) = (expiry k)(ThreadTO t := None)"
    using t expiry_abort[OF sched_invD(4)[OF s]] by (simp add: k_thread_cancel_def abort_thread_timeout_def)
qed

text \<open>Waking a sleeping thread before its time.\<close>

lemma k_wakeup_sleeping:
  assumes inv: "kernel_inv c X k" and t: "\<not> is_thread_pending k t" "is_thread_timeout_active k t" "t \<notin> X"
  defines "k1 \<equiv> ready_thread c (snd (abort_thread_timeout k t)) t"
  shows "kernel_inv c X k1" "expiry k1 = (expiry k)(ThreadTO t := None)"
    "k_wakeup c k t = (if in_isr k then k1 else reschedule_threads c k1)"
proof -
  let ?k = "snd (abort_thread_timeout k t)"
  have s: "sched_inv c X k" and id: "idle_ready c X k" using inv by (auto simp: kernel_inv_def)
  have v: "t \<noteq> NULL" "valid_prio c (prio (thread k t))" using sched_invD(5,10)[OF s] t(3) by metis+
  have a: "delta k (ThreadTO t) \<noteq> -1" using t(2) by (simp add: is_thread_timeout_active_def)
  then have nr: "\<not> is_thread_ready k t" by (simp add: ready_bits)
  have ni: "t \<noteq> idle_thread c" using nr id by (auto simp: idle_ready_def)
  have i1: "sched_inv c (insert t X) ?k" by (rule abort_thread_timeout_inv[OF s unqueued[OF s t(1) nr]])
  have "sched_inv c (insert t X - {t}) k1" unfolding k1_def
    by (rule ready_thread_inv[OF i1]) (use v in \<open>simp_all add: abort_thread_timeout_def delta_abort_self\<close>)
  moreover have "idle_ready c X k1" unfolding k1_def
    using idle_ready_abort[OF sched_invD(4)[OF s] id, of "ThreadTO t"] ni
    by (simp add: idle_ready_ready_thread abort_thread_timeout_def)
  ultimately show "kernel_inv c X k1" using t(3) by (simp add: kernel_inv_def)
  show "expiry k1 = (expiry k)(ThreadTO t := None)"
    using expiry_abort[OF sched_invD(4)[OF s]] by (simp add: k1_def abort_thread_timeout_def)
  have "fst (abort_thread_timeout k t) = 0"
    using a by (simp add: abort_thread_timeout_def abort_timeout_def Let_def)
  then show "k_wakeup c k t = (if in_isr k then k1 else reschedule_threads c k1)"
    using t(1) by (simp add: k_wakeup_def k1_def Let_def case_prod_beta) (simp add: abort_thread_timeout_def)
qed

lemma k_wakeup_other: "\<not> is_thread_timeout_active k t \<or> is_thread_pending k t \<Longrightarrow> k_wakeup c k t = k"
  by (auto simp: k_wakeup_def is_thread_timeout_active_def abort_thread_timeout_def abort_inactive)

section \<open>Booting\<close>

text \<open>
  A kernel at power-on: empty queues, clear bitmap, no cached thread.  The store of timeouts has an
  entry for every address; where no timeout has been initialised yet the entry is inactive by
  convention.
\<close>

definition cold :: "'z kernel_scheme \<Rightarrow> bool" where
  "cold k \<longleftrightarrow> (\<forall>q. queues k q = []) \<and> (\<forall>i. prio_bmap k i = 0) \<and> cache k = NULL \<and> timeout_q k = [] \<and>
     (\<forall>x. delta k x = -1) \<and> \<not> in_isr k"

lemma cold_inv:
  assumes "cold k"
  shows "sched_inv c UNIV k"
  using assms by (auto simp: cold_def sched_inv_def rq_inv_def queues_wf_def rq_wf_def ready_bit_def
      timeout_inv_def expiries_def ready_iff_queued_def)

lemma boot_add:
  assumes inv: "sched_inv c X k" and t: "t \<in> X" "t \<noteq> NULL" "delta k (ThreadTO t) = -1" and p: "valid_prio c p"
  defines "k1 \<equiv> mark_thread_as_started (new_thread k t p K_ESSENTIAL) t"
  shows "sched_inv c (X - {t}) (add_thread_to_ready_q c k1 t)" "is_thread_ready (add_thread_to_ready_q c k1 t) t"
proof -
  have r: "is_thread_ready k1 t"
    by (simp add: k1_def mark_defs ready_bits bit_ops_flags bit_or_iff bit_flags)
  then show "is_thread_ready (add_thread_to_ready_q c k1 t) t" by (simp add: ready_bits)
  have "sched_inv c X k1" unfolding k1_def mark_thread_as_started_def
    by (rule sched_inv_upd_X[OF new_thread_inv[OF inv t(1,3)] t(1)])
  then show "sched_inv c (X - {t}) (add_thread_to_ready_q c k1 t)"
    by (rule add_ready_inv) (use t p r in \<open>simp_all add: k1_def mark_defs\<close>)
qed

lemma boot_inv:
  assumes k: "cold k" and m: "m \<noteq> NULL" "m \<noteq> idle_thread c" "idle_thread c \<noteq> NULL"
    and d: "d \<noteq> m" "d \<noteq> idle_thread c" and p: "valid_prio c mp"
  shows "kernel_inv c (UNIV - {m, idle_thread c}) (prepare_multithreading c d m mp k)"
    "is_thread_ready (prepare_multithreading c d m mp k) m"
    "timeout_q (prepare_multithreading c d m mp k) = []"
    "prio (thread (prepare_multithreading c d m mp k) m) = mp"
    "\<not> in_isr (prepare_multithreading c d m mp k)"
proof -
  let ?i = "idle_thread c" and ?ip = "int (NUM_PREEMPT_PRIORITIES c)"
  let ?k2 = "upd_thread (k\<lparr>current := d\<rparr>) d (\<lambda>th. th\<lparr>flags := K_ESSENTIAL, prio := - int (NUM_COOP_PRIORITIES c)\<rparr>)"
  let ?k5 = "add_thread_to_ready_q c (mark_thread_as_started (new_thread ?k2 m mp K_ESSENTIAL) m) m"
  let ?k7 = "add_thread_to_ready_q c (mark_thread_as_started (new_thread ?k5 ?i ?ip K_ESSENTIAL) ?i) ?i"
  have "queues ?k2 = (\<lambda>q. [])" using k by (simp add: cold_def fun_eq_iff)
  then have q: "?k2\<lparr>queues := (\<lambda>q. case q of ReadyQ i \<Rightarrow> if i < K_NUM_PRIORITIES c then [] else queues ?k2 q
      | WaitQ w \<Rightarrow> queues ?k2 q)\<rparr> = ?k2"
    by (intro kernel.equality) (auto simp: fun_eq_iff split: qid.splits)
  have tq: "timeout_q ?k7 = []" using k by (simp add: mark_defs cold_def)
  then have eq: "prepare_multithreading c d m mp k = ?k7"
    by (simp only: prepare_multithreading_def Let_def q) (intro kernel.equality; simp)
  have c2: "cold ?k2" using k by (simp add: cold_def)
  have dm: "delta ?k2 (ThreadTO m) = -1" "delta ?k5 (ThreadTO ?i) = -1"
    using k m by (simp_all add: cold_def mark_defs)
  note b1 = boot_add[OF cold_inv[OF c2] _ m(1) dm(1) p]
  have vi: "valid_prio c ?ip" by (simp add: valid_prio_def)
  have i5: "sched_inv c (UNIV - {m}) ?k5" by (rule b1) simp
  note b2 = boot_add[OF i5 _ m(3) dm(2) vi]
  have i7: "sched_inv c (UNIV - {m} - {?i}) ?k7" by (rule b2) (use m in simp)
  have r7: "is_thread_ready ?k7 ?i" by (rule b2) (use m in simp)
  have "idle_ready c (UNIV - {m, ?i}) ?k7" using r7 by (simp add: idle_ready_def)
  moreover have "UNIV - {m} - {?i} = UNIV - {m, ?i}" by blast
  ultimately show "kernel_inv c (UNIV - {m, ?i}) (prepare_multithreading c d m mp k)"
    using i7 by (simp add: eq kernel_inv_def)
  have "is_thread_ready ?k5 m" by (rule b1) simp
  then show "is_thread_ready (prepare_multithreading c d m mp k) m"
    using m by (simp add: eq ready_bits mark_defs)
  show "timeout_q (prepare_multithreading c d m mp k) = []" using tq by (simp add: eq)
  show "prio (thread (prepare_multithreading c d m mp k) m) = mp"
    "\<not> in_isr (prepare_multithreading c d m mp k)"
    using m k by (simp_all add: eq mark_defs cold_def)
qed

section \<open>Busy waiting\<close>

lemma busy_wait_loop_result:
  assumes "cyc j - s \<ge> w" "i \<le> j"
  shows "\<exists>m. busy_wait_loop cyc s w i = Some m \<and> i \<le> m \<and> m \<le> j \<and> cyc m - s \<ge> w \<and> (\<forall>l. i \<le> l \<and> l < m \<longrightarrow> cyc l - s < w)"
  using assms(2)
proof (induction "j - i" arbitrary: i)
  case 0
  then have "i = j" by simp
  then show ?case using assms(1) by (intro exI[of _ j]) (auto simp: busy_wait_loop.simps)
next
  case (Suc n)
  show ?case
  proof (cases "cyc i - s \<ge> w")
    case False
    then obtain m where m: "busy_wait_loop cyc s w (Suc i) = Some m" "Suc i \<le> m" "m \<le> j" "cyc m - s \<ge> w"
      "\<forall>l. Suc i \<le> l \<and> l < m \<longrightarrow> cyc l - s < w" using Suc.hyps(1)[of "Suc i"] Suc.hyps(2) by fastforce
    have "cyc l - s < w" if "i \<le> l" "l < m" for l
      using that m(5) False by (cases "l = i") auto
    then show ?thesis using m False by (intro exI[of _ m]) (simp add: busy_wait_loop.simps[of cyc s w i])
  qed (use Suc.prems in \<open>auto simp: busy_wait_loop.simps[of cyc s w i]\<close>)
qed

text \<open>A counter that moves at every read, and not past the end of the wait in one step, gets there.\<close>

lemma counter_arrives:
  fixes cyc :: "nat \<Rightarrow> u32"
  assumes step: "\<And>i. cyc (Suc i) \<noteq> cyc i" "\<And>i. unat (cyc (Suc i) - cyc i) + unat w \<le> 2 ^ 32"
  shows "\<exists>j\<ge>1. cyc j - cyc 0 \<ge> w"
proof (rule ccontr)
  assume no: "\<not> (\<exists>j\<ge>1. cyc j - cyc 0 \<ge> w)"
  have lt: "unat (cyc j - cyc 0) < unat w" if "j \<ge> 1" for j 
  proof -
    have "cyc j - cyc 0 < w" using that no by (metis not_le)
    then show ?thesis by (simp add: word_less_nat_alt)
  qed
  have "unat (cyc (Suc j) - cyc 0) \<ge> Suc j" for j
  proof (induction j)
    case 0
    then show ?case using step(1)[of 0] by (simp add: Suc_le_eq unat_gt_0)
  next
    case (Suc j)
    let ?d = "cyc (Suc (Suc j)) - cyc (Suc j)" and ?o = "cyc (Suc j) - cyc 0"
    have "unat ?o + unat ?d < 2 ^ 32" using lt[of "Suc j"] step(2)[of "Suc j"] by simp
    then have "unat (?o + ?d) = unat ?o + unat ?d" by (subst unat_add_lem[symmetric]) simp
    moreover have "?o + ?d = cyc (Suc (Suc j)) - cyc 0" by simp
    moreover have "unat ?d > 0" using step(1)[of "Suc j"] by (simp add: unat_gt_0)
    ultimately show ?case using Suc by simp
  qed
  from this[of "unat w"] show False using lt[of "Suc (unat w)"] by simp
qed

end
