(* ===== verification/Timeout_Expiry.thy ===== *)
theory Timeout_Expiry
  imports Threads
begin

text \<open>
  Expiry of timeouts: \<^verbatim>\<open>_handle_one_timeout\<close> and \<^verbatim>\<open>_handle_timeouts\<close> of
  \<^verbatim>\<open>kernel/unified/include/timeout_q.h\<close> and \<^verbatim>\<open>handle_expired_timeouts\<close> of \<^verbatim>\<open>sys_clock.c\<close>.  The
  function a timeout carries, \<^verbatim>\<open>t->func\<close>, is the argument \<open>fire\<close>; what a loop over expired
  timeouts relies on is the locale \<open>timeout_handlers\<close>.
\<close>

section \<open>Operations\<close>

definition unpend_thread_timing_out :: "'z kernel_scheme \<Rightarrow> tid \<Rightarrow> toid \<Rightarrow> 'z kernel_scheme" where
  "unpend_thread_timing_out k t x =
     (if to_wait_q (timeouts k x) \<noteq> NULL
      then upd_timeout (unpend_thread k t) (ThreadTO t) (\<lambda>u. u\<lparr>to_wait_q := NULL\<rparr>) else k)"

text \<open>The caller has seen that the queue is not empty.\<close>

definition handle_one_timeout ::
  "kconfig \<Rightarrow> (toid \<Rightarrow> 'z kernel_scheme \<Rightarrow> 'z kernel_scheme) \<Rightarrow> 'z kernel_scheme \<Rightarrow> 'z kernel_scheme" where
  "handle_one_timeout c fire k =
     (let x = hd (timeout_q k);
          t = to_thread (timeouts k x);
          k1 = upd_timeout (k\<lparr>timeout_q := tl (timeout_q k)\<rparr>) x (\<lambda>u. u\<lparr>delta_ticks_from_prev := -1\<rparr>)
      in if t \<noteq> NULL then ready_thread c (unpend_thread_timing_out k1 t x) t
         else if to_func (timeouts k1 x) \<noteq> NoFunc then fire x k1 else k1)"

partial_function (option) handle_timeouts ::
  "kconfig \<Rightarrow> (toid \<Rightarrow> 'z kernel_scheme \<Rightarrow> 'z kernel_scheme) \<Rightarrow> 'z kernel_scheme \<Rightarrow> 'z kernel_scheme option" where
  "handle_timeouts c fire k =
     (if timeout_q k \<noteq> [] \<and> delta k (hd (timeout_q k)) = 0
      then handle_timeouts c fire (handle_one_timeout c fire k) else Some k)"

definition handle_expired_timeouts ::
  "kconfig \<Rightarrow> (toid \<Rightarrow> 'z kernel_scheme \<Rightarrow> 'z kernel_scheme) \<Rightarrow> 'z kernel_scheme \<Rightarrow> int \<Rightarrow>
     'z kernel_scheme option" where
  "handle_expired_timeouts c fire k ticks =
     (if timeout_q k \<noteq> []
      then handle_timeouts c fire (upd_timeout k (hd (timeout_q k))
             (\<lambda>u. u\<lparr>delta_ticks_from_prev := delta_ticks_from_prev u - ticks\<rparr>))
      else Some k)"

section \<open>One expired timeout\<close>

lemma expire_abort:
  assumes "timeout_q k = x # xs" "delta k x = 0" "distinct (timeout_q k)"
  shows "upd_timeout (k\<lparr>timeout_q := xs\<rparr>) x (\<lambda>u. u\<lparr>delta_ticks_from_prev := -1\<rparr>) = snd (abort_timeout k x)"
proof (cases xs)
  case Nil
  then show ?thesis using assms by (simp add: abort_timeout_def)
next
  case (Cons y ys)
  then have "x \<noteq> y" "x \<notin> set ys" using assms by auto
  moreover have "upd_timeout k y (\<lambda>u. u\<lparr>delta_ticks_from_prev := delta_ticks_from_prev u + 0\<rparr>) = k"
    by (simp add: upd_timeout_def)
  ultimately show ?thesis using assms Cons by (auto simp: abort_timeout_def Let_def)
qed

lemma abort_unpend: "snd (abort_timeout (unpend_thread k t) x) = unpend_thread (snd (abort_timeout k x)) t"
  by (simp add: abort_timeout_def Let_def unpend_thread_def mark_defs upd_thread_def upd_timeout_def unlink_node_def
      split: option.splits)

lemma delta_upd_timeout:
  assumes "\<And>u. delta_ticks_from_prev (f u) = delta_ticks_from_prev u"
  shows "delta (upd_timeout k x f) = delta k" "expiries (upd_timeout k x f) = expiries k"
    "expiry (upd_timeout k x f) = expiry k"
proof -
  show d: "delta (upd_timeout k x f) = delta k" using assms by (simp add: fun_eq_iff)
  show e: "expiries (upd_timeout k x f) = expiries k" unfolding expiries_def d by simp
  show "expiry (upd_timeout k x f) = expiry k" by (simp add: expiry_def e fun_eq_iff)
qed

lemma sched_inv_inactive:
  assumes inv: "sched_inv c X k" and x: "delta k x = -1" and f: "\<And>u. delta_ticks_from_prev (f u) = delta_ticks_from_prev u"
  shows "sched_inv c X (upd_timeout k x f)"
proof -
  note D = sched_invD[OF inv] and d = delta_upd_timeout(1)[of f k x, OF f] and e = delta_upd_timeout(2)[of f k x, OF f]
  have nq: "x \<notin> set (timeout_q k)" using D(4) x by (auto simp: timeout_inv_def)
  have "timeout_inv (upd_timeout k x f)" using D(4) f unfolding timeout_inv_def e by simp
  moreover have "rq_inv c (upd_timeout k x f)" using D(1) rq_inv_cong[of "upd_timeout k x f" k] by simp
  moreover have "is_thread_ready (upd_timeout k x f) t \<longleftrightarrow> is_thread_ready k t" for t
    using fun_cong[OF d, of "ThreadTO t"] by (simp add: ready_bits)
  moreover have "timeout_owner X (upd_timeout k x f) y" if "y \<in> set (timeout_q k)" for y
    using D(9)[OF that] that nq by (auto simp: timeout_owner_def split: toid.splits)
  ultimately show "sched_inv c X (upd_timeout k x f)"
    using D by (simp add: sched_inv_def ready_iff_queued_def pending_bit)
qed

text \<open>A timeout is removed and no thread becomes ready by that alone.\<close>

lemma abort_inv:
  assumes inv: "sched_inv c X k"
    and x: "\<And>t. x = ThreadTO t \<Longrightarrow> t \<notin> X \<Longrightarrow> is_thread_prevented_from_running k t"
  shows "sched_inv c X (snd (abort_timeout k x))"
proof -
  note D = sched_invD[OF inv]
  let ?k = "snd (abort_timeout k x)"
  have "rq_inv c ?k" using D(1) rq_inv_cong[of ?k k] by simp
  moreover have "is_thread_ready ?k t \<longleftrightarrow> is_thread_ready k t" if "t \<notin> X" for t
    using that x[of t] by (auto simp: ready_bits prevented_bits active_abort[OF D(4)])
  then have "ready_iff_queued X ?k" using D(6) by (simp add: ready_iff_queued_def)
  moreover have "timeout_owner X ?k y" if "y \<in> set (timeout_q ?k)" for y
  proof -
    have "y \<in> set (timeout_q k)"
      using that by (cases "delta k x = -1") (auto simp: abort_inactive timeout_q_abort dest: set_remove1D)
    from D(9)[OF this] show ?thesis by (auto simp: timeout_owner_def split: toid.splits)
  qed
  ultimately show ?thesis using D by (auto simp: sched_inv_def pending_bit intro: abort_timeout_inv)
qed

text \<open>Timeouts that belong to no thread.\<close>

lemma abort_callback_inv:
  assumes "kernel_inv c X k" "\<And>t. x \<noteq> ThreadTO t"
  shows "kernel_inv c X (snd (abort_timeout k x))"
  using assms abort_inv[of c X k x] idle_ready_abort[OF sched_invD(4), of c X k c X x] by (simp add: kernel_inv_def)

lemma add_callback_inv:
  assumes inv: "kernel_inv c X k" and x: "\<And>t. x \<noteq> ThreadTO t" "expiry k x = None" and n: "0 \<le> n" "n < 2 ^ 31"
  shows "kernel_inv c X (add_timeout k NULL x w n)"
proof -
  have s: "sched_inv c X k" and id: "idle_ready c X k" using inv by (auto simp: kernel_inv_def)
  note D = sched_invD[OF s]
  let ?k = "add_timeout k NULL x w n"
  have r: "is_thread_ready ?k t \<longleftrightarrow> is_thread_ready k t" for t
    using x(1)[of t] by (auto simp: ready_bits active_add[OF D(4) x(2) n])
  have "rq_inv c ?k" using D(1) rq_inv_cong[of ?k k] by simp
  moreover have "timeout_inv ?k" by (rule add_timeout_inv[OF D(4) x(2) n])
  moreover have "timeout_owner X ?k y" if "y \<in> set (timeout_q ?k)" for y
    using that D(9)[of y] x(1) by (cases "y = x") (auto simp: timeout_q_add timeout_owner_def split: toid.splits)
  ultimately have "sched_inv c X ?k" using D r by (auto simp: sched_inv_def ready_iff_queued_def pending_bit)
  then show ?thesis using id r by (simp add: kernel_inv_def idle_ready_def)
qed

text \<open>The invariant depends on the kernel structure alone.\<close>

lemma kernel_inv_cong:
  assumes "queues k' = queues k" "prio_bmap k' = prio_bmap k" "cache k' = cache k" "timeout_q k' = timeout_q k"
    "timeouts k' = timeouts k" "thread k' = thread k"
  shows "kernel_inv c X k' \<longleftrightarrow> kernel_inv c X k" "expiry k' = expiry k"
  using assms rq_inv_cong[of k' k c]
  by (simp_all add: kernel_inv_def sched_inv_def idle_ready_def ready_iff_queued_def timeout_inv_def expiry_def expiries_def
      timeout_owner_def ready_bits pending_bit fun_eq_iff split: toid.splits)

text \<open>The timeout of a thread: the thread leaves its wait queue, if any, and is readied.\<close>

lemma thread_timeout_eq:
  assumes "sched_inv c X k" and q: "timeout_q k = ThreadTO t # xs" and d: "delta k (ThreadTO t) = 0"
  shows "handle_one_timeout c fire k = ready_thread c
    (if to_wait_q (timeouts k (ThreadTO t)) \<noteq> NULL
     then upd_timeout (unpend_thread (snd (abort_timeout k (ThreadTO t))) t) (ThreadTO t) (\<lambda>u. u\<lparr>to_wait_q := NULL\<rparr>)
     else snd (abort_timeout k (ThreadTO t))) t"
proof -
  note D = sched_invD[OF assms(1)]
  have "timeout_owner X k (ThreadTO t)" using D(9) q by simp
  then show ?thesis using expire_abort[OF q d] D(4)
    by (simp add: handle_one_timeout_def q Let_def timeout_owner_def unpend_thread_timing_out_def timeout_inv_def)
qed

lemma thread_timeout_sched:
  assumes s: "sched_inv c X k" and q: "timeout_q k = ThreadTO t # xs" and d: "delta k (ThreadTO t) = 0"
    and t: "t \<notin> X"
  shows "sched_inv c X (handle_one_timeout c fire k)"
proof -
  let ?x = "ThreadTO t" and ?w = "to_wait_q (timeouts k (ThreadTO t))" and ?f = "\<lambda>u. u\<lparr>to_wait_q := NULL\<rparr>"
  let ?k1 = "snd (abort_timeout k ?x)"
  let ?k2 = "upd_timeout (unpend_thread ?k1 t) ?x ?f"
  note D = sched_invD[OF s]
  note eq = thread_timeout_eq[OF s q d, of fire]
  have v: "t \<noteq> NULL" "valid_prio c (prio (thread k t))" using D(5,10) t by metis+
  have nr: "\<not> is_thread_ready k t" using d by (simp add: ready_bits)
  consider (sleep) "?w = NULL" "\<not> is_thread_pending k t" | (stay) "?w = NULL" "is_thread_pending k t" | (wait) "?w \<noteq> NULL"
    by blast
  then show ?thesis
  proof cases
    case sleep
    have "sched_inv c (insert t X) ?k1"
      using abort_thread_timeout_inv[OF s unqueued[OF s sleep(2) nr]] by (simp add: abort_thread_timeout_def)
    from ready_thread_inv[OF this, of t] show ?thesis using sleep v t by (simp add: eq delta_abort_self)
  next
    case stay
    then have p: "bit (flags (thread k t)) 13" by (simp add: pending_bit)
    then have i1: "sched_inv c X ?k1" by (intro abort_inv[OF s]) (auto simp: prevented_bits)
    have n: "\<not> is_thread_ready ?k1 t" "\<not> is_thread_ready (mark_thread_as_started ?k1 t) t"
      using p by (auto simp: ready_bits mark_defs bit_ops_flags)
    from sched_inv_flags[OF i1 t n(1), of "\<lambda>th. th\<lparr>flags := flags th AND NOT K_PRESTART\<rparr>"]
    show ?thesis using stay n p by (simp add: eq ready_thread_def Let_def mark_defs pending_bit bit_ops_flags)
  next
    case wait
    then have "t \<in> set (queues k (WaitQ ?w))" using D(9)[of ?x] q t by (simp add: timeout_owner_def)
    then have "is_thread_pending k t" using D(8) by blast
    then have i1: "sched_inv c (insert t X) (unpend_thread k t)" by (rule unpend_thread_inv[OF s])
    have "sched_inv c (insert t X) (unpend_thread ?k1 t)"
      using abort_thread_timeout_inv[OF i1, of t] sched_invD(7)[OF i1, of t]
      by (simp add: abort_thread_timeout_def abort_unpend)
    then have "sched_inv c (insert t X) ?k2" by (rule sched_inv_inactive) (simp_all add: delta_abort_self)
    from ready_thread_inv[OF this, of t] show ?thesis using wait v t by (simp add: eq delta_abort_self)
  qed
qed

lemma thread_timeout_inv:
  assumes inv: "kernel_inv c X k" and q: "timeout_q k = ThreadTO t # xs" and d: "delta k (ThreadTO t) = 0"
    and t: "t \<notin> X"
  shows "kernel_inv c X (handle_one_timeout c fire k)"
    "expiry (handle_one_timeout c fire k) = (expiry k)(ThreadTO t := None)"
proof -
  let ?k = "handle_one_timeout c fire k"
  have s: "sched_inv c X k" and id: "idle_ready c X k" using inv by (auto simp: kernel_inv_def)
  note eq = thread_timeout_eq[OF s q d, of fire] and s' = thread_timeout_sched[OF s q d t, of fire]
  show e: "expiry ?k = (expiry k)(ThreadTO t := None)"
    using expiry_abort[OF sched_invD(4)[OF s], of "ThreadTO t"] by (simp add: eq delta_upd_timeout(3))
  have ni: "idle_thread c \<noteq> t" using id d by (auto simp: idle_ready_def ready_bits)
  then have "flags (thread ?k (idle_thread c)) = flags (thread k (idle_thread c))" by (simp add: eq)
  then have "idle_ready c X ?k"
    using expiry_active[OF sched_invD(4)[OF s], of "ThreadTO (idle_thread c)"] ni
      expiry_active[OF sched_invD(4)[OF s'], of "ThreadTO (idle_thread c)"] id
    by (simp add: idle_ready_def ready_bits e)
  with s' show "kernel_inv c X ?k" by (simp add: kernel_inv_def)
qed

section \<open>All expired timeouts\<close>

text \<open>
  What expiry of timeouts does to the parts of the state that others depend on.  The interrupted
  thread stays the current one, ready threads stay ready and threads that only sleep are kept from
  running by nothing else.  The handlers of other timeouts find
  that wait queues, active timeouts and the timeout queue have only shrunk, and that everything
  that is not part of the kernel structure is as it was.
\<close>

definition runs_on :: "tid set \<Rightarrow> 'z kernel_scheme \<Rightarrow> 'z kernel_scheme \<Rightarrow> bool" where
  "runs_on X k k' \<longleftrightarrow> current k' = current k \<and> in_isr k' = in_isr k \<and>
     (\<forall>t. t \<notin> X \<longrightarrow> is_thread_ready k t \<longrightarrow> is_thread_ready k' t) \<and>
     (\<forall>t. t \<notin> X \<longrightarrow> \<not> is_thread_prevented_from_running k t \<longrightarrow> \<not> is_thread_prevented_from_running k' t)"

lemma runs_on_trans: "runs_on X k1 k2 \<Longrightarrow> runs_on X k2 k3 \<Longrightarrow> runs_on X k1 k3"
  by (simp add: runs_on_def)

lemma runs_on_expiry:
  assumes "timeout_inv k" "timeout_inv k'" "current k' = current k" "in_isr k' = in_isr k"
    "\<And>t. t \<notin> X \<Longrightarrow> \<not> prevented (flags (thread k t)) \<Longrightarrow> flags (thread k' t) = flags (thread k t)"
    "\<And>t. expiry k (ThreadTO t) = None \<Longrightarrow> expiry k' (ThreadTO t) = None"
  shows "runs_on X k k'"
  unfolding runs_on_def
proof (intro conjI allI impI)
  fix t assume t: "t \<notin> X" "is_thread_ready k t"
  then have "delta k (ThreadTO t) = -1" by (simp add: ready_bits)
  then have "delta k' (ThreadTO t) = -1"
    using expiry_active[OF assms(1), of "ThreadTO t"] expiry_active[OF assms(2), of "ThreadTO t"] assms(6)[of t] by simp
  then show "is_thread_ready k' t" using t assms(5)[OF t(1)] by (simp add: ready_bits)
qed (use assms in \<open>simp_all add: prevented_bits\<close>)

definition settles :: "'z kernel_scheme \<Rightarrow> 'z kernel_scheme \<Rightarrow> bool" where
  "settles k k' \<longleftrightarrow> kernel.more k' = kernel.more k \<and> in_isr k' = in_isr k \<and>
     (\<forall>w. set (queues k' (WaitQ w)) \<subseteq> set (queues k (WaitQ w))) \<and>
     (\<forall>t. bit (flags (thread k' t)) 17 \<longleftrightarrow> bit (flags (thread k t)) 17) \<and>
     (\<forall>x. delta k x = -1 \<longrightarrow> delta k' x = -1) \<and>
     (\<forall>x. to_func (timeouts k' x) = to_func (timeouts k x)) \<and> set (timeout_q k') \<subseteq> set (timeout_q k)"

lemma more_frame [simp]:
  "kernel.more (upd_thread k t f) = kernel.more k" "kernel.more (upd_timeout k x g) = kernel.more k"
  "kernel.more (upd_queue k q h) = kernel.more k" "kernel.more (unlink_node k t) = kernel.more k"
  "kernel.more (snd (abort_timeout k x)) = kernel.more k" "kernel.more (unpend_thread k t) = kernel.more k"
  "kernel.more (add_timeout k t x w n) = kernel.more k"
  "kernel.more (add_thread_to_ready_q c k t) = kernel.more k" "kernel.more (ready_thread c k t) = kernel.more k"
  by (simp_all add: upd_thread_def upd_timeout_def upd_queue_def unlink_node_def abort_timeout_def unpend_thread_def
      mark_defs add_timeout_def add_thread_to_ready_q_def set_ready_q_prio_bit_def ready_thread_def Let_def
      split: option.splits)

lemma more_switch [simp]:
  "kernel.more (pendsv c k) = kernel.more k" "kernel.more (Swap c k) = kernel.more k"
  "kernel.more (reschedule_threads c k) = kernel.more k" "kernel.more (resched_unless_isr c k) = kernel.more k"
  "kernel.more (wake c k t) = kernel.more k" "kernel.more (handed c k t v d) = kernel.more k"
  by (simp_all add: pendsv_def get_next_ready_thread_def get_next_ready_thread_slow_def Swap_def mark_defs
      reschedule_threads_def resched_unless_isr_def wake_def handed_def abort_thread_timeout_def Let_def case_prod_beta)

lemma settles_abort:
  assumes "timeout_inv k"
  shows "settles k (snd (abort_timeout k x))"
proof -
  have "set (timeout_q (snd (abort_timeout k x))) \<subseteq> set (timeout_q k)"
    by (cases "delta k x = -1") (auto simp: abort_inactive timeout_q_abort dest: set_remove1D)
  then show ?thesis by (simp add: settles_def active_abort[OF assms])
qed

lemma settles_thread_timeout:
  assumes "sched_inv c X k" "timeout_q k = ThreadTO t # xs" "delta k (ThreadTO t) = 0"
  shows "settles k (handle_one_timeout c fire k)"
  using settles_abort[OF sched_invD(4)[OF assms(1)], of "ThreadTO t"] thread_timeout_eq[OF assms, of fire]
  by (auto simp: settles_def bit_ops_flags dest: set_remove1D)

lemma runs_on_thread_timeout:
  assumes inv: "kernel_inv c X k" and q: "timeout_q k = ThreadTO t # xs" and d: "delta k (ThreadTO t) = 0" and t: "t \<notin> X"
  shows "runs_on X k (handle_one_timeout c fire k)"
proof (rule runs_on_expiry)
  have s: "sched_inv c X k" using inv by (simp add: kernel_inv_def)
  note eq = thread_timeout_eq[OF s q d, of fire] and i = thread_timeout_inv[OF inv q d t, of fire]
  show "timeout_inv k" "timeout_inv (handle_one_timeout c fire k)" using s i(1) sched_invD(4) by (auto simp: kernel_inv_def)
  show "current (handle_one_timeout c fire k) = current k" "in_isr (handle_one_timeout c fire k) = in_isr k"
    by (simp_all add: eq)
  show "flags (thread (handle_one_timeout c fire k) u) = flags (thread k u)" if "\<not> prevented (flags (thread k u))" for u
    using that by (cases "u = t") (auto simp: eq bit_ops_flags intro!: bit_eqI)
  show "expiry (handle_one_timeout c fire k) (ThreadTO u) = None" if "expiry k (ThreadTO u) = None" for u
    using that by (simp add: i(2))
qed

lemma runs_on_abort:
  assumes "timeout_inv k"
  shows "runs_on X k (snd (abort_timeout k x))"
  using assms by (intro runs_on_expiry) (simp_all add: abort_timeout_inv expiry_abort)

lemma runs_on_wake:
  assumes "kernel_inv c X k" "is_thread_pending k t" "t \<notin> X"
  shows "runs_on X k (wake c k t)"
proof -
  have "is_thread_ready (wake c k t) u" if "is_thread_ready k u" for u
    using that wake_ready(2)[OF assms, of u] pending_not_ready[OF assms(2)] by (cases "u = t") auto
  then show ?thesis by (simp add: runs_on_def prevented_bits bit_ops_flags)
qed

text \<open>The passing of ticks before the next expiry.\<close>

lemma prefix_sums_shift: "prefix_sums d (s - n) xs = map (apsnd (\<lambda>m. m - n)) (prefix_sums d s xs)"
  by (induction xs arbitrary: s) (simp_all add: diff_add_eq)

lemma elapse:
  assumes inv: "kernel_inv c X k" and q: "timeout_q k = x # xs" and n: "0 \<le> n" "n \<le> delta k x"
  defines "k' \<equiv> upd_timeout k x (\<lambda>u. u\<lparr>delta_ticks_from_prev := delta_ticks_from_prev u - n\<rparr>)"
  shows "kernel_inv c X k'" "expiry k' y = map_option (\<lambda>m. m - n) (expiry k y)" "settles k k'"
    "runs_on X k k'"
proof -
  have s: "sched_inv c X k" and id: "idle_ready c X k" using inv by (auto simp: kernel_inv_def)
  note D = sched_invD[OF s]
  have act: "delta k' z = -1 \<longleftrightarrow> delta k z = -1" for z using n by (auto simp: k'_def)
  have nin: "x \<notin> set xs" using D(4) q by (simp add: timeout_inv_def)
  have e: "expiries k' = map (apsnd (\<lambda>m. m - n)) (expiries k)"
  proof -
    have "prefix_sums (delta k') (delta k x - n) xs = prefix_sums (delta k) (delta k x - n) xs"
      using nin by (intro prefix_sums_cong) (auto simp: k'_def)
    then show ?thesis using q by (simp add: expiries_def k'_def prefix_sums_shift)
  qed
  have mo: "map_of (map (apsnd f) ps) y = map_option f (map_of ps y)" for f :: "int \<Rightarrow> int" and ps :: "(toid \<times> int) list"
    by (induction ps) auto
  show "expiry k' y = map_option (\<lambda>m. m - n) (expiry k y)" by (simp add: expiry_def e mo)
  have "timeout_inv k'" unfolding timeout_inv_def
  proof (intro conjI allI ballI)
    show "distinct (timeout_q k')" "z \<in> set (timeout_q k') \<longleftrightarrow> delta k' z \<noteq> -1" for z
      using D(4) act by (simp_all add: timeout_inv_def k'_def)
    show "0 \<le> delta k' z" if "z \<in> set (timeout_q k')" for z
      using D(4) that n by (auto simp: timeout_inv_def k'_def)
    show "snd p < 2 ^ 31" if "p \<in> set (expiries k')" for p
      using D(4) that n(1) by (fastforce simp: timeout_inv_def e)
  qed
  moreover have "rq_inv c k'" using D(1) rq_inv_cong[of k' k] by (simp add: k'_def)
  moreover have r: "is_thread_ready k' t \<longleftrightarrow> is_thread_ready k t" for t
    using act[of "ThreadTO t"] by (simp add: ready_bits) (simp add: k'_def)
  moreover have "timeout_owner X k' y" if "y \<in> set (timeout_q k)" for y
    using D(9)[OF that] by (auto simp: timeout_owner_def k'_def split: toid.splits)
  ultimately have "sched_inv c X k'" using D by (simp add: sched_inv_def ready_iff_queued_def pending_bit) (simp add: k'_def)
  then show "kernel_inv c X k'" using id r by (simp add: kernel_inv_def idle_ready_def)
  show "settles k k'" using act by (simp add: settles_def) (simp add: k'_def)
  show "runs_on X k k'" using r by (simp add: runs_on_def prevented_bits) (simp add: k'_def)
qed

definition ready_to_tick ::
  "kconfig \<Rightarrow> tid set \<Rightarrow> ('z kernel_scheme \<Rightarrow> bool) \<Rightarrow> 'z kernel_scheme \<Rightarrow> bool" where
  "ready_to_tick c X good k \<longleftrightarrow>
     kernel_inv c X k \<and> good k \<and> (\<forall>t. ThreadTO t \<in> set (timeout_q k) \<longrightarrow> t \<notin> X)"

text \<open>
  The contract of the functions timeouts carry.  Firing one keeps the kernel's invariant and the
  handlers' own one, \<open>good\<close>, leaves every other timeout alone, and restarts its own timeout after
  \<open>period\<close> ticks or not at all.
\<close>

locale timeout_handlers =
  fixes c :: kconfig and X :: "tid set"
    and fire :: "toid \<Rightarrow> 'z kernel_scheme \<Rightarrow> 'z kernel_scheme"
    and good :: "'z kernel_scheme \<Rightarrow> bool"
    and period :: "'z kernel_scheme \<Rightarrow> toid \<Rightarrow> int option"
  assumes fire_ok: "kernel_inv c X k \<Longrightarrow> good k \<Longrightarrow> expiry k x = None \<Longrightarrow> to_func (timeouts k x) \<noteq> NoFunc \<Longrightarrow>
      kernel_inv c X (fire x k) \<and> good (fire x k) \<and> period (fire x k) = period k \<and> runs_on X k (fire x k) \<and>
      expiry (fire x k) = (expiry k)(x := period k x)"
    and good_func: "good k \<Longrightarrow> x \<in> set (timeout_q k) \<Longrightarrow> (\<And>t. x \<noteq> ThreadTO t) \<Longrightarrow> to_func (timeouts k x) \<noteq> NoFunc"
    and good_settles: "good k \<Longrightarrow> settles k k' \<Longrightarrow> good k' \<and> period k' = period k"
    and period_pos: "good k \<Longrightarrow> period k x = Some n \<Longrightarrow> 0 < n"
    and period_thread: "period k (ThreadTO t) = None"
begin

lemma threads_from_expiry:
  "expiry k' = (expiry k)(x := period k x) \<Longrightarrow> ThreadTO t \<in> set (timeout_q k') \<Longrightarrow> ThreadTO t \<in> set (timeout_q k)"
  using expiry_None[of k' "ThreadTO t"] expiry_None[of k "ThreadTO t"] by (auto simp: period_thread split: if_splits)

lemma one_timeout:
  assumes k: "ready_to_tick c X good k" and q: "timeout_q k = x # xs" and d: "delta k x = 0"
  shows "ready_to_tick c X good (handle_one_timeout c fire k)" "period (handle_one_timeout c fire k) = period k"
    "expiry (handle_one_timeout c fire k) = (expiry k)(x := period k x)" "runs_on X k (handle_one_timeout c fire k)"
proof -
  let ?k = "handle_one_timeout c fire k"
  have inv: "kernel_inv c X k" "good k" and s: "sched_inv c X k" using k by (auto simp: ready_to_tick_def kernel_inv_def)
  have "kernel_inv c X ?k \<and> good ?k \<and> period ?k = period k \<and> expiry ?k = (expiry k)(x := period k x) \<and> runs_on X k ?k"
  proof (cases "\<exists>t. x = ThreadTO t")
    case True
    then obtain t where x: "x = ThreadTO t" by blast
    then have t: "t \<notin> X" using k q by (simp add: ready_to_tick_def)
    note q' = q[unfolded x] and d' = d[unfolded x]
    show ?thesis
      using thread_timeout_inv[OF inv(1) q' d' t, of fire] good_settles[OF inv(2) settles_thread_timeout[OF s q' d', of fire]]
        runs_on_thread_timeout[OF inv(1) q' d' t, of fire]
      by (simp add: x period_thread)
  next
    case False
    let ?k1 = "snd (abort_timeout k x)"
    note D = sched_invD[OF s]
    have ow: "to_thread (timeouts k x) = NULL" using D(9)[of x] False q by (auto simp: timeout_owner_def split: toid.splits)
    have f: "to_func (timeouts k x) \<noteq> NoFunc" using good_func[OF inv(2), of x] False q by auto
    have e: "?k = fire x ?k1"
      using expire_abort[OF q d] D(4) ow f by (simp add: handle_one_timeout_def q Let_def timeout_inv_def)
    have "kernel_inv c X ?k1"
      using abort_inv[OF s, of x] False idle_ready_abort[OF D(4), of c X x] inv(1) by (auto simp: kernel_inv_def)
    moreover have "good ?k1 \<and> period ?k1 = period k" by (rule good_settles[OF inv(2) settles_abort[OF D(4)]])
    ultimately show ?thesis
      using fire_ok[of ?k1 x] f expiry_abort[OF D(4), of x] runs_on_trans[OF runs_on_abort[OF D(4)], of X x "fire x ?k1"]
      by (simp add: e)
  qed
  then show "ready_to_tick c X good ?k" "period ?k = period k" "expiry ?k = (expiry k)(x := period k x)" "runs_on X k ?k"
    using k threads_from_expiry[of ?k k x] by (auto simp: ready_to_tick_def)
qed

lemma finite_expiry: "finite {x. expiry k x = Some n}"
  by (rule finite_subset[of _ "set (timeout_q k)"]) (use expiry_None[of k] in force, simp)

lemma handle_timeouts_result:
  assumes "ready_to_tick c X good k"
  shows "\<exists>k'. handle_timeouts c fire k = Some k' \<and> ready_to_tick c X good k' \<and> period k' = period k \<and> runs_on X k k' \<and>
    (\<forall>x. expiry k' x = (if expiry k x = Some 0 then period k x else expiry k x))"
  using assms
proof (induction "card {x. expiry k x = Some 0}" arbitrary: k rule: less_induct)
  case less
  show ?case
  proof (cases "timeout_q k \<noteq> [] \<and> delta k (hd (timeout_q k)) = 0")
    case False
    have "expiry k x \<noteq> Some 0" for x
    proof
      assume x: "expiry k x = Some 0"
      have ti: "timeout_inv k" using less.prems sched_invD(4) by (auto simp: ready_to_tick_def kernel_inv_def)
      obtain y ys where q: "timeout_q k = y # ys" using x expiry_None[of k x] by (cases "timeout_q k") auto
      have "delta k y \<le> 0" using next_timeout_expiry_least(1)[OF ti x] q by (simp add: get_next_timeout_expiry_def)
      then show False using False q ti by (simp add: timeout_inv_def)
    qed
    then show ?thesis using less.prems False by (subst handle_timeouts.simps) (auto simp: runs_on_def)
  next
    case True
    then obtain x xs where q: "timeout_q k = x # xs" and d: "delta k x = 0" by (cases "timeout_q k") auto
    let ?k = "handle_one_timeout c fire k"
    note o = one_timeout[OF less.prems q d]
    have x: "expiry k x = Some 0" using q d by (simp add: expiry_def expiries_def)
    have p: "period k x \<noteq> Some 0" using period_pos[of k x 0] less.prems by (auto simp: ready_to_tick_def)
    have "{y. expiry ?k y = Some 0} = {y. expiry k y = Some 0} - {x}" using o(3) p by auto
    then have "card {y. expiry ?k y = Some 0} < card {y. expiry k y = Some 0}"
      using card_Diff1_less[OF finite_expiry[of k 0], of x] x by simp
    from less.hyps[OF this o(1)] show ?thesis
      using True o(1-3) p x runs_on_trans[OF o(4)] by (subst handle_timeouts.simps) (auto split: if_splits)
  qed
qed

text \<open>
  The tick: every timeout comes \<open>n\<close> ticks nearer, and exactly those that are due are handled.  The
  loop over them ends.
\<close>

lemma expired_timeouts_result:
  assumes k: "ready_to_tick c X good k" and n: "0 \<le> n" "timeout_q k = [] \<or> n \<le> get_next_timeout_expiry k"
  shows "\<exists>k'. handle_expired_timeouts c fire k n = Some k' \<and> ready_to_tick c X good k' \<and> period k' = period k \<and> runs_on X k k' \<and>
    (\<forall>x. expiry k' x = (case expiry k x of None \<Rightarrow> None
       | Some m \<Rightarrow> if m = n then period k x else Some (m - n)))"
proof (cases "timeout_q k")
  case Nil
  then have "expiry k x = None" for x by (simp add: expiry_None)
  then show ?thesis using k Nil by (simp add: handle_expired_timeouts_def runs_on_def)
next
  case (Cons x xs)
  let ?k = "upd_timeout k x (\<lambda>u. u\<lparr>delta_ticks_from_prev := delta_ticks_from_prev u - n\<rparr>)"
  have inv: "kernel_inv c X k" "good k" using k by (auto simp: ready_to_tick_def)
  have n': "n \<le> delta k x" using n Cons by (simp add: get_next_timeout_expiry_def)
  note e = elapse[OF inv(1) Cons n(1) n']
  have g: "good ?k" "period ?k = period k" using good_settles[OF inv(2) e(3)] by auto
  have "ready_to_tick c X good ?k" using e(1) g k by (simp add: ready_to_tick_def)
  from handle_timeouts_result[OF this] show ?thesis
    using Cons e(2) g runs_on_trans[OF e(4)] by (auto simp: handle_expired_timeouts_def split: option.splits)
qed

end

end
