(* ===== verification/Sem.thy ===== *)
theory Sem
  imports Wait_Queue
begin

text \<open>
  Counting semaphores and semaphore groups, \<^verbatim>\<open>kernel/unified/sem.c\<close> (built with
  \<^verbatim>\<open>CONFIG_SEMAPHORE_GROUPS\<close>, the default).  A call that blocks has no result yet: its value is
  \<open>None\<close>, and the caller's \<open>swap_return_value\<close> is what it will return.

  A thread waiting on a group is represented by one dummy thread per semaphore.  The dummy threads,
  the list of their descriptors and a wait queue for the real thread are local variables of
  \<^verbatim>\<open>k_sem_group_take\<close>; their addresses are arguments of the model.
\<close>

section \<open>Data\<close>

record k_sem =
  sem_wait_q :: wqid
  count :: u32
  limit :: u32

text \<open>
  The descriptors \<^verbatim>\<open>struct _sem_desc\<close>, found through the dummy thread that embeds them, and the lists
  of descriptors, found through their address.  A semaphore is identified by its wait queue.
\<close>

record sem_groups =
  desc_thread :: "tid \<Rightarrow> tid"
  desc_sem :: "tid \<Rightarrow> wqid"
  desc_list :: "nat \<Rightarrow> tid list"

section \<open>Operations\<close>

definition k_sem_init :: "'z kernel_scheme \<Rightarrow> wqid \<Rightarrow> u32 \<Rightarrow> u32 \<Rightarrow> k_sem \<times> 'z kernel_scheme" where
  "k_sem_init k w initial_count lim =
     (\<lparr>sem_wait_q = w, count = initial_count, limit = lim\<rparr>, upd_queue k (WaitQ w) (\<lambda>_. []))"

text \<open>The loop body of \<^verbatim>\<open>handle_sem_group\<close>: a dummy waiting on another semaphore is cancelled.\<close>

definition cancel_other ::
  "wqid \<Rightarrow> nat \<Rightarrow> tid \<Rightarrow> sem_groups \<times> 'z kernel_scheme \<Rightarrow> sem_groups \<times> 'z kernel_scheme" where
  "cancel_other sem l node = (\<lambda>(g, k).
     if desc_sem g node \<noteq> sem
     then (g\<lparr>desc_list := (desc_list g)(l := remove1 node (desc_list g l))\<rparr>,
           unpend_thread (snd (abort_thread_timeout k node)) node)
     else (g, k))"

text \<open>
  \<^verbatim>\<open>handle_sem_group\<close>.  The real thread is marked as not pending without taking its node off the
  wait queue it is on.  That queue is a local variable of its own blocked call, which nothing reads
  from here on, and the node's links are overwritten when the thread is next queued; the model takes
  the node off at this point.
\<close>

definition handle_sem_group ::
  "kconfig \<Rightarrow> sem_groups \<Rightarrow> wqid \<Rightarrow> 'z kernel_scheme \<Rightarrow> tid \<Rightarrow> bool \<times> sem_groups \<times> 'z kernel_scheme" where
  "handle_sem_group c g sem k t =
     (if flags (thread k t) AND K_DUMMY = 0 then (False, g, k)
      else let l = swap_data (thread k (desc_thread g t));
               nodes = desc_list g l;
               desc = last nodes;
               (g1, k1) = fold (cancel_other sem l) nodes (g, k);
               m = desc_thread g1 desc;
               k2 = (if \<not> is_thread_ready k1 m
                     then let k' = snd (abort_thread_timeout k1 m);
                              k'' = mark_thread_as_not_pending (unlink_node k' m) m
                          in if is_thread_ready k'' m then add_thread_to_ready_q c k'' m else k''
                     else k1)
           in (True, g1, set_thread_return_value k2 m 0))"

definition sem_give_common ::
  "kconfig \<Rightarrow> sem_groups \<Rightarrow> k_sem \<Rightarrow> 'z kernel_scheme \<Rightarrow>
     bool \<times> sem_groups \<times> k_sem \<times> 'z kernel_scheme" where
  "sem_give_common c g s k =
     (case unpend_first_thread k (sem_wait_q s) of (t, k1) \<Rightarrow>
        if t = NULL
        then (False, g, s\<lparr>count := count s + (if count s \<noteq> limit s then 1 else 0)\<rparr>, k1)
        else let k2 = snd (abort_thread_timeout k1 t)
             in case handle_sem_group c g (sem_wait_q s) k2 t of (grouped, g3, k3) \<Rightarrow>
                  let k4 = (if grouped then k3
                            else set_thread_return_value (ready_thread c k3 t) t 0)
                  in (\<not> in_isr k4 \<and> must_switch_threads c k4, g3, s, k4))"

definition sem_give_non_preemptible ::
  "kconfig \<Rightarrow> k_sem \<Rightarrow> 'z kernel_scheme \<Rightarrow> k_sem \<times> 'z kernel_scheme" where
  "sem_give_non_preemptible c s k =
     (case unpend_first_thread k (sem_wait_q s) of (t, k1) \<Rightarrow>
        if t = NULL
        then (s\<lparr>count := count s + (if count s \<noteq> limit s then 1 else 0)\<rparr>, k1)
        else let k2 = snd (abort_thread_timeout k1 t);
                 k3 = ready_thread c k2 t
             in (s, set_thread_return_value k3 t 0))"

definition k_sem_give ::
  "kconfig \<Rightarrow> sem_groups \<Rightarrow> k_sem \<Rightarrow> 'z kernel_scheme \<Rightarrow> sem_groups \<times> k_sem \<times> 'z kernel_scheme" where
  "k_sem_give c g s k =
     (case sem_give_common c g s k of
        (swap, g1, s1, k1) \<Rightarrow> (g1, s1, if swap then Swap c k1 else k1))"

definition k_sem_take ::
  "kconfig \<Rightarrow> k_sem \<Rightarrow> 'z kernel_scheme \<Rightarrow> int \<Rightarrow> int option \<times> k_sem \<times> 'z kernel_scheme" where
  "k_sem_take c s k timeout =
     (if count s > 0 then (Some 0, s\<lparr>count := count s - 1\<rparr>, k)
      else if timeout = K_NO_WAIT then (Some (- EBUSY), s, k)
      else (None, s, Swap c (pend_current_thread c k (sem_wait_q s) timeout)))"

text \<open>
  Group operations work on an array of semaphores, given here as a list (the array without its
  \<^verbatim>\<open>K_END\<close>).  The loop of \<^verbatim>\<open>k_sem_group_give\<close> gives each in turn and switches at most once.
\<close>

fun group_give_loop ::
  "kconfig \<Rightarrow> sem_groups \<Rightarrow> k_sem list \<Rightarrow> 'z kernel_scheme \<Rightarrow>
     bool \<times> sem_groups \<times> k_sem list \<times> 'z kernel_scheme" where
  "group_give_loop c g [] k = (False, g, [], k)"
| "group_give_loop c g (s # ss) k =
     (case sem_give_common c g s k of (b, g1, s1, k1) \<Rightarrow>
        case group_give_loop c g1 ss k1 of (b', g2, ss2, k2) \<Rightarrow> (b \<or> b', g2, s1 # ss2, k2))"

definition k_sem_group_give ::
  "kconfig \<Rightarrow> sem_groups \<Rightarrow> k_sem list \<Rightarrow> 'z kernel_scheme \<Rightarrow>
     sem_groups \<times> k_sem list \<times> 'z kernel_scheme" where
  "k_sem_group_give c g sem_array k =
     (case group_give_loop c g sem_array k of
        (swap_needed, g1, ss, k1) \<Rightarrow> (g1, ss, if swap_needed then Swap c k1 else k1))"

definition k_sem_group_reset :: "k_sem list \<Rightarrow> k_sem list" where
  "k_sem_group_reset sem_array = map (\<lambda>s. s\<lparr>count := 0\<rparr>) sem_array"

text \<open>The search of \<^verbatim>\<open>k_sem_group_take\<close> for an available semaphore.\<close>

fun group_take_avail :: "k_sem list \<Rightarrow> (k_sem \<times> k_sem list) option" where
  "group_take_avail [] = None"
| "group_take_avail (s # ss) =
     (if count s > 0 then Some (s, s\<lparr>count := count s - 1\<rparr> # ss)
      else map_option (\<lambda>(r, ss'). (r, s # ss')) (group_take_avail ss))"

text \<open>The loop body of \<^verbatim>\<open>k_sem_group_take\<close>: a dummy, its descriptor and its place in the wait queue.\<close>

definition pend_dummy ::
  "kconfig \<Rightarrow> nat \<Rightarrow> int \<Rightarrow> k_sem \<times> tid \<Rightarrow> sem_groups \<times> 'z kernel_scheme \<Rightarrow>
     sem_groups \<times> 'z kernel_scheme" where
  "pend_dummy c l timeout = (\<lambda>(s, d) (g, k).
     let k2 = init_thread_base k d (prio (thread k (current k))) K_DUMMY 0;
         g1 = g\<lparr>desc_list := (desc_list g)(l := desc_list g l @ [d]),
                desc_thread := (desc_thread g)(d := current k),
                desc_sem := (desc_sem g)(d := sem_wait_q s)\<rparr>
     in (g1, pend_thread c k2 d (sem_wait_q s) timeout))"

text \<open>
  \<^verbatim>\<open>k_sem_group_take\<close> up to its context switch.  The first component is the result and the semaphore
  taken (as its wait queue, null for none) when the call returns at once.
\<close>

definition k_sem_group_take ::
  "kconfig \<Rightarrow> sem_groups \<Rightarrow> k_sem list \<Rightarrow> tid list \<Rightarrow> nat \<Rightarrow> wqid \<Rightarrow> 'z kernel_scheme \<Rightarrow> int \<Rightarrow>
     (int \<times> wqid) option \<times> sem_groups \<times> k_sem list \<times> 'z kernel_scheme" where
  "k_sem_group_take c g sem_array wait_objects l wait_q k timeout =
     (case group_take_avail sem_array of
        Some (item, ss) \<Rightarrow> (Some (0, sem_wait_q item), g, ss, k)
      | None \<Rightarrow>
          if timeout = K_NO_WAIT then (Some (- EBUSY, NULL), g, sem_array, k)
          else let g0 = g\<lparr>desc_list := (desc_list g)(l := [])\<rparr>;
                   k0 = upd_thread k (current k) (\<lambda>th. th\<lparr>swap_data := l\<rparr>);
                   (g1, k1) = fold (pend_dummy c l timeout) (zip sem_array wait_objects) (g0, k0);
                   k2 = upd_queue k1 (WaitQ wait_q) (\<lambda>_. []);
                   k3 = pend_current_thread c k2 wait_q timeout
               in (None, g1, sem_array, Swap c k3))"

text \<open>The rest of \<^verbatim>\<open>k_sem_group_take\<close>, when the thread runs again.\<close>

definition k_sem_group_take_resume ::
  "sem_groups \<Rightarrow> nat \<Rightarrow> 'z kernel_scheme \<Rightarrow> (int \<times> wqid) \<times> sem_groups" where
  "k_sem_group_take_resume g l k =
     (if swap_return_value (thread k (current k)) \<noteq> 0 then ((- EAGAIN, NULL), g)
      else case desc_list g l of
             [] \<Rightarrow> ((0, desc_sem g NULL), g)
           | d # ds \<Rightarrow> ((0, desc_sem g d), g\<lparr>desc_list := (desc_list g)(l := ds)\<rparr>))"

section \<open>The invariant\<close>

text \<open>
  The count stays within the limit, and the waiters are real threads (a semaphore that no group
  waits on).
\<close>

abbreviation sem_waiters :: "k_sem \<times> 'z kernel_scheme \<Rightarrow> tid list" where
  "sem_waiters sk \<equiv> queues (snd sk) (WaitQ (sem_wait_q (fst sk)))"

definition sem_inv :: "kconfig \<Rightarrow> tid set \<Rightarrow> k_sem \<times> 'z kernel_scheme \<Rightarrow> bool" where
  "sem_inv c X = (\<lambda>(s, k). kernel_inv c X k \<and> count s \<le> limit s \<and>
     (\<forall>t \<in> set (sem_waiters (s, k)). flags (thread k t) AND K_DUMMY = 0))"

lemma give_waiter:
  assumes inv: "kernel_inv c X k" and q: "queues k (WaitQ (sem_wait_q s)) = t # ts"
    and nd: "flags (thread k t) AND K_DUMMY = 0"
  shows "sem_give_common c g s k =
      (\<not> in_isr k \<and> must_switch_threads c (woken c k t 0), g, s, woken c k t 0)"
    and "k_sem_give c g s k =
      (g, s, if \<not> in_isr k then reschedule_threads c (woken c k t 0) else woken c k t 0)"
    and "sem_give_non_preemptible c s k = (s, woken c k t 0)"
proof -
  have t: "t \<noteq> NULL" by (rule first_waiter(2)[OF inv q])
  let ?k2 = "snd (abort_thread_timeout (unpend_thread k t) t)"
  have "\<not> bit (flags (thread ?k2 t)) 17"
    using nd by (auto simp: abort_thread_timeout_def flag_tests bit_ops_flags)
  then have h: "handle_sem_group c g (sem_wait_q s) ?k2 t = (False, g, ?k2)"
    by (simp add: handle_sem_group_def flag_tests)
  show a: "sem_give_common c g s k =
      (\<not> in_isr k \<and> must_switch_threads c (woken c k t 0), g, s, woken c k t 0)"
    using t by (simp add: sem_give_common_def unpend_first_eq[OF q] h Let_def flip: wake_def woken_def)
  show "k_sem_give c g s k =
      (g, s, if \<not> in_isr k then reschedule_threads c (woken c k t 0) else woken c k t 0)"
    by (simp add: k_sem_give_def a reschedule_threads_def)
  show "sem_give_non_preemptible c s k = (s, woken c k t 0)"
    using t by (simp add: sem_give_non_preemptible_def unpend_first_eq[OF q] flip: wake_def woken_def)
qed

lemma give_no_waiter:
  assumes "queues k (WaitQ (sem_wait_q s)) = []"
  shows "sem_give_common c g s k = (False, g, s\<lparr>count := count s + (if count s \<noteq> limit s then 1 else 0)\<rparr>, k)"
    "k_sem_give c g s k = (g, s\<lparr>count := count s + (if count s \<noteq> limit s then 1 else 0)\<rparr>, k)"
    "sem_give_non_preemptible c s k = (s\<lparr>count := count s + (if count s \<noteq> limit s then 1 else 0)\<rparr>, k)"
  using assms by (simp_all add: k_sem_give_def sem_give_common_def sem_give_non_preemptible_def unpend_first_thread_def)

lemma count_inc:
  assumes "count s \<le> limit s"
  shows "unat (count s + (if count s \<noteq> limit s then 1 else 0)) = min (unat (count s) + 1) (unat (limit s))"
    and "count s + (if count s \<noteq> limit s then 1 else 0) \<le> limit s"
proof -
  have "unat (count s + 1) = unat (count s) + 1" if "count s < limit s"
    by (rule unat_inc[OF that])
  then show "unat (count s + (if count s \<noteq> limit s then 1 else 0)) = min (unat (count s) + 1) (unat (limit s))"
    using assms unfolding word_le_nat_alt word_less_nat_alt by (cases "count s = limit s") (auto simp: word_unat_eq_iff)
  then show "count s + (if count s \<noteq> limit s then 1 else 0) \<le> limit s" by (simp add: word_le_nat_alt)
qed

lemma reschedule_if_inv:
  "kernel_inv c X k \<Longrightarrow> kernel_inv c X (if b then reschedule_threads c k else k)"
  using reschedule_inv by (cases b) auto

lemma k_sem_give_inv:
  assumes inv: "sem_inv c X (s, k)"
  shows "sem_inv c X (snd (k_sem_give c g s k))"
proof (cases "queues k (WaitQ (sem_wait_q s))")
  case Nil
  then show ?thesis using inv count_inc(2)[of s] by (simp add: give_no_waiter sem_inv_def)
next
  case (Cons t ts)
  have k: "kernel_inv c X k" and nd: "\<forall>u \<in> set (t # ts). flags (thread k u) AND K_DUMMY = 0"
    using inv Cons by (simp_all add: sem_inv_def)
  have nin: "t \<notin> set ts" by (rule first_waiter(4)[OF k Cons])
  have "flags (thread (wake c k t) u) = flags (thread k u)" if "u \<in> set ts" for u
    using nin that by (auto simp: wake_frame)
  then show ?thesis using inv nd reschedule_if_inv[OF handed_inv(2)[OF k Cons], of "\<not> in_isr k"]
    by (simp add: give_waiter[OF k Cons] sem_inv_def Cons split: if_splits)
qed

lemma k_sem_take_inv:
  assumes inv: "sem_inv c X (s, k)" and b: "count s = 0 \<and> timeout \<noteq> K_NO_WAIT \<longrightarrow> may_block c X k \<and> timeout_ok c timeout"
  shows "sem_inv c X (snd (k_sem_take c s k timeout))"
proof (cases "count s = 0 \<and> timeout \<noteq> K_NO_WAIT")
  case True
  let ?k = "pend_current_thread c k (sem_wait_q s) timeout"
  have mb: "may_block c X k" "timeout_ok c timeout" using b True by auto
  have "\<not> bit (flags (thread k (current k))) 17"
    using mb(1) by (auto simp: may_block_def thread_ctx_def ready_bits)
  moreover have "flags (thread ?k u) = (if u = current k then flags (thread k u) OR K_PENDING else flags (thread k u))" for u
    by (simp add: pend_current_thread_def flags_pend_thread)
  ultimately show ?thesis
    using True inv Swap_inv(1)[OF pend_current_inv(1)[OF mb, of "sem_wait_q s"]]
    by (auto simp: k_sem_take_def sem_inv_def pend_current_waitq(1)[OF mb(1)] flag_tests bit_ops_flags)
next
  case False
  then show ?thesis using inv dec_le[of "count s" "limit s"]
    by (auto simp: k_sem_take_def sem_inv_def word_gt_0)
qed

section \<open>The contract\<close>

lemma sem_waiters_give:
  assumes "sem_inv c X (s, k)" "queues k (WaitQ (sem_wait_q s)) = t # ts"
  shows "sem_waiters (snd (k_sem_give c g s k)) = ts" "fst (snd (k_sem_give c g s k)) = s"
proof -
  have k: "kernel_inv c X k" "flags (thread k t) AND K_DUMMY = 0"
    using assms by (auto simp: sem_inv_def)
  show "sem_waiters (snd (k_sem_give c g s k)) = ts" "fst (snd (k_sem_give c g s k)) = s"
    using assms(2) by (simp_all add: give_waiter[OF k(1) assms(2) k(2)])
qed

interpretation sem: blocking_resource "sem_inv c X" "\<lambda>_ _. True" "\<lambda>sk. may_block c X (snd sk)"
  "\<lambda>n. n \<noteq> K_NO_WAIT \<and> timeout_ok c n" "\<lambda>sk. unat (count (fst sk))" sem_waiters
  "\<lambda>_ sk. snd (k_sem_give c g (fst sk) (snd sk))" "\<lambda>n sk. snd (k_sem_take c (fst sk) (snd sk) n)"
  for c X g
proof unfold_locales
  fix sk :: "k_sem \<times> 'a kernel_scheme" and v :: 'b and n t ts
  assume inv: "sem_inv c X sk"
  obtain s k where sk: "sk = (s, k)" by force
  show "sem_inv c X (snd (k_sem_give c g (fst sk) (snd sk)))" using k_sem_give_inv[of c X s k] inv sk by simp
  show "sem_waiters sk = t # ts \<Longrightarrow> sem_waiters (snd (k_sem_give c g (fst sk) (snd sk))) = ts \<and>
      unat (count (fst (snd (k_sem_give c g (fst sk) (snd sk))))) = unat (count (fst sk))"
    using sem_waiters_give[of c X s k t ts] inv sk by simp
  show "sem_waiters sk = [] \<Longrightarrow> sem_waiters (snd (k_sem_give c g (fst sk) (snd sk))) = [] \<and>
      unat (count (fst sk)) \<le> unat (count (fst (snd (k_sem_give c g (fst sk) (snd sk))))) \<and>
      unat (count (fst (snd (k_sem_give c g (fst sk) (snd sk))))) \<le> unat (count (fst sk)) + 1"
    using count_inc(1)[of s] inv sk
    by (simp add: give_no_waiter sem_inv_def word_le_nat_alt del: of_nat_add split: if_splits)
  assume b: "may_block c X (snd sk)" and n: "n \<noteq> K_NO_WAIT \<and> timeout_ok c n"
  then show "sem_inv c X (snd (k_sem_take c (fst sk) (snd sk) n))"
    using k_sem_take_inv[of c X s k n] inv sk by simp
  show "0 < unat (count (fst sk)) \<Longrightarrow>
      sem_waiters (snd (k_sem_take c (fst sk) (snd sk) n)) = sem_waiters sk \<and>
      unat (count (fst (snd (k_sem_take c (fst sk) (snd sk) n)))) + 1 = unat (count (fst sk))"
    using unat_dec[of "count s"] sk by (simp add: k_sem_take_def unat_gt_0 word_gt_0)
  show "unat (count (fst sk)) = 0 \<Longrightarrow> unat (count (fst (snd (k_sem_take c (fst sk) (snd sk) n)))) = 0"
    using sk by (simp add: k_sem_take_def unat_eq_zero)
qed

end
