(* ===== verification/Mutex.thy ===== *)
theory Mutex
  imports Wait_Queue
begin

text \<open>
  Mutexes with priority inheritance, \<^verbatim>\<open>kernel/unified/mutex.c\<close>.  \<^verbatim>\<open>k_mutex_lock\<close> is split at its
  context switch: \<open>k_mutex_lock\<close> runs up to it and \<open>k_mutex_lock_resume\<close> is the rest, run when the
  thread is switched in again.  Reading through a null \<^verbatim>\<open>owner\<close> is an outcome of its own.
\<close>

section \<open>Operations\<close>

record k_mutex =
  mutex_wait_q :: wqid
  owner :: tid
  lock_count :: u32
  owner_orig_prio :: int

datatype mutex_result = Ret int | Blocked | NullDeref

definition k_mutex_init :: "'z kernel_scheme \<Rightarrow> wqid \<Rightarrow> int \<Rightarrow> k_mutex \<times> 'z kernel_scheme" where
  "k_mutex_init k w uninitialised =
     (\<lparr>mutex_wait_q = w, owner = NULL, lock_count = 0, owner_orig_prio = uninitialised\<rparr>,
      upd_queue k (WaitQ w) (\<lambda>_. []))"

definition new_prio_for_inheritance :: "kconfig \<Rightarrow> int \<Rightarrow> int \<Rightarrow> int" where
  "new_prio_for_inheritance c target lim =
     (let new_prio = (if is_prio_higher target lim then target else lim)
      in get_new_prio_with_ceiling c new_prio)"

definition adjust_owner_prio :: "kconfig \<Rightarrow> k_mutex \<Rightarrow> 'z kernel_scheme \<Rightarrow> int \<Rightarrow> 'z kernel_scheme option" where
  "adjust_owner_prio c m k new_prio =
     (if owner m = NULL then None
      else Some (if prio (thread k (owner m)) \<noteq> new_prio
                 then thread_priority_set c k (owner m) new_prio else k))"

definition k_mutex_lock ::
  "kconfig \<Rightarrow> k_mutex \<Rightarrow> 'z kernel_scheme \<Rightarrow> int \<Rightarrow> mutex_result \<times> k_mutex \<times> 'z kernel_scheme" where
  "k_mutex_lock c m k timeout =
     (let k1 = k_sched_lock k
      in if lock_count m = 0 \<or> owner m = current k1
         then (Ret 0,
               m\<lparr>owner_orig_prio := (if lock_count m = 0 then prio (thread k1 (current k1))
                                     else owner_orig_prio m),
                 lock_count := lock_count m + 1, owner := current k1\<rparr>,
               k_sched_unlock c k1)
         else if timeout = K_NO_WAIT then (Ret (- EBUSY), m, k_sched_unlock c k1)
         else let new_prio = new_prio_for_inheritance c (prio (thread k1 (current k1)))
                    (prio (thread k1 (owner m)))
              in case adjust_owner_prio c m k1 new_prio of
                   None \<Rightarrow> (NullDeref, m, k1)
                 | Some k2 \<Rightarrow> (Blocked, m, Swap c (pend_current_thread c k2 (mutex_wait_q m) timeout)))"

definition k_mutex_lock_resume ::
  "kconfig \<Rightarrow> k_mutex \<Rightarrow> 'z kernel_scheme \<Rightarrow> mutex_result \<times> 'z kernel_scheme" where
  "k_mutex_lock_resume c m k =
     (if swap_return_value (thread k (current k)) = 0 then (Ret 0, k_sched_unlock c k)
      else let waiter = peek_first_pending_thread k (mutex_wait_q m);
               new_prio = (if waiter \<noteq> NULL
                 then new_prio_for_inheritance c (prio (thread k waiter)) (owner_orig_prio m)
                 else owner_orig_prio m)
           in case adjust_owner_prio c m k new_prio of
                None \<Rightarrow> (NullDeref, k)
              | Some k1 \<Rightarrow> (Ret (- EAGAIN), k_sched_unlock c k1))"

definition k_mutex_unlock ::
  "kconfig \<Rightarrow> k_mutex \<Rightarrow> 'z kernel_scheme \<Rightarrow> (k_mutex \<times> 'z kernel_scheme) option" where
  "k_mutex_unlock c m k =
     (let k1 = k_sched_lock k;
          m1 = m\<lparr>lock_count := lock_count m - 1\<rparr>
      in if lock_count m1 \<noteq> 0 then Some (m1, k_sched_unlock c k1)
         else case adjust_owner_prio c m1 k1 (owner_orig_prio m1) of
                None \<Rightarrow> None
              | Some k2 \<Rightarrow>
                  (case unpend_first_thread k2 (mutex_wait_q m1) of (new_owner, k3) \<Rightarrow>
                     if new_owner \<noteq> NULL
                     then let k4 = snd (abort_thread_timeout k3 new_owner);
                              k5 = ready_thread c k4 new_owner;
                              k6 = set_thread_return_value k5 new_owner 0
                          in Some (m1\<lparr>owner := new_owner, lock_count := lock_count m1 + 1,
                                      owner_orig_prio := prio (thread k6 new_owner)\<rparr>,
                                   k_sched_unlock c k6)
                     else Some (m1\<lparr>owner := NULL\<rparr>, k_sched_unlock c k3)))"

section \<open>The invariant\<close>

text \<open>
  The mutex is locked exactly when it has an owner; the owner is a live thread; threads wait only
  for a locked mutex.
\<close>

definition mutex_inv :: "kconfig \<Rightarrow> tid set \<Rightarrow> k_mutex \<times> 'z kernel_scheme \<Rightarrow> bool" where
  "mutex_inv c X = (\<lambda>(m, k). kernel_inv c X k \<and> valid_prio c (PRIORITY_CEILING c) \<and>
     (lock_count m = 0 \<longleftrightarrow> owner m = NULL) \<and>
     (owner m \<noteq> NULL \<longrightarrow> owner m \<notin> X \<and> valid_prio c (owner_orig_prio m)) \<and>
     (queues k (WaitQ (mutex_wait_q m)) \<noteq> [] \<longrightarrow> owner m \<noteq> NULL))"

lemma kernel_inv_priority_set:
  assumes "kernel_inv c X k" "t \<notin> X" "valid_prio c p"
  shows "kernel_inv c X (thread_priority_set c k t p)"
  using assms thread_priority_set_inv[of c X k t p]
  by (auto simp: kernel_inv_def idle_ready_def thread_priority_set_def ready_bits Let_def)

lemma priority_set_frame [simp]:
  "in_isr (thread_priority_set c k t p) = in_isr k" "current (thread_priority_set c k t p) = current k"
  "timeouts (thread_priority_set c k t p) = timeouts k" "timeout_q (thread_priority_set c k t p) = timeout_q k"
  "flags (thread (thread_priority_set c k t p) u) = flags (thread k u)"
  "prio (thread (thread_priority_set c k t p) u) = (if u = t then p else prio (thread k u))"
  "swap_return_value (thread (thread_priority_set c k t p) u) = swap_return_value (thread k u)"
  by (simp_all add: thread_priority_set_def Let_def)

lemma priority_set_waitq:
  assumes "kernel_inv c X k"
  shows "queues (thread_priority_set c k t p) (WaitQ w) = queues k (WaitQ w)"
proof -
  have s: "sched_inv c X k" using assms by (simp add: kernel_inv_def)
  have "t \<notin> set (queues k (WaitQ w))" if "is_thread_ready k t"
    using that sched_invD(8)[OF s] pending_not_ready by blast
  then show ?thesis by (simp add: thread_priority_set_def Let_def queues_add queues_remove remove1_idem)
qed

lemma priority_set_thread_ctx [simp]:
  "thread_ctx X (thread_priority_set c k t p) \<longleftrightarrow> thread_ctx X k"
  by (simp add: thread_ctx_def ready_bits)

lemma inherited_valid:
  "valid_prio c (PRIORITY_CEILING c) \<Longrightarrow> valid_prio c p \<Longrightarrow> valid_prio c r \<Longrightarrow>
     valid_prio c (new_prio_for_inheritance c p r)"
  by (simp add: new_prio_for_inheritance_def get_new_prio_with_ceiling_def Let_def)

text \<open>The owner's priority under inheritance: the highest of the two, but not above the ceiling.\<close>

lemma inherited_eq: "new_prio_for_inheritance c p r = max (min p r) (PRIORITY_CEILING c)"
  by (auto simp: new_prio_for_inheritance_def get_new_prio_with_ceiling_def is_under_prio_ceiling_def
      is_prio_higher_def Let_def)

text \<open>What \<^verbatim>\<open>adjust_owner_prio\<close> does to an owner that is there.\<close>

definition adjusted :: "kconfig \<Rightarrow> 'z kernel_scheme \<Rightarrow> tid \<Rightarrow> int \<Rightarrow> 'z kernel_scheme" where
  "adjusted c k t p = (if prio (thread k t) \<noteq> p then thread_priority_set c k t p else k)"

lemma adjust_owner: "owner m \<noteq> NULL \<Longrightarrow> adjust_owner_prio c m k p = Some (adjusted c k (owner m) p)"
  by (simp add: adjust_owner_prio_def adjusted_def)

lemma adjusted_frame [simp]:
  "in_isr (adjusted c k t p) = in_isr k" "current (adjusted c k t p) = current k"
  "timeouts (adjusted c k t p) = timeouts k" "timeout_q (adjusted c k t p) = timeout_q k"
  "flags (thread (adjusted c k t p) u) = flags (thread k u)"
  "prio (thread (adjusted c k t p) u) = (if u = t then p else prio (thread k u))"
  "swap_return_value (thread (adjusted c k t p) u) = swap_return_value (thread k u)"
  "thread_ctx X (adjusted c k t p) \<longleftrightarrow> thread_ctx X k"
  by (simp_all add: adjusted_def)

lemma adjusted_inv:
  assumes "kernel_inv c X k" "t \<notin> X" "valid_prio c p"
  shows "kernel_inv c X (adjusted c k t p)" "queues (adjusted c k t p) (WaitQ w) = queues k (WaitQ w)"
  using assms kernel_inv_priority_set[OF assms] priority_set_waitq[OF assms(1)]
  by (simp_all add: adjusted_def)

lemma live_current:
  assumes "may_block c X k"
  shows "current k \<notin> X" "current k \<noteq> NULL" "valid_prio c (prio (thread k (current k)))"
proof -
  have s: "sched_inv c X k" and x: "current k \<notin> X"
    using assms by (auto simp: may_block_def kernel_inv_def thread_ctx_def)
  show "current k \<notin> X" by (rule x)
  show "current k \<noteq> NULL" using x sched_invD(5)[OF s] by metis
  show "valid_prio c (prio (thread k (current k)))" by (rule sched_invD(10)[OF s x])
qed

text \<open>The state in which a thread starts waiting for a locked mutex.\<close>

definition boosted :: "kconfig \<Rightarrow> k_mutex \<Rightarrow> 'z kernel_scheme \<Rightarrow> 'z kernel_scheme" where
  "boosted c m k = adjusted c (k_sched_lock k) (owner m)
     (new_prio_for_inheritance c (prio (thread k (current k))) (prio (thread k (owner m))))"

lemma lock_contended:
  assumes inv: "mutex_inv c X (m, k)" and b: "may_block c X k"
    and l: "owner m \<noteq> NULL" "owner m \<noteq> current k" "timeout \<noteq> K_NO_WAIT"
  shows "k_mutex_lock c m k timeout =
      (Blocked, m, Swap c (pend_current_thread c (boosted c m k) (mutex_wait_q m) timeout))"
    "may_block c X (boosted c m k)" "queues (boosted c m k) (WaitQ w) = queues k (WaitQ w)"
proof -
  let ?p = "new_prio_for_inheritance c (prio (thread k (current k))) (prio (thread k (owner m)))"
  have k: "kernel_inv c X k" "sched_inv c X k" and o: "owner m \<notin> X" "lock_count m \<noteq> 0"
    and v: "valid_prio c (PRIORITY_CEILING c)"
    using inv l by (auto simp: mutex_inv_def kernel_inv_def)
  have "valid_prio c ?p"
    using inherited_valid[OF v] live_current(3)[OF b] sched_invD(10)[OF k(2) o(1)] by blast
  note i = adjusted_inv[OF sched_lock_inv(1)[OF k(1)] o(1) this]
  show "may_block c X (boosted c m k)" "queues (boosted c m k) (WaitQ w) = queues k (WaitQ w)"
    using b i by (simp_all add: may_block_def boosted_def)
  show "k_mutex_lock c m k timeout =
      (Blocked, m, Swap c (pend_current_thread c (boosted c m k) (mutex_wait_q m) timeout))"
    using l o by (simp add: k_mutex_lock_def Let_def adjust_owner boosted_def)
qed

lemma k_mutex_lock_inv:
  assumes inv: "mutex_inv c X (m, k)" and b: "may_block c X k" "timeout_ok c timeout"
    and nw: "unat (lock_count m) + 1 < 2 ^ 32"
  shows "mutex_inv c X (snd (k_mutex_lock c m k timeout))"
    "fst (k_mutex_lock c m k timeout) \<noteq> NullDeref"
proof -
  have k: "kernel_inv c X k" using inv by (simp add: mutex_inv_def)
  note cur = live_current[OF b(1)]
  have w: "lock_count m + 1 \<noteq> 0" using nw by (intro inc_nonzero) simp
  consider (free) "owner m = NULL \<or> owner m = current k" | (busy) "owner m \<noteq> NULL" "owner m \<noteq> current k" "timeout = K_NO_WAIT"
    | (block) "owner m \<noteq> NULL" "owner m \<noteq> current k" "timeout \<noteq> K_NO_WAIT" by blast
  then have "mutex_inv c X (snd (k_mutex_lock c m k timeout)) \<and> fst (k_mutex_lock c m k timeout) \<noteq> NullDeref"
  proof cases
    case free
    then show ?thesis using inv cur w sched_lock_inv(2)[OF sched_lock_inv(1)[OF k]]
      by (auto simp: k_mutex_lock_def mutex_inv_def Let_def)
  next
    case busy
    then show ?thesis using inv sched_lock_inv(2)[OF sched_lock_inv(1)[OF k]]
      by (auto simp: k_mutex_lock_def mutex_inv_def Let_def)
  next
    case block
    show ?thesis
      using inv block Swap_inv(1)[OF pend_current_inv(1)[OF lock_contended(2)[OF inv b(1) block] b(2)]]
      by (simp add: mutex_inv_def lock_contended(1)[OF inv b(1) block])
  qed
  then show "mutex_inv c X (snd (k_mutex_lock c m k timeout))"
    "fst (k_mutex_lock c m k timeout) \<noteq> NullDeref" by auto
qed

section \<open>Unlocking\<close>

text \<open>The state after the last unlock has restored the owner's priority.\<close>

definition restored :: "kconfig \<Rightarrow> k_mutex \<Rightarrow> 'z kernel_scheme \<Rightarrow> 'z kernel_scheme" where
  "restored c m k = adjusted c (k_sched_lock k) (owner m) (owner_orig_prio m)"

lemma restored_inv:
  assumes "mutex_inv c X (m, k)" "owner m \<noteq> NULL"
  shows "kernel_inv c X (restored c m k)" "queues (restored c m k) (WaitQ w) = queues k (WaitQ w)"
  using adjusted_inv[OF sched_lock_inv(1), of c X k "owner m" "owner_orig_prio m"] assms
  by (simp_all add: mutex_inv_def restored_def)

lemma unlock_handoff:
  assumes inv: "mutex_inv c X (m, k)" and o: "owner m \<noteq> NULL" "lock_count m = 1"
    and q: "queues k (WaitQ (mutex_wait_q m)) = t # ts"
  shows "k_mutex_unlock c m k =
    Some (m\<lparr>owner := t, lock_count := 1, owner_orig_prio := prio (thread (restored c m k) t)\<rparr>,
          k_sched_unlock c (set_thread_return_value (wake c (restored c m k) t) t 0))"
proof -
  let ?k = "restored c m k"
  have q': "queues ?k (WaitQ (mutex_wait_q m)) = t # ts" using restored_inv(2)[OF inv o(1)] q by simp
  have "t \<noteq> NULL" by (rule first_waiter(2)[OF restored_inv(1)[OF inv o(1)] q'])
  moreover have "adjust_owner_prio c (m\<lparr>lock_count := 0\<rparr>) (k_sched_lock k) (owner_orig_prio m) = Some ?k"
    using o(1) by (simp add: adjust_owner restored_def)
  ultimately show ?thesis using o(2)
    by (simp add: k_mutex_unlock_def Let_def unpend_first_eq[OF q'] flip: wake_def) (simp add: mark_defs)
qed

lemma unlock_free:
  assumes inv: "mutex_inv c X (m, k)" and o: "owner m \<noteq> NULL" "lock_count m = 1"
    and q: "queues k (WaitQ (mutex_wait_q m)) = []"
  shows "k_mutex_unlock c m k =
    Some (m\<lparr>owner := NULL, lock_count := 0\<rparr>, k_sched_unlock c (restored c m k))"
proof -
  let ?k = "restored c m k"
  have "unpend_first_thread ?k (mutex_wait_q m) = (NULL, ?k)"
    using restored_inv(2)[OF inv o(1)] q by (simp add: unpend_first_thread_def)
  moreover have "adjust_owner_prio c (m\<lparr>lock_count := 0\<rparr>) (k_sched_lock k) (owner_orig_prio m) = Some ?k"
    using o(1) by (simp add: adjust_owner restored_def)
  ultimately show ?thesis using o(2) by (simp add: k_mutex_unlock_def Let_def)
qed

lemma unlock_nested:
  "lock_count m \<noteq> 1 \<Longrightarrow> k_mutex_unlock c m k =
     Some (m\<lparr>lock_count := lock_count m - 1\<rparr>, k_sched_unlock c (k_sched_lock k))"
  by (simp add: k_mutex_unlock_def Let_def)

lemma k_mutex_unlock_inv:
  assumes inv: "mutex_inv c X (m, k)" and o: "owner m \<noteq> NULL"
  shows "\<exists>s. k_mutex_unlock c m k = Some s \<and> mutex_inv c X s"
proof (cases "lock_count m = 1")
  case False
  have "kernel_inv c X (k_sched_unlock c (k_sched_lock k))"
    using inv by (intro sched_lock_inv) (simp add: mutex_inv_def)
  then show ?thesis using unlock_nested[OF False, of c k] inv o False by (simp add: mutex_inv_def)
next
  case True
  note R = restored_inv[OF inv o]
  show ?thesis
  proof (cases "queues k (WaitQ (mutex_wait_q m))")
    case Nil
    then show ?thesis using unlock_free[OF inv o True Nil] sched_lock_inv(2)[OF R(1)] R(2) inv
      by (simp add: mutex_inv_def)
  next
    case (Cons t ts)
    have q': "queues (restored c m k) (WaitQ (mutex_wait_q m)) = t # ts" using R(2) Cons by simp
    note F = first_waiter[OF R(1) q']
    have "kernel_inv c X (k_sched_unlock c (set_thread_return_value (wake c (restored c m k) t) t 0))"
      by (intro sched_lock_inv(2)) (simp add: mark_defs kernel_inv_upd_thread wake_inv(1)[OF R(1) F(3,1)])
    moreover have "valid_prio c (prio (thread (restored c m k) t))"
      using R(1) F(1) sched_invD(10) by (auto simp: kernel_inv_def)
    ultimately show ?thesis using unlock_handoff[OF inv o True Cons] inv F(1,2)
      by (simp add: mutex_inv_def)
  qed
qed

text \<open>
  A thread whose wait for the mutex timed out, resuming after the mutex has become free: it reads
  the priority of a null owner.
\<close>

lemma resume_null_owner:
  assumes "owner m = NULL" "swap_return_value (thread k (current k)) \<noteq> 0"
  shows "fst (k_mutex_lock_resume c m k) = NullDeref"
  using assms by (simp add: k_mutex_lock_resume_def adjust_owner_prio_def)

lemma resume_owner:
  assumes "owner m \<noteq> NULL"
  shows "fst (k_mutex_lock_resume c m k) =
    Ret (if swap_return_value (thread k (current k)) = 0 then 0 else - EAGAIN)"
  using assms by (simp add: k_mutex_lock_resume_def adjust_owner Let_def)

end
