(* ===== verification/System.thy ===== *)
theory System
  imports Threads Timeout_Expiry Sem Mutex
begin

text \<open>
  The kernel as a transition system: every step is a call of the kernel's interface by the running thread
  or by an interrupt handler, on a kernel with any number of semaphores.  Whatever the application does
  within the documented preconditions of the calls, the invariants of the scheduler, of the timeouts
  and of the semaphores hold in every reachable state, and outside interrupts the right thread runs.
\<close>

section \<open>States and steps\<close>

text \<open>
  A state has the addresses that are not the ones of live threads, the semaphores and the kernel.  The
  timeouts are those of threads: the steps of timers and of delayed work are left out here.
\<close>

type_synonym 'z system = "tid set \<times> (nat \<Rightarrow> k_sem) \<times> 'z kernel_scheme"

definition in_range :: "kconfig \<Rightarrow> int \<Rightarrow> bool" where
  "in_range c ms \<longleftrightarrow> 0 \<le> ms_to_ticks c ms \<and> ms_to_ticks c ms < 2 ^ 31 - 1"

inductive system_step :: "kconfig \<Rightarrow> 'z system \<Rightarrow> 'z system \<Rightarrow> bool" for c where
  Yield: "\<not> in_isr k \<Longrightarrow> system_step c (X, S, k) (X, S, k_yield c k)"
| Sleep: "\<not> in_isr k \<Longrightarrow> current k \<noteq> idle_thread c \<Longrightarrow> d \<noteq> 0 \<Longrightarrow> in_range c d \<Longrightarrow>
    system_step c (X, S, k) (X, S, k_sleep c k d)"
| Wakeup: "t \<notin> X \<Longrightarrow> system_step c (X, S, k) (X, S, k_wakeup c k t)"
| Spawn: "\<not> in_isr k \<Longrightarrow> t \<in> X \<Longrightarrow> t \<noteq> NULL \<Longrightarrow> valid_prio c p \<Longrightarrow> delay \<noteq> 0 \<longrightarrow> in_range c delay \<Longrightarrow>
    system_step c (X, S, k) (X - {t}, S, snd (k_thread_spawn c k t p opts delay))"
| Cancel: "t \<notin> X \<Longrightarrow> \<not> is_thread_pending k t \<Longrightarrow> k_thread_cancel k t = (r, k') \<Longrightarrow>
    system_step c (X, S, k) (if r = 0 then insert t X else X, S, k')"
| Suspend: "\<not> in_isr k \<Longrightarrow> t \<notin> X \<Longrightarrow> t \<noteq> idle_thread c \<Longrightarrow> system_step c (X, S, k) (X, S, k_thread_suspend c k t)"
| Resume: "\<not> in_isr k \<Longrightarrow> t \<notin> X \<Longrightarrow> flags (thread k t) AND K_SUSPENDED \<noteq> 0 \<Longrightarrow>
    system_step c (X, S, k) (X, S, k_thread_resume c k t)"
| Abort: "\<not> in_isr k \<Longrightarrow> t \<notin> X \<Longrightarrow> t \<noteq> idle_thread c \<Longrightarrow> fn_abort (thread k t) = NULL \<Longrightarrow>
    system_step c (X, S, k) (insert t X, S, snd (k_thread_abort c call k t))"
| Set_Priority: "\<not> in_isr k \<Longrightarrow> t \<notin> X \<Longrightarrow> valid_prio c p \<Longrightarrow> system_step c (X, S, k) (X, S, k_thread_priority_set c k t p)"
| Lock: "\<not> in_isr k \<Longrightarrow> sched_locked (thread k (current k)) + 1 \<noteq> 0 \<Longrightarrow> system_step c (X, S, k) (X, S, k_sched_lock k)"
| Unlock: "\<not> in_isr k \<Longrightarrow> system_step c (X, S, k) (X, S, k_sched_unlock c k)"
| Give: "k_sem_give c g (S i) k = (g', s, k') \<Longrightarrow> system_step c (X, S, k) (X, S(i := s), k')"
| Take: "\<not> in_isr k \<Longrightarrow> timeout = K_NO_WAIT \<or> current k \<noteq> idle_thread c \<and> timeout_ok c timeout \<Longrightarrow>
    k_sem_take c (S i) k timeout = (r, s, k') \<Longrightarrow> system_step c (X, S, k) (X, S(i := s), k')"
| Interrupt: "\<not> in_isr k \<Longrightarrow> system_step c (X, S, k) (X, S, k\<lparr>in_isr := True\<rparr>)"
| Tick: "in_isr k \<Longrightarrow> 0 \<le> n \<Longrightarrow> timeout_q k = [] \<or> n \<le> get_next_timeout_expiry k \<Longrightarrow>
    handle_expired_timeouts c (\<lambda>_ k. k) k n = Some k' \<Longrightarrow> system_step c (X, S, k) (X, S, k')"
| Return: "in_isr k \<Longrightarrow> system_step c (X, S, k) (X, S, ExcExit c (k\<lparr>in_isr := False\<rparr>))"

section \<open>The invariant\<close>

definition sems_ok :: "(nat \<Rightarrow> k_sem) \<Rightarrow> 'z kernel_scheme \<Rightarrow> bool" where
  "sems_ok S k \<longleftrightarrow> inj (\<lambda>i. sem_wait_q (S i)) \<and>
     (\<forall>i. count (S i) \<le> limit (S i) \<and> (count (S i) \<noteq> 0 \<longrightarrow> queues k (WaitQ (sem_wait_q (S i))) = [])) \<and>
     (\<forall>i. \<forall>t \<in> set (queues k (WaitQ (sem_wait_q (S i)))). \<not> bit (flags (thread k t)) 17)"

definition thread_timeouts :: "tid set \<Rightarrow> 'z kernel_scheme \<Rightarrow> bool" where
  "thread_timeouts X k \<longleftrightarrow> (\<forall>x \<in> set (timeout_q k). \<exists>t. x = ThreadTO t \<and> t \<notin> X)"

definition system_inv :: "kconfig \<Rightarrow> 'z system \<Rightarrow> bool" where
  "system_inv c = (\<lambda>(X, S, k). kernel_inv c X k \<and> current k \<notin> X \<and> is_thread_ready k (current k) \<and>
     (\<not> in_isr k \<longrightarrow> well_scheduled c X k) \<and> thread_timeouts X k \<and> sems_ok S k)"

lemma sems_ok_mono:
  assumes "sems_ok S k" "\<And>w. set (queues k' (WaitQ w)) \<subseteq> set (queues k (WaitQ w))"
    "\<And>t w. t \<in> set (queues k' (WaitQ w)) \<Longrightarrow> bit (flags (thread k' t)) 17 \<longleftrightarrow> bit (flags (thread k t)) 17"
  shows "sems_ok S k'"
proof -
  have "queues k' (WaitQ w) = []" if "queues k (WaitQ w) = []" for w using assms(2)[of w] that by simp
  moreover have "\<not> bit (flags (thread k' t)) 17" if "t \<in> set (queues k' (WaitQ (sem_wait_q (S i))))" for t i
    using assms(1) assms(2)[of "sem_wait_q (S i)"] assms(3)[OF that] that by (auto simp: sems_ok_def)
  ultimately show ?thesis using assms(1) by (simp add: sems_ok_def)
qed

text \<open>Fewer threads are ready than before.\<close>

lemma well_scheduled_fewer:
  assumes "well_scheduled c X k" "in_isr k' = in_isr k" "current k' = current k" "current k \<notin> X'" "is_thread_ready k' (current k)"
    "sched_locked (thread k' (current k)) = sched_locked (thread k (current k))"
    "\<And>t. t \<notin> X' \<Longrightarrow> is_thread_ready k' t \<Longrightarrow> t \<notin> X \<and> is_thread_ready k t \<and> prio (thread k' t) = prio (thread k t)"
  shows "well_scheduled c X' k'"
proof -
  have p: "prio (thread k' (current k)) = prio (thread k (current k))" using assms(4,5,7) by blast
  then have "is_preempt k' (current k) \<longleftrightarrow> is_preempt k (current k)" using assms(6) by (simp add: is_preempt_def is_coop_def)
  then show ?thesis using assms p by (simp add: well_scheduled_def thread_ctx_def)
qed

definition sched_part :: "kconfig \<Rightarrow> tid set \<Rightarrow> 'z kernel_scheme \<Rightarrow> bool" where
  "sched_part c X k \<longleftrightarrow> kernel_inv c X k \<and> current k \<notin> X \<and> is_thread_ready k (current k) \<and> (\<not> in_isr k \<longrightarrow> well_scheduled c X k)"

lemma system_inv_alt: "system_inv c (X, S, k) \<longleftrightarrow> sched_part c X k \<and> thread_timeouts X k \<and> sems_ok S k"
  by (auto simp: system_inv_def sched_part_def)

lemma sched_part_ctx: "kernel_inv c X k \<Longrightarrow> well_scheduled c X k \<Longrightarrow> sched_part c X k"
  by (simp add: sched_part_def well_scheduled_def thread_ctx_def)

lemma sched_part_resched: "kernel_inv c X k \<Longrightarrow> thread_ctx X k \<Longrightarrow> sched_part c X (reschedule_threads c k)"
  by (intro sched_part_ctx reschedule_inv reschedule_well_scheduled)

lemma sched_part_Swap: "kernel_inv c X k \<Longrightarrow> \<not> in_isr k \<Longrightarrow> sched_part c X (Swap c k)"
  by (intro sched_part_ctx Swap_inv Swap_well_scheduled)

text \<open>What a step may do to the waiting threads and the timeouts.\<close>

definition lets_wait :: "'z kernel_scheme \<Rightarrow> 'z kernel_scheme \<Rightarrow> bool" where
  "lets_wait k k' \<longleftrightarrow> (\<forall>w. set (queues k' (WaitQ w)) \<subseteq> set (queues k (WaitQ w))) \<and>
     (\<forall>t w. t \<in> set (queues k' (WaitQ w)) \<longrightarrow> (bit (flags (thread k' t)) 17 \<longleftrightarrow> bit (flags (thread k t)) 17))"

lemma lets_wait_sems: "lets_wait k k' \<Longrightarrow> sems_ok S k \<Longrightarrow> sems_ok S k'"
  using sems_ok_mono[of S k k'] unfolding lets_wait_def by blast

lemma step_kept:
  assumes "system_inv c (X, S, k)" "sched_part c X' k'" "lets_wait k k'" "thread_timeouts X' k'"
  shows "system_inv c (X', S, k')"
  using assms lets_wait_sems by (auto simp: system_inv_alt)

lemma frame_kept:
  assumes "\<And>w. queues k' (WaitQ w) = queues k (WaitQ w)" "\<And>t. flags (thread k' t) = flags (thread k t)"
  shows "lets_wait k k'"
  using assms by (simp add: lets_wait_def)

lemma sched_partD:
  assumes "system_inv c (X, S, k)"
  shows "kernel_inv c X k" "current k \<notin> X" "is_thread_ready k (current k)" "thread_timeouts X k" "\<not> in_isr k \<Longrightarrow> well_scheduled c X k"
    "\<not> in_isr k \<Longrightarrow> thread_ctx X k" "sems_ok S k"
  using assms by (auto simp: system_inv_def well_scheduled_def)

section \<open>Steps of threads\<close>

lemma yield_step:
  assumes i: "system_inv c (X, S, k)" and n: "\<not> in_isr k"
  shows "system_inv c (X, S, k_yield c k)"
proof -
  note D = sched_partD[OF i]
  have "lets_wait k (k_yield c k)" "timeout_q (k_yield c k) = timeout_q k"
    by (auto simp: lets_wait_def k_yield_def move_thread_to_end_of_prio_q_def Let_def case_prod_beta dest: set_remove1D)
  then show ?thesis
    using step_kept[OF i sched_part_ctx[OF k_yield_eq(1,2)[OF D(1) D(6)[OF n]]]] D(4) by (simp add: thread_timeouts_def)
qed

lemma sleep_step:
  assumes i: "system_inv c (X, S, k)" and n: "\<not> in_isr k" "current k \<noteq> idle_thread c" "d \<noteq> 0" "in_range c d"
  shows "system_inv c (X, S, k_sleep c k d)"
proof -
  note D = sched_partD[OF i]
  have s: "kernel_inv c X (k_sleep c k d)" "well_scheduled c X (k_sleep c k d)"
    using k_sleep_inv(1,2)[OF D(1) D(6)[OF n(1)] n(2,3)] n(4) by (simp_all add: in_range_def)
  have "lets_wait k (k_sleep c k d)"
    using n(3) by (auto simp: lets_wait_def k_sleep_def Let_def add_thread_timeout_def queues_remove dest: set_remove1D)
  moreover have "set (timeout_q (k_sleep c k d)) \<subseteq> insert (ThreadTO (current k)) (set (timeout_q k))"
    using n(3) by (simp add: k_sleep_def Let_def add_thread_timeout_def timeout_q_add)
  ultimately show ?thesis using step_kept[OF i sched_part_ctx[OF s]] D(2,4) by (force simp: thread_timeouts_def)
qed

lemma abort_timeouts:
  "set (timeout_q (snd (abort_timeout k x))) \<subseteq> set (timeout_q k)" "timeout_inv k \<Longrightarrow> x \<notin> set (timeout_q (snd (abort_timeout k x)))"
proof -
  show "set (timeout_q (snd (abort_timeout k x))) \<subseteq> set (timeout_q k)"
    using timeout_q_abort[of k x] abort_inactive[of k x] by (cases "delta k x = -1") (auto dest: set_remove1D)
  show "x \<notin> set (timeout_q (snd (abort_timeout k x)))" if "timeout_inv k"
    using timeout_q_abort[of k x] abort_inactive[of k x] that by (cases "delta k x = -1") (auto simp: timeout_inv_def)
qed

lemma abort_ready:
  "timeout_inv k \<Longrightarrow> u \<noteq> t \<Longrightarrow> is_thread_ready (snd (abort_timeout k (ThreadTO t))) u \<longleftrightarrow> is_thread_ready k u"
  by (simp add: ready_bits active_abort)

lemma ready_thread_ready: "u \<noteq> t \<Longrightarrow> is_thread_ready (ready_thread c k t) u \<longleftrightarrow> is_thread_ready k u"
  by (simp add: ready_bits)

lemma bit_17_flags [simp]:
  "bit (f AND NOT K_PRESTART) 17 \<longleftrightarrow> bit f 17" "bit (f AND NOT K_PENDING) 17 \<longleftrightarrow> bit f 17" "bit (f OR K_SUSPENDED) 17 \<longleftrightarrow> bit f 17"
  "bit (f AND NOT K_SUSPENDED) 17 \<longleftrightarrow> bit f 17" "bit (f OR K_DEAD) 17 \<longleftrightarrow> bit f 17"
  by (simp_all add: bit_ops_flags)

lemma wakeup_step:
  assumes i: "system_inv c (X, S, k)" and t: "t \<notin> X"
  shows "system_inv c (X, S, k_wakeup c k t)"
proof (cases "is_thread_timeout_active k t \<and> \<not> is_thread_pending k t")
  case False
  then show ?thesis using i k_wakeup_other[of k t c] by auto
next
  case True
  note D = sched_partD[OF i]
  have ti: "timeout_inv k" using D(1) sched_invD(4) by (auto simp: kernel_inv_def)
  define k1 where "k1 = ready_thread c (snd (abort_thread_timeout k t)) t"
  have w: "kernel_inv c X k1" "k_wakeup c k t = (if in_isr k then k1 else reschedule_threads c k1)"
    using k_wakeup_sleeping(1,3)[OF D(1) _ _ t, folded k1_def] True by simp_all
  have ct: "current k \<noteq> t" using True D(3) by (auto simp: ready_bits is_thread_timeout_active_def)
  have r: "is_thread_ready k1 (current k)"
    using D(3) ct abort_ready[OF ti ct] by (simp add: k1_def ready_thread_ready abort_thread_timeout_def)
  have "sched_part c X (k_wakeup c k t)"
  proof (cases "in_isr k")
    case True
    then show ?thesis using w D(2) r by (simp add: sched_part_def) (simp add: k1_def abort_thread_timeout_def)
  next
    case False
    have "thread_ctx X k1" using False D(2) r by (simp add: thread_ctx_def) (simp add: k1_def abort_thread_timeout_def)
    then show ?thesis using sched_part_resched[OF w(1)] w(2) False by simp
  qed
  moreover have "lets_wait k (k_wakeup c k t)" unfolding w(2) by (simp add: lets_wait_def k1_def abort_thread_timeout_def)
  moreover have "thread_timeouts X (k_wakeup c k t)"
    using D(4) abort_timeouts(1)[of k "ThreadTO t"] unfolding w(2) by (auto simp: thread_timeouts_def k1_def abort_thread_timeout_def)
  ultimately show ?thesis by (rule step_kept[OF i])
qed

lemma timeout_of_live: "system_inv c (X, S, k) \<Longrightarrow> t \<in> X \<Longrightarrow> delta k (ThreadTO t) = -1"
  using sched_partD(1,4)[of c X S k] sched_invD(4)[of c X k] by (auto simp: kernel_inv_def thread_timeouts_def timeout_inv_def)

lemma spawned_inv:
  assumes inv: "kernel_inv c X k" and t: "t \<in> X" "t \<noteq> NULL" "delta k (ThreadTO t) = -1" and p: "valid_prio c p"
  shows "kernel_inv c (X - {t}) (ready_thread c (new_thread k t p opts) t)"
proof -
  have ni: "t \<noteq> idle_thread c" using inv t(1) by (auto simp: kernel_inv_def idle_ready_def)
  have s: "sched_inv c X (new_thread k t p opts)" "idle_ready c X (new_thread k t p opts)"
    using new_thread_inv[of c X k t] idle_ready_new_thread[of c X k t] inv t ni by (auto simp: kernel_inv_def)
  have "sched_inv c (X - {t}) (ready_thread c (new_thread k t p opts) t)" by (rule ready_thread_inv[OF s(1) t(1,2)]) (simp_all add: p)
  then show ?thesis using idle_ready_ready_thread[OF idle_ready_other(3)[OF s(2) ni] ni] by (simp add: kernel_inv_def)
qed

lemma new_thread_ready: "u \<noteq> t \<Longrightarrow> is_thread_ready (new_thread k t p opts) u \<longleftrightarrow> is_thread_ready k u"
  by (simp add: ready_bits)

lemma sched_locked_frame:
  "sched_locked (thread (ready_thread c k t) u) = sched_locked (thread k u)"
  "sched_locked (thread (reschedule_threads c k) u) = sched_locked (thread k u)"
  by (simp_all add: ready_thread_def reschedule_threads_def mark_defs Let_def)

lemma spawn_frame:
  "in_isr (snd (k_thread_spawn c k t p opts d)) = in_isr k" "\<not> (d = 0 \<and> is_thread_ready (mark_thread_as_started (new_thread k t p opts) t) t) \<Longrightarrow> current (snd (k_thread_spawn c k t p opts d)) = current k"
  "queues (snd (k_thread_spawn c k t p opts d)) (WaitQ w) = queues k (WaitQ w)"
  "u \<noteq> t \<Longrightarrow> prio (thread (snd (k_thread_spawn c k t p opts d)) u) = prio (thread k u)"
  "u \<noteq> t \<Longrightarrow> sched_locked (thread (snd (k_thread_spawn c k t p opts d)) u) = sched_locked (thread k u)"
  "u \<noteq> t \<Longrightarrow> flags (thread (snd (k_thread_spawn c k t p opts d)) u) = flags (thread k u)"
  "set (timeout_q (snd (k_thread_spawn c k t p opts d))) \<subseteq> insert (ThreadTO t) (set (timeout_q k))"
  by (auto simp: k_thread_spawn_def schedule_new_thread_def start_thread_eq add_thread_timeout_def timeout_q_add sched_locked_frame)

lemma spawn_step:
  assumes i: "system_inv c (X, S, k)" and n: "\<not> in_isr k" and t: "t \<in> X" "t \<noteq> NULL" and p: "valid_prio c p" and d: "delay \<noteq> 0 \<longrightarrow> in_range c delay"
  shows "system_inv c (X - {t}, S, snd (k_thread_spawn c k t p opts delay))"
proof -
  note D = sched_partD[OF i]
  let ?k1 = "new_thread k t p opts" and ?k' = "snd (k_thread_spawn c k t p opts delay)"
  have dl: "delta k (ThreadTO t) = -1" by (rule timeout_of_live[OF i t(1)])
  have ti: "timeout_inv ?k1" using new_thread_inv[of c X k t p opts] D(1) t(1) dl sched_invD(4) by (auto simp: kernel_inv_def)
  have ct: "current k \<noteq> t" "t \<notin> set (queues k q)" for q using D(1,2) t(1) sched_invD(7)[of c X k t] by (auto simp: kernel_inv_def)
  have ki: "kernel_inv c (X - {t}) ?k'" using k_thread_spawn_inv[OF D(1) t dl p] d by (auto simp: in_range_def)
  have "well_scheduled c (X - {t}) ?k'"
  proof (cases "delay = 0 \<and> is_thread_ready (mark_thread_as_started ?k1 t) t")
    case True
    have "thread_ctx (X - {t}) (ready_thread c ?k1 t)" using n D(2,3) ct(1) by (simp add: thread_ctx_def ready_thread_ready new_thread_ready)
    from reschedule_well_scheduled[OF spawned_inv[OF D(1) t dl p] this] True show ?thesis
      by (simp add: k_thread_spawn_def schedule_new_thread_def start_thread_eq)
  next
    case False
    have "is_thread_ready ?k' u \<longleftrightarrow> u \<noteq> t \<and> is_thread_ready k u" for u
    proof (cases "delay = 0")
      case True
      then have "?k' = ready_thread c ?k1 t" using False by (simp add: k_thread_spawn_def schedule_new_thread_def start_thread_eq)
      moreover have "is_thread_ready (ready_thread c ?k1 t) t \<longleftrightarrow> is_thread_ready (mark_thread_as_started ?k1 t) t" by (simp add: ready_bits mark_defs)
      ultimately show ?thesis using False True by (cases "u = t") (simp_all add: ready_thread_ready new_thread_ready)
    next
      case dl0: False
      have "expiry ?k1 (ThreadTO t) = None" using expiry_active[OF ti] by simp
      from active_add[OF ti this] show ?thesis
        using dl0 d new_thread_ready[of u t k p opts] by (cases "u = t")
          (simp_all add: k_thread_spawn_def schedule_new_thread_def add_thread_timeout_def ready_bits in_range_def TICK_ALIGN_def)
    qed
    then show ?thesis
      using ct D(2,3) spawn_frame(2)[OF False] by (intro well_scheduled_fewer[OF D(5)[OF n]]) (auto simp: spawn_frame)
  qed
  then have "sched_part c (X - {t}) ?k'" by (rule sched_part_ctx[OF ki])
  moreover have "lets_wait k ?k'" using ct(2) by (simp add: lets_wait_def spawn_frame) (metis spawn_frame(6))
  moreover have "thread_timeouts (X - {t}) ?k'" using D(4) spawn_frame(7)[of c k t p opts delay] unfolding thread_timeouts_def by blast
  ultimately show ?thesis by (rule step_kept[OF i])
qed


lemma ti_of: "kernel_inv c X k \<Longrightarrow> timeout_inv k"
  using sched_invD(4) by (auto simp: kernel_inv_def)

lemma cancel_step:
  assumes i: "system_inv c (X, S, k)" and t: "t \<notin> X" "\<not> is_thread_pending k t" and r: "k_thread_cancel k t = (r, k')"
  shows "system_inv c (if r = 0 then insert t X else X, S, k')"
proof (cases "has_thread_started k t \<or> \<not> is_thread_timeout_active k t")
  case True
  then show ?thesis using i r by (auto simp: k_thread_cancel_def EINVAL_def)
next
  case False
  note D = sched_partD[OF i] and ti = ti_of[OF sched_partD(1)[OF i]]
  have k': "k' = snd (abort_timeout k (ThreadTO t))" "r = 0" using False r by (auto simp: k_thread_cancel_def abort_thread_timeout_def)
  have ki: "kernel_inv c (insert t X) k'" using k_thread_cancel_inv(1)[OF D(1) _ _ t(2)] False r by simp
  have nt: "\<not> is_thread_ready k t" using False by (simp add: ready_bits started_bit)
  then have ct: "current k \<noteq> t" using D(3) by auto
  have rd: "u \<noteq> t \<Longrightarrow> is_thread_ready k' u \<longleftrightarrow> is_thread_ready k u" for u using abort_ready[OF ti] k'(1) by simp
  have "well_scheduled c (insert t X) k'" if "\<not> in_isr k"
    using ct D(2,3) rd by (intro well_scheduled_fewer[OF D(5)[OF that]]) (auto simp: k'(1))
  then have "sched_part c (insert t X) k'" using ki ct rd D(2,3) by (simp add: sched_part_def k'(1))
  moreover have "lets_wait k k'" by (simp add: lets_wait_def k'(1))
  moreover have "thread_timeouts (insert t X) k'"
    using D(4) abort_timeouts[of k "ThreadTO t"] ti unfolding thread_timeouts_def k'(1) by blast
  ultimately show ?thesis using step_kept[OF i] k'(2) by simp
qed

lemma suspend_step:
  assumes i: "system_inv c (X, S, k)" and n: "\<not> in_isr k" and t: "t \<notin> X" "t \<noteq> idle_thread c"
  shows "system_inv c (X, S, k_thread_suspend c k t)"
proof -
  note D = sched_partD[OF i]
  define k1 where "k1 = k_thread_single_suspend c k t"
  have ki: "kernel_inv c X k1" "\<not> is_thread_ready k1 t" using single_suspend_inv[OF D(1) t] by (simp_all add: k1_def)
  have f: "in_isr k1 = in_isr k" "current k1 = current k" "prio (thread k1 u) = prio (thread k u)"
    "sched_locked (thread k1 u) = sched_locked (thread k u)" "timeout_q k1 = timeout_q k" "u \<noteq> t \<Longrightarrow> is_thread_ready k1 u \<longleftrightarrow> is_thread_ready k u" for u
    by (simp_all add: k1_def k_thread_single_suspend_def mark_defs ready_bits)
  have w: "lets_wait k k1"
    by (auto simp: lets_wait_def k1_def k_thread_single_suspend_def mark_defs queues_remove dest: set_remove1D)
  have e: "k_thread_suspend c k t = (if t = current k then Swap c k1 else k1)" using f(2) by (simp add: k_thread_suspend_def Let_def k1_def)
  have rd: "is_thread_ready k1 u \<Longrightarrow> is_thread_ready k u" for u using ki(2) f(6)[of u] by (cases "u = t") auto
  have "well_scheduled c X k1" if "t \<noteq> current k"
    using that D(2,3) f rd by (intro well_scheduled_fewer[OF D(5)[OF n]]) auto
  then have "sched_part c X (k_thread_suspend c k t)" using sched_part_Swap[OF ki(1)] sched_part_ctx[OF ki(1)] n f(1) by (simp add: e)
  moreover have "lets_wait k (k_thread_suspend c k t)" "thread_timeouts X (k_thread_suspend c k t)"
    using w D(4) f(5) by (simp_all add: e lets_wait_def thread_timeouts_def)
  ultimately show ?thesis by (rule step_kept[OF i])
qed

lemma resume_step:
  assumes i: "system_inv c (X, S, k)" and n: "\<not> in_isr k" and t: "t \<notin> X" "flags (thread k t) AND K_SUSPENDED \<noteq> 0"
  shows "system_inv c (X, S, k_thread_resume c k t)"
proof -
  note D = sched_partD[OF i]
  define k1 where "k1 = k_thread_single_resume c k t"
  have b: "bit (flags (thread k t)) 16" using t(2) by (simp add: flag_tests)
  then have ct: "t \<noteq> current k" using D(3) by (auto simp: ready_bits)
  have ki: "kernel_inv c X k1" using single_resume_inv[OF D(1) t(1) b] by (simp add: k1_def)
  have f: "in_isr k1 = in_isr k" "current k1 = current k" "timeout_q k1 = timeout_q k" "u \<noteq> t \<Longrightarrow> is_thread_ready k1 u \<longleftrightarrow> is_thread_ready k u" for u
    by (simp_all add: k1_def k_thread_single_resume_def mark_defs ready_bits Let_def)
  have w: "lets_wait k k1" by (simp add: lets_wait_def k1_def k_thread_single_resume_def mark_defs queues_add Let_def)
  have "thread_ctx X k1" using n D(2,3) f ct by (simp add: thread_ctx_def)
  then have "sched_part c X (k_thread_resume c k t)" using sched_part_resched[OF ki] by (simp add: k_thread_resume_def flip: k1_def)
  moreover have "lets_wait k (k_thread_resume c k t)" "thread_timeouts X (k_thread_resume c k t)"
    using w D(4) f(3) by (simp_all add: k_thread_resume_def lets_wait_def thread_timeouts_def flip: k1_def)
  ultimately show ?thesis by (rule step_kept[OF i])
qed

lemma single_abort_frame:
  fixes c :: kconfig and call :: "addr \<Rightarrow> 'z kernel_scheme \<Rightarrow> 'z kernel_scheme"
  assumes na: "fn_abort (thread k t) = NULL" and ti: "timeout_inv k" and r: "is_thread_ready k t \<longrightarrow> delta k (ThreadTO t) = -1"
  defines "k' \<equiv> k_thread_single_abort c call k t"
  shows "in_isr k' = in_isr k" "current k' = current k" "u \<noteq> t \<Longrightarrow> is_thread_ready k' u \<longleftrightarrow> is_thread_ready k u" "lets_wait k k'"
    "set (timeout_q k') \<subseteq> set (timeout_q k) - {ThreadTO t}"
proof -
  define k1 where "k1 = (if is_thread_pending k t then unpend_thread k t else k)"
  define k2 where "k2 = (if is_thread_ready k t then remove_thread_from_ready_q c k t
     else if is_thread_timeout_active k1 t then snd (abort_thread_timeout k1 t) else k1)"
  have eq: "k' = mark_thread_as_dead k2 t" using na by (simp add: k'_def k_thread_single_abort_def k2_def k1_def Let_def)
  have ti1: "timeout_inv k1" using ti timeout_inv_cong[of k1 k] by (simp add: k1_def)
  show "in_isr k' = in_isr k" "current k' = current k" by (simp_all add: eq k2_def k1_def mark_defs abort_thread_timeout_def)
  have "is_thread_ready k2 u \<longleftrightarrow> is_thread_ready k u" if "u \<noteq> t" for u
    using abort_ready[OF ti1 that] that by (simp add: k2_def abort_thread_timeout_def) (simp add: k1_def ready_bits)
  then show "u \<noteq> t \<Longrightarrow> is_thread_ready k' u \<longleftrightarrow> is_thread_ready k u" by (simp add: eq mark_defs ready_bits)
  show "lets_wait k k'" by (auto simp: eq lets_wait_def k2_def k1_def mark_defs abort_thread_timeout_def queues_remove dest: set_remove1D)
  have "timeout_q k1 = timeout_q k" "timeouts k1 = timeouts k" by (simp_all add: k1_def)
  then show "set (timeout_q k') \<subseteq> set (timeout_q k) - {ThreadTO t}"
    using abort_timeouts[of k1 "ThreadTO t"] ti1 r ti
    by (auto simp: eq k2_def mark_defs abort_thread_timeout_def is_thread_timeout_active_def timeout_inv_def)
qed

lemma abort_step:
  assumes i: "system_inv c (X, S, k)" and n: "\<not> in_isr k" and t: "t \<notin> X" "t \<noteq> idle_thread c" "fn_abort (thread k t) = NULL"
  shows "system_inv c (insert t X, S, snd (k_thread_abort c call k t))"
proof -
  note D = sched_partD[OF i]
  define k1 where "k1 = k_thread_single_abort c call k t"
  have ki: "kernel_inv c (insert t X) k1" using single_abort_inv(1)[OF D(1) t] by (simp add: k1_def)
  have "is_thread_ready k t \<longrightarrow> delta k (ThreadTO t) = -1" by (simp add: ready_bits)
  note f = single_abort_frame[where c = c and call = call, OF t(3) ti_of[OF D(1)] this, folded k1_def]
  have f: "in_isr k1 = in_isr k" "current k1 = current k" "u \<noteq> t \<Longrightarrow> is_thread_ready k1 u \<longleftrightarrow> is_thread_ready k u" "lets_wait k k1"
    "set (timeout_q k1) \<subseteq> set (timeout_q k) - {ThreadTO t}" for u using f(1,2,4,5) f(3)[of u] by simp_all
  have e: "snd (k_thread_abort c call k t) = (if t = current k then Swap c k1 else reschedule_threads c k1)"
    using n f(1,2) by (auto simp: k_thread_abort_def Let_def simp flip: k1_def)
  have "thread_ctx (insert t X) k1" if "t \<noteq> current k" using that n D(2,3) f by (auto simp: thread_ctx_def)
  then have "sched_part c (insert t X) (snd (k_thread_abort c call k t))"
    unfolding e using sched_part_Swap[OF ki] sched_part_resched[OF ki] n f(1) by auto
  moreover have "lets_wait k (snd (k_thread_abort c call k t))" using f(4) by (simp add: e lets_wait_def)
  moreover have "thread_timeouts (insert t X) (snd (k_thread_abort c call k t))" using D(4) f(5) unfolding e thread_timeouts_def by auto
  ultimately show ?thesis by (rule step_kept[OF i])
qed

lemma priority_step:
  assumes i: "system_inv c (X, S, k)" and n: "\<not> in_isr k" and t: "t \<notin> X" "valid_prio c p"
  shows "system_inv c (X, S, k_thread_priority_set c k t p)"
proof -
  note D = sched_partD[OF i]
  have "sched_part c X (k_thread_priority_set c k t p)"
    using sched_part_resched[OF kernel_inv_priority_set[OF D(1) t]] D(6)[OF n] by (simp add: k_thread_priority_set_def)
  moreover have "lets_wait k (k_thread_priority_set c k t p)" "thread_timeouts X (k_thread_priority_set c k t p)"
    using D(4) priority_set_waitq[OF D(1), of t p] by (simp_all add: k_thread_priority_set_def lets_wait_def thread_timeouts_def)
  ultimately show ?thesis by (rule step_kept[OF i])
qed

lemma lock_step:
  assumes i: "system_inv c (X, S, k)" and n: "\<not> in_isr k"
  shows "sched_locked (thread k (current k)) + 1 \<noteq> 0 \<Longrightarrow> system_inv c (X, S, k_sched_lock k)" "system_inv c (X, S, k_sched_unlock c k)"
proof -
  note D = sched_partD[OF i]
  have "well_scheduled c X (k_sched_lock k)" if "sched_locked (thread k (current k)) + 1 \<noteq> 0"
    using that D(6)[OF n] by (simp add: well_scheduled_def is_preempt_def) (simp add: k_sched_lock_def)
  then show "sched_locked (thread k (current k)) + 1 \<noteq> 0 \<Longrightarrow> system_inv c (X, S, k_sched_lock k)"
    using D(4) by (intro step_kept[OF i sched_part_ctx[OF sched_lock_inv(1)[OF D(1)]]]) (simp_all add: lets_wait_def thread_timeouts_def k_sched_lock_def)
  have "sched_part c X (k_sched_unlock c k)" unfolding k_sched_unlock_def
    using D(1) D(6)[OF n] by (intro sched_part_resched) (simp_all add: kernel_inv_upd_thread)
  then show "system_inv c (X, S, k_sched_unlock c k)"
    using D(4) by (intro step_kept[OF i]) (simp_all add: lets_wait_def thread_timeouts_def k_sched_unlock_def)
qed

section \<open>Semaphores\<close>

lemma sems_ok_update:
  assumes s: "sems_ok S k" and l: "lets_wait k k'" and e: "sem_wait_q s = sem_wait_q (S i)" and c: "count s \<le> limit s"
    "count s \<noteq> 0 \<longrightarrow> queues k' (WaitQ (sem_wait_q (S i))) = []"
  shows "sems_ok (S(i := s)) k'"
proof -
  have "sem_wait_q ((S(i := s)) j) = sem_wait_q (S j)" for j using e by simp
  then show ?thesis using lets_wait_sems[OF l s] c unfolding sems_ok_def by simp
qed

lemma give_step:
  assumes i: "system_inv c (X, S, k)" and g: "k_sem_give c g (S j) k = (g', s, k')"
  shows "system_inv c (X, S(j := s), k')"
proof -
  note D = sched_partD[OF i]
  let ?w = "WaitQ (sem_wait_q (S j))"
  have cl: "count (S j) \<le> limit (S j)" using D(7) by (simp add: sems_ok_def)
  show ?thesis
  proof (cases "queues k ?w")
    case Nil
    then have r: "s = (S j)\<lparr>count := count (S j) + (if count (S j) \<noteq> limit (S j) then 1 else 0)\<rparr>" "k' = k" using g give_no_waiter(2)[OF Nil] by auto
    have "sems_ok (S(j := s)) k" using Nil count_inc(2)[OF cl] r(1) by (intro sems_ok_update[OF D(7)]) (simp_all add: lets_wait_def)
    then show ?thesis using i r(2) by (simp add: system_inv_alt)
  next
    case (Cons t ts)
    have nd: "flags (thread k t) AND K_DUMMY = 0" using D(7) Cons unfolding sems_ok_def by (auto simp: flag_tests dest: spec[of _ j])
    have r: "s = S j" "k' = (if \<not> in_isr k then reschedule_threads c (woken c k t 0) else woken c k t 0)"
      using g give_waiter(2)[OF D(1) Cons nd] by auto
    note h = handed_inv(2,4)[OF D(1) Cons] and fw = first_waiter[OF D(1) Cons]
    have ct: "current k \<noteq> t" using fw(3) D(3) pending_not_ready by blast
    have rd: "is_thread_ready (woken c k t 0) (current k)"
      using wake_ready(2)[OF D(1) fw(3,1) ct] D(3) is_thread_ready_cong[of "woken c k t 0" "current k" "wake c k t"] by (simp add: woken_def mark_defs)
    have "sched_part c X k'"
    proof (cases "in_isr k")
      case True
      then show ?thesis using h(1)[of 0] D(2) rd r(2) by (simp add: sched_part_def)
    next
      case False
      then show ?thesis using sched_part_resched[OF h(1) h(2)[OF D(6)]] r(2) by simp
    qed
    moreover have "lets_wait k k'" unfolding r(2) by (auto simp: lets_wait_def dest: set_remove1D)
    moreover have "thread_timeouts X k'"
      using D(4) abort_timeouts(1)[of "unpend_thread k t" "ThreadTO t"] unfolding r(2)
      by (auto simp: thread_timeouts_def woken_def mark_defs wake_def abort_thread_timeout_def)
    ultimately show ?thesis using step_kept[OF i] r(1) by simp
  qed
qed

lemma block_timeouts: "set (timeout_q (pend_current_thread c k w n)) \<subseteq> insert (ThreadTO (current k)) (set (timeout_q k))"
  by (auto simp: pend_current_thread_def pend_thread_def Let_def add_thread_timeout_def timeout_q_add mark_defs)

lemma take_step:
  assumes i: "system_inv c (X, S, k)" and n: "\<not> in_isr k" "timeout = K_NO_WAIT \<or> current k \<noteq> idle_thread c \<and> timeout_ok c timeout"
    and g: "k_sem_take c (S j) k timeout = (r, s, k')"
  shows "system_inv c (X, S(j := s), k')"
proof -
  note D = sched_partD[OF i]
  let ?q = "sem_wait_q (S j)"
  consider "count (S j) > 0" | "count (S j) = 0" "timeout = K_NO_WAIT" | "count (S j) = 0" "timeout \<noteq> K_NO_WAIT"
    by (metis word_gt_0)
  then show ?thesis
  proof cases
    case 1
    then have r: "s = (S j)\<lparr>count := count (S j) - 1\<rparr>" "k' = k" using g by (auto simp: k_sem_take_def)
    have "count (S j) \<le> limit (S j)" "queues k (WaitQ ?q) = []" using D(7) 1 by (auto simp: sems_ok_def)
    then have "sems_ok (S(j := s)) k" using r(1) dec_le[of "count (S j)" "limit (S j)"] 1 by (intro sems_ok_update[OF D(7)]) (simp_all add: lets_wait_def)
    then show ?thesis using i r(2) by (simp add: system_inv_alt)
  next
    case 2
    then show ?thesis using i g by (auto simp: k_sem_take_def)
  next
    case 3
    have mb: "may_block c X k" "timeout_ok c timeout" using n D(1) D(6)[OF n(1)] 3(2) by (auto simp: may_block_def)
    have r: "s = S j" "k' = Swap c (pend_current_thread c k ?q timeout)" using g 3 by (auto simp: k_sem_take_def)
    have "sched_part c X k'" unfolding r(2) by (rule sched_part_ctx[OF block_inv[OF mb]])
    moreover have "thread_timeouts X k'" using D(2,4) block_timeouts[of c k ?q timeout] unfolding r(2) thread_timeouts_def by auto
    moreover have "sems_ok S k'"
    proof -
      have f: "bit (flags (thread k' u)) 17 \<longleftrightarrow> bit (flags (thread k u)) 17" for u
        by (simp add: r(2) pend_current_thread_def flags_pend_thread bit_ops_flags)
      have q: "queues k' (WaitQ w) = (if w = ?q then insert_by_prio (\<lambda>x. prio (thread k x)) (current k) (queues k (WaitQ ?q)) else queues k (WaitQ w))" for w
        using pend_current_waitq(1)[OF mb(1)] by (simp add: r(2))
      have "\<not> bit (flags (thread k (current k))) 17" using D(3) by (simp add: ready_bits)
      moreover have "sem_wait_q (S a) = ?q \<Longrightarrow> a = j" for a using D(7) by (auto simp: sems_ok_def inj_def)
      ultimately show ?thesis using D(7) 3(1) unfolding sems_ok_def q f by auto
    qed
    ultimately show ?thesis using r(1) by (simp add: system_inv_alt)
  qed
qed

section \<open>Interrupts\<close>

lemma interrupt_step:
  assumes i: "system_inv c (X, S, k)"
  shows "system_inv c (X, S, k\<lparr>in_isr := True\<rparr>)"
proof -
  note D = sched_partD[OF i]
  have "kernel_inv c X (k\<lparr>in_isr := True\<rparr>)" using D(1) kernel_inv_cong(1)[of "k\<lparr>in_isr := True\<rparr>" k] by simp
  then show ?thesis using D(2-4) by (intro step_kept[OF i]) (simp_all add: sched_part_def ready_bits lets_wait_def thread_timeouts_def)
qed

lemma return_step:
  assumes i: "system_inv c (X, S, k)"
  shows "system_inv c (X, S, ExcExit c (k\<lparr>in_isr := False\<rparr>))"
proof -
  note D = sched_partD[OF i]
  let ?k = "k\<lparr>in_isr := False\<rparr>" and ?t = "current k"
  have ki: "kernel_inv c X ?k" using D(1) kernel_inv_cong(1)[of ?k k] by simp
  have ctx: "thread_ctx X ?k" using D(2,3) by (simp add: thread_ctx_def ready_bits)
  define h where "h = hd (ready_list c ?k)"
  have nx: "get_next_ready_thread c ?k = (h, ?k\<lparr>cache := h\<rparr>)" using next_thread(1)[OF ki] by (simp add: h_def)
  have ki2: "kernel_inv c X (?k\<lparr>cache := h\<rparr>)" using next_thread(2)[OF ki] ki by (simp add: kernel_inv_def idle_ready_def ready_bits h_def)
  have hh: "prio (thread k h) \<le> prio (thread k u)" if "u \<notin> X" "is_thread_ready k u" for u
    using hd_ready_highest[of c X ?k u] ki that by (simp add: kernel_inv_def h_def ready_bits)
  have e: "ExcExit c ?k = (if prio (thread k ?t) < 0 \<or> sint (sched_locked (thread k ?t)) > 0 then ?k
      else if h = ?t then ?k\<lparr>cache := h\<rparr> else pendsv c (?k\<lparr>cache := h\<rparr>))"
    by (simp add: ExcExit_def is_next_thread_current_def nx)
  have "sched_part c X (ExcExit c ?k)"
  proof (cases "prio (thread k ?t) < 0 \<or> sint (sched_locked (thread k ?t)) > 0")
    case True
    then have "\<not> is_preempt ?k ?t" by (auto simp: is_preempt_def is_coop_def)
    then have "well_scheduled c X ?k" using ctx by (simp add: well_scheduled_def)
    then show ?thesis using True e sched_part_ctx[OF ki] by simp
  next
    case False
    show ?thesis
    proof (cases "h = ?t")
      case True
      have "well_scheduled c X (?k\<lparr>cache := h\<rparr>)" using ctx hh True by (simp add: well_scheduled_def thread_ctx_def ready_bits)
      then show ?thesis using False True e sched_part_ctx[OF ki2] by simp
    next
      case ne: False
      note p = pendsv_inv[OF ki2]
      have "hd (ready_list c (?k\<lparr>cache := h\<rparr>)) = h" by (simp add: h_def)
      then have "well_scheduled c X (pendsv c (?k\<lparr>cache := h\<rparr>))" using p hh by (simp add: well_scheduled_def thread_ctx_def ready_bits)
      then show ?thesis using False ne e sched_part_ctx[OF p(1)] by simp
    qed
  qed
  moreover have "lets_wait k (ExcExit c ?k)" "thread_timeouts X (ExcExit c ?k)" using D(4) by (simp_all add: e lets_wait_def thread_timeouts_def)
  ultimately show ?thesis by (rule step_kept[OF i])
qed

text \<open>
  The tick, by the contract of timeout handlers: there are only timeouts of threads, which call no
  handler.
\<close>

interpretation thread_ticks: timeout_handlers c X "\<lambda>_ k. k" "\<lambda>k. thread_timeouts X k \<and> sems_ok S k \<and> in_isr k" "\<lambda>_ _. None"
proof (unfold_locales, goal_cases)
  case (1 k x)
  then show ?case by (simp add: runs_on_def fun_upd_idem)
next
  case (2 k x)
  then show ?case by (auto simp: thread_timeouts_def)
next
  case (3 k k')
  then have "lets_wait k k'" "thread_timeouts X k'" by (auto simp: settles_def lets_wait_def thread_timeouts_def)
  then show ?case using 3 lets_wait_sems by (auto simp: settles_def)
qed simp_all

lemma tick_step:
  assumes i: "system_inv c (X, S, k)" and n: "in_isr k" "0 \<le> n" "timeout_q k = [] \<or> n \<le> get_next_timeout_expiry k"
    and r: "handle_expired_timeouts c (\<lambda>_ k. k) k n = Some k'"
  shows "system_inv c (X, S, k')"
proof -
  note D = sched_partD[OF i]
  have "ready_to_tick c X (\<lambda>k. thread_timeouts X k \<and> sems_ok S k \<and> in_isr k) k"
    using D(1,4,7) n(1) by (auto simp: ready_to_tick_def thread_timeouts_def)
  from thread_ticks.expired_timeouts_result[OF this n(2,3)] r
  have "ready_to_tick c X (\<lambda>k. thread_timeouts X k \<and> sems_ok S k \<and> in_isr k) k'" "runs_on X k k'" by auto
  then show ?thesis using D(2,3) by (simp add: system_inv_def ready_to_tick_def runs_on_def)
qed

section \<open>Reachable states\<close>

lemma system_step_inv: "system_step c s s' \<Longrightarrow> system_inv c s \<Longrightarrow> system_inv c s'"
  by (induction rule: system_step.induct)
    (blast intro: yield_step sleep_step wakeup_step spawn_step cancel_step suspend_step resume_step abort_step priority_step
      lock_step give_step take_step interrupt_step tick_step return_step)+

lemma system_run_inv: "rtranclp (system_step c) s s' \<Longrightarrow> system_inv c s \<Longrightarrow> system_inv c s'"
  by (induction rule: rtranclp_induct) (auto intro: system_step_inv)

lemma system_boot_inv:
  assumes k: "cold k" and m: "m \<noteq> NULL" "m \<noteq> idle_thread c" "idle_thread c \<noteq> NULL" and d: "d \<noteq> m" "d \<noteq> idle_thread c" and p: "valid_prio c p"
    and S: "\<And>i. count (S i) \<le> limit (S i)" "inj (\<lambda>i. sem_wait_q (S i))"
  shows "system_inv c (UNIV - {m, idle_thread c}, S, switch_to_main_thread c (prepare_multithreading c d m p k))"
proof -
  let ?k = "prepare_multithreading c d m p k"
  note b = boot_inv[OF k m d p]
  have "queues ?k (WaitQ w) = []" for w using k by (simp add: prepare_multithreading_def cold_def Let_def queues_add mark_defs)
  then show ?thesis using sched_part_Swap[OF b(1,5)] b(3) S
    by (simp add: system_inv_alt switch_to_main_thread_def thread_timeouts_def sems_ok_def)
qed

end
