(* ===== verification/Timer.thy ===== *)
theory Timer
  imports Timeout_Expiry
begin

text \<open>
  Timers, \<^verbatim>\<open>kernel/unified/timer.c\<close>.  The kernel's state is extended by the store of timers; the
  functions of the application, \<^verbatim>\<open>expiry_fn\<close> and \<^verbatim>\<open>stop_fn\<close>, are called through their addresses by
  the argument \<open>call\<close>.
\<close>

section \<open>Operations\<close>

record k_timer =
  tmr_wait_q :: wqid
  expiry_fn :: addr
  stop_fn :: addr
  tmr_period :: int
  tmr_status :: u32

record timed = kernel +
  timers :: "addr \<Rightarrow> k_timer"

definition upd_timer :: "'z timed_scheme \<Rightarrow> addr \<Rightarrow> (k_timer \<Rightarrow> k_timer) \<Rightarrow> 'z timed_scheme" where
  "upd_timer k a f = k\<lparr>timers := (timers k)(a := f (timers k a))\<rparr>"

definition ticks_to_ms_64 :: "kconfig \<Rightarrow> int \<Rightarrow> int" where
  "ticks_to_ms_64 c ticks =
     signed_take_bit 63 (take_bit 64 (1000 * take_bit 64 ticks) div sys_clock_ticks_per_sec c)"

definition ticks_to_ms :: "kconfig \<Rightarrow> int \<Rightarrow> int" where
  "ticks_to_ms c ticks = (if ticks = -1 then K_FOREVER else signed_take_bit 31 (ticks_to_ms_64 c ticks))"

definition timer_expiration_handler ::
  "kconfig \<Rightarrow> (addr \<Rightarrow> addr \<Rightarrow> 'z timed_scheme \<Rightarrow> 'z timed_scheme) \<Rightarrow> 'z timed_scheme \<Rightarrow> addr \<Rightarrow>
     'z timed_scheme" where
  "timer_expiration_handler c call k a =
     (let tm = timers k a;
          k1 = (if tmr_period tm > 0 then add_timeout k NULL (TimerTO a) (tmr_wait_q tm) (tmr_period tm) else k);
          k2 = upd_timer k1 a (\<lambda>tm. tm\<lparr>tmr_status := tmr_status tm + 1\<rparr>);
          k3 = (if expiry_fn (timers k2 a) \<noteq> NULL then call (expiry_fn (timers k2 a)) a k2 else k2)
      in case unpend_first_thread k3 (tmr_wait_q (timers k3 a)) of (t, k4) \<Rightarrow>
           if t \<noteq> NULL then set_thread_return_value (ready_thread c k4 t) t 0 else k4)"

definition k_timer_init :: "'z timed_scheme \<Rightarrow> addr \<Rightarrow> addr \<Rightarrow> addr \<Rightarrow> 'z timed_scheme" where
  "k_timer_init k a expiry_fn' stop_fn' =
     (let k1 = upd_timer k a (\<lambda>tm. tm\<lparr>expiry_fn := expiry_fn', stop_fn := stop_fn', tmr_status := 0\<rparr>);
          k2 = upd_queue k1 (WaitQ (tmr_wait_q (timers k1 a))) (\<lambda>_. [])
      in init_timeout k2 (TimerTO a) TimerExpirationHandler)"

definition k_timer_start :: "kconfig \<Rightarrow> 'z timed_scheme \<Rightarrow> addr \<Rightarrow> int \<Rightarrow> int \<Rightarrow> 'z timed_scheme" where
  "k_timer_start c k a duration period =
     (let k1 = (if delta_ticks_from_prev (timeouts k (TimerTO a)) \<noteq> -1
                then snd (abort_timeout k (TimerTO a)) else k);
          k2 = upd_timer k1 a (\<lambda>tm. tm\<lparr>tmr_period := ms_to_ticks c period\<rparr>);
          k3 = add_timeout k2 NULL (TimerTO a) (tmr_wait_q (timers k2 a)) (TICK_ALIGN + ms_to_ticks c duration)
      in upd_timer k3 a (\<lambda>tm. tm\<lparr>tmr_status := 0\<rparr>))"

text \<open>
  \<^verbatim>\<open>k_timer_stop\<close> is two sections with interrupts locked and a call of the application between them;
  the model runs them one after the other.
\<close>

definition k_timer_stop ::
  "kconfig \<Rightarrow> (addr \<Rightarrow> addr \<Rightarrow> 'z timed_scheme \<Rightarrow> 'z timed_scheme) \<Rightarrow> 'z timed_scheme \<Rightarrow> addr \<Rightarrow>
     'z timed_scheme" where
  "k_timer_stop c call k a =
     (case abort_timeout k (TimerTO a) of (stopped, k1) \<Rightarrow>
        if stopped = -1 then k1
        else let k2 = (if stop_fn (timers k1 a) \<noteq> NULL then call (stop_fn (timers k1 a)) a k1 else k1)
             in case unpend_first_thread k2 (tmr_wait_q (timers k2 a)) of (t, k3) \<Rightarrow>
                  let k4 = (if t \<noteq> NULL then ready_thread c k3 t else k3)
                  in if in_isr k4 then k4 else reschedule_threads c k4)"

definition k_timer_status_get :: "'z timed_scheme \<Rightarrow> addr \<Rightarrow> u32 \<times> 'z timed_scheme" where
  "k_timer_status_get k a = (tmr_status (timers k a), upd_timer k a (\<lambda>tm. tm\<lparr>tmr_status := 0\<rparr>))"

text \<open>\<open>None\<close>: the caller waits for the timer to expire or stop, and goes on with the resumption.\<close>

definition k_timer_status_sync ::
  "kconfig \<Rightarrow> 'z timed_scheme \<Rightarrow> addr \<Rightarrow> u32 option \<times> 'z timed_scheme" where
  "k_timer_status_sync c k a =
     (let result = tmr_status (timers k a)
      in if result = 0 \<and> delta_ticks_from_prev (timeouts k (TimerTO a)) \<noteq> -1
         then (None, Swap c (pend_current_thread c k (tmr_wait_q (timers k a)) K_FOREVER))
         else (Some result, upd_timer k a (\<lambda>tm. tm\<lparr>tmr_status := 0\<rparr>)))"

definition k_timer_status_sync_resume :: "'z timed_scheme \<Rightarrow> addr \<Rightarrow> u32 \<times> 'z timed_scheme" where
  "k_timer_status_sync_resume k a = (tmr_status (timers k a), upd_timer k a (\<lambda>tm. tm\<lparr>tmr_status := 0\<rparr>))"

text \<open>The walk of \<^verbatim>\<open>k_timer_remaining_get\<close> along the timeout queue, up to the timer's own timeout.\<close>

fun remaining_ticks :: "(toid \<Rightarrow> int) \<Rightarrow> toid \<Rightarrow> toid list \<Rightarrow> int" where
  "remaining_ticks d x [] = 0"
| "remaining_ticks d x (t # ts) = d t + (if t = x then 0 else remaining_ticks d x ts)"

definition k_timer_remaining_get :: "kconfig \<Rightarrow> 'z timed_scheme \<Rightarrow> addr \<Rightarrow> int" where
  "k_timer_remaining_get c k a =
     (let remaining = (if delta_ticks_from_prev (timeouts k (TimerTO a)) = -1 then 0
                       else remaining_ticks (\<lambda>x. delta_ticks_from_prev (timeouts k x)) (TimerTO a) (timeout_q k))
      in ticks_to_ms c remaining)"

section \<open>Times\<close>

lemma ticks_to_ms_eq:
  assumes "0 \<le> n" "n < 2 ^ 31" "0 < sys_clock_ticks_per_sec c" "1000 * n div sys_clock_ticks_per_sec c < 2 ^ 31"
  shows "ticks_to_ms c n = 1000 * n div sys_clock_ticks_per_sec c"
proof -
  have "0 \<le> 1000 * n div sys_clock_ticks_per_sec c" using assms by (simp add: pos_imp_zdiv_nonneg_iff)
  then show ?thesis using assms by (simp add: ticks_to_ms_def ticks_to_ms_64_def take_bit_int_eq_self signed_take_bit_int_id)
qed

lemma remaining_ticks_sum:
  "x \<in> set xs \<Longrightarrow> map_of (prefix_sums d s xs) x = Some (s + remaining_ticks d x xs)"
  by (induction xs arbitrary: s) auto

lemma remaining_get_eq:
  assumes "timeout_inv k"
  shows "k_timer_remaining_get c k a = ticks_to_ms c (case expiry k (TimerTO a) of None \<Rightarrow> 0 | Some n \<Rightarrow> n)"
proof (cases "expiry k (TimerTO a)")
  case None
  then show ?thesis using expiry_active[OF assms, of "TimerTO a"] by (simp add: k_timer_remaining_get_def)
next
  case (Some n)
  then have "TimerTO a \<in> set (timeout_q k)" "delta k (TimerTO a) \<noteq> -1"
    using expiry_None[of k "TimerTO a"] expiry_active[OF assms, of "TimerTO a"] by auto
  then show ?thesis using Some remaining_ticks_sum[of "TimerTO a" "timeout_q k" "delta k" 0]
    by (simp add: k_timer_remaining_get_def expiry_def expiries_def)
qed

section \<open>What every operation keeps\<close>

lemma upd_timer_simps [simp]:
  "in_isr (upd_timer k a f) = in_isr k" "current (upd_timer k a f) = current k"
  "cache (upd_timer k a f) = cache k" "prio_bmap (upd_timer k a f) = prio_bmap k"
  "queues (upd_timer k a f) = queues k" "timeout_q (upd_timer k a f) = timeout_q k"
  "timeouts (upd_timer k a f) = timeouts k" "thread (upd_timer k a f) = thread k"
  "timers (upd_timer k a f) = (timers k)(a := f (timers k a))"
  "kernel_inv c X (upd_timer k a f) \<longleftrightarrow> kernel_inv c X k" "expiry (upd_timer k a f) = expiry k"
  by (simp_all add: upd_timer_def kernel_inv_cong[of "upd_timer k a f" k for c X, unfolded upd_timer_def])

lemma timers_frame [simp]:
  "timers (upd_thread k t f) = timers k" "timers (upd_timeout k x g) = timers k" "timers (upd_queue k q h) = timers k"
  "timers (unlink_node k t) = timers k" "timers (snd (abort_timeout k x)) = timers k"
  "timers (unpend_thread k t) = timers k" "timers (add_timeout k t x w n) = timers k"
  "timers (add_thread_to_ready_q c k t) = timers k" "timers (ready_thread c k t) = timers k"
  by (simp_all add: upd_thread_def upd_timeout_def upd_queue_def unlink_node_def abort_timeout_def unpend_thread_def
      mark_defs add_timeout_def add_thread_to_ready_q_def set_ready_q_prio_bit_def ready_thread_def Let_def
      split: option.splits)

text \<open>
  The invariant of the timers: periods are tick counts, whoever waits on a timer waits without a
  timeout of its own, and a running timer carries its handler.
\<close>

definition timers_ok :: "'z timed_scheme \<Rightarrow> bool" where
  "timers_ok k \<longleftrightarrow> (\<forall>a. 0 \<le> tmr_period (timers k a) \<and> tmr_period (timers k a) < 2 ^ 31) \<and>
     (\<forall>a. \<forall>t \<in> set (queues k (WaitQ (tmr_wait_q (timers k a)))). delta k (ThreadTO t) = -1) \<and>
     (\<forall>a. TimerTO a \<in> set (timeout_q k) \<longrightarrow> to_func (timeouts k (TimerTO a)) = TimerExpirationHandler)"

lemma wake_untimed: "delta k (ThreadTO t) = -1 \<Longrightarrow> ready_thread c (unpend_thread k t) t = wake c k t"
  by (simp add: wake_def abort_thread_timeout_def abort_inactive)

lemma timers_ok_mono:
  assumes "timers_ok k" "timers k' = timers k" "\<And>w. set (queues k' (WaitQ w)) \<subseteq> set (queues k (WaitQ w))"
    "\<And>x. delta k x = -1 \<Longrightarrow> delta k' x = -1" "\<And>x. to_func (timeouts k' x) = to_func (timeouts k x)"
    "set (timeout_q k') \<subseteq> set (timeout_q k)"
  shows "timers_ok k'"
  using assms unfolding timers_ok_def by (metis subsetD)

lemma timers_ok_settles:
  assumes "timers_ok k" "settles k k'"
  shows "timers_ok k'"
proof -
  have "timers k' = timers k" using assms(2) by (cases k; cases k') (auto simp: settles_def)
  then show ?thesis by (rule timers_ok_mono[OF assms(1)]) (use assms(2) in \<open>auto simp: settles_def\<close>)
qed

section \<open>Expiry\<close>

text \<open>An application function that leaves the kernel and the timers alone.\<close>

definition keeps_timed :: "(addr \<Rightarrow> addr \<Rightarrow> 'z timed_scheme \<Rightarrow> 'z timed_scheme) \<Rightarrow> bool" where
  "keeps_timed call \<longleftrightarrow> (\<forall>f a k. timed.truncate (call f a k) = timed.truncate k)"

lemma keeps_timedD:
  assumes "keeps_timed call"
  shows "queues (call f a k) = queues k" "prio_bmap (call f a k) = prio_bmap k" "cache (call f a k) = cache k"
    "timeout_q (call f a k) = timeout_q k" "timeouts (call f a k) = timeouts k" "thread (call f a k) = thread k"
    "timers (call f a k) = timers k" "in_isr (call f a k) = in_isr k" "current (call f a k) = current k"
  using assms[unfolded keeps_timed_def, rule_format, of f a k] by (auto simp: timed.truncate_def)

lemma keeps_timed_inv:
  "keeps_timed call \<Longrightarrow> kernel_inv c X (call f a k) \<longleftrightarrow> kernel_inv c X k"
  "keeps_timed call \<Longrightarrow> expiry (call f a k) = expiry k"
  using kernel_inv_cong[of "call f a k" k] keeps_timedD[of call f a k] by auto

text \<open>Waking the thread that waits on a timer.\<close>

lemma wake_timer_waiter:
  fixes k :: "'z timed_scheme" and a :: addr
  assumes inv: "kernel_inv c X k" and ok: "timers_ok k"
  defines "k' \<equiv> (case unpend_first_thread k (tmr_wait_q (timers k a)) of (t, k4) \<Rightarrow>
    if t \<noteq> NULL then ready_thread c k4 t else k4)"
  shows "kernel_inv c X k'" "expiry k' = expiry k" "timers k' = timers k" "timers_ok k'"
    "timeouts k' = timeouts k" "set (queues k' (WaitQ w)) \<subseteq> set (queues k (WaitQ w))" "runs_on X k k'"
proof -
  let ?q = "queues k (WaitQ (tmr_wait_q (timers k a)))"
  have "kernel_inv c X k' \<and> expiry k' = expiry k \<and> timers k' = timers k \<and> timers_ok k' \<and>
      timeouts k' = timeouts k \<and> set (queues k' (WaitQ w)) \<subseteq> set (queues k (WaitQ w)) \<and> runs_on X k k'"
  proof (cases ?q)
    case Nil
    then show ?thesis using inv ok by (simp add: k'_def unpend_first_thread_def runs_on_def)
  next
    case (Cons t ts)
    note w = first_waiter[OF inv Cons]
    have "t \<in> set ?q" by (simp add: Cons)
    then have d: "delta k (ThreadTO t) = -1" using ok unfolding timers_ok_def by blast
    have e: "k' = wake c k t" using w(2) wake_untimed[OF d, of c] by (simp add: k'_def unpend_first_eq[OF Cons])
    have t: "timeouts k' = timeouts k" "timeout_q k' = timeout_q k" "timers k' = timers k"
      unfolding e wake_untimed[OF d, symmetric] by simp_all
    have "timers_ok k'" using ok unfolding timers_ok_def t by (auto simp: e dest!: set_remove1D)
    moreover have "expiry k' = expiry k" by (simp add: expiry_def expiries_def t fun_eq_iff)
    moreover have "runs_on X k k'"
      unfolding e by (rule runs_on_wake[OF inv w(3,1)])
    ultimately show ?thesis using wake_inv(1)[OF inv w(3,1)] t by (simp add: e set_remove1_subset)
  qed
  then show "kernel_inv c X k'" "expiry k' = expiry k" "timers k' = timers k" "timers_ok k'"
    "timeouts k' = timeouts k" "set (queues k' (WaitQ w)) \<subseteq> set (queues k (WaitQ w))" "runs_on X k k'" by auto
qed

lemma handler_eq:
  "timer_expiration_handler c call k a =
     (let k1 = upd_timer (if tmr_period (timers k a) > 0
                 then add_timeout k NULL (TimerTO a) (tmr_wait_q (timers k a)) (tmr_period (timers k a)) else k)
               a (\<lambda>tm. tm\<lparr>tmr_status := tmr_status tm + 1\<rparr>);
          k3 = (if expiry_fn (timers k a) \<noteq> NULL then call (expiry_fn (timers k a)) a k1 else k1);
          k4 = (case unpend_first_thread k3 (tmr_wait_q (timers k3 a)) of (t, k4) \<Rightarrow>
             if t \<noteq> NULL then ready_thread c k4 t else k4);
          t = fst (unpend_first_thread k3 (tmr_wait_q (timers k3 a)))
      in if t \<noteq> NULL then set_thread_return_value k4 t 0 else k4)"
  by (simp add: timer_expiration_handler_def Let_def case_prod_beta)

text \<open>
  Expiry of a timer: it restarts after its period if it has one, its status counts one more, and
  the thread waiting on it is ready.
\<close>

lemma timer_expires:
  fixes k :: "'z timed_scheme" and a :: addr
  assumes inv: "kernel_inv c X k" and ok: "timers_ok k" and e: "expiry k (TimerTO a) = None"
    and f: "to_func (timeouts k (TimerTO a)) = TimerExpirationHandler" and call: "keeps_timed call"
  defines "k' \<equiv> timer_expiration_handler c call k a"
  shows "kernel_inv c X k'" "timers_ok k'"
    "expiry k' = (expiry k)(TimerTO a := if tmr_period (timers k a) > 0 then Some (tmr_period (timers k a)) else None)"
    "timers k' = (timers k)(a := (timers k a)\<lparr>tmr_status := tmr_status (timers k a) + 1\<rparr>)"
    "to_func (timeouts k' x) = to_func (timeouts k x)" "set (queues k' (WaitQ w)) \<subseteq> set (queues k (WaitQ w))"
    "runs_on X k k'"
proof -
  let ?p = "tmr_period (timers k a)" and ?x = "TimerTO a"
  define k0 where "k0 = (if ?p > 0 then add_timeout k NULL ?x (tmr_wait_q (timers k a)) ?p else k)"
  define k1 where "k1 = upd_timer k0 a (\<lambda>tm. tm\<lparr>tmr_status := tmr_status tm + 1\<rparr>)"
  define k3 where "k3 = (if expiry_fn (timers k a) \<noteq> NULL then call (expiry_fn (timers k a)) a k1 else k1)"
  define k4 where "k4 = (case unpend_first_thread k3 (tmr_wait_q (timers k3 a)) of (t, k4) \<Rightarrow>
             if t \<noteq> NULL then ready_thread c k4 t else k4)"
  have ti: "timeout_inv k" using inv sched_invD(4) by (auto simp: kernel_inv_def)
  have p: "?p < 2 ^ 31" "0 \<le> ?p" using ok by (auto simp: timers_ok_def)
  have i0: "kernel_inv c X k0" using add_callback_inv[OF inv _ e, of ?p] p inv by (simp add: k0_def)
  have e0: "expiry k0 = (expiry k)(?x := if ?p > 0 then Some ?p else None)"
    using expiry_add[OF ti e] e by (simp add: k0_def fun_upd_idem)
  have d0: "delta k0 (ThreadTO t) = -1 \<longleftrightarrow> delta k (ThreadTO t) = -1" for t
    using active_add[OF ti e _ p(1)] p by (simp add: k0_def)
  have o0: "timers_ok k0" using ok f d0 p unfolding timers_ok_def by (auto simp: k0_def timeout_q_add)
  have i3: "kernel_inv c X k3" "expiry k3 = expiry k0"
    using i0 keeps_timed_inv[OF call] by (simp_all add: k3_def k1_def)
  have t3: "timers k3 = (timers k)(a := (timers k a)\<lparr>tmr_status := tmr_status (timers k a) + 1\<rparr>)"
    using keeps_timedD[OF call] by (simp add: k3_def k1_def k0_def)
  have f3: "queues k3 = queues k0" "timeouts k3 = timeouts k0" "timeout_q k3 = timeout_q k0" "timers k0 = timers k"
    using keeps_timedD[OF call] by (simp_all add: k3_def k1_def) (simp add: k0_def)
  have "timers_ok k3" using o0 unfolding timers_ok_def t3 f3 by simp
  note w = wake_timer_waiter[OF i3(1) this, of a, folded k4_def]
  define t where "t = fst (unpend_first_thread k3 (tmr_wait_q (timers k3 a)))"
  have k': "k' = (if t \<noteq> NULL then set_thread_return_value k4 t 0 else k4)"
    unfolding k'_def handler_eq t_def k4_def k3_def k1_def k0_def by (simp only: Let_def)
  show "kernel_inv c X k'" using w(1) by (simp add: k' mark_defs kernel_inv_upd_thread)
  show "expiry k' = (expiry k)(?x := if ?p > 0 then Some ?p else None)" using w(2) i3(2) e0 by (simp add: k' mark_defs)
  show "timers k' = (timers k)(a := (timers k a)\<lparr>tmr_status := tmr_status (timers k a) + 1\<rparr>)"
    using w(3) t3 by (simp add: k' mark_defs)
  show "timers_ok k'" using w(4) by (simp add: k' mark_defs timers_ok_def)
  have "to_func (timeouts k0 x) = to_func (timeouts k x)" "queues k0 = queues k" by (simp_all add: k0_def)
  then show "to_func (timeouts k' x) = to_func (timeouts k x)" "set (queues k' (WaitQ w)) \<subseteq> set (queues k (WaitQ w))"
    using w(5,6) f3(1,2) by (simp_all add: k' mark_defs)
  have "runs_on X k k3"
  proof (rule runs_on_expiry[OF ti])
    show "timeout_inv k3" using i3(1) sched_invD(4) by (auto simp: kernel_inv_def)
    show "expiry k3 (ThreadTO t) = None" if "expiry k (ThreadTO t) = None" for t using that i3(2) e0 by simp
    show "current k3 = current k" "in_isr k3 = in_isr k" "flags (thread k3 t) = flags (thread k t)" for t
      using keeps_timedD[OF call] by (simp_all add: k3_def k1_def) (simp_all add: k0_def)
  qed
  moreover have "runs_on X k4 k'" by (simp add: k' runs_on_def mark_defs ready_bits prevented_bits)
  ultimately show "runs_on X k k'" using w(7) runs_on_trans by blast
qed

section \<open>Start, stop and status\<close>

lemma timer_started:
  fixes k :: "'z timed_scheme" and a :: addr
  assumes inv: "kernel_inv c X k" and ok: "timers_ok k"
    and f: "to_func (timeouts k (TimerTO a)) = TimerExpirationHandler"
    and d: "0 \<le> ms_to_ticks c d" "ms_to_ticks c d < 2 ^ 31 - 1" and p: "0 \<le> ms_to_ticks c p"  "ms_to_ticks c p < 2 ^ 31"
  defines "k' \<equiv> k_timer_start c k a d p"
  shows "kernel_inv c X k'" "timers_ok k'" "expiry k' = (expiry k)(TimerTO a \<mapsto> 1 + ms_to_ticks c d)"
    "timers k' = (timers k)(a := (timers k a)\<lparr>tmr_period := ms_to_ticks c p, tmr_status := 0\<rparr>)"
proof -
  let ?x = "TimerTO a"
  define k1 where "k1 = snd (abort_timeout k ?x)"
  define k2 where "k2 = upd_timer k1 a (\<lambda>tm. tm\<lparr>tmr_period := ms_to_ticks c p\<rparr>)"
  define k3 where "k3 = add_timeout k2 NULL ?x (tmr_wait_q (timers k a)) (1 + ms_to_ticks c d)"
  have ti: "timeout_inv k" using inv sched_invD(4) by (auto simp: kernel_inv_def)
  have k': "k' = upd_timer k3 a (\<lambda>tm. tm\<lparr>tmr_status := 0\<rparr>)"
    by (simp add: k'_def k3_def k2_def k1_def k_timer_start_def Let_def TICK_ALIGN_def abort_inactive)
  have i1: "kernel_inv c X k1" unfolding k1_def by (rule abort_callback_inv[OF inv]) simp
  have e1: "expiry k1 = (expiry k)(?x := None)" by (simp add: k1_def expiry_abort[OF ti])
  have i2: "kernel_inv c X k2" "expiry k2 = (expiry k)(?x := None)" using i1 e1 by (simp_all add: k2_def)
  have ti2: "timeout_inv k2" using i2(1) sched_invD(4) by (auto simp: kernel_inv_def)
  show "kernel_inv c X k'" using add_callback_inv[OF i2(1), of ?x "1 + ms_to_ticks c d"] i2(2) d by (simp add: k' k3_def)
  show "expiry k' = (expiry k)(?x \<mapsto> 1 + ms_to_ticks c d)" using expiry_add[OF ti2, of ?x] i2(2) by (simp add: k' k3_def)
  show t: "timers k' = (timers k)(a := (timers k a)\<lparr>tmr_period := ms_to_ticks c p, tmr_status := 0\<rparr>)"
    by (simp add: k' k3_def k2_def k1_def)
  have "timers_ok k1" unfolding k1_def by (rule timers_ok_settles[OF ok settles_abort[OF ti]])
  moreover have "timers k1 = timers k" "to_func (timeouts k1 ?x) = TimerExpirationHandler" using f by (simp_all add: k1_def)
  moreover have "delta k3 (ThreadTO t) = -1 \<longleftrightarrow> delta k1 (ThreadTO t) = -1" for t
    using active_add[OF ti2, of ?x] i2(2) d by (simp add: k3_def) (simp add: k2_def)
  ultimately show "timers_ok k'" using p unfolding timers_ok_def t
    by (auto simp: k' k3_def timeout_q_add k2_def)
qed

lemma timer_stopped:
  fixes k :: "'z timed_scheme" and a :: addr
  assumes inv: "kernel_inv c X k" and ok: "timers_ok k" and call: "keeps_timed call"
  defines "k' \<equiv> k_timer_stop c call k a"
  shows "kernel_inv c X k'" "expiry k' = (expiry k)(TimerTO a := None)"
proof -
  let ?x = "TimerTO a"
  define k1 where "k1 = snd (abort_timeout k ?x)"
  define k2 where "k2 = (if stop_fn (timers k1 a) \<noteq> NULL then call (stop_fn (timers k1 a)) a k1 else k1)"
  define k4 where "k4 = (case unpend_first_thread k2 (tmr_wait_q (timers k2 a)) of (t, k4) \<Rightarrow>
             if t \<noteq> NULL then ready_thread c k4 t else k4)"
  have ti: "timeout_inv k" using inv sched_invD(4) by (auto simp: kernel_inv_def)
  have i1: "kernel_inv c X k1" unfolding k1_def by (rule abort_callback_inv[OF inv]) simp
  have e1: "expiry k1 = (expiry k)(?x := None)" by (simp add: k1_def expiry_abort[OF ti])
  have o1: "timers_ok k1" unfolding k1_def by (rule timers_ok_settles[OF ok settles_abort[OF ti]])
  have i2: "kernel_inv c X k2" "expiry k2 = expiry k1" using i1 keeps_timed_inv[OF call] by (simp_all add: k2_def)
  have o2: "timers_ok k2" using o1 keeps_timedD[OF call] by (simp add: k2_def timers_ok_def)
  note w = wake_timer_waiter[OF i2(1) o2, of a, folded k4_def]
  have ab: "fst (abort_timeout k ?x) = (if delta k ?x = -1 then -1 else 0)" by (simp add: abort_timeout_def Let_def)
  have k': "k' = (if delta k ?x = -1 then k1 else if in_isr k4 then k4 else reschedule_threads c k4)"
    using ab by (simp add: k'_def k4_def k2_def k1_def k_timer_stop_def case_prod_beta Let_def)
  show "kernel_inv c X k'" using i1 w(1) reschedule_inv[OF w(1)] by (simp add: k')
  have "expiry (reschedule_threads c k4) = expiry k4" by (simp add: expiry_def expiries_def fun_eq_iff)
  then show "expiry k' = (expiry k)(?x := None)" using e1 w(2) i2(2) by (simp add: k')
qed

text \<open>A thread that synchronises with a running timer waits on it, without a timeout.\<close>

lemma status_sync_blocks:
  fixes k :: "'z timed_scheme"
  assumes b: "may_block c X k" and s: "tmr_status (timers k a) = 0" "expiry k (TimerTO a) \<noteq> None"
  shows "fst (k_timer_status_sync c k a) = None" "kernel_inv c X (snd (k_timer_status_sync c k a))"
    "current k \<in> set (queues (snd (k_timer_status_sync c k a)) (WaitQ (tmr_wait_q (timers k a))))"
proof -
  have inv: "kernel_inv c X k" using b by (simp add: may_block_def)
  then have "timeout_inv k" using sched_invD(4) by (auto simp: kernel_inv_def)
  then have "delta k (TimerTO a) \<noteq> -1" using expiry_active[of k "TimerTO a"] s(2) by auto
  then have e: "k_timer_status_sync c k a =
      (None, Swap c (pend_current_thread c k (tmr_wait_q (timers k a)) K_FOREVER))"
    using s(1) by (simp add: k_timer_status_sync_def)
  show "fst (k_timer_status_sync c k a) = None" "kernel_inv c X (snd (k_timer_status_sync c k a))"
    using block_inv(1)[OF b, of K_FOREVER] by (simp_all add: e timeout_ok_def)
  show "current k \<in> set (queues (snd (k_timer_status_sync c k a)) (WaitQ (tmr_wait_q (timers k a))))"
    using pend_current_waitq(1)[OF b] by (simp add: e)
qed

end
