(* ===== verification/Ring_Buffer.thy ===== *)
theory Ring_Buffer
  imports Kernel_State
begin

text \<open>
  Ring buffers of variable-sized items, \<^verbatim>\<open>misc/ring_buffer.c\<close> and \<^verbatim>\<open>include/misc/ring_buffer.h\<close>, over a memory of
  32-bit words addressed by word.  All indices are 32-bit words, and an item is a header word followed by
  its data.  The abstraction is the queue of the items in the buffer.
\<close>

section \<open>Data\<close>

type_synonym words = "addr \<Rightarrow> u32"

record ring_buf =
  rb_head :: u32
  rb_tail :: u32
  dropped_put_count :: u32
  rb_size :: u32
  rb_buf :: addr
  rb_mask :: u32

text \<open>The bit fields of \<^verbatim>\<open>struct ring_element\<close>, allocated from the least significant bit as on ARM.\<close>

definition ring_element :: "u16 \<Rightarrow> u8 \<Rightarrow> u8 \<Rightarrow> u32" where
  "ring_element type len value = ucast type OR push_bit 16 (ucast len) OR push_bit 24 (ucast value)"

definition element_type :: "u32 \<Rightarrow> u16" where "element_type w = ucast w"
definition element_length :: "u32 \<Rightarrow> u8" where "element_length w = ucast (drop_bit 16 w)"
definition element_value :: "u32 \<Rightarrow> u8" where "element_value w = ucast (drop_bit 24 w)"

section \<open>Operations\<close>

definition is_power_of_two :: "u32 \<Rightarrow> bool" where
  "is_power_of_two x \<longleftrightarrow> x \<noteq> 0 \<and> x AND (x - 1) = 0"

definition sys_ring_buf_init :: "u32 \<Rightarrow> addr \<Rightarrow> ring_buf" where
  "sys_ring_buf_init sz data = \<lparr>rb_head = 0, rb_tail = 0, dropped_put_count = 0, rb_size = sz, rb_buf = data,
     rb_mask = (if is_power_of_two sz then sz - 1 else 0)\<rparr>"

definition sys_ring_buf_is_empty :: "ring_buf \<Rightarrow> bool" where
  "sys_ring_buf_is_empty r \<longleftrightarrow> rb_head r = rb_tail r"

definition sys_ring_buf_space_get :: "ring_buf \<Rightarrow> u32" where
  "sys_ring_buf_space_get r =
     (if sys_ring_buf_is_empty r then rb_size r - 1
      else if rb_tail r < rb_head r then rb_head r - rb_tail r - 1
      else (rb_size r - rb_tail r) + rb_head r - 1)"

text \<open>The index arithmetic of both branches of put and get: a mask, or a remainder when there is no mask.\<close>

definition ring_index :: "ring_buf \<Rightarrow> u32 \<Rightarrow> u32" where
  "ring_index r i = (if rb_mask r \<noteq> 0 then i AND rb_mask r else i mod rb_size r)"

text \<open>One round of the loop that copies data in.\<close>

definition put_word :: "ring_buf \<Rightarrow> addr \<Rightarrow> nat \<Rightarrow> words \<Rightarrow> words" where
  "put_word r data i h = h(rb_buf r + unat (ring_index r (of_nat i + rb_tail r + 1)) := h (data + i))"

definition sys_ring_buf_put :: "ring_buf \<Rightarrow> words \<Rightarrow> u16 \<Rightarrow> u8 \<Rightarrow> addr \<Rightarrow> u8 \<Rightarrow> int \<times> ring_buf \<times> words" where
  "sys_ring_buf_put r h type value data size32 =
     (if sys_ring_buf_space_get r \<ge> ucast size32 + 1
      then let h1 = h(rb_buf r + unat (rb_tail r) := ring_element type size32 value);
               h2 = fold (put_word r data) [0..<unat size32] h1
           in (0, r\<lparr>rb_tail := ring_index r (rb_tail r + ucast size32 + 1)\<rparr>, h2)
      else (- EMSGSIZE, r\<lparr>dropped_put_count := dropped_put_count r + 1\<rparr>, h))"

lemma length_bound: "unat (element_length w) < 256"
  using unsigned_less[of "element_length w", where 'a = nat] by simp

text \<open>
  The loop that copies data out reads the length in the header again in every round.  A length is
  below 256, so it ends.
\<close>

function get_words :: "ring_buf \<Rightarrow> addr \<Rightarrow> nat \<Rightarrow> words \<Rightarrow> words" where
  "get_words r data i h =
     (if i < unat (element_length (h (rb_buf r + unat (rb_head r))))
      then get_words r data (i + 1) (h(data + i := h (rb_buf r + unat (ring_index r (of_nat i + rb_head r + 1)))))
      else h)"
  by auto

termination
proof (relation "measure (\<lambda>(r, data, i, h). 256 - i)")
  fix r :: ring_buf and data i and h :: words
  assume "i < unat (element_length (h (rb_buf r + unat (rb_head r))))"
  then have "i < 256" by (rule less_trans[OF _ length_bound])
  then show "((r, data, i + 1, h(data + i := h (rb_buf r + unat (ring_index r (of_nat i + rb_head r + 1))))), r, data, i, h)
      \<in> measure (\<lambda>(r, data, i, h). 256 - i)"
    by simp
qed simp

declare get_words.simps [simp del]

text \<open>The results through pointers: type and value, when an item is read, and the size of the item.\<close>

definition sys_ring_buf_get :: "ring_buf \<Rightarrow> words \<Rightarrow> addr \<Rightarrow> u8 \<Rightarrow> int \<times> (u16 \<times> u8) option \<times> u8 \<times> ring_buf \<times> words" where
  "sys_ring_buf_get r h data size32 =
     (if sys_ring_buf_is_empty r then (- EAGAIN, None, size32, r, h)
      else let header = h (rb_buf r + unat (rb_head r))
           in if element_length header > size32 then (- EMSGSIZE, None, element_length header, r, h)
              else let h1 = get_words r data 0 h;
                       header1 = h1 (rb_buf r + unat (rb_head r))
                   in (0, Some (element_type header, element_value header), element_length header,
                       r\<lparr>rb_head := ring_index r (rb_head r + ucast (element_length header1) + 1)\<rparr>, h1))"

section \<open>Headers and indices\<close>

lemma element_fields [simp]:
  "element_type (ring_element t l v) = t" "element_length (ring_element t l v) = l" "element_value (ring_element t l v) = v"
  by (rule bit_word_eqI; auto simp: ring_element_def element_type_def element_length_def element_value_def
      bit_or_iff bit_push_bit_iff bit_drop_bit_eq bit_ucast_iff dest: bit_imp_le_length)+

lemma and_pred_pow2: "0 < n \<Longrightarrow> n AND (n - 1) = 0 \<Longrightarrow> \<exists>e. n = 2 ^ e" for n :: nat
proof (induction n rule: less_induct)
  case (less n)
  show ?case
  proof (cases "even n")
    case True
    then obtain m where m: "n = 2 * m" by (elim evenE)
    have "2 * (m AND (m - 1)) = n AND (n - 1)"
      using m less.prems(1) by (cases m) (simp_all add: and_rec [of "Suc (Suc (2 * _))"])
    then have "\<exists>e. m = 2 ^ e" using less m by auto
    then show ?thesis using m by (metis power_Suc)
  next
    case False
    then obtain m where m: "n = 2 * m + 1" by (elim oddE)
    then have "m = 0" using less.prems(2) by (simp add: and_rec [of "Suc (2 * m)"])
    then show ?thesis using m by (intro exI[of _ 0]) simp
  qed
qed

text \<open>
  The sizes for which the index arithmetic is exact: 32-bit sums of an index and a length do not wrap.
\<close>

definition ring_ok :: "ring_buf \<Rightarrow> bool" where
  "ring_ok r \<longleftrightarrow> 0 < rb_size r \<and> unat (rb_size r) \<le> 2 ^ 31 \<and> rb_head r < rb_size r \<and> rb_tail r < rb_size r \<and>
     (rb_mask r \<noteq> 0 \<longrightarrow> is_power_of_two (rb_size r) \<and> rb_mask r = rb_size r - 1)"

lemma ring_index_mod: "ring_ok r \<Longrightarrow> unat (ring_index r x) = unat x mod unat (rb_size r)"
proof -
  assume ok: "ring_ok r"
  show ?thesis
  proof (cases "rb_mask r = 0")
    case True
    then show ?thesis by (simp add: ring_index_def unat_mod_distrib)
  next
    case False
    let ?n = "unat (rb_size r)"
    have m: "is_power_of_two (rb_size r)" "rb_mask r = rb_size r - 1" and pos: "0 < ?n"
      using ok False by (simp_all add: ring_ok_def word_less_nat_alt)
    have u: "unat (rb_size r - 1) = ?n - 1" using pos by (simp add: unat_minus_one unat_gt_0)
    have "?n AND (?n - 1) = 0"
      using m(1) u by (metis is_power_of_two_def unat_0 unsigned_and_eq)
    then obtain e where e: "?n = 2 ^ e" using and_pred_pow2 pos by blast
    have "unat (ring_index r x) = unat x AND (?n - 1)"
      using False m(2) u by (simp add: ring_index_def unsigned_and_eq)
    then show ?thesis using e by (metis mask_eq_exp_minus_1 take_bit_eq_mask take_bit_eq_mod)
  qed
qed

section \<open>The words in the buffer\<close>

definition ring_slot :: "ring_buf \<Rightarrow> nat \<Rightarrow> addr" where
  "ring_slot r j = rb_buf r + (unat (rb_head r) + j) mod unat (rb_size r)"

definition ring_used :: "ring_buf \<Rightarrow> nat" where
  "ring_used r = (unat (rb_tail r) + unat (rb_size r) - unat (rb_head r)) mod unat (rb_size r)"

definition ring_words :: "ring_buf \<Rightarrow> words \<Rightarrow> u32 list" where
  "ring_words r h = map (\<lambda>j. h (ring_slot r j)) [0..<ring_used r]"

lemma map_upt_shift: "map f [a..<a + m] = map (\<lambda>i. f (a + i)) [0..<m]"
  by (induction m) simp_all

lemma map_upt_split: "map f [0..<u + 1 + m] = map f [0..<u] @ f u # map (\<lambda>i. f (u + 1 + i)) [0..<m]"
  by (induction m) simp_all

lemma mod_shift_inj:
  fixes i j n :: nat
  assumes "(a + i) mod n = (a + j) mod n" "i < n" "j < n"
  shows "i = j"
proof -
  have *: "i' = j'" if e: "(a + i') mod n = (a + j') mod n" and "i' \<le> j'" "j' < n" for i' j'
  proof -
    have "n dvd (a + j') - (a + i')" using e \<open>i' \<le> j'\<close> by (metis add_le_cancel_left mod_eq_dvd_iff_nat)
    then show ?thesis using \<open>i' \<le> j'\<close> \<open>j' < n\<close> by (auto dest: dvd_imp_le)
  qed
  show ?thesis using *[of i j] *[of j i] assms by (metis linear)
qed

lemma slot_inj: "i < unat (rb_size r) \<Longrightarrow> j < unat (rb_size r) \<Longrightarrow> ring_slot r i = ring_slot r j \<Longrightarrow> i = j"
  unfolding ring_slot_def by (rule mod_shift_inj[of "unat (rb_head r)"]) simp_all

lemma slot_in_buffer: "ring_ok r \<Longrightarrow> rb_buf r \<le> ring_slot r j \<and> ring_slot r j < rb_buf r + unat (rb_size r)"
  by (simp add: ring_slot_def ring_ok_def word_less_nat_alt)

lemma used_eq:
  assumes "ring_ok r"
  shows "ring_used r = (if rb_head r \<le> rb_tail r then unat (rb_tail r) - unat (rb_head r)
     else unat (rb_tail r) + unat (rb_size r) - unat (rb_head r))"
proof -
  let ?h = "unat (rb_head r)" and ?t = "unat (rb_tail r)" and ?n = "unat (rb_size r)"
  have b: "?h < ?n" "?t < ?n" using assms by (simp_all add: ring_ok_def word_less_nat_alt)
  have "?t + ?n - ?h = (?t - ?h) + ?n" if "?h \<le> ?t" using that by simp
  then have "(?t + ?n - ?h) mod ?n = ?t - ?h" if "?h \<le> ?t" using b that by (metis less_imp_diff_less mod_add_self2 mod_less)
  moreover have "(?t + ?n - ?h) mod ?n = ?t + ?n - ?h" if "\<not> ?h \<le> ?t" using b that by simp
  ultimately show ?thesis by (simp add: ring_used_def word_le_nat_alt)
qed

lemma used_props:
  assumes "ring_ok r"
  shows "ring_used r < unat (rb_size r)" "ring_slot r (ring_used r) = rb_buf r + unat (rb_tail r)" "ring_used r = 0 \<longleftrightarrow> sys_ring_buf_is_empty r"
proof -
  have b: "unat (rb_head r) < unat (rb_size r)" "unat (rb_tail r) < unat (rb_size r)"
    using assms by (simp_all add: ring_ok_def word_less_nat_alt)
  show "ring_used r < unat (rb_size r)" using b by (auto simp: used_eq[OF assms] word_le_nat_alt)
  show "ring_slot r (ring_used r) = rb_buf r + unat (rb_tail r)" using b by (auto simp: used_eq[OF assms] word_le_nat_alt ring_slot_def)
  show "ring_used r = 0 \<longleftrightarrow> sys_ring_buf_is_empty r"
    using b unfolding used_eq[OF assms] sys_ring_buf_is_empty_def word_le_nat_alt word_unat_eq_iff by auto
qed

lemma space_exact:
  assumes "ring_ok r"
  shows "unat (sys_ring_buf_space_get r) = unat (rb_size r) - 1 - ring_used r"
proof -
  let ?h = "unat (rb_head r)" and ?t = "unat (rb_tail r)" and ?n = "unat (rb_size r)"
  have b: "?h < ?n" "?t < ?n" using assms by (simp_all add: ring_ok_def word_less_nat_alt)
  have p: "unat (w - 1) = unat w - 1" if "0 < unat w" for w :: u32 using that by (simp add: unat_minus_one unat_gt_0)
  have d: "unat (v - w) = unat v - unat w" if "unat w \<le> unat v" for v w :: u32
    using that by (simp add: unat_sub word_le_nat_alt)
  consider "?h = ?t" | "?t < ?h" | "?h < ?t" by linarith
  then show ?thesis
  proof cases
    case 1
    then have "sys_ring_buf_space_get r = rb_size r - 1" "ring_used r = 0"
      by (simp_all add: sys_ring_buf_space_get_def sys_ring_buf_is_empty_def used_eq[OF assms] word_le_nat_alt word_unat_eq_iff)
    then show ?thesis using b p[of "rb_size r"] by simp
  next
    case 2
    then have s: "sys_ring_buf_space_get r = rb_head r - rb_tail r - 1" "ring_used r = ?t + ?n - ?h"
      by (auto simp: sys_ring_buf_space_get_def sys_ring_buf_is_empty_def used_eq[OF assms] word_le_nat_alt word_less_nat_alt)
    have "unat (rb_head r - rb_tail r) = ?h - ?t" using 2 by (intro d) simp
    then show ?thesis using b 2 p[of "rb_head r - rb_tail r"] unfolding s by linarith
  next
    case 3
    then have s: "sys_ring_buf_space_get r = rb_size r - rb_tail r + rb_head r - 1" "ring_used r = ?t - ?h"
      by (auto simp: sys_ring_buf_space_get_def sys_ring_buf_is_empty_def used_eq[OF assms] word_le_nat_alt word_less_nat_alt)
    have "unat (rb_size r - rb_tail r) = ?n - ?t" using b by (intro d) simp
    moreover have "?n - ?t + ?h < 2 ^ 32" using b 3 unsigned_less[of "rb_size r", where 'a = nat] by simp
    ultimately have "unat (rb_size r - rb_tail r + rb_head r) = ?n - ?t + ?h" by (simp add: unat_word_ariths(1))
    then show ?thesis using b 3 p[of "rb_size r - rb_tail r + rb_head r"] unfolding s by linarith
  qed
qed

text \<open>What put and get compute as the place of a word is a slot.\<close>

lemma unat_offset: "ring_ok r \<Longrightarrow> i < rb_size r \<Longrightarrow> j \<le> 256 \<Longrightarrow> unat (i + of_nat j) = unat i + j"
proof -
  assume a: "ring_ok r" "i < rb_size r" "j \<le> 256"
  have "unat i + j < 2 ^ 32" using a by (simp add: ring_ok_def word_less_nat_alt)
  moreover have "unat (of_nat j :: u32) = j" using a(3) by (simp add: unat_of_nat)
  ultimately show ?thesis by (simp add: unat_word_ariths(1))
qed

lemma slot_from_tail:
  assumes "ring_ok r" "j \<le> 256"
  shows "rb_buf r + unat (ring_index r (rb_tail r + of_nat j)) = ring_slot r (ring_used r + j)"
proof -
  have "rb_tail r < rb_size r" using assms(1) by (simp add: ring_ok_def)
  then have "unat (ring_index r (rb_tail r + of_nat j)) = (unat (rb_tail r) + j) mod unat (rb_size r)"
    by (simp add: ring_index_mod[OF assms(1)] unat_offset[OF assms(1) _ assms(2)])
  also have "unat (rb_tail r) = (unat (rb_head r) + ring_used r) mod unat (rb_size r)"
    using used_props(2)[OF assms(1)] by (simp add: ring_slot_def)
  finally show ?thesis by (simp add: ring_slot_def mod_add_left_eq add.assoc)
qed

lemma slot_from_head:
  assumes "ring_ok r" "j \<le> 256"
  shows "rb_buf r + unat (ring_index r (rb_head r + of_nat j)) = ring_slot r j"
proof -
  have "rb_head r < rb_size r" using assms(1) by (simp add: ring_ok_def)
  then show ?thesis by (simp add: ring_slot_def ring_index_mod[OF assms(1)] unat_offset[OF assms(1) _ assms(2)])
qed

lemma ring_index_less: "ring_ok r \<Longrightarrow> ring_index r x < rb_size r"
  using ring_index_mod[of r x] by (simp add: ring_ok_def word_less_nat_alt)

text \<open>The area of \<open>m\<close> words at \<open>data\<close> does not meet the buffer.\<close>

definition off_ring :: "ring_buf \<Rightarrow> addr \<Rightarrow> nat \<Rightarrow> bool" where
  "off_ring r data m \<longleftrightarrow> data + m \<le> rb_buf r \<or> rb_buf r + unat (rb_size r) \<le> data"

lemma off_ringD: "ring_ok r \<Longrightarrow> off_ring r data m \<Longrightarrow> i < m \<Longrightarrow> ring_slot r j \<noteq> data + i"
  using slot_in_buffer[of r j] by (auto simp: off_ring_def)

lemma put_words_effect:
  assumes "ring_ok r" "off_ring r data m" "m < 256" "ring_used r + m < unat (rb_size r)"
  shows "(\<forall>i < m. fold (put_word r data) [0..<m] h (ring_slot r (ring_used r + 1 + i)) = h (data + i)) \<and>
    (\<forall>x. (\<forall>i < m. x \<noteq> ring_slot r (ring_used r + 1 + i)) \<longrightarrow> fold (put_word r data) [0..<m] h x = h x)"
  using assms(2-4)
proof (induction m)
  case (Suc m)
  let ?h = "fold (put_word r data) [0..<m] h"
  have IH: "\<forall>i < m. ?h (ring_slot r (ring_used r + 1 + i)) = h (data + i)"
      "\<And>x. \<forall>i < m. x \<noteq> ring_slot r (ring_used r + 1 + i) \<Longrightarrow> ?h x = h x"
    using Suc by (auto simp: off_ring_def)
  have d: "?h (data + m) = h (data + m)" using off_ringD[OF assms(1) Suc.prems(1), of m] by (intro IH(2)) (metis lessI)
  have "of_nat m + rb_tail r + 1 = rb_tail r + of_nat (m + 1)" by simp
  then have "rb_buf r + unat (ring_index r (of_nat m + rb_tail r + 1)) = ring_slot r (ring_used r + 1 + m)"
    using slot_from_tail[OF assms(1), of "m + 1"] Suc.prems(2) by (simp add: ac_simps)
  then have p: "put_word r data m ?h = ?h(ring_slot r (ring_used r + 1 + m) := h (data + m))" by (simp add: put_word_def d)
  have "ring_slot r (ring_used r + 1 + i) \<noteq> ring_slot r (ring_used r + 1 + m)" if "i < m" for i
    using slot_inj[of "ring_used r + 1 + i" r "ring_used r + 1 + m"] that Suc.prems(3) by auto
  then show ?case using IH(1) IH(2) by (auto simp: p less_Suc_eq)
qed simp

text \<open>The two operations on the words in the buffer.\<close>

lemma put_stored:
  assumes ok: "ring_ok r" and off: "off_ring r data (unat size32)" and fits: "ring_used r + unat size32 + 1 < unat (rb_size r)"
    and e: "sys_ring_buf_put r h type value data size32 = (rc, r', h')"
  shows "rc = 0" "ring_ok r'" "ring_words r' h' = ring_words r h @ ring_element type size32 value # map h [data..<data + unat size32]"
    "r' = r\<lparr>rb_tail := rb_tail r'\<rparr>" "\<And>x. x < rb_buf r \<or> rb_buf r + unat (rb_size r) \<le> x \<Longrightarrow> h' x = h x"
proof -
  let ?m = "unat size32" and ?u = "ring_used r"
  let ?h1 = "h(ring_slot r ?u := ring_element type size32 value)"
  have m: "?m < 256" using unsigned_less[of size32, where 'a = nat] by simp
  have w: "ucast size32 + 1 = (of_nat (?m + 1) :: u32)" by (simp add: of_nat_unat)
  have "unat (of_nat (?m + 1) :: u32) = ?m + 1" using m by (simp only: unat_of_nat) simp
  then have "sys_ring_buf_space_get r \<ge> ucast size32 + 1"
    using fits by (simp add: word_le_nat_alt space_exact[OF ok] w del: of_nat_add of_nat_Suc)
  moreover have "rb_tail r + ucast size32 + 1 = rb_tail r + of_nat (?m + 1)" using w by (simp add: add.assoc)
  ultimately have eqs: "rc = 0" "r' = r\<lparr>rb_tail := ring_index r (rb_tail r + of_nat (?m + 1))\<rparr>" "h' = fold (put_word r data) [0..<?m] ?h1"
    using e by (auto simp: sys_ring_buf_put_def Let_def used_props(2)[OF ok] ac_simps)
  show "rc = 0" "r' = r\<lparr>rb_tail := rb_tail r'\<rparr>" by (simp_all add: eqs)
  show ok': "ring_ok r'" using ok ring_index_less[OF ok] by (simp add: eqs ring_ok_def)
  have sl: "ring_slot r' = ring_slot r" "rb_size r' = rb_size r" by (auto simp: eqs ring_slot_def)
  have "ring_slot r' (ring_used r') = ring_slot r (?u + (?m + 1))"
    unfolding used_props(2)[OF ok'] using slot_from_tail[OF ok, of "?m + 1"] m by (simp add: eqs)
  then have u': "ring_used r' = ?u + 1 + ?m" using slot_inj[of "ring_used r'" r "?u + (?m + 1)"] used_props(1)[OF ok'] fits sl by simp
  have eff: "\<forall>i < ?m. h' (ring_slot r (?u + 1 + i)) = ?h1 (data + i)" "\<And>x. \<forall>i < ?m. x \<noteq> ring_slot r (?u + 1 + i) \<Longrightarrow> h' x = ?h1 x"
    using put_words_effect[OF ok off m, of ?h1] fits by (auto simp: eqs(3))
  have old: "h' (ring_slot r j) = ?h1 (ring_slot r j)" if "j \<le> ?u" for j
  proof (intro eff(2) allI impI notI)
    fix i assume "i < ?m" "ring_slot r j = ring_slot r (?u + 1 + i)"
    then show False using slot_inj[of j r "?u + 1 + i"] that fits by simp
  qed
  have "h' (ring_slot r j) = h (ring_slot r j)" if "j < ?u" for j
    using old[of j] that slot_inj[of j r ?u] fits by auto
  moreover have "h' (ring_slot r (?u + 1 + i)) = h (data + i)" if "i < ?m" for i
    using eff(1) that off_ringD[OF ok off that, of ?u] by auto
  ultimately show "ring_words r' h' = ring_words r h @ ring_element type size32 value # map h [data..<data + ?m]"
    using old[of ?u] unfolding ring_words_def u' sl map_upt_split map_upt_shift[of _ data] by simp
  show "\<And>x. x < rb_buf r \<or> rb_buf r + unat (rb_size r) \<le> x \<Longrightarrow> h' x = h x"
    using eff(2) slot_in_buffer[OF ok] by (metis fun_upd_other leD)
qed

lemma get_words_effect:
  assumes ok: "ring_ok r" and off: "off_ring r data n" and n: "n = unat (element_length (h (ring_slot r 0)))" and "i \<le> n"
  shows "(\<forall>j < n. get_words r data i h (data + j) = (if j < i then h (data + j) else h (ring_slot r (1 + j)))) \<and>
    (\<forall>x. (\<forall>j < n. x \<noteq> data + j) \<longrightarrow> get_words r data i h x = h x)"
  using n \<open>i \<le> n\<close>
proof (induction "n - i" arbitrary: i h)
  case (Suc d)
  have len: "n < 256" using Suc.prems(1) length_bound by simp
  have s0: "rb_buf r + unat (rb_head r) = ring_slot r 0" using ok by (simp add: ring_slot_def ring_ok_def word_less_nat_alt)
  have i: "i < n" using Suc by simp
  have "of_nat i + rb_head r + 1 = rb_head r + of_nat (i + 1)" by simp
  then have "rb_buf r + unat (ring_index r (of_nat i + rb_head r + 1)) = ring_slot r (i + 1)"
    using slot_from_head[OF ok, of "i + 1"] i len by (simp add: ac_simps)
  then have g: "get_words r data i h = get_words r data (i + 1) (h(data + i := h (ring_slot r (i + 1))))"
    using i Suc.prems(1) by (subst get_words.simps) (simp add: s0)
  have out: "ring_slot r j \<noteq> data + i" for j by (rule off_ringD[OF ok off i])
  show ?case
    using Suc.hyps(1)[of "i + 1" "h(data + i := h (ring_slot r (i + 1)))"] Suc.hyps(2) Suc.prems(1) i out
    by (auto simp: g less_Suc_eq)
next
  case 0
  then show ?case using ok by (subst (1 2) get_words.simps) (auto simp: ring_slot_def ring_ok_def word_less_nat_alt)
qed

lemma get_stored:
  assumes ok: "ring_ok r" and ne: "ring_words r h = hd' # ws @ rest" "length ws = unat (element_length hd')"
    and off: "off_ring r data (length ws)" and fits: "element_length hd' \<le> size32"
    and e: "sys_ring_buf_get r h data size32 = (rc, tv, n, r', h')"
  shows "rc = 0" "tv = Some (element_type hd', element_value hd')" "n = element_length hd'" "ring_ok r'" "ring_words r' h' = rest"
    "map h' [data..<data + length ws] = ws" "r' = r\<lparr>rb_head := rb_head r'\<rparr>"
    "\<And>x. x < data \<or> data + length ws \<le> x \<Longrightarrow> h' x = h x"
proof -
  let ?m = "length ws"
  have len: "ring_used r = ?m + 1 + length rest" using arg_cong[OF ne(1), of length] by (simp add: ring_words_def)
  have at: "ring_words r h ! j = h (ring_slot r j)" if "j < ring_used r" for j using that by (simp add: ring_words_def)
  have h0: "h (ring_slot r 0) = hd'" using at[of 0] len ne(1) by simp
  have s0: "rb_buf r + unat (rb_head r) = ring_slot r 0" using ok by (simp add: ring_slot_def ring_ok_def word_less_nat_alt)
  have m: "?m < 256" using ne(2) length_bound by simp
  have eff: "\<And>j. j < ?m \<Longrightarrow> get_words r data 0 h (data + j) = h (ring_slot r (1 + j))"
      "\<And>x. \<forall>j < ?m. x \<noteq> data + j \<Longrightarrow> get_words r data 0 h x = h x"
    using get_words_effect[OF ok off, of h 0] h0 ne(2) by auto
  have keep: "get_words r data 0 h (ring_slot r j) = h (ring_slot r j)" for j
    using off_ringD[OF ok off] by (intro eff(2)) auto
  have "ucast (element_length hd') + 1 = (of_nat (?m + 1) :: u32)" by (simp add: of_nat_unat ne(2))
  then have w: "rb_head r + ucast (element_length hd') + 1 = rb_head r + of_nat (?m + 1)" by (simp only: add.assoc)
  have "\<not> sys_ring_buf_is_empty r" using used_props(3)[OF ok] len by simp
  then have eqs: "rc = 0" "tv = Some (element_type hd', element_value hd')" "n = element_length hd'"
      "r' = r\<lparr>rb_head := ring_index r (rb_head r + of_nat (?m + 1))\<rparr>" "h' = get_words r data 0 h"
    using e fits unfolding sys_ring_buf_get_def Let_def s0 keep h0 w
    by (simp_all del: of_nat_add of_nat_Suc add: not_less split: if_splits)
  show "rc = 0" "tv = Some (element_type hd', element_value hd')" "n = element_length hd'" "r' = r\<lparr>rb_head := rb_head r'\<rparr>"
    by (simp_all add: eqs)
  show ok': "ring_ok r'" using ok ring_index_less[OF ok] by (simp add: eqs ring_ok_def)
  have sl: "ring_slot r' j = ring_slot r (?m + 1 + j)" for j
  proof -
    have "unat (rb_head r') = (unat (rb_head r) + (?m + 1)) mod unat (rb_size r)"
      using slot_from_head[OF ok, of "?m + 1"] m by (simp add: eqs(4) ring_slot_def)
    then show ?thesis by (simp add: ring_slot_def eqs(4) mod_add_left_eq add.assoc)
  qed
  have f: "rb_buf r' = rb_buf r" "rb_tail r' = rb_tail r" "rb_size r' = rb_size r" by (simp_all add: eqs(4))
  have "ring_slot r' (length rest) = ring_slot r' (ring_used r')"
    using used_props(2)[OF ok] len unfolding used_props(2)[OF ok'] sl[of "length rest"] f by simp
  then have u': "ring_used r' = length rest"
    using slot_inj[of "length rest" r' "ring_used r'"] used_props(1)[OF ok'] used_props(1)[OF ok] len f by simp
  show "ring_words r' h' = rest"
  proof (rule nth_equalityI)
    fix j assume "j < length (ring_words r' h')"
    then have j: "j < length rest" by (simp add: ring_words_def u')
    then have "ring_words r' h' ! j = h (ring_slot r (?m + 1 + j))" by (simp add: ring_words_def u' sl eqs(5) keep)
    also have "\<dots> = (hd' # ws @ rest) ! (?m + 1 + j)" using at[of "?m + 1 + j"] j len ne(1) by simp
    finally show "ring_words r' h' ! j = rest ! j" by (simp add: nth_append)
  qed (simp add: ring_words_def u')
  show "map h' [data..<data + ?m] = ws"
  proof (rule nth_equalityI)
    fix j assume "j < length (map h' [data..<data + ?m])"
    then have j: "j < ?m" by simp
    then have "map h' [data..<data + ?m] ! j = h (ring_slot r (1 + j))" by (simp add: eqs(5) eff(1))
    also have "\<dots> = (hd' # ws @ rest) ! (1 + j)" using at[of "1 + j"] j len ne(1) by simp
    finally show "map h' [data..<data + ?m] ! j = ws ! j" using j by (simp add: nth_append)
  qed simp
  show "\<And>x. x < data \<or> data + ?m \<le> x \<Longrightarrow> h' x = h x" unfolding eqs(5) by (rule eff(2)) auto
qed

section \<open>The queue of items\<close>

type_synonym ring_item = "u16 \<times> u8 \<times> u32 list"

definition item_words :: "ring_item \<Rightarrow> u32 list" where
  "item_words = (\<lambda>(t, v, ws). ring_element t (of_nat (length ws)) v # ws)"

definition ring_holds :: "ring_buf \<Rightarrow> words \<Rightarrow> ring_item list \<Rightarrow> bool" where
  "ring_holds r h items \<longleftrightarrow> ring_ok r \<and> ring_words r h = concat (map item_words items) \<and>
     (\<forall>(t, v, ws) \<in> set items. length ws < 256)"

definition room :: "ring_buf \<Rightarrow> ring_item list \<Rightarrow> nat \<Rightarrow> bool" where
  "room r items n \<longleftrightarrow> sum_list (map (\<lambda>(t, v, ws). 1 + length ws) items) + n + 1 < unat (rb_size r)"

lemma ring_init_holds:
  assumes "0 < sz" "unat sz \<le> 2 ^ 31"
  shows "ring_holds (sys_ring_buf_init sz buf) h []"
  using assms by (simp add: ring_holds_def ring_ok_def sys_ring_buf_init_def ring_words_def ring_used_def)

lemma holds_used: "ring_holds r h items \<Longrightarrow> ring_used r = sum_list (map (\<lambda>(t, v, ws). 1 + length ws) items)"
proof -
  assume "ring_holds r h items"
  then have "length (ring_words r h) = length (concat (map item_words items))" by (simp add: ring_holds_def)
  moreover have "length (concat (map item_words items)) = sum_list (map (\<lambda>(t, v, ws). 1 + length ws) items)"
    by (induction items) (auto simp: item_words_def)
  ultimately show ?thesis by (simp add: ring_words_def)
qed

lemma ring_put_item:
  assumes hold: "ring_holds r h items" and off: "off_ring r data (unat n)"
    and e: "sys_ring_buf_put r h t v data n = (rc, r', h')"
  shows "if room r items (unat n) then rc = 0 \<and> ring_holds r' h' (items @ [(t, v, map h [data..<data + unat n])]) \<and> r' = r\<lparr>rb_tail := rb_tail r'\<rparr>
    else rc = - EMSGSIZE \<and> r' = r\<lparr>dropped_put_count := dropped_put_count r + 1\<rparr> \<and> h' = h"
proof -
  have ok: "ring_ok r" using hold by (simp add: ring_holds_def)
  have n: "unat n < 256" using unsigned_less[of n, where 'a = nat] by simp
  have u: "room r items (unat n) \<longleftrightarrow> ring_used r + unat n + 1 < unat (rb_size r)" by (simp add: room_def holds_used[OF hold])
  show ?thesis
  proof (cases "room r items (unat n)")
    case True
    then have f: "ring_used r + unat n + 1 < unat (rb_size r)" by (simp add: u)
    note p = put_stored[OF ok off f e]
    show ?thesis using True p hold n by (auto simp: ring_holds_def item_words_def)
  next
    case False
    have "ucast n + 1 = (of_nat (unat n + 1) :: u32)" by (simp add: of_nat_unat)
    moreover have "unat (of_nat (unat n + 1) :: u32) = unat n + 1" using n by (simp only: unat_of_nat) simp
    ultimately have "\<not> sys_ring_buf_space_get r \<ge> ucast n + 1"
      using False u used_props(1)[OF ok] unfolding word_le_nat_alt space_exact[OF ok] by (simp add: ac_simps)
    then show ?thesis using False e by (auto simp: sys_ring_buf_put_def)
  qed
qed

lemma ring_get_item:
  assumes hold: "ring_holds r h items" and off: "off_ring r data (unat n)"
    and e: "sys_ring_buf_get r h data n = (rc, tv, n', r', h')"
  shows "case items of [] \<Rightarrow> rc = - EAGAIN \<and> tv = None \<and> n' = n \<and> r' = r \<and> h' = h
    | (t, v, ws) # rest \<Rightarrow> unat n' = length ws \<and> (if length ws \<le> unat n
        then rc = 0 \<and> tv = Some (t, v) \<and> map h' [data..<data + unat n'] = ws \<and> ring_holds r' h' rest \<and> r' = r\<lparr>rb_head := rb_head r'\<rparr>
        else rc = - EMSGSIZE \<and> tv = None \<and> r' = r \<and> h' = h)"
proof (cases items)
  case Nil
  then have "sys_ring_buf_is_empty r" using used_props(3)[of r] holds_used[OF hold] hold by (simp add: ring_holds_def)
  then show ?thesis using Nil e by (simp add: sys_ring_buf_get_def)
next
  case (Cons i rest)
  obtain t v ws where i: "i = (t, v, ws)" by (cases i)
  let ?hd = "ring_element t (of_nat (length ws)) v"
  have ok: "ring_ok r" and w: "ring_words r h = ?hd # ws @ concat (map item_words rest)" and l: "length ws < 256"
    using hold by (simp_all add: ring_holds_def Cons i item_words_def)
  have len: "length ws = unat (element_length ?hd)" using l by (simp add: unat_of_nat)
  have ne: "\<not> sys_ring_buf_is_empty r" using used_props(3)[OF ok] holds_used[OF hold] by (simp add: Cons i)
  have s0: "h (rb_buf r + unat (rb_head r)) = ?hd"
    using arg_cong[OF w, of hd] ok used_props(1,3)[OF ok] ne
    by (simp add: ring_words_def hd_map ring_slot_def ring_ok_def word_less_nat_alt)
  show ?thesis
  proof (cases "length ws \<le> unat n")
    case True
    have fit: "element_length ?hd \<le> n" using True l by (simp add: word_le_nat_alt unat_of_nat)
    have off': "off_ring r data (length ws)" using off True by (auto simp: off_ring_def)
    note g = get_stored[OF ok w len off' fit e]
    have "ring_holds r' h' rest" using g(4,5) hold by (simp add: ring_holds_def Cons)
    then show ?thesis using True g(1-3,6,7) len by (simp add: Cons i unat_of_nat)
  next
    case False
    then have "n < element_length ?hd" using l by (simp add: word_less_nat_alt unat_of_nat)
    then have "(rc, tv, n', r', h') = (- EMSGSIZE, None, element_length ?hd, r, h)"
      using ne s0 e by (simp add: sys_ring_buf_get_def Let_def)
    then show ?thesis using False len by (simp add: Cons i)
  qed
qed

text \<open>Any sequence of calls: what went in and what came out.\<close>

datatype ring_op = Put u16 u8 addr u8 | Get addr u8

fun ring_step :: "ring_op \<Rightarrow> ring_buf \<times> words \<Rightarrow> ring_item list \<times> ring_item list \<times> ring_buf \<times> words" where
  "ring_step (Put t v data n) (r, h) =
     (case sys_ring_buf_put r h t v data n of (rc, s) \<Rightarrow> (if rc = 0 then [(t, v, map h [data..<data + unat n])] else [], [], s))"
| "ring_step (Get data n) (r, h) =
     (case sys_ring_buf_get r h data n of (rc, tv, n', r', h') \<Rightarrow>
        ([], case tv of None \<Rightarrow> [] | Some (t, v) \<Rightarrow> [(t, v, map h' [data..<data + unat n'])], r', h'))"

primrec ring_run :: "ring_op list \<Rightarrow> ring_buf \<times> words \<Rightarrow> ring_item list \<times> ring_item list \<times> ring_buf \<times> words" where
  "ring_run [] s = ([], [], s)"
| "ring_run (a # as) s = (case ring_step a s of (ins, outs, s') \<Rightarrow>
     case ring_run as s' of (ins', outs', s'') \<Rightarrow> (ins @ ins', outs @ outs', s''))"

fun op_off_ring :: "ring_buf \<Rightarrow> ring_op \<Rightarrow> bool" where
  "op_off_ring r (Put t v data n) = off_ring r data (unat n)"
| "op_off_ring r (Get data n) = off_ring r data (unat n)"

lemma ring_step_fifo:
  assumes hold: "ring_holds r h items" and off: "op_off_ring r a" and e: "ring_step a (r, h) = (ins, outs, r', h')"
  shows "\<exists>rest. ring_holds r' h' rest \<and> items @ ins = outs @ rest" "rb_buf r' = rb_buf r" "rb_size r' = rb_size r"
proof -
  have "(\<exists>rest. ring_holds r' h' rest \<and> items @ ins = outs @ rest) \<and> rb_buf r' = rb_buf r \<and> rb_size r' = rb_size r"
  proof (cases a)
    case (Put t v data n)
    obtain rc r1 h1 where p: "sys_ring_buf_put r h t v data n = (rc, r1, h1)" by (metis prod_cases3)
    have "ring_holds (r\<lparr>dropped_put_count := x\<rparr>) h items" for x
      using hold by (simp add: ring_holds_def ring_ok_def ring_words_def ring_slot_def ring_used_def)
    then show ?thesis using ring_put_item[OF hold _ p] off e Put p
      by (cases "room r items (unat n)") (auto simp: EMSGSIZE_def, (metis ring_buf.select_convs ring_buf.surjective ring_buf.update_convs)+)
  next
    case (Get data n)
    obtain rc tv n1 r1 h1 where p: "sys_ring_buf_get r h data n = (rc, tv, n1, r1, h1)" by (metis prod_cases5)
    show ?thesis using ring_get_item[OF hold _ p] off e Get p hold
      by (auto split: list.splits prod.splits if_splits, (metis ring_buf.select_convs ring_buf.surjective ring_buf.update_convs)+)
  qed
  then show "\<exists>rest. ring_holds r' h' rest \<and> items @ ins = outs @ rest" "rb_buf r' = rb_buf r" "rb_size r' = rb_size r" by auto
qed

lemma ring_run_fifo:
  assumes "ring_holds r h items" "\<forall>a \<in> set as. op_off_ring r a" "ring_run as (r, h) = (ins, outs, r', h')"
  shows "\<exists>rest. ring_holds r' h' rest \<and> items @ ins = outs @ rest"
  using assms
proof (induction as arbitrary: r h items ins outs)
  case (Cons a as)
  obtain ins1 outs1 r1 h1 where s: "ring_step a (r, h) = (ins1, outs1, r1, h1)" by (metis prod_cases4)
  obtain ins2 outs2 where t: "ring_run as (r1, h1) = (ins2, outs2, r', h')" "ins = ins1 @ ins2" "outs = outs1 @ outs2"
    using Cons.prems(3) s by (auto split: prod.splits)
  have a: "op_off_ring r a" using Cons.prems(2) by simp
  obtain mid where m: "ring_holds r1 h1 mid" "items @ ins1 = outs1 @ mid" using ring_step_fifo(1)[OF Cons.prems(1) a s] by blast
  have "op_off_ring r1 b = op_off_ring r b" for b
    using ring_step_fifo(2,3)[OF Cons.prems(1) a s] by (cases b) (simp_all add: off_ring_def)
  then have "\<forall>b \<in> set as. op_off_ring r1 b" using Cons.prems(2) by simp
  from Cons.IH[OF m(1) this t(1)] obtain rest where "ring_holds r' h' rest" "mid @ ins2 = outs2 @ rest" by blast
  then show ?case using m(2) t(2,3) by (metis append.assoc)
qed auto

end
