(* ===== verification/Event_Logger.thy ===== *)
theory Event_Logger
  imports Sem Timer Ring_Buffer
begin

text \<open>
  The event logger, \<^verbatim>\<open>kernel/unified/event_logger.c\<close>: events in a ring buffer, and a semaphore that counts
  them.  It is used with the guarantees of the ring buffer and of semaphores.
\<close>

section \<open>Operations\<close>

record event_logger =
  sync_sema :: k_sem
  log_ring :: ring_buf

type_synonym 'z log_state = "event_logger \<times> words \<times> sem_groups \<times> 'z kernel_scheme"

definition sys_event_logger_init :: "'z kernel_scheme \<Rightarrow> wqid \<Rightarrow> addr \<Rightarrow> u32 \<Rightarrow> event_logger \<times> 'z kernel_scheme" where
  "sys_event_logger_init k w logger_buffer buffer_size =
     (case k_sem_init k w 0 (-1) of (s, k1) \<Rightarrow> (\<lparr>sync_sema = s, log_ring = sys_ring_buf_init buffer_size logger_buffer\<rparr>, k1))"

text \<open>The function that gives the semaphore is an argument, as in the source.\<close>

definition event_logger_put ::
  "(sem_groups \<Rightarrow> k_sem \<Rightarrow> 'z kernel_scheme \<Rightarrow> sem_groups \<times> k_sem \<times> 'z kernel_scheme) \<Rightarrow> 'z log_state \<Rightarrow> u16 \<Rightarrow> addr \<Rightarrow> u8 \<Rightarrow> 'z log_state" where
  "event_logger_put sem_give_fn = (\<lambda>(l, h, g, k) event_id event_data data_size.
     case sys_ring_buf_put (log_ring l) h event_id (ucast (dropped_put_count (log_ring l))) event_data data_size of
       (ret, r1, h1) \<Rightarrow>
         if ret = 0
         then case sem_give_fn g (sync_sema l) k of
                (g1, s1, k1) \<Rightarrow> (\<lparr>sync_sema = s1, log_ring = r1\<lparr>dropped_put_count := 0\<rparr>\<rparr>, h1, g1, k1)
         else (l\<lparr>log_ring := r1\<rparr>, h1, g, k))"

definition sys_event_logger_put :: "kconfig \<Rightarrow> 'z log_state \<Rightarrow> u16 \<Rightarrow> addr \<Rightarrow> u8 \<Rightarrow> 'z log_state" where
  "sys_event_logger_put c = event_logger_put (k_sem_give c)"

definition sys_event_logger_put_non_preemptible :: "kconfig \<Rightarrow> 'z log_state \<Rightarrow> u16 \<Rightarrow> addr \<Rightarrow> u8 \<Rightarrow> 'z log_state" where
  "sys_event_logger_put_non_preemptible c = event_logger_put (\<lambda>g s k. (g, sem_give_non_preemptible c s k))"

text \<open>The results of a get: the return value, the event's identification and count of dropped events, and its size.\<close>

type_synonym event_result = "int \<times> (u16 \<times> u8) option \<times> u8"

definition event_logger_get :: "kconfig \<Rightarrow> 'z log_state \<Rightarrow> addr \<Rightarrow> u8 \<Rightarrow> event_result \<times> 'z log_state" where
  "event_logger_get c = (\<lambda>(l, h, g, k) buffer buffer_size.
     case sys_ring_buf_get (log_ring l) h buffer buffer_size of
       (ret, ev, n, r1, h1) \<Rightarrow>
         if ret = 0 then ((int (unat n), ev, n), l\<lparr>log_ring := r1\<rparr>, h1, g, k)
         else if ret = - EMSGSIZE
         then case k_sem_give c g (sync_sema l) k of
                (g1, s1, k1) \<Rightarrow> ((- EMSGSIZE, ev, n), \<lparr>sync_sema = s1, log_ring = r1\<rparr>, h1, g1, k1)
         else if ret = - EAGAIN then ((0, ev, n), l\<lparr>log_ring := r1\<rparr>, h1, g, k)
         else ((ret, ev, n), l\<lparr>log_ring := r1\<rparr>, h1, g, k))"

text \<open>\<open>None\<close>: the caller waits for the semaphore, and goes on with the resumption.\<close>

definition sys_event_logger_get :: "kconfig \<Rightarrow> 'z log_state \<Rightarrow> addr \<Rightarrow> u8 \<Rightarrow> event_result option \<times> 'z log_state" where
  "sys_event_logger_get c = (\<lambda>(l, h, g, k) buffer buffer_size.
     case k_sem_take c (sync_sema l) k K_NO_WAIT of
       (None, s1, k1) \<Rightarrow> (None, l\<lparr>sync_sema := s1\<rparr>, h, g, k1)
     | (Some rc, s1, k1) \<Rightarrow>
         if rc \<noteq> 0 then map_prod Some id (event_logger_get c (l\<lparr>sync_sema := s1\<rparr>, h, g, k1) buffer buffer_size)
         else (Some (0, None, buffer_size), l\<lparr>sync_sema := s1\<rparr>, h, g, k1))"

definition sys_event_logger_get_wait :: "kconfig \<Rightarrow> 'z log_state \<Rightarrow> addr \<Rightarrow> u8 \<Rightarrow> event_result option \<times> 'z log_state" where
  "sys_event_logger_get_wait c = (\<lambda>(l, h, g, k) buffer buffer_size.
     case k_sem_take c (sync_sema l) k K_FOREVER of
       (None, s1, k1) \<Rightarrow> (None, l\<lparr>sync_sema := s1\<rparr>, h, g, k1)
     | (Some rc, s1, k1) \<Rightarrow> map_prod Some id (event_logger_get c (l\<lparr>sync_sema := s1\<rparr>, h, g, k1) buffer buffer_size))"

definition sys_event_logger_get_wait_resume :: "kconfig \<Rightarrow> 'z log_state \<Rightarrow> addr \<Rightarrow> u8 \<Rightarrow> event_result \<times> 'z log_state" where
  "sys_event_logger_get_wait_resume c s buffer buffer_size = event_logger_get c s buffer buffer_size"

text \<open>The timeout is in ticks; its conversion to milliseconds is cut to 32 bits when it is passed on.\<close>

definition sys_event_logger_get_wait_timeout ::
  "kconfig \<Rightarrow> 'z log_state \<Rightarrow> addr \<Rightarrow> u8 \<Rightarrow> u32 \<Rightarrow> event_result option \<times> 'z log_state" where
  "sys_event_logger_get_wait_timeout c = (\<lambda>(l, h, g, k) buffer buffer_size timeout.
     case k_sem_take c (sync_sema l) k (signed_take_bit 31 (ticks_to_ms_64 c (uint timeout))) of
       (None, s1, k1) \<Rightarrow> (None, l\<lparr>sync_sema := s1\<rparr>, h, g, k1)
     | (Some rc, s1, k1) \<Rightarrow>
         if rc \<noteq> 0 then map_prod Some id (event_logger_get c (l\<lparr>sync_sema := s1\<rparr>, h, g, k1) buffer buffer_size)
         else (Some (0, None, buffer_size), l\<lparr>sync_sema := s1\<rparr>, h, g, k1))"

definition sys_event_logger_get_wait_timeout_resume :: "kconfig \<Rightarrow> 'z log_state \<Rightarrow> addr \<Rightarrow> u8 \<Rightarrow> event_result \<times> 'z log_state" where
  "sys_event_logger_get_wait_timeout_resume c = (\<lambda>(l, h, g, k) buffer buffer_size.
     if swap_return_value (thread k (current k)) \<noteq> 0 then event_logger_get c (l, h, g, k) buffer buffer_size
     else ((0, None, buffer_size), l, h, g, k))"

section \<open>The events in the logger\<close>

text \<open>A logger no thread waits for: the semaphore counts the events in the ring buffer.\<close>

definition log_holds :: "kconfig \<Rightarrow> tid set \<Rightarrow> 'z log_state \<Rightarrow> ring_item list \<Rightarrow> bool" where
  "log_holds c X = (\<lambda>(l, h, g, k) events. sem_inv c X (sync_sema l, k) \<and> sem_waiters (sync_sema l, k) = [] \<and>
     limit (sync_sema l) = -1 \<and> ring_holds (log_ring l) h events \<and> unat (count (sync_sema l)) = length events)"

lemma holds_few: "ring_holds r h items \<Longrightarrow> length items < 2 ^ 31"
proof -
  assume h: "ring_holds r h items"
  have "length items \<le> sum_list (map (\<lambda>(t, v, ws). 1 + length ws) items)" by (induction items) auto
  then show ?thesis using h holds_used[OF h] used_props(1)[of r] by (simp add: ring_holds_def ring_ok_def)
qed

lemma log_init_holds:
  assumes "kernel_inv c X k" "queues k (WaitQ w) = []" "0 < sz" "unat sz \<le> 2 ^ 31"
  shows "case sys_event_logger_init k w buf sz of (l, k1) \<Rightarrow> log_holds c X (l, h, g, k1) []"
proof -
  have "upd_queue k (WaitQ w) (\<lambda>_. []) = k" using assms(2) by (simp add: upd_queue_def fun_upd_idem)
  then show ?thesis using assms ring_init_holds[OF assms(3,4)]
    by (simp add: sys_event_logger_init_def k_sem_init_def log_holds_def sem_inv_def)
qed

text \<open>One more event, and one less.\<close>

lemma give_counts:
  assumes inv: "sem_inv c X (s, k)" "sem_waiters (s, k) = []" "limit s = -1" and n: "unat (count s) < 2 ^ 32 - 1"
    and e: "k_sem_give c g s k = (g', s', k')"
  shows "g' = g" "k' = k" "sem_inv c X (s', k')" "sem_waiters (s', k') = []" "limit s' = -1" "unat (count s') = unat (count s) + 1"
proof -
  let ?s = "s\<lparr>count := count s + (if count s \<noteq> limit s then 1 else 0)\<rparr>"
  have e': "g' = g" "s' = ?s" "k' = k" using e give_no_waiter(2)[of k s c g] inv(2) by auto
  then show "g' = g" "k' = k" by simp_all
  have le: "count s \<le> limit s" using inv(1) by (simp add: sem_inv_def)
  have "unat (limit s) = 2 ^ 32 - 1" by (simp add: inv(3) unsigned_minus_1_eq_mask mask_eq_exp_minus_1)
  then show "unat (count s') = unat (count s) + 1" using count_inc(1)[OF le] n e'(2) by simp
  show "sem_waiters (s', k') = []" "limit s' = -1" using inv(2,3) e' by simp_all
  show "sem_inv c X (s', k')" using k_sem_give_inv[OF inv(1), of g] e by simp
qed

lemma ring_holds_dropped [simp]: "ring_holds (r\<lparr>dropped_put_count := n\<rparr>) h items = ring_holds r h items"
  by (simp add: ring_holds_def ring_ok_def ring_words_def ring_slot_def ring_used_def)

lemma log_put:
  assumes hold: "log_holds c X (l, h, g, k) events" and off: "off_ring (log_ring l) data (unat n)"
    and e: "sys_event_logger_put c (l, h, g, k) id' data n = (l', h', g', k')"
  shows "k' = k \<and> (if room (log_ring l) events (unat n)
    then log_holds c X (l', h', g', k') (events @ [(id', ucast (dropped_put_count (log_ring l)), map h [data..<data + unat n])]) \<and>
      dropped_put_count (log_ring l') = 0
    else log_holds c X (l', h', g', k') events \<and> h' = h \<and>
      dropped_put_count (log_ring l') = dropped_put_count (log_ring l) + 1)"
proof -
  let ?d = "ucast (dropped_put_count (log_ring l)) :: u8"
  obtain ret r1 h1 where p: "sys_ring_buf_put (log_ring l) h id' ?d data n = (ret, r1, h1)" by (metis prod_cases3)
  have rh: "ring_holds (log_ring l) h events" and si: "sem_inv c X (sync_sema l, k)" "sem_waiters (sync_sema l, k) = []" "limit (sync_sema l) = -1"
    and cnt: "unat (count (sync_sema l)) = length events"
    using hold by (simp_all add: log_holds_def)
  note pi = ring_put_item[OF rh off p]
  obtain g1 s1 k1 where gv: "k_sem_give c g (sync_sema l) k = (g1, s1, k1)" by (metis prod_cases3)
  have "unat (count (sync_sema l)) < 2 ^ 32 - 1" using holds_few[OF rh] cnt by simp
  note gc = give_counts[OF si this gv]
  show ?thesis
  proof (cases "room (log_ring l) events (unat n)")
    case True
    then have r: "ret = 0" "ring_holds r1 h1 (events @ [(id', ?d, map h [data..<data + unat n])])" using pi by simp_all
    then have "(l', h', g', k') = (\<lparr>sync_sema = s1, log_ring = r1\<lparr>dropped_put_count := 0\<rparr>\<rparr>, h1, g1, k1)"
      using e p gv by (simp add: sys_event_logger_put_def event_logger_put_def)
    then show ?thesis using True r gc cnt by (simp add: log_holds_def)
  next
    case False
    then have r: "ret \<noteq> 0" "r1 = (log_ring l)\<lparr>dropped_put_count := dropped_put_count (log_ring l) + 1\<rparr>" "h1 = h"
      using pi by (simp_all add: EMSGSIZE_def)
    then have "(l', h', g', k') = (l\<lparr>log_ring := r1\<rparr>, h1, g, k)"
      using e p by (simp add: sys_event_logger_put_def event_logger_put_def)
    then show ?thesis using False r hold by (simp add: log_holds_def)
  qed
qed

lemma log_get:
  assumes hold: "log_holds c X (l, h, g, k) ((i, d, ws) # events)" and off: "off_ring (log_ring l) buf (unat m)"
    and e: "sys_event_logger_get_wait c (l, h, g, k) buf m = (res, l', h', g', k')"
  shows "if length ws \<le> unat m
    then res = Some (int (length ws), Some (i, d), of_nat (length ws)) \<and> map h' [buf..<buf + length ws] = ws \<and>
      log_holds c X (l', h', g', k') events
    else res = Some (- EMSGSIZE, None, of_nat (length ws)) \<and> log_holds c X (l', h', g', k') ((i, d, ws) # events)"
proof -
  obtain ret ev n r1 h1 where p: "sys_ring_buf_get (log_ring l) h buf m = (ret, ev, n, r1, h1)" by (metis prod_cases5)
  let ?s = "(sync_sema l)\<lparr>count := count (sync_sema l) - 1\<rparr>"
  have rh: "ring_holds (log_ring l) h ((i, d, ws) # events)"
    and si: "sem_inv c X (sync_sema l, k)" "sem_waiters (sync_sema l, k) = []" "limit (sync_sema l) = -1"
    and cnt: "unat (count (sync_sema l)) = length events + 1"
    using hold by (simp_all add: log_holds_def)
  have pos: "count (sync_sema l) > 0" using cnt by (simp add: word_less_nat_alt)
  then have tk: "k_sem_take c (sync_sema l) k t = (Some 0, ?s, k)" for t by (simp add: k_sem_take_def)
  have "sem_inv c X (?s, k)" using k_sem_take_inv[OF si(1), of K_FOREVER] pos by (simp add: tk word_gt_0)
  moreover have ucnt: "unat (count ?s) = length events" using unat_dec[OF pos] cnt by simp
  ultimately have s: "sem_inv c X (?s, k)" "sem_waiters (?s, k) = []" "limit ?s = -1" "unat (count ?s) < 2 ^ 32 - 1"
    using si holds_few[OF rh] by simp_all
  note gi = ring_get_item[OF rh off p]
  have nw: "n = of_nat (length ws)" using gi by (metis (mono_tags, lifting) case_prod_conv list.simps(5) of_nat_unat ucast_id)
  show ?thesis
  proof (cases "length ws \<le> unat m")
    case True
    then have r: "ret = 0" "ev = Some (i, d)" "map h1 [buf..<buf + length ws] = ws" "ring_holds r1 h1 events" "unat n = length ws"
      using gi by auto
    moreover have "uint n = int (length ws)" using r(5) by (simp add: uint_nat del: of_nat_unat)
    ultimately have "(res, l', h', g', k') = (Some (int (length ws), Some (i, d), n), l\<lparr>sync_sema := ?s, log_ring := r1\<rparr>, h1, g, k)"
      using e p by (simp add: sys_event_logger_get_wait_def tk event_logger_get_def)
    then show ?thesis using True r s(1-3) ucnt nw by (simp add: log_holds_def)
  next
    case False
    then have r: "ret = - EMSGSIZE" "ev = None" "r1 = log_ring l" "h1 = h" using gi by simp_all
    obtain g1 s1 k1 where gv: "k_sem_give c g ?s k = (g1, s1, k1)" by (metis prod_cases3)
    note gc = give_counts[OF s gv]
    have "(res, l', h', g', k') = (Some (- EMSGSIZE, None, n), \<lparr>sync_sema = s1, log_ring = r1\<rparr>, h1, g1, k1)"
      using e p r gv by (simp add: sys_event_logger_get_wait_def tk event_logger_get_def EMSGSIZE_def)
    then show ?thesis using False r gc ucnt nw rh by (simp add: log_holds_def)
  qed
qed

end
