(* ===== verification/Sample_System.thy ===== *)
theory Sample_System
  imports Sem
begin

text \<open>
  A small running system, the concrete input of the witnesses: the idle thread 7, the running main
  thread 2 (priority 0) and thread 3 (priority 5) are ready; threads 4 (priority -1, for at most 20
  ticks) and 5 (priority 7, for ever) wait on wait queue 100; thread 6 (priority 3) sleeps for 30
  ticks.  The configuration is the default one of the kernel: 16 cooperative and 15 preemptible
  priorities, 100 ticks a second.
\<close>

definition cfg0 :: kconfig where
  "cfg0 = \<lparr>NUM_COOP_PRIORITIES = 16, NUM_PREEMPT_PRIORITIES = 15, PRIORITY_CEILING = 0,
     idle_thread = 7, sys_clock_ticks_per_sec = 100\<rparr>"

definition thread0 :: "u32 \<Rightarrow> int \<Rightarrow> thread_base" where
  "thread0 f p = \<lparr>flags = f, prio = p, sched_locked = 0, swap_data = 0, swap_return_value = 0,
     fn_abort = NULL, init_data = NULL, custom_data = 0\<rparr>"

definition timeout0 :: "tid \<Rightarrow> wqid \<Rightarrow> int \<Rightarrow> timeout" where
  "timeout0 t w d = \<lparr>to_thread = t, to_wait_q = w, delta_ticks_from_prev = d, to_func = NoFunc\<rparr>"

definition sys0 :: kernel where
  "sys0 = \<lparr>in_isr = False, current = 2, cache = NULL,
     prio_bmap = (\<lambda>_. 0)(0 := 0x80210000),
     queues = (\<lambda>_. [])(ReadyQ 16 := [2], ReadyQ 21 := [3], ReadyQ 31 := [7], WaitQ 100 := [4, 5]),
     timeout_q = [ThreadTO 4, ThreadTO 6],
     timeouts = (\<lambda>x. (timeout0 0 0 (-1))\<lparr>to_func := case x of ThreadTO t \<Rightarrow> NoFunc
       | TimerTO a \<Rightarrow> TimerExpirationHandler | WorkTO w \<Rightarrow> WorkTimeout\<rparr>)(ThreadTO 4 := timeout0 4 100 20, ThreadTO 6 := timeout0 6 0 10),
     thread = (\<lambda>_. thread0 0 0)(7 := thread0 K_ESSENTIAL 15, 2 := thread0 K_ESSENTIAL 0, 3 := thread0 0 5,
       4 := thread0 K_PENDING (-1), 5 := thread0 K_PENDING 7, 6 := thread0 0 3)\<rparr>"

abbreviation X0 :: "tid set" where "X0 \<equiv> UNIV - {2, 3, 4, 5, 6, 7}"

lemma sys0_simps [simp]:
  "in_isr sys0 = False" "current sys0 = 2" "cache sys0 = NULL" "timeout_q sys0 = [ThreadTO 4, ThreadTO 6]"
  by (simp_all add: sys0_def)

lemma cfg0_simps [simp]:
  "NUM_COOP_PRIORITIES cfg0 = 16" "NUM_PREEMPT_PRIORITIES cfg0 = 15" "PRIORITY_CEILING cfg0 = 0"
  "idle_thread cfg0 = 7" "sys_clock_ticks_per_sec cfg0 = 100" "K_NUM_PRIORITIES cfg0 = 32"
  by (simp_all add: cfg0_def K_NUM_PRIORITIES_def)

lemma sys0_queues:
  "queues sys0 (ReadyQ i) = (if i = 16 then [2] else if i = 21 then [3] else if i = 31 then [7] else [])"
  "queues sys0 (WaitQ w) = (if w = 100 then [4, 5] else [])"
  by (simp_all add: sys0_def)

lemma sys0_prio:
  "prio (thread sys0 7) = 15" "prio (thread sys0 2) = 0" "prio (thread sys0 3) = 5" "prio (thread sys0 4) = -1"
  "prio (thread sys0 5) = 7" "prio (thread sys0 6) = 3"
  by (simp_all add: sys0_def thread0_def)

lemma sys0_ready:
  "is_thread_ready sys0 t \<longleftrightarrow> t \<noteq> 4 \<and> t \<noteq> 5 \<and> t \<noteq> 6"
  "is_thread_pending sys0 t \<longleftrightarrow> t = 4 \<or> t = 5"
  by (simp_all add: ready_bits pending_bit sys0_def thread0_def timeout0_def bit_flags)

text \<open>No thread waits on a group of semaphores.\<close>

definition groups0 :: sem_groups where
  "groups0 = \<lparr>desc_thread = (\<lambda>_. NULL), desc_sem = (\<lambda>_. NULL), desc_list = (\<lambda>_. [])\<rparr>"

lemma bits0: "i < 32 \<Longrightarrow> bit (0x80210000 :: u32) i \<longleftrightarrow> i = 16 \<or> i = 21 \<or> i = 31"
proof -
  have "\<forall>i \<in> {0..<32}. bit (0x80210000 :: u32) i \<longleftrightarrow> i = 16 \<or> i = 21 \<or> i = 31"
    by (simp add: atLeastLessThan_upt upt_rec bit_simps)
  then show "i < 32 \<Longrightarrow> bit (0x80210000 :: u32) i \<longleftrightarrow> i = 16 \<or> i = 21 \<or> i = 31" by simp
qed

lemma sys0_rq: "rq_inv cfg0 sys0"
proof -
  have "queues_wf sys0"
    unfolding queues_wf_def
  proof (intro conjI allI impI)
    fix q r t
    show "distinct (queues sys0 q)" "NULL \<notin> set (queues sys0 q)" by (cases q; simp add: sys0_queues)+
    show "q = r" if "t \<in> set (queues sys0 q)" "t \<in> set (queues sys0 r)"
      using that by (cases q; cases r) (auto simp: sys0_queues split: if_splits)
  qed
  moreover have "ready_bit sys0 i \<longleftrightarrow> i = 16 \<or> i = 21 \<or> i = 31" if "i < 32" for i
    using bits0[OF that] that by (simp add: ready_bit_def sys0_def)
  ultimately show ?thesis
    by (auto simp: rq_inv_def rq_wf_def sys0_queues sys0_prio valid_prio_def get_ready_q_q_index_def split: if_splits)
qed

lemma sys0_timeouts: "timeout_inv sys0"
  by (auto simp: timeout_inv_def expiries_def sys0_def timeout0_def)

lemma sys0_inv: "kernel_inv cfg0 X0 sys0"
proof -
  have "timeout_owner X0 sys0 (ThreadTO 4)" "timeout_owner X0 sys0 (ThreadTO 6)"
    by (simp_all add: timeout_owner_def sys0_def timeout0_def)
  moreover have "t \<notin> set (queues sys0 q)" if "t \<in> X0" for t q
    using that by (cases q) (auto simp: sys0_queues)
  moreover have "(\<exists>i. t \<in> set (queues sys0 (ReadyQ i))) \<longleftrightarrow> t = 2 \<or> t = 3 \<or> t = 7" for t
    by (auto simp: sys0_queues split: if_splits intro: exI[of _ 16] exI[of _ 21] exI[of _ 31])
  then have "ready_iff_queued X0 sys0" by (auto simp: ready_iff_queued_def sys0_ready)
  ultimately show ?thesis
    by (auto simp: kernel_inv_def idle_ready_def sched_inv_def sys0_rq sys0_timeouts sys0_ready sys0_queues
        sys0_prio valid_prio_def)
qed

lemma sys0_ctx: "thread_ctx X0 sys0" "may_block cfg0 X0 sys0"
  by (simp_all add: thread_ctx_def may_block_def sys0_inv sys0_ready)

lemma cfg0_timeout_ok: "timeout_ok cfg0 50" "timeout_ok cfg0 K_FOREVER"
  by (simp_all add: timeout_ok_def ms_to_ticks_def K_FOREVER_def)

end
