(* ===== verification/Logger_Properties.thy ===== *)
theory Logger_Properties
  imports Event_Logger Sample_System
begin

text \<open>
  What the ring buffer and the event logger guarantee: items come out in the order they went in, and the
  semaphore of a logger counts its events; and where polling the logger fails.
\<close>

section \<open>Ring buffers\<close>

text \<open>Property C31: over any sequence of puts and gets on an initialised ring buffer, of any size up to $2^{31}$ words
  and with or without an index mask, the items read are the items accepted so far, each with its type,
  value and data words, in the order they were accepted, and those not read yet are in the buffer;
  wrapping at the end of the buffer corrupts none.\<close>

theorem ring_buffer_fifo:
  assumes "0 < sz" "unat sz \<le> 2 ^ 31" "\<forall>a \<in> set as. op_off_ring (sys_ring_buf_init sz buf) a"
  shows "case ring_run as (sys_ring_buf_init sz buf, h) of (accepted, read, r, h') \<Rightarrow>
    \<exists>rest. ring_holds r h' rest \<and> accepted = read @ rest"
proof (cases "ring_run as (sys_ring_buf_init sz buf, h)")
  case (fields ins outs r h')
  then show ?thesis using ring_run_fifo[OF ring_init_holds[OF assms(1,2)] assms(3) fields] by simp
qed

definition ring_ops0 :: "ring_op list" where
  "ring_ops0 = [Put 1 2 100 3, Put 4 5 110 2, Get 200 4, Put 6 7 120 1, Get 200 4, Get 200 4]"

theorem ring_buffer_fifo_witness:
  "case ring_run ring_ops0 (sys_ring_buf_init 8 0, of_nat) of (accepted, read, r, h') \<Rightarrow>
    accepted = [(1, 2, [100, 101, 102]), (4, 5, [110, 111]), (6, 7, [120])] \<and> read = accepted \<and> ring_holds r h' []"
proof (cases "ring_run ring_ops0 (sys_ring_buf_init 8 0, of_nat)")
  case (fields ins outs r h')
  have "\<forall>a \<in> set ring_ops0. op_off_ring (sys_ring_buf_init 8 0) a"
    by (simp add: ring_ops0_def off_ring_def sys_ring_buf_init_def)
  note t = ring_buffer_fifo[OF _ _ this, of of_nat]
  have "case ring_run ring_ops0 (sys_ring_buf_init 8 0, of_nat) of (ins, outs, r, h') \<Rightarrow>
      ins = [(1, 2, [100, 101, 102]), (4, 5, [110, 111]), (6, 7, [120])] \<and> outs = ins"
    by code_simp
  then show ?thesis using t by (simp add: fields)
qed

section \<open>The event logger\<close>

text \<open>Property C32: the event logger keeps its events in order.  Putting an event appends it, with the number of
  events dropped since the last one that was stored (its low 8 bits), when there is room for its header
  and data, and counts it as dropped otherwise; waiting for an event returns the oldest one, or its
  size and an error when the caller's buffer is too small, in which case the event stays in the
  logger.  The semaphore counts the stored events throughout.\<close>

theorem event_logger_fifo:
  assumes "log_holds c X (l, h, g, k) events" "off_ring (log_ring l) data (unat n)" "off_ring (log_ring l) buf (unat m)"
  shows "(case sys_event_logger_put c (l, h, g, k) event_id data n of (l', h', g', k') \<Rightarrow> k' = k \<and>
      (if room (log_ring l) events (unat n)
       then log_holds c X (l', h', g', k')
           (events @ [(event_id, ucast (dropped_put_count (log_ring l)), map h [data..<data + unat n])]) \<and>
         dropped_put_count (log_ring l') = 0
       else log_holds c X (l', h', g', k') events \<and> h' = h \<and>
         dropped_put_count (log_ring l') = dropped_put_count (log_ring l) + 1)) \<and>
    (case events of [] \<Rightarrow> True | (i, d, ws) # rest \<Rightarrow>
      case sys_event_logger_get_wait c (l, h, g, k) buf m of (res, l', h', g', k') \<Rightarrow>
        if length ws \<le> unat m
        then res = Some (int (length ws), Some (i, d), of_nat (length ws)) \<and> map h' [buf..<buf + length ws] = ws \<and>
          log_holds c X (l', h', g', k') rest
        else res = Some (- EMSGSIZE, None, of_nat (length ws)) \<and> log_holds c X (l', h', g', k') events)"
proof (rule conjI, goal_cases)
  case 1
  show ?case using log_put[OF assms(1,2), of event_id] by (auto split: prod.splits)
next
  case 2
  show ?case
  proof (cases events)
    case (Cons ev rest)
    obtain i d ws where "ev = (i, d, ws)" by (cases ev)
    moreover obtain res l' h' g' k' where e: "sys_event_logger_get_wait c (l, h, g, k) buf m = (res, l', h', g', k')"
      by (metis prod_cases5)
    ultimately show ?thesis using log_get[OF _ assms(3) e] assms(1) Cons by simp
  qed simp
qed

definition logger0 :: event_logger where
  "logger0 = fst (sys_event_logger_init sys0 300 0 8)"

lemma logger0_holds: "log_holds cfg0 X0 (logger0, h, g, sys0) []"
proof -
  have "upd_queue sys0 (WaitQ 300) (\<lambda>_. []) = sys0" by (simp add: upd_queue_def sys0_queues fun_upd_idem)
  then show ?thesis using log_init_holds[OF sys0_inv, where w = 300 and sz = 8 and buf = 0 and h = h and g = g]
    by (simp add: logger0_def sys_event_logger_init_def k_sem_init_def sys0_queues)
qed

lemma logger0_ring: "log_ring logger0 = sys_ring_buf_init 8 0"
  by (simp add: logger0_def sys_event_logger_init_def k_sem_init_def)

lemma logger0_put:
  assumes e: "sys_event_logger_put cfg0 (logger0, of_nat, groups0, sys0) 9 100 3 = (l', h', g', k')"
  shows "log_holds cfg0 X0 (l', h', g', k') [(9, 0, [100, 101, 102])]" "off_ring (log_ring l') 200 4"
proof -
  have "off_ring (log_ring logger0) 100 (unat (3 :: u8))" "room (log_ring logger0) [] 3" "dropped_put_count (log_ring logger0) = 0"
    by (simp_all add: logger0_ring sys_ring_buf_init_def off_ring_def room_def)
  with log_put[OF logger0_holds _ e] show "log_holds cfg0 X0 (l', h', g', k') [(9, 0, [100, 101, 102])]"
    by (auto simp: upt_rec)
  have "rb_buf (log_ring l') = 0" "rb_size (log_ring l') = 8"
    using e by (auto simp: sys_event_logger_put_def event_logger_put_def sys_ring_buf_put_def Let_def logger0_ring
        sys_ring_buf_init_def split: prod.splits if_splits)
  then show "off_ring (log_ring l') 200 4" by (simp add: off_ring_def)
qed

theorem event_logger_fifo_witness:
  "case sys_event_logger_put cfg0 (logger0, of_nat, groups0, sys0) 9 100 3 of (l', h', g', k') \<Rightarrow>
    fst (sys_event_logger_get_wait cfg0 (l', h', g', k') 200 4) = Some (3, Some (9, 0), 3)"
proof (cases "sys_event_logger_put cfg0 (logger0, of_nat, groups0, sys0) 9 100 3")
  case (fields l' h' g' k')
  from event_logger_fifo[OF logger0_put(1)[OF fields], where data = 200 and n = 4 and buf = 200 and m = 4 and event_id = 9]
  show ?thesis using logger0_put(2)[OF fields] by (simp add: fields split: prod.splits)
qed



end
