(* ===== verification/Mem_Pool.thy ===== *)
theory Mem_Pool
  imports Wait_Queue "HOL-Library.Signed_Division"
begin

text \<open>
  Memory pools, \<^verbatim>\<open>kernel/unified/mem_pool.c\<close>: blocks of a fixed set of sizes, each a quarter of the
  next larger one, allocated by splitting larger blocks and freed by marking; defragmentation puts
  four free quarters together again.  The blocks of one size are accounted for in an array of
  quad-blocks; entries behind the last one in use have a null pointer.
\<close>

section \<open>Data\<close>

record k_mem_pool_quad_block =
  mem_blocks :: addr
  mem_status :: u32

record k_mem_pool_block_set =
  set_block_size :: nat
  nr_of_entries :: nat
  quad_block :: "k_mem_pool_quad_block list"

record k_mem_pool =
  max_block_size :: nat
  min_block_size :: nat
  nr_of_maxblocks :: nat
  nr_of_block_sets :: nat
  block_set :: "k_mem_pool_block_set list"
  bufblock :: addr
  pool_wait_q :: wqid

text \<open>A pool is identified by its wait queue.\<close>

record k_mem_block =
  pool_id :: wqid
  addr_in_pool :: addr
  block_data :: addr
  req_size :: u32

text \<open>
  When the pool is defragmented in the course of an allocation: the configuration options
  \<^verbatim>\<open>CONFIG_MEM_POOL_DEFRAG_BEFORE_SPLIT\<close> and \<^verbatim>\<open>CONFIG_MEM_POOL_SPLIT_BEFORE_DEFRAG\<close>, or neither.
\<close>

datatype defrag_policy = NoDefrag | DefragBeforeSplit | SplitBeforeDefrag

definition upd_quads ::
  "k_mem_pool \<Rightarrow> nat \<Rightarrow> (k_mem_pool_quad_block list \<Rightarrow> k_mem_pool_quad_block list) \<Rightarrow> k_mem_pool" where
  "upd_quads p j f = p\<lparr>block_set := (block_set p)[j := (block_set p ! j)\<lparr>quad_block := f (quad_block (block_set p ! j))\<rparr>]\<rparr>"

text \<open>
  \<^verbatim>\<open>K_MEM_POOL_DEFINE\<close>: assembler macros lay out one block set after the other, each for blocks of a
  quarter of the size and four times the number, down to the last size that is not below the minimal
  one.  The arrays of quad-blocks start as zeros.
\<close>

function build_block_set :: "nat \<Rightarrow> nat \<Rightarrow> nat \<Rightarrow> k_mem_pool_block_set list" where
  "build_block_set n_max block_size min_size =
     (let entries = (if n_max mod 4 \<noteq> 0 then n_max div 4 + 1 else n_max div 4)
      in \<lparr>set_block_size = block_size, nr_of_entries = entries,
           quad_block = replicate entries \<lparr>mem_blocks = NULL, mem_status = 0\<rparr>\<rparr> #
         (if block_size \<noteq> 0 \<and> min_size \<le> block_size div 4
          then build_block_set (n_max * 4) (block_size div 4) min_size else []))"
  by pat_completeness auto
termination by (relation "measure (\<lambda>(_, s, _). s)") auto

definition K_MEM_POOL_DEFINE :: "nat \<Rightarrow> nat \<Rightarrow> nat \<Rightarrow> addr \<Rightarrow> wqid \<Rightarrow> k_mem_pool" where
  "K_MEM_POOL_DEFINE min_size max_size n_max buffer w =
     (let sets = build_block_set n_max max_size min_size
      in \<lparr>max_block_size = max_size, min_block_size = min_size, nr_of_maxblocks = n_max,
          nr_of_block_sets = length sets, block_set = sets, bufblock = buffer, pool_wait_q = w\<rparr>)"

section \<open>Block sets\<close>

definition QUAD_BLOCK_AVAILABLE :: u32 where "QUAD_BLOCK_AVAILABLE = 0x0F"
definition QUAD_BLOCK_ALLOCATED :: u32 where "QUAD_BLOCK_ALLOCATED = 0x0"

text \<open>The loop of \<^verbatim>\<open>init_one_memory_pool\<close> over the quad-blocks of the largest block set, from entry \<open>j\<close>.\<close>

function init_quads :: "nat \<Rightarrow> nat \<Rightarrow> nat \<Rightarrow> addr \<Rightarrow> k_mem_pool_quad_block list \<Rightarrow> k_mem_pool_quad_block list" where
  "init_quads remaining_blocks bsz j memptr qs =
     (if remaining_blocks \<ge> 4
      then init_quads (remaining_blocks - 4) bsz (j + 1) (memptr + bsz * 4)
             (qs[j := \<lparr>mem_blocks = memptr, mem_status = QUAD_BLOCK_AVAILABLE\<rparr>])
      else if remaining_blocks \<noteq> 0
      then qs[j := \<lparr>mem_blocks = memptr, mem_status = drop_bit (4 - remaining_blocks) QUAD_BLOCK_AVAILABLE\<rparr>]
      else qs)"
  by pat_completeness auto
termination by (relation "measure (\<lambda>(r, _). r)") auto

definition init_one_memory_pool :: "k_mem_pool \<Rightarrow> 'z kernel_scheme \<Rightarrow> k_mem_pool \<times> 'z kernel_scheme" where
  "init_one_memory_pool p k =
     (upd_quads p 0 (init_quads (nr_of_maxblocks p) (set_block_size (block_set p ! 0)) 0 (bufblock p)),
      upd_queue k (WaitQ (pool_wait_q p)) (\<lambda>_. []))"

text \<open>
  \<^verbatim>\<open>compute_block_set_index\<close>.  Both sizes are signed 32-bit integers; the multiplication is the shift
  the compiler makes of it.  The loop does not end when the block size has been shifted out, so the
  result is an option.
\<close>

partial_function (option) block_set_index_loop :: "int \<Rightarrow> int \<Rightarrow> int \<Rightarrow> int option" where
  "block_set_index_loop data_size bsize offset =
     (if data_size > bsize then block_set_index_loop data_size (signed_take_bit 31 (bsize * 4)) (offset - 1)
      else Some offset)"

definition compute_block_set_index :: "k_mem_pool \<Rightarrow> u32 \<Rightarrow> int option" where
  "compute_block_set_index p data_size =
     block_set_index_loop (sint data_size) (int (min_block_size p)) (int (nr_of_block_sets p) - 1)"

text \<open>
  \<^verbatim>\<open>free_existing_block\<close>: a linear search for the block.  The search has no bound; running past the
  array is undefined and is the value \<open>None\<close>.
\<close>

primrec free_in_quad :: "addr \<Rightarrow> nat \<Rightarrow> addr \<Rightarrow> nat list \<Rightarrow> u32 \<Rightarrow> u32 option" where
  "free_in_quad ptr bsz block_ptr [] status = None"
| "free_in_quad ptr bsz block_ptr (j # js) status =
     (if ptr = block_ptr then Some (status OR push_bit j 1)
      else free_in_quad ptr bsz (block_ptr + bsz) js status)"

fun free_in_quads :: "addr \<Rightarrow> nat \<Rightarrow> k_mem_pool_quad_block list \<Rightarrow> k_mem_pool_quad_block list option" where
  "free_in_quads ptr bsz [] = None"
| "free_in_quads ptr bsz (q # qs) =
     (case free_in_quad ptr bsz (mem_blocks q) [0, 1, 2, 3] (mem_status q) of
        Some st \<Rightarrow> Some (q\<lparr>mem_status := st\<rparr> # qs)
      | None \<Rightarrow> map_option ((#) q) (free_in_quads ptr bsz qs))"

definition free_existing_block :: "addr \<Rightarrow> k_mem_pool \<Rightarrow> nat \<Rightarrow> k_mem_pool option" where
  "free_existing_block ptr p index =
     (case free_in_quads ptr (set_block_size (block_set p ! index)) (quad_block (block_set p ! index)) of
        None \<Rightarrow> None | Some qs \<Rightarrow> Some (upd_quads p index (\<lambda>_. qs)))"

text \<open>The search for the last quad-block in use, from \<open>k\<close> on.\<close>

function last_quad :: "k_mem_pool_quad_block list \<Rightarrow> nat \<Rightarrow> nat \<Rightarrow> nat" where
  "last_quad qs entries k =
     (if k + 1 \<noteq> entries \<and> k + 1 < length qs \<and> mem_blocks (qs ! (k + 1)) \<noteq> NULL then last_quad qs entries (k + 1) else k)"
  by pat_completeness auto
termination by (relation "measure (\<lambda>(qs, n, k). length qs - k)") auto

definition delete_quad :: "nat \<Rightarrow> nat \<Rightarrow> k_mem_pool_quad_block list \<Rightarrow> k_mem_pool_quad_block list" where
  "delete_quad entries i qs =
     (let k = last_quad qs entries i;
          qs1 = qs[i := \<lparr>mem_blocks = mem_blocks (qs ! k), mem_status = mem_status (qs ! k)\<rparr>]
      in qs1[k := (qs1 ! k)\<lparr>mem_blocks := NULL\<rparr>])"

text \<open>
  The loop of \<^verbatim>\<open>defrag\<close> over the quad-blocks of set \<open>j\<close>.  Each round deletes a quad-block or moves on;
  \<open>fuel\<close> counts the rounds, twice the length of the array being enough.
\<close>

fun defrag_set :: "nat \<Rightarrow> k_mem_pool \<Rightarrow> nat \<Rightarrow> nat \<Rightarrow> k_mem_pool option" where
  "defrag_set 0 p j i = None"
| "defrag_set (Suc fuel) p j i =
     (let bs = block_set p ! j; q = quad_block bs ! i
      in if length (quad_block bs) \<le> i then None
         else if mem_blocks q = NULL then Some p
         else if mem_status q = QUAD_BLOCK_AVAILABLE
         then case free_existing_block (mem_blocks q) p (j - 1) of
                None \<Rightarrow> None
              | Some p1 \<Rightarrow>
                  let p2 = upd_quads p1 j (delete_quad (nr_of_entries bs) i)
                  in if i < nr_of_entries bs then defrag_set fuel p2 j i else Some p2
         else if i + 1 < nr_of_entries bs then defrag_set fuel p j (i + 1) else Some p)"

text \<open>From the smallest set to the one before \<open>last_index\<close>: \<open>n\<close> sets downwards from \<open>start_index\<close>.\<close>

fun defrag_sets :: "k_mem_pool \<Rightarrow> nat \<Rightarrow> nat \<Rightarrow> k_mem_pool option" where
  "defrag_sets p j last_index =
     (if j > last_index
      then case defrag_set (2 * nr_of_entries (block_set p ! j) + 1) p j 0 of
             None \<Rightarrow> None | Some p1 \<Rightarrow> defrag_sets p1 (j - 1) last_index
      else Some p)"

definition defrag :: "k_mem_pool \<Rightarrow> nat \<Rightarrow> nat \<Rightarrow> k_mem_pool option" where
  "defrag p start_block_set_index last_block_set_index = defrag_sets p start_block_set_index last_block_set_index"

text \<open>
  \<^verbatim>\<open>get_existing_block\<close>: the block found, or null, the index of the quad-block where the search
  ended, and the quad-blocks from entry \<open>i\<close> on with the block marked.
\<close>

fun get_existing_block ::
  "nat \<Rightarrow> nat \<Rightarrow> nat \<Rightarrow> k_mem_pool_quad_block list \<Rightarrow> addr \<times> nat \<times> k_mem_pool_quad_block list" where
  "get_existing_block bsz entries i [] = (NULL, i, [])"
| "get_existing_block bsz entries i (q # qs) =
     (if mem_blocks q = NULL then (NULL, i, q # qs)
      else if mem_status q \<noteq> QUAD_BLOCK_ALLOCATED
      then let free_bit = find_lsb_set (mem_status q) - 1
           in (mem_blocks q + free_bit * bsz, i, q\<lparr>mem_status := mem_status q XOR push_bit free_bit 1\<rparr> # qs)
      else if i + 1 < entries
      then (case get_existing_block bsz entries (i + 1) qs of (found, n, qs') \<Rightarrow> (found, n, q # qs'))
      else (NULL, i + 1, q # qs))"

definition get_from_set :: "k_mem_pool \<Rightarrow> nat \<Rightarrow> addr \<times> nat \<times> k_mem_pool" where
  "get_from_set p j =
     (let bs = block_set p ! j
      in case get_existing_block (set_block_size bs) (nr_of_entries bs) 0 (quad_block bs) of
           (found, i, qs) \<Rightarrow> (found, i, upd_quads p j (\<lambda>_. qs)))"

text \<open>
  \<^verbatim>\<open>get_block_recursive\<close>.  A write to a quad-block behind the end of the array, or a block that is not
  found in its set, is the value \<open>None\<close>.
\<close>

definition defrag_and_retry :: "k_mem_pool \<Rightarrow> nat \<Rightarrow> (addr \<times> nat \<times> k_mem_pool) option" where
  "defrag_and_retry p index =
     (case defrag p (nr_of_block_sets p - 1) index of None \<Rightarrow> None
      | Some p1 \<Rightarrow> Some (get_from_set p1 index))"

definition add_quad :: "k_mem_pool \<Rightarrow> nat \<Rightarrow> nat \<Rightarrow> addr \<Rightarrow> k_mem_pool option" where
  "add_quad p index i larger_block =
     (if i < nr_of_entries (block_set p ! index)
      then Some (upd_quads p index (\<lambda>qs. qs[i := \<lparr>mem_blocks = larger_block, mem_status = QUAD_BLOCK_AVAILABLE AND NOT 1\<rparr>]))
      else None)"

function get_block_recursive :: "defrag_policy \<Rightarrow> k_mem_pool \<Rightarrow> int \<Rightarrow> int \<Rightarrow> (addr \<times> k_mem_pool) option" where
  "get_block_recursive pol p index start_index =
     (if index < 0 then Some (NULL, p)
      else case get_from_set p (nat index) of (found, i, p1) \<Rightarrow>
        if found \<noteq> NULL then Some (found, p1)
        else case (if pol = DefragBeforeSplit \<and> index = start_index
                   then defrag_and_retry p1 (nat index) else Some (NULL, i, p1)) of
          None \<Rightarrow> None
        | Some (found2, i2, p2) \<Rightarrow>
            if found2 \<noteq> NULL then Some (found2, p2)
            else case get_block_recursive pol p2 (index - 1) start_index of
              None \<Rightarrow> None
            | Some (larger_block, p3) \<Rightarrow>
                if larger_block \<noteq> NULL
                then map_option (\<lambda>p4. (larger_block, p4)) (add_quad p3 (nat index) i2 larger_block)
                else if pol = SplitBeforeDefrag \<and> index = start_index
                then map_option (\<lambda>(found4, i4, p4). (found4, p4)) (defrag_and_retry p3 (nat index))
                else Some (NULL, p3))"
  by pat_completeness auto
termination by (relation "measure (\<lambda>(pol, p, index, start). nat (index + 1))") auto

section \<open>Operations\<close>

text \<open>
  The loop of \<^verbatim>\<open>block_waiters_check\<close> over the waiting threads.  Each step removes at most the thread it
  serves from the wait queue, after its successor has been looked up, so the loop visits the threads
  that waited at its start.
\<close>

fun block_waiters_loop ::
  "defrag_policy \<Rightarrow> kconfig \<Rightarrow> tid list \<Rightarrow> k_mem_pool \<times> 'z kernel_scheme \<Rightarrow> (k_mem_pool \<times> 'z kernel_scheme) option" where
  "block_waiters_loop pol c [] s = Some s"
| "block_waiters_loop pol c (waiter # ws) (p, k) =
     (case compute_block_set_index p (of_nat (swap_data (thread k waiter))) of None \<Rightarrow> None
      | Some offset \<Rightarrow>
          (case get_block_recursive pol p offset offset of None \<Rightarrow> None
           | Some (found_block, p1) \<Rightarrow>
               if found_block \<noteq> NULL
               then let k1 = set_thread_return_value_with_data k waiter 0 found_block;
                        k2 = unpend_thread k1 waiter;
                        k3 = snd (abort_thread_timeout k2 waiter)
                    in block_waiters_loop pol c ws (p1, ready_thread c k3 waiter)
               else block_waiters_loop pol c ws (p1, k)))"

definition block_waiters_check ::
  "defrag_policy \<Rightarrow> kconfig \<Rightarrow> k_mem_pool \<times> 'z kernel_scheme \<Rightarrow> (k_mem_pool \<times> 'z kernel_scheme) option" where
  "block_waiters_check pol c = (\<lambda>(p, k). block_waiters_loop pol c (queues k (WaitQ (pool_wait_q p))) (p, k))"

definition k_mem_pool_defrag ::
  "defrag_policy \<Rightarrow> kconfig \<Rightarrow> k_mem_pool \<times> 'z kernel_scheme \<Rightarrow> (k_mem_pool \<times> 'z kernel_scheme) option" where
  "k_mem_pool_defrag pol c = (\<lambda>(p, k).
     case defrag p (nr_of_block_sets p - 1) 0 of None \<Rightarrow> None
     | Some p1 \<Rightarrow> (case block_waiters_check pol c (p1, k_sched_lock k) of None \<Rightarrow> None
                   | Some (p2, k1) \<Rightarrow> Some (p2, k_sched_unlock c k1)))"

definition fill_block :: "k_mem_pool \<Rightarrow> addr \<Rightarrow> u32 \<Rightarrow> k_mem_block" where
  "fill_block p found sz = \<lparr>pool_id = pool_wait_q p, addr_in_pool = found, block_data = found, req_size = sz\<rparr>"

text \<open>The result is \<open>None\<close> while the call is blocked; the block descriptor is an output parameter.\<close>

definition k_mem_pool_alloc ::
  "defrag_policy \<Rightarrow> kconfig \<Rightarrow> k_mem_pool \<times> 'z kernel_scheme \<Rightarrow> k_mem_block \<Rightarrow> u32 \<Rightarrow> int \<Rightarrow>
     (int option \<times> k_mem_block \<times> k_mem_pool \<times> 'z kernel_scheme) option" where
  "k_mem_pool_alloc pol c = (\<lambda>(p, k) block sz timeout.
     let k1 = k_sched_lock k
     in case compute_block_set_index p sz of None \<Rightarrow> None
        | Some offset \<Rightarrow>
            (case get_block_recursive pol p offset offset of None \<Rightarrow> None
             | Some (found_block, p1) \<Rightarrow> Some
                 (if found_block \<noteq> NULL then (Some 0, fill_block p1 found_block sz, p1, k_sched_unlock c k1)
                  else if timeout \<noteq> K_NO_WAIT
                  then let k2 = sched_unlock_no_reschedule k1;
                           k3 = upd_thread k2 (current k2) (\<lambda>th. th\<lparr>swap_data := unat sz\<rparr>);
                           k4 = pend_current_thread c k3 (pool_wait_q p1) timeout
                       in (None, block, p1, Swap c k4)
                  else (Some (- ENOMEM), block, p1, k_sched_unlock c k1))))"

definition k_mem_pool_alloc_resume :: "k_mem_pool \<Rightarrow> 'z kernel_scheme \<Rightarrow> k_mem_block \<Rightarrow> u32 \<Rightarrow> int \<times> k_mem_block" where
  "k_mem_pool_alloc_resume p k block sz =
     (let result = swap_return_value (thread k (current k))
      in (result, if result = 0 then fill_block p (swap_data (thread k (current k))) sz else block))"

definition k_mem_pool_free ::
  "defrag_policy \<Rightarrow> kconfig \<Rightarrow> k_mem_pool \<times> 'z kernel_scheme \<Rightarrow> k_mem_block \<Rightarrow> (k_mem_pool \<times> 'z kernel_scheme) option" where
  "k_mem_pool_free pol c = (\<lambda>(p, k) block.
     let k1 = k_sched_lock k
     in case compute_block_set_index p (req_size block) of None \<Rightarrow> None
        | Some offset \<Rightarrow>
            if offset < 0 then None
            else (case free_existing_block (addr_in_pool block) p (nat offset) of None \<Rightarrow> None
                  | Some p1 \<Rightarrow> (case block_waiters_check pol c (p1, k1) of None \<Rightarrow> None
                                | Some (p2, k2) \<Rightarrow> Some (p2, k_sched_unlock c k2))))"

text \<open>
  \<^verbatim>\<open>k_malloc\<close> and \<^verbatim>\<open>k_free\<close> keep the block's descriptor, 16 bytes, at the start of the block; \<open>desc\<close> is the
  memory of descriptors, \<open>block0\<close> the uninitialised local variable.  The sum with the requested size is
  a 32-bit one.
\<close>

definition sizeof_k_mem_block :: nat where "sizeof_k_mem_block = 16"

definition k_malloc ::
  "defrag_policy \<Rightarrow> kconfig \<Rightarrow> k_mem_block \<Rightarrow> (addr \<Rightarrow> k_mem_block) \<Rightarrow> k_mem_pool \<times> 'z kernel_scheme \<Rightarrow> u32 \<Rightarrow>
     (addr \<times> (addr \<Rightarrow> k_mem_block) \<times> k_mem_pool \<times> 'z kernel_scheme) option" where
  "k_malloc pol c block0 desc s sz =
     (let sz1 = sz + of_nat sizeof_k_mem_block
      in case k_mem_pool_alloc pol c s block0 sz1 K_NO_WAIT of None \<Rightarrow> None
         | Some (r, block, p, k) \<Rightarrow> Some
             (if r \<noteq> Some 0 then (NULL, desc, p, k)
              else (block_data block + sizeof_k_mem_block, desc(block_data block := block), p, k)))"

definition k_free ::
  "defrag_policy \<Rightarrow> kconfig \<Rightarrow> (addr \<Rightarrow> k_mem_block) \<Rightarrow> k_mem_pool \<times> 'z kernel_scheme \<Rightarrow> addr \<Rightarrow>
     (k_mem_pool \<times> 'z kernel_scheme) option" where
  "k_free pol c desc s ptr =
     (if ptr \<noteq> NULL then k_mem_pool_free pol c s (desc (ptr - sizeof_k_mem_block)) else Some s)"

declare build_block_set.simps [simp del] init_quads.simps [simp del] last_quad.simps [simp del] defrag_sets.simps [simp del]
  get_block_recursive.simps [simp del] defrag_set.simps [simp del]

end
