(* ===== verification/Kstack.thy ===== *)
theory Kstack
  imports Wait_Queue
begin

text \<open>
  Stacks of 32-bit words, \<^verbatim>\<open>kernel/unified/stack.c\<close>.  The pointers \<^verbatim>\<open>base\<close>, \<^verbatim>\<open>next\<close> and \<^verbatim>\<open>top\<close> are
  word addresses into \<open>buf\<close>.
\<close>

section \<open>Operations\<close>

record k_stack =
  stack_wait_q :: wqid
  stack_base :: addr
  stack_next :: addr
  stack_top :: addr

type_synonym 'z stack_state = "k_stack \<times> (addr \<Rightarrow> u32) \<times> 'z kernel_scheme"

definition k_stack_init :: "'z kernel_scheme \<Rightarrow> wqid \<Rightarrow> addr \<Rightarrow> nat \<Rightarrow> k_stack \<times> 'z kernel_scheme" where
  "k_stack_init k w buffer num_entries =
     (\<lparr>stack_wait_q = w, stack_base = buffer, stack_next = buffer, stack_top = buffer + num_entries\<rparr>,
      upd_queue k (WaitQ w) (\<lambda>_. []))"

definition k_stack_push :: "kconfig \<Rightarrow> 'z stack_state \<Rightarrow> u32 \<Rightarrow> 'z stack_state" where
  "k_stack_push c = (\<lambda>(s, buf, k) data.
     case unpend_first_thread k (stack_wait_q s) of (t, k1) \<Rightarrow>
       if t \<noteq> NULL
       then let k2 = snd (abort_thread_timeout k1 t);
                k3 = ready_thread c k2 t;
                k4 = set_thread_return_value_with_data k3 t 0 (unat data)
            in (s, buf, resched_unless_isr c k4)
       else (s\<lparr>stack_next := stack_next s + 1\<rparr>, buf(stack_next s := data), k1))"

text \<open>The word popped comes with the result; a blocked pop has neither yet.\<close>

definition k_stack_pop :: "kconfig \<Rightarrow> 'z stack_state \<Rightarrow> int \<Rightarrow> (int \<times> u32 option) option \<times> 'z stack_state" where
  "k_stack_pop c = (\<lambda>(s, buf, k) timeout.
     if stack_next s > stack_base s
     then (Some (0, Some (buf (stack_next s - 1))), s\<lparr>stack_next := stack_next s - 1\<rparr>, buf, k)
     else if timeout = K_NO_WAIT then (Some (- EBUSY, None), s, buf, k)
     else (None, s, buf, Swap c (pend_current_thread c k (stack_wait_q s) timeout)))"

definition k_stack_pop_resume :: "'z kernel_scheme \<Rightarrow> int \<times> u32 option" where
  "k_stack_pop_resume k =
     (let result = swap_return_value (thread k (current k))
      in (result, if result = 0 then Some (of_nat (swap_data (thread k (current k)))) else None))"

section \<open>The stack it stands for\<close>

definition stack_items :: "'z stack_state \<Rightarrow> u32 list" where
  "stack_items = (\<lambda>(s, buf, k). rev (map buf [stack_base s..<stack_next s]))"

definition stack_waiters :: "'z stack_state \<Rightarrow> tid list" where
  "stack_waiters = (\<lambda>(s, buf, k). queues k (WaitQ (stack_wait_q s)))"

definition stack_inv :: "kconfig \<Rightarrow> tid set \<Rightarrow> 'z stack_state \<Rightarrow> bool" where
  "stack_inv c X = (\<lambda>(s, buf, k). kernel_inv c X k \<and>
     stack_base s \<le> stack_next s \<and> stack_next s \<le> stack_top s)"

text \<open>The assertion at the head of \<^verbatim>\<open>k_stack_push\<close>.\<close>

definition stack_not_full :: "'z stack_state \<Rightarrow> bool" where
  "stack_not_full = (\<lambda>(s, buf, k). stack_next s \<noteq> stack_top s)"

lemma push_waiter:
  assumes inv: "stack_inv c X (s, buf, k)" and q: "queues k (WaitQ (stack_wait_q s)) = t # ts"
  shows "k_stack_push c (s, buf, k) d = (s, buf, resched_unless_isr c (handed c k t 0 (unat d)))"
proof -
  have "t \<noteq> NULL" using first_waiter(2)[OF _ q, of c X] inv by (simp add: stack_inv_def)
  then show ?thesis
    by (simp add: k_stack_push_def unpend_first_eq[OF q] handed_def Let_def flip: wake_def)
qed

lemma push_stock:
  assumes "queues k (WaitQ (stack_wait_q s)) = []"
  shows "k_stack_push c (s, buf, k) d = (s\<lparr>stack_next := stack_next s + 1\<rparr>, buf(stack_next s := d), k)"
  using assms by (simp add: k_stack_push_def unpend_first_thread_def)

lemma push_items:
  assumes "stack_inv c X (s, buf, k)" "queues k (WaitQ (stack_wait_q s)) = []"
  shows "stack_items (k_stack_push c (s, buf, k) d) = d # stack_items (s, buf, k)"
  using assms by (auto simp: push_stock stack_items_def stack_inv_def)

lemma pop_stock:
  assumes inv: "stack_inv c X (s, buf, k)" and q: "stack_items (s, buf, k) = x # xs"
  shows "k_stack_pop c (s, buf, k) n = (Some (0, Some x), s\<lparr>stack_next := stack_next s - 1\<rparr>, buf, k)"
    "stack_items (snd (k_stack_pop c (s, buf, k) n)) = xs" "stack_inv c X (snd (k_stack_pop c (s, buf, k) n))"
proof -
  have lt: "stack_base s < stack_next s" using q by (auto simp: stack_items_def intro: ccontr)
  then obtain m where m: "stack_next s = Suc m" "stack_base s \<le> m" by (cases "stack_next s") auto
  have e: "buf m = x" "rev (map buf [stack_base s..<m]) = xs" using q m by (simp_all add: stack_items_def)
  show p: "k_stack_pop c (s, buf, k) n = (Some (0, Some x), s\<lparr>stack_next := stack_next s - 1\<rparr>, buf, k)"
    using lt m e by (simp add: k_stack_pop_def)
  show "stack_items (snd (k_stack_pop c (s, buf, k) n)) = xs" using p m e by (simp add: stack_items_def)
  show "stack_inv c X (snd (k_stack_pop c (s, buf, k) n))" using p m inv by (simp add: stack_inv_def)
qed

lemma pop_empty:
  assumes inv: "stack_inv c X (s, buf, k)" and q: "stack_items (s, buf, k) = []"
  shows "k_stack_pop c (s, buf, k) n =
    (if n = K_NO_WAIT then (Some (- EBUSY, None), s, buf, k)
     else (None, s, buf, Swap c (pend_current_thread c k (stack_wait_q s) n)))"
  using assms by (auto simp: k_stack_pop_def stack_items_def stack_inv_def)

lemma push_inv:
  assumes inv: "stack_inv c X (s, buf, k)" and nf: "stack_not_full (s, buf, k)"
  shows "stack_inv c X (k_stack_push c (s, buf, k) d)"
proof (cases "queues k (WaitQ (stack_wait_q s))")
  case Nil
  then show ?thesis using inv nf by (simp add: push_stock stack_inv_def stack_not_full_def)
next
  case (Cons t ts)
  have "kernel_inv c X (resched_unless_isr c (handed c k t 0 (unat d)))"
    using inv by (intro resched_unless_isr_inv(1) handed_inv(1)[OF _ Cons]) (simp add: stack_inv_def)
  then show ?thesis using inv by (simp add: push_waiter[OF inv Cons] stack_inv_def)
qed

interpretation stack: blocking_resource "stack_inv c X"
  "\<lambda>d s. stack_not_full s" "\<lambda>s. may_block c X (snd (snd s))"
  "\<lambda>n. n \<noteq> K_NO_WAIT \<and> timeout_ok c n" "\<lambda>s. length (stack_items s)" stack_waiters
  "\<lambda>d s. k_stack_push c s d" "\<lambda>n s. snd (k_stack_pop c s n)"
  for c X
proof unfold_locales
  fix s :: "'a stack_state" and d n t ts
  assume inv: "stack_inv c X s"
  obtain l h k where s: "s = (l, h, k)" by (cases s)
  note inv' = inv[unfolded s]
  { assume d: "stack_not_full s"
    show "stack_inv c X (k_stack_push c s d)" using push_inv[OF inv'] d s by simp
    show "stack_waiters (k_stack_push c s d) = ts \<and> length (stack_items (k_stack_push c s d)) = length (stack_items s)"
      if "stack_waiters s = t # ts"
      using that s push_waiter[OF inv', of t ts d] by (simp add: stack_waiters_def stack_items_def)
    show "stack_waiters (k_stack_push c s d) = [] \<and> length (stack_items s) \<le> length (stack_items (k_stack_push c s d)) \<and>
        length (stack_items (k_stack_push c s d)) \<le> length (stack_items s) + 1"
      if "stack_waiters s = []"
      using that s push_items[OF inv', of d] by (simp add: stack_waiters_def push_stock) }
  assume b: "may_block c X (snd (snd s))" and n: "n \<noteq> K_NO_WAIT \<and> timeout_ok c n"
  show "stack_inv c X (snd (k_stack_pop c s n))"
  proof (cases "stack_items s")
    case Nil
    then show ?thesis using inv' s b n pop_empty[OF inv', of n] block_inv(1)[of c X k n]
      by (simp add: stack_inv_def)
  next
    case (Cons x xs)
    then show ?thesis using pop_stock(3)[OF inv'] s by simp
  qed
  show "stack_waiters (snd (k_stack_pop c s n)) = stack_waiters s \<and>
      length (stack_items (snd (k_stack_pop c s n))) + 1 = length (stack_items s)"
    if "0 < length (stack_items s)"
    using that s pop_stock[OF inv', of _ _ n] by (cases "stack_items s") (auto simp: stack_waiters_def)
  show "length (stack_items (snd (k_stack_pop c s n))) = 0" if "length (stack_items s) = 0"
    using that s n pop_empty[OF inv', of n] by (simp add: stack_items_def)
qed

end
