(* ===== verification/Libc_String.thy ===== *)
theory Libc_String
  imports Zephyr_Prelude
begin

text \<open>
  \<^verbatim>\<open>lib/libc/minimal/source/string/string.c\<close> over a memory of bytes.  A C loop that stops only at a
  terminator is a \<open>partial_function\<close>: on a string without one it does not return.  \<^verbatim>\<open>char\<close> is
  unsigned, as it is for the ARM compiler; words are 32 bits, little endian.
\<close>

type_synonym bytes = "addr \<Rightarrow> u8"

section \<open>Copying and filling memory\<close>

definition load32 :: "bytes \<Rightarrow> addr \<Rightarrow> u32" where
  "load32 h a = ucast (h a) OR push_bit 8 (ucast (h (a + 1))) OR push_bit 16 (ucast (h (a + 2))) OR
     push_bit 24 (ucast (h (a + 3)))"

definition store32 :: "bytes \<Rightarrow> addr \<Rightarrow> u32 \<Rightarrow> bytes" where
  "store32 h a w = h(a := ucast w, a + 1 := ucast (drop_bit 8 w), a + 2 := ucast (drop_bit 16 w),
     a + 3 := ucast (drop_bit 24 w))"

text \<open>The three loops of \<^verbatim>\<open>memcpy\<close>: to alignment, by words, by bytes.\<close>

fun copy_align :: "bytes \<Rightarrow> addr \<Rightarrow> addr \<Rightarrow> nat \<Rightarrow> bytes \<times> addr \<times> addr \<times> nat" where
  "copy_align h d s n =
     (if d AND 3 \<noteq> 0 \<and> n \<noteq> 0 then copy_align (h(d := h s)) (d + 1) (s + 1) (n - 1) else (h, d, s, n))"

fun copy_words :: "bytes \<Rightarrow> addr \<Rightarrow> addr \<Rightarrow> nat \<Rightarrow> bytes \<times> addr \<times> addr \<times> nat" where
  "copy_words h d s n =
     (if n \<ge> 4 then copy_words (store32 h d (load32 h s)) (d + 4) (s + 4) (n - 4) else (h, d, s, n))"

fun copy_bytes :: "bytes \<Rightarrow> addr \<Rightarrow> addr \<Rightarrow> nat \<Rightarrow> bytes" where
  "copy_bytes h d s n = (if n > 0 then copy_bytes (h(d := h s)) (d + 1) (s + 1) (n - 1) else h)"

declare copy_align.simps [simp del] copy_words.simps [simp del] copy_bytes.simps [simp del]

definition memcpy :: "bytes \<Rightarrow> addr \<Rightarrow> addr \<Rightarrow> nat \<Rightarrow> bytes" where
  "memcpy h d s n =
     (if (d XOR s) AND 3 = 0
      then case copy_align h d s n of (h1, d1, s1, n1) \<Rightarrow>
             case copy_words h1 d1 s1 n1 of (h2, d2, s2, n2) \<Rightarrow> copy_bytes h2 d2 s2 n2
      else copy_bytes h d s n)"

fun copy_backwards :: "bytes \<Rightarrow> addr \<Rightarrow> addr \<Rightarrow> nat \<Rightarrow> bytes" where
  "copy_backwards h d s 0 = h"
| "copy_backwards h d s (Suc n) = copy_backwards (h(d + n := h (s + n))) d s n"

text \<open>\<^verbatim>\<open>(size_t)(d - s)\<close> is the difference of two 32-bit addresses, modulo \<open>2 ^ 32\<close>.\<close>

definition memmove :: "bytes \<Rightarrow> addr \<Rightarrow> addr \<Rightarrow> nat \<Rightarrow> bytes" where
  "memmove h d s n =
     (if nat ((int d - int s) mod 2 ^ 32) < n then copy_backwards h d s n else copy_bytes h d s n)"

fun set_align :: "bytes \<Rightarrow> addr \<Rightarrow> u8 \<Rightarrow> nat \<Rightarrow> bytes \<times> addr \<times> nat" where
  "set_align h d c n =
     (if d AND 3 \<noteq> 0 \<and> n \<noteq> 0 then set_align (h(d := c)) (d + 1) c (n - 1) else (h, d, n))"

fun set_words :: "bytes \<Rightarrow> addr \<Rightarrow> u32 \<Rightarrow> nat \<Rightarrow> bytes \<times> addr \<times> nat" where
  "set_words h d w n = (if n \<ge> 4 then set_words (store32 h d w) (d + 4) w (n - 4) else (h, d, n))"

fun set_bytes :: "bytes \<Rightarrow> addr \<Rightarrow> u8 \<Rightarrow> nat \<Rightarrow> bytes" where
  "set_bytes h d c n = (if n > 0 then set_bytes (h(d := c)) (d + 1) c (n - 1) else h)"

declare set_align.simps [simp del] set_words.simps [simp del] set_bytes.simps [simp del]

definition memset :: "bytes \<Rightarrow> addr \<Rightarrow> u32 \<Rightarrow> nat \<Rightarrow> bytes" where
  "memset h buf c n =
     (let c_byte = ucast c :: u8;
          w0 = ucast c_byte :: u32;
          w1 = w0 OR push_bit 8 w0;
          c_word = w1 OR push_bit 16 w1
      in case set_align h buf c_byte n of (h1, d1, n1) \<Rightarrow>
           case set_words h1 d1 c_word n1 of (h2, d2, n2) \<Rightarrow> set_bytes h2 d2 c_byte n2)"

fun memcmp_loop :: "bytes \<Rightarrow> addr \<Rightarrow> addr \<Rightarrow> nat \<Rightarrow> int" where
  "memcmp_loop h c1 c2 n =
     (if n - 1 > 0 \<and> h c1 = h c2 then memcmp_loop h (c1 + 1) (c2 + 1) (n - 1) else uint (h c1) - uint (h c2))"

declare memcmp_loop.simps [simp del]

definition memcmp :: "bytes \<Rightarrow> addr \<Rightarrow> addr \<Rightarrow> nat \<Rightarrow> int" where
  "memcmp h m1 m2 n = (if n = 0 then 0 else memcmp_loop h m1 m2 n)"

fun memchr :: "bytes \<Rightarrow> addr \<Rightarrow> u8 \<Rightarrow> nat \<Rightarrow> addr" where
  "memchr h s c 0 = NULL"
| "memchr h s c (Suc n) = (if h s = c then s else memchr h (s + 1) c n)"

section \<open>Strings\<close>

partial_function (option) strlen_loop :: "bytes \<Rightarrow> addr \<Rightarrow> nat \<Rightarrow> nat option" where
  "strlen_loop h s n = (if h s \<noteq> 0 then strlen_loop h (s + 1) (n + 1) else Some n)"

definition strlen :: "bytes \<Rightarrow> addr \<Rightarrow> nat option" where
  "strlen h s = strlen_loop h s 0"

partial_function (option) strcpy :: "bytes \<Rightarrow> addr \<Rightarrow> addr \<Rightarrow> bytes option" where
  "strcpy h d s = (if h s \<noteq> 0 then strcpy (h(d := h s)) (d + 1) (s + 1) else Some (h(d := 0)))"

fun strncpy :: "bytes \<Rightarrow> addr \<Rightarrow> addr \<Rightarrow> nat \<Rightarrow> bytes" where
  "strncpy h d s n =
     (if n > 0 \<and> h s \<noteq> 0 then strncpy (h(d := h s)) (d + 1) (s + 1) (n - 1) else set_bytes h d 0 n)"

declare strncpy.simps [simp del]

partial_function (option) strchr :: "bytes \<Rightarrow> addr \<Rightarrow> u8 \<Rightarrow> addr option" where
  "strchr h s c = (if h s \<noteq> c \<and> h s \<noteq> 0 then strchr h (s + 1) c else Some (if h s = c then s else NULL))"

partial_function (option) strrchr_loop :: "bytes \<Rightarrow> addr \<Rightarrow> u8 \<Rightarrow> addr \<Rightarrow> addr option" where
  "strrchr_loop h s c match =
     (let m = (if h s = c then s else match) in if h s \<noteq> 0 then strrchr_loop h (s + 1) c m else Some m)"

definition strrchr :: "bytes \<Rightarrow> addr \<Rightarrow> u8 \<Rightarrow> addr option" where
  "strrchr h s c = strrchr_loop h s c NULL"

partial_function (option) strcmp :: "bytes \<Rightarrow> addr \<Rightarrow> addr \<Rightarrow> int option" where
  "strcmp h s1 s2 =
     (if h s1 = h s2 \<and> h s1 \<noteq> 0 then strcmp h (s1 + 1) (s2 + 1) else Some (uint (h s1) - uint (h s2)))"

fun strncmp :: "bytes \<Rightarrow> addr \<Rightarrow> addr \<Rightarrow> nat \<Rightarrow> int" where
  "strncmp h s1 s2 n =
     (if n > 0 \<and> h s1 = h s2 \<and> h s1 \<noteq> 0 then strncmp h (s1 + 1) (s2 + 1) (n - 1)
      else if n = 0 then 0 else uint (h s1) - uint (h s2))"

declare strncmp.simps [simp del]

definition strcat :: "bytes \<Rightarrow> addr \<Rightarrow> addr \<Rightarrow> bytes option" where
  "strcat h dest src = Option.bind (strlen h dest) (\<lambda>n. strcpy h (dest + n) src)"

fun strncat_loop :: "bytes \<Rightarrow> addr \<Rightarrow> addr \<Rightarrow> nat \<Rightarrow> bytes" where
  "strncat_loop h dest src n =
     (if n > 0 \<and> h src \<noteq> 0 then strncat_loop (h(dest := h src)) (dest + 1) (src + 1) (n - 1) else h(dest := 0))"

declare strncat_loop.simps [simp del]

definition strncat :: "bytes \<Rightarrow> addr \<Rightarrow> addr \<Rightarrow> nat \<Rightarrow> bytes option" where
  "strncat h dest src n = Option.bind (strlen h dest) (\<lambda>len. Some (strncat_loop h (dest + len) src n))"

section \<open>Copying is copying\<close>

definition copied :: "bytes \<Rightarrow> addr \<Rightarrow> addr \<Rightarrow> nat \<Rightarrow> bytes" where
  "copied h d s n = (\<lambda>a. if d \<le> a \<and> a < d + n then h (s + (a - d)) else h a)"

definition disjoint_areas :: "addr \<Rightarrow> addr \<Rightarrow> nat \<Rightarrow> bool" where
  "disjoint_areas d s n \<longleftrightarrow> d + n \<le> s \<or> s + n \<le> d"

lemma copied_0 [simp]: "copied h d s 0 = h"
  by (auto simp: copied_def fun_eq_iff)

lemma copied_add:
  assumes "disjoint_areas d s (m + n)"
  shows "copied (copied h d s m) (d + m) (s + m) n = copied h d s (m + n)"
  using assms by (auto simp: copied_def fun_eq_iff disjoint_areas_def)

lemma copied_1: "h(d := h s) = copied h d s 1"
  by (auto simp: copied_def fun_eq_iff)

lemma ucast_byte_of_word:
  "ucast (load32 h a) = h a" "ucast (drop_bit 8 (load32 h a)) = h (a + 1)"
  "ucast (drop_bit 16 (load32 h a)) = h (a + 2)" "ucast (drop_bit 24 (load32 h a)) = h (a + 3)"
  by (rule bit_word_eqI; auto simp: load32_def bit_simps dest: bit_imp_le_length)+

lemma copied_4: "store32 h d (load32 h s) = copied h d s 4"
proof
  fix a
  consider "a = d" | "a = d + 1" | "a = d + 2" | "a = d + 3" | "a < d \<or> d + 4 \<le> a" by linarith
  then show "store32 h d (load32 h s) a = copied h d s 4 a"
    by cases (auto simp: store32_def copied_def ucast_byte_of_word)
qed

lemma copy_bytes_eq: "disjoint_areas d s n \<Longrightarrow> copy_bytes h d s n = copied h d s n"
proof (induction n arbitrary: h d s)
  case (Suc n)
  have "copy_bytes h d s (Suc n) = copy_bytes (copied h d s 1) (d + 1) (s + 1) n"
    by (simp add: copy_bytes.simps[of h d s "Suc n"] copied_1)
  also have "\<dots> = copied (copied h d s 1) (d + 1) (s + 1) n"
    by (rule Suc.IH) (use Suc.prems in \<open>auto simp: disjoint_areas_def\<close>)
  finally show ?case using copied_add[of d s 1 n] Suc.prems by simp
qed (simp add: copy_bytes.simps)

lemma copy_align_eq:
  assumes "disjoint_areas d s n"
  shows "\<exists>m \<le> n. copy_align h d s n = (copied h d s m, d + m, s + m, n - m)"
  using assms
proof (induction n arbitrary: h d s)
  case (Suc n)
  show ?case
  proof (cases "d AND 3 = 0")
    case False
    have e: "copy_align h d s (Suc n) = copy_align (copied h d s 1) (d + 1) (s + 1) n"
      using False by (simp add: copy_align.simps[of h d s "Suc n"] copied_1)
    obtain m where m: "m \<le> n" "copy_align (copied h d s 1) (d + 1) (s + 1) n =
        (copied (copied h d s 1) (d + 1) (s + 1) m, d + 1 + m, s + 1 + m, n - m)"
      using Suc.IH[of "d + 1" "s + 1" "copied h d s 1"] Suc.prems by (auto simp: disjoint_areas_def)
    have "copied (copied h d s 1) (d + 1) (s + 1) m = copied h d s (1 + m)"
      by (rule copied_add) (use Suc.prems m(1) in \<open>auto simp: disjoint_areas_def\<close>)
    then show ?thesis using e m by (intro exI[of _ "Suc m"]) simp
  qed (simp add: copy_align.simps[of h d s "Suc n"] exI[of _ 0])
qed (simp add: copy_align.simps)

lemma copy_words_eq:
  assumes "disjoint_areas d s n"
  shows "\<exists>m \<le> n. copy_words h d s n = (copied h d s m, d + m, s + m, n - m)"
  using assms
proof (induction n arbitrary: h d s rule: less_induct)
  case (less n)
  show ?case
  proof (cases "n \<ge> 4")
    case True
    have e: "copy_words h d s n = copy_words (copied h d s 4) (d + 4) (s + 4) (n - 4)"
      using True by (simp add: copy_words.simps[of h d s n] copied_4)
    obtain m where m: "m \<le> n - 4" "copy_words (copied h d s 4) (d + 4) (s + 4) (n - 4) =
        (copied (copied h d s 4) (d + 4) (s + 4) m, d + 4 + m, s + 4 + m, n - 4 - m)"
      using less.IH[of "n - 4" "d + 4" "s + 4" "copied h d s 4"] less.prems True by (auto simp: disjoint_areas_def)
    have "copied (copied h d s 4) (d + 4) (s + 4) m = copied h d s (4 + m)"
      by (rule copied_add) (use less.prems m(1) True in \<open>auto simp: disjoint_areas_def\<close>)
    then show ?thesis using e m True by (intro exI[of _ "4 + m"]) simp
  qed (simp add: copy_words.simps[of h d s n] exI[of _ 0])
qed

text \<open>The optimised copy is the plain one on areas that do not overlap.\<close>

lemma memcpy_copied:
  assumes "disjoint_areas d s n"
  shows "memcpy h d s n = copied h d s n"
proof (cases "(d XOR s) AND 3 = 0")
  case True
  obtain m where m: "m \<le> n" "copy_align h d s n = (copied h d s m, d + m, s + m, n - m)"
    using copy_align_eq[OF assms] by blast
  have dj: "disjoint_areas (d + m) (s + m) (n - m)" using assms m(1) by (auto simp: disjoint_areas_def)
  obtain l where l: "l \<le> n - m" "copy_words (copied h d s m) (d + m) (s + m) (n - m) =
      (copied (copied h d s m) (d + m) (s + m) l, d + m + l, s + m + l, n - m - l)"
    using copy_words_eq[OF dj] by blast
  have 1: "copied (copied h d s m) (d + m) (s + m) l = copied h d s (m + l)"
    by (rule copied_add) (use assms l m in \<open>auto simp: disjoint_areas_def\<close>)
  have 2: "copied (copied h d s (m + l)) (d + (m + l)) (s + (m + l)) (n - m - l) = copied h d s (m + l + (n - m - l))"
    by (rule copied_add) (use assms l m in \<open>auto simp: disjoint_areas_def\<close>)
  have 3: "copy_bytes (copied h d s (m + l)) (d + m + l) (s + m + l) (n - m - l) =
      copied (copied h d s (m + l)) (d + m + l) (s + m + l) (n - m - l)"
    by (rule copy_bytes_eq) (use assms l m in \<open>auto simp: disjoint_areas_def\<close>)
  show ?thesis using True m l 1 2 3 by (simp add: memcpy_def add.assoc)
next
  case False
  then show ?thesis using copy_bytes_eq[OF assms] by (simp add: memcpy_def)
qed

text \<open>Areas that overlap: forwards when the destination is below the source, backwards otherwise.\<close>

lemma copy_forwards_eq: "d \<le> s \<Longrightarrow> copy_bytes h d s n = copied h d s n"
proof (induction n arbitrary: h d s)
  case (Suc n)
  have "copy_bytes h d s (Suc n) = copied (h(d := h s)) (d + 1) (s + 1) n"
    using Suc.prems Suc.IH[of "d + 1" "s + 1" "h(d := h s)"] by (subst copy_bytes.simps) (simp add: fun_upd_def)
  moreover have "copied (h(d := h s)) (d + 1) (s + 1) n a = copied h d s (Suc n) a" for a
  proof (cases "d < a \<and> a < d + 1 + n")
    case True
    then have "s + 1 + (a - (d + 1)) = s + (a - d)" "s + (a - d) \<noteq> d" using Suc.prems by linarith+
    then show ?thesis using True by (simp add: copied_def)
  qed (auto simp: copied_def)
  ultimately show ?case by (simp add: fun_eq_iff)
qed (simp add: copy_bytes.simps)

lemma copy_backwards_eq: "s \<le> d \<Longrightarrow> copy_backwards h d s n = copied h d s n"
proof (induction n arbitrary: h)
  case (Suc n)
  then have "copy_backwards h d s (Suc n) = copied (h(d + n := h (s + n))) d s n" by simp
  moreover have "\<dots> a = copied h d s (Suc n) a" for a
    using Suc.prems by (cases "a = d + n") (auto simp: copied_def)
  ultimately show ?case by (simp add: fun_eq_iff)
qed simp

lemma memmove_copied:
  assumes "d + n \<le> 2 ^ 32" "s + n \<le> 2 ^ 32"
  shows "memmove h d s n = copied h d s n"
proof (cases "d < s")
  case True
  then have "(int d - int s) mod 2 ^ 32 = int d - int s + 2 ^ 32"
    using assms by (intro int_mod_pos_eq[of _ _ "-1"]) auto
  moreover have "int n \<le> int d - int s + 2 ^ 32" using assms by simp
  ultimately have "\<not> nat ((int d - int s) mod 2 ^ 32) < n" by (simp add: nat_less_iff)
  then show ?thesis using True copy_forwards_eq[of d s h n] by (simp add: memmove_def)
next
  case False
  show ?thesis
  proof (cases "n = 0")
    case True
    then show ?thesis by (simp add: memmove_def copy_bytes.simps)
  next
    case n: False
    then have "(int d - int s) mod 2 ^ 32 = int (d - s)" using False assms by (subst mod_pos_pos_trivial) auto
    then have "memmove h d s n = (if d - s < n then copy_backwards h d s n else copy_bytes h d s n)"
      unfolding memmove_def by (simp only: nat_int)
    moreover have "disjoint_areas d s n" if "\<not> d - s < n" using that False unfolding disjoint_areas_def by linarith
    ultimately show ?thesis using False copy_backwards_eq[of s d h n] copy_bytes_eq[of d s n h] by (cases "d - s < n") auto
  qed
qed

definition filled :: "bytes \<Rightarrow> addr \<Rightarrow> u8 \<Rightarrow> nat \<Rightarrow> bytes" where
  "filled h d c n = (\<lambda>a. if d \<le> a \<and> a < d + n then c else h a)"

lemma filled_0 [simp]: "filled h d c 0 = h"
  by (auto simp: filled_def fun_eq_iff)

lemma filled_add [simp]: "filled (filled h d c m) (d + m) c n = filled h d c (m + n)"
  by (auto simp: filled_def fun_eq_iff)

lemma filled_1: "h(d := c) = filled h d c 1"
  by (auto simp: filled_def fun_eq_iff)

lemma set_bytes_eq: "set_bytes h d c n = filled h d c n"
proof (induction n arbitrary: h d)
  case (Suc n)
  then show ?case using filled_add[of h d c 1 n] by (simp add: set_bytes.simps[of h d c "Suc n"] filled_1 del: filled_add)
qed (simp add: set_bytes.simps)

lemma set_align_eq: "\<exists>m \<le> n. set_align h d c n = (filled h d c m, d + m, n - m)"
proof (induction n arbitrary: h d)
  case (Suc n)
  show ?case
  proof (cases "d AND 3 = 0")
    case False
    obtain m where m: "m \<le> n" "set_align (filled h d c 1) (d + 1) c n = (filled (filled h d c 1) (d + 1) c m, d + 1 + m, n - m)"
      using Suc.IH by blast
    then show ?thesis using False filled_add[of h d c 1 m]
      by (intro exI[of _ "Suc m"]) (simp add: set_align.simps[of h d c "Suc n"] filled_1 del: filled_add)
  qed (simp add: set_align.simps[of h d c "Suc n"] exI[of _ 0])
qed (simp add: set_align.simps)

text \<open>The word \<^verbatim>\<open>c_word\<close> is the byte four times over.\<close>

lemma rep_word:
  fixes c :: u8
  defines "w1 \<equiv> (ucast c :: u32) OR push_bit 8 (ucast c)"
  shows "store32 h d (w1 OR push_bit 16 w1) = filled h d c 4"
proof
  fix a
  define w where "w = w1 OR push_bit 16 w1"
  have b: "ucast w = c" "ucast (drop_bit 8 w) = c" "ucast (drop_bit 16 w) = c" "ucast (drop_bit 24 w) = c"
    unfolding w_def w1_def by (rule bit_word_eqI; auto simp: bit_simps dest: bit_imp_le_length)+
  consider "a = d" | "a = d + 1" | "a = d + 2" | "a = d + 3" | "a < d \<or> d + 4 \<le> a" by linarith
  then have "store32 h d w a = filled h d c 4 a" by cases (auto simp: store32_def filled_def b)
  then show "store32 h d (w1 OR push_bit 16 w1) a = filled h d c 4 a" by (simp only: w_def)
qed

lemma set_words_eq:
  fixes c :: u8
  defines "w1 \<equiv> (ucast c :: u32) OR push_bit 8 (ucast c)"
  shows "\<exists>m \<le> n. set_words h d (w1 OR push_bit 16 w1) n = (filled h d c m, d + m, n - m)"
proof (induction n arbitrary: h d rule: less_induct)
  case (less n)
  let ?w = "w1 OR push_bit 16 w1"
  show ?case
  proof (cases "n \<ge> 4")
    case True
    obtain m where m: "m \<le> n - 4" "set_words (filled h d c 4) (d + 4) ?w (n - 4) =
        (filled (filled h d c 4) (d + 4) c m, d + 4 + m, n - 4 - m)" using less.IH[of "n - 4" "filled h d c 4" "d + 4"] True by auto
    then show ?thesis using True rep_word[of h d c, folded w1_def]
      by (intro exI[of _ "4 + m"]) (simp add: set_words.simps[of h d _ n])
  qed (simp add: set_words.simps[of h d _ n] exI[of _ 0])
qed

lemma memset_filled: "memset h buf c n = filled h buf (ucast c) n"
proof -
  let ?c = "ucast c :: u8"
  let ?w1 = "(ucast ?c :: u32) OR push_bit 8 (ucast ?c)"
  obtain m where m: "m \<le> n" "set_align h buf ?c n = (filled h buf ?c m, buf + m, n - m)" using set_align_eq by blast
  obtain l where l: "l \<le> n - m" "set_words (filled h buf ?c m) (buf + m) (?w1 OR push_bit 16 ?w1) (n - m) =
      (filled (filled h buf ?c m) (buf + m) ?c l, buf + m + l, n - m - l)" using set_words_eq by blast
  show ?thesis using m l filled_add[of h buf ?c "m + l" "n - m - l"]
    by (simp add: memset_def Let_def set_bytes_eq add.assoc)
qed

section \<open>Strings, proved\<close>

text \<open>The string \<open>xs\<close>, terminated, at address \<open>s\<close>.\<close>

fun cstr :: "bytes \<Rightarrow> addr \<Rightarrow> u8 list \<Rightarrow> bool" where
  "cstr h s [] \<longleftrightarrow> h s = 0"
| "cstr h s (x # xs) \<longleftrightarrow> h s = x \<and> x \<noteq> 0 \<and> cstr h (s + 1) xs"

lemma cstr_iff: "cstr h s xs \<longleftrightarrow> (\<forall>i < length xs. h (s + i) = xs ! i \<and> xs ! i \<noteq> 0) \<and> h (s + length xs) = 0"
proof (induction xs arbitrary: s)
  case (Cons x xs)
  have "(\<forall>i < length (x # xs). h (s + i) = (x # xs) ! i \<and> (x # xs) ! i \<noteq> 0) \<longleftrightarrow>
      h s = x \<and> x \<noteq> 0 \<and> (\<forall>i < length xs. h (s + 1 + i) = xs ! i \<and> xs ! i \<noteq> 0)"
    by (auto simp: less_Suc_eq_0_disj)
  then show ?case using Cons by simp
qed simp

lemma cstr_cong: "(\<And>a. s \<le> a \<Longrightarrow> a \<le> s + length xs \<Longrightarrow> h' a = h a) \<Longrightarrow> cstr h' s xs \<longleftrightarrow> cstr h s xs"
  by (simp add: cstr_iff)

lemma strlen_loop_eq: "cstr h s xs \<Longrightarrow> strlen_loop h s n = Some (n + length xs)"
proof (induction xs arbitrary: s n)
  case Nil
  then show ?case by (subst strlen_loop.simps) simp
next
  case (Cons x xs)
  then show ?case using Cons.IH[of "s + 1" "n + 1"] by (subst strlen_loop.simps) simp
qed

lemma strlen_eq: "cstr h s xs \<Longrightarrow> strlen h s = Some (length xs)"
  by (simp add: strlen_def strlen_loop_eq)

lemma strcpy_eq:
  assumes "cstr h s xs" "disjoint_areas d s (length xs + 1)"
  shows "strcpy h d s = Some (copied h d s (length xs + 1))"
  using assms
proof (induction xs arbitrary: h d s)
  case Nil
  then show ?case by (subst strcpy.simps) (auto simp: copied_def fun_eq_iff)
next
  case (Cons x xs)
  have c: "cstr (copied h d s 1) (s + 1) xs \<longleftrightarrow> cstr h (s + 1) xs"
    by (rule cstr_cong) (use Cons.prems(2) in \<open>auto simp: copied_def disjoint_areas_def\<close>)
  have "strcpy h d s = strcpy (copied h d s 1) (d + 1) (s + 1)"
    using Cons.prems(1) copied_1[of h d s] by (subst strcpy.simps) simp
  also have "\<dots> = Some (copied (copied h d s 1) (d + 1) (s + 1) (length xs + 1))"
    by (rule Cons.IH) (use Cons.prems c in \<open>auto simp: disjoint_areas_def\<close>)
  finally show ?case using copied_add[of d s 1 "length xs + 1" h] Cons.prems(2) by simp
qed

lemma cstr_copied:
  assumes "cstr h s xs" "disjoint_areas d s (length xs + 1)"
  shows "cstr (copied h d s (length xs + 1)) d xs" "cstr (copied h d s (length xs + 1)) s xs"
proof -
  show "cstr (copied h d s (length xs + 1)) d xs" using assms(1) by (simp add: cstr_iff copied_def)
  show "cstr (copied h d s (length xs + 1)) s xs"
    using assms by (subst cstr_cong[of _ _ _ h]) (auto simp: copied_def disjoint_areas_def)
qed

lemma cstr_append:
  "cstr h s (xs @ ys) \<longleftrightarrow> (\<forall>i < length xs. h (s + i) = xs ! i \<and> xs ! i \<noteq> 0) \<and> cstr h (s + length xs) ys"
proof (induction xs arbitrary: s)
  case (Cons x xs)
  have "(\<forall>i < length (x # xs). h (s + i) = (x # xs) ! i \<and> (x # xs) ! i \<noteq> 0) \<longleftrightarrow>
      h s = x \<and> x \<noteq> 0 \<and> (\<forall>i < length xs. h (s + 1 + i) = xs ! i \<and> xs ! i \<noteq> 0)"
    by (auto simp: less_Suc_eq_0_disj)
  then show ?case using Cons by simp
qed simp

lemma strcat_eq:
  assumes d: "cstr h d xs" and s: "cstr h s ys" and dj: "disjoint_areas (d + length xs) s (length ys + 1)"
  shows "\<exists>h'. strcat h d s = Some h' \<and> cstr h' d (xs @ ys)"
proof -
  let ?h = "copied h (d + length xs) s (length ys + 1)"
  have "strcat h d s = Some ?h" using strlen_eq[OF d] strcpy_eq[OF s dj] by (simp add: strcat_def)
  moreover have "cstr ?h d (xs @ ys)" unfolding cstr_append
    using cstr_copied(1)[OF s dj] d by (auto simp: cstr_iff copied_def)
  ultimately show ?thesis by blast
qed

lemma u8_diff: "uint a < uint b \<longleftrightarrow> a < b" "uint a = uint b \<longleftrightarrow> a = b" "0 < a \<longleftrightarrow> a \<noteq> 0" for a b :: u8
  by (simp_all add: word_less_def word_uint_eq_iff) (simp add: order_less_le)

lemma strcmp_eq:
  assumes "cstr h s xs" "cstr h t ys"
  shows "\<exists>r. strcmp h s t = Some r \<and> (r = 0 \<longleftrightarrow> xs = ys) \<and> (r < 0 \<longleftrightarrow> (xs, ys) \<in> lexord {(a, b). a < b})"
  using assms
proof (induction xs arbitrary: s t ys)
  case Nil
  then show ?case using u8_diff(1,2)[of 0 "h t"] u8_diff(3)[of "h t"] by (subst strcmp.simps, cases ys) auto
next
  case (Cons x xs)
  show ?case
  proof (cases ys)
    case Nil
    then show ?thesis using Cons.prems u8_diff(1,2)[of x 0] u8_diff(3)[of x] by (subst strcmp.simps) auto
  next
    case (Cons y zs)
    then show ?thesis using Cons.IH[of "s + 1" "t + 1" zs] Cons.prems
      by (subst strcmp.simps) (auto simp: u8_diff)
  qed
qed

lemma strchr_eq:
  assumes "cstr h s xs"
  shows "strchr h s c = Some (if c = 0 then s + length xs else if c \<in> set xs
    then s + length (takeWhile (\<lambda>x. x \<noteq> c) xs) else NULL)"
  using assms
proof (induction xs arbitrary: s)
  case Nil
  then show ?case by (subst strchr.simps) auto
next
  case (Cons x xs)
  then show ?case using Cons.IH[of "s + 1"] by (subst strchr.simps) auto
qed

lemma memcmp_loop_eq:
  assumes "0 < n"
  shows "memcmp_loop h s t n = 0 \<longleftrightarrow> (\<forall>i < n. h (s + i) = h (t + i))"
  using assms
proof (induction n arbitrary: s t)
  case (Suc n)
  show ?case
  proof (cases "n > 0 \<and> h s = h t")
    case True
    then have "memcmp_loop h s t (Suc n) = memcmp_loop h (s + 1) (t + 1) n" by (subst memcmp_loop.simps) simp
    then show ?thesis using Suc.IH[of "s + 1" "t + 1"] True by (auto simp: less_Suc_eq_0_disj)
  next
    case False
    then show ?thesis by (subst memcmp_loop.simps) (auto simp: less_Suc_eq_0_disj uint_word_ariths word_uint_eq_iff)
  qed
qed simp

lemma memcmp_eq: "memcmp h s t n = 0 \<longleftrightarrow> (\<forall>i < n. h (s + i) = h (t + i))"
  by (simp add: memcmp_def memcmp_loop_eq)

lemma memchr_eq:
  "memchr h s c n = (if \<exists>i<n. h (s + i) = c then s + (LEAST i. h (s + i) = c) else NULL)"
proof (induction n arbitrary: s)
  case (Suc n)
  show ?case
  proof (cases "h s = c")
    case True
    then have "(LEAST i. h (s + i) = c) = 0" by (intro Least_eq_0) simp
    then show ?thesis using True by auto
  next
    case False
    have ex: "(\<exists>i<Suc n. h (s + i) = c) \<longleftrightarrow> (\<exists>i<n. h (s + 1 + i) = c)" using False by (auto simp: less_Suc_eq_0_disj)
    have "(LEAST i. h (s + i) = c) = Suc (LEAST i. h (s + Suc i) = c)" if e: "\<exists>i<n. h (s + 1 + i) = c"
    proof -
      obtain i where "h (s + Suc i) = c" using e by auto
      then show ?thesis using False Least_Suc[of "\<lambda>i. h (s + i) = c" "Suc i"] by simp
    qed
    then show ?thesis using False Suc.IH[of "s + 1"] ex by auto
  qed
qed simp

end
