(* ===== verification/Mailbox.thy ===== *)
theory Mailbox
  imports Threads Mem_Pool Kstack Sem Libc_String
begin

text \<open>
  Mailboxes, \<^verbatim>\<open>kernel/unified/mailbox.c\<close>, built with asynchronous messages (\<^verbatim>\<open>CONFIG_NUM_MBOX_ASYNC_MSGS\<close> above 0, the
  default).  A message descriptor is found through its address, which a waiting thread keeps in its swap
  data.  A sender and a receiver are matched in the order they wait; the sender goes on waiting, off every
  queue, until the receiver has taken the data.  An asynchronous message is sent by a dummy thread that
  contains the descriptor.
\<close>

section \<open>Data\<close>

text \<open>The fields for the legacy interface, \<^verbatim>\<open>_mailbox\<close> and \<^verbatim>\<open>_rx_data\<close>, are not used by the source and left out.\<close>

record k_mbox_msg =
  msg_size :: u32
  msg_info :: u32
  tx_data :: addr
  tx_block :: k_mem_block
  rx_source_thread :: tid
  tx_target_thread :: tid
  syncing_thread :: tid
  async_sem :: addr

record k_mbox =
  tx_msg_queue :: wqid
  rx_msg_queue :: wqid

definition K_ANY :: tid where "K_ANY = NULL"

text \<open>
  What the mailbox code reaches through pointers: descriptors, data, memory pools (by their wait queue),
  semaphores, the stack of unused asynchronous descriptors, and the place of the message descriptor in an
  asynchronous descriptor.
\<close>

record mbox_env =
  msgs :: "addr \<Rightarrow> k_mbox_msg"
  msg_bytes :: bytes
  mem_pools :: "wqid \<Rightarrow> k_mem_pool"
  msg_sems :: "addr \<Rightarrow> k_sem"
  msg_groups :: sem_groups
  async_msg_free :: k_stack
  async_buf :: "addr \<Rightarrow> u32"
  async_tx_msg :: "tid \<Rightarrow> addr"

type_synonym 'z mbox_state = "mbox_env \<times> 'z kernel_scheme"

definition upd_msg :: "mbox_env \<Rightarrow> addr \<Rightarrow> (k_mbox_msg \<Rightarrow> k_mbox_msg) \<Rightarrow> mbox_env" where
  "upd_msg e a f = e\<lparr>msgs := (msgs e)(a := f (msgs e a))\<rparr>"

section \<open>Operations\<close>

definition mbox_async_alloc :: "kconfig \<Rightarrow> 'z mbox_state \<Rightarrow> (int \<times> u32 option) option \<times> 'z mbox_state" where
  "mbox_async_alloc c = (\<lambda>(e, k).
     case k_stack_pop c (async_msg_free e, async_buf e, k) K_FOREVER of
       (r, s, buf, k1) \<Rightarrow> (r, e\<lparr>async_msg_free := s, async_buf := buf\<rparr>, k1))"

definition mbox_async_free :: "kconfig \<Rightarrow> 'z mbox_state \<Rightarrow> tid \<Rightarrow> 'z mbox_state" where
  "mbox_async_free c = (\<lambda>(e, k) async.
     case k_stack_push c (async_msg_free e, async_buf e, k) (of_nat async) of
       (s, buf, k1) \<Rightarrow> (e\<lparr>async_msg_free := s, async_buf := buf\<rparr>, k1))"

definition init_mbox_module :: "kconfig \<Rightarrow> 'z mbox_state \<Rightarrow> tid list \<Rightarrow> 'z mbox_state" where
  "init_mbox_module c s async_msg =
     fold (\<lambda>t (e, k). mbox_async_free c (e, init_thread_base k t 0 K_DUMMY 0) t) async_msg s"

definition k_mbox_init :: "'z kernel_scheme \<Rightarrow> k_mbox \<Rightarrow> 'z kernel_scheme" where
  "k_mbox_init k mbox = upd_queue (upd_queue k (WaitQ (tx_msg_queue mbox)) (\<lambda>_. [])) (WaitQ (rx_msg_queue mbox)) (\<lambda>_. [])"

text \<open>\<open>None\<close> stands for the result -1, otherwise the two descriptors after the match.\<close>

definition mbox_message_match :: "k_mbox_msg \<Rightarrow> k_mbox_msg \<Rightarrow> (k_mbox_msg \<times> k_mbox_msg) option" where
  "mbox_message_match tx rx =
     (if (tx_target_thread tx = K_ANY \<or> tx_target_thread tx = tx_target_thread rx) \<and>
         (rx_source_thread rx = K_ANY \<or> rx_source_thread rx = rx_source_thread tx)
      then let rx1 = rx\<lparr>rx_source_thread := rx_source_thread tx, msg_info := msg_info tx,
                 msg_size := if msg_size rx > msg_size tx then msg_size tx else msg_size rx,
                 tx_data := tx_data tx, tx_block := tx_block tx\<rparr>;
               rx2 = (if tx_data rx1 \<noteq> NULL then rx1\<lparr>tx_block := (tx_block rx1)\<lparr>pool_id := NULL\<rparr>\<rparr>
                      else if pool_id (tx_block rx1) \<noteq> NULL then rx1\<lparr>tx_data := block_data (tx_block rx1)\<rparr>
                      else rx1)
           in Some (tx\<lparr>tx_target_thread := tx_target_thread rx, msg_info := msg_info rx\<rparr>,
                    rx2\<lparr>syncing_thread := syncing_thread tx\<rparr>)
      else None)"

text \<open>The part of \<^verbatim>\<open>_mbox_message_dispose\<close> after the block has been released.\<close>

definition notify_sender :: "kconfig \<Rightarrow> 'z mbox_state \<Rightarrow> addr \<Rightarrow> 'z mbox_state" where
  "notify_sender c = (\<lambda>(e, k) rx_msg.
     let sending_thread = syncing_thread (msgs e rx_msg);
         e1 = upd_msg e rx_msg (\<lambda>m. m\<lparr>syncing_thread := NULL\<rparr>);
         tx_msg = swap_data (thread k sending_thread);
         e2 = upd_msg e1 tx_msg (\<lambda>m. m\<lparr>msg_size := msg_size (msgs e1 rx_msg)\<rparr>)
     in if flags (thread k sending_thread) AND K_DUMMY \<noteq> 0
        then let sem = async_sem (msgs e2 tx_msg)
             in case mbox_async_free c (e2, k) sending_thread of (e3, k3) \<Rightarrow>
                  if sem \<noteq> NULL
                  then case k_sem_give c (msg_groups e3) (msg_sems e3 sem) k3 of
                         (g, s, k4) \<Rightarrow> (e3\<lparr>msg_groups := g, msg_sems := (msg_sems e3)(sem := s)\<rparr>, k4)
                  else (e3, k3)
        else let k1 = set_thread_return_value k sending_thread 0;
                 k2 = mark_thread_as_not_pending k1 sending_thread;
                 k3 = ready_thread c k2 sending_thread
             in (e2, reschedule_threads c k3))"

definition mbox_message_dispose :: "defrag_policy \<Rightarrow> kconfig \<Rightarrow> 'z mbox_state \<Rightarrow> addr \<Rightarrow> 'z mbox_state option" where
  "mbox_message_dispose pol c = (\<lambda>(e, k) rx_msg.
     let m = msgs e rx_msg; w = pool_id (tx_block m)
     in if syncing_thread m = NULL then Some (e, k)
        else if w \<noteq> NULL
        then (case k_mem_pool_free pol c (mem_pools e w, k) (tx_block m) of None \<Rightarrow> None
              | Some (p, k1) \<Rightarrow>
                  Some (notify_sender c (upd_msg (e\<lparr>mem_pools := (mem_pools e)(w := p)\<rparr>) rx_msg
                    (\<lambda>m. m\<lparr>tx_block := (tx_block m)\<lparr>pool_id := NULL\<rparr>\<rparr>), k1) rx_msg))
        else Some (notify_sender c (e, k) rx_msg))"

text \<open>The search of a queue for a thread whose message matches, with the descriptors after the match.\<close>

fun first_match :: "(tid \<Rightarrow> (k_mbox_msg \<times> k_mbox_msg) option) \<Rightarrow> tid list \<Rightarrow> (tid \<times> k_mbox_msg \<times> k_mbox_msg) option" where
  "first_match f [] = None"
| "first_match f (t # ts) = (case f t of None \<Rightarrow> first_match f ts | Some m \<Rightarrow> Some (t, m))"

text \<open>\<open>None\<close>: the sender waits; its return value is in its thread when it runs again.\<close>

definition mbox_message_put :: "kconfig \<Rightarrow> k_mbox \<Rightarrow> 'z mbox_state \<Rightarrow> addr \<Rightarrow> int \<Rightarrow> int option \<times> 'z mbox_state" where
  "mbox_message_put c mbox = (\<lambda>(e, k) tx_msg timeout.
     let e1 = upd_msg e tx_msg (\<lambda>m. m\<lparr>rx_source_thread := current k\<rparr>);
         sending_thread = syncing_thread (msgs e1 tx_msg);
         k1 = upd_thread k sending_thread (\<lambda>th. th\<lparr>swap_data := tx_msg\<rparr>);
         dummy = (flags (thread k1 sending_thread) AND K_DUMMY \<noteq> 0)
     in case first_match (\<lambda>t. mbox_message_match (msgs e1 tx_msg) (msgs e1 (swap_data (thread k1 t))))
               (queues k1 (WaitQ (rx_msg_queue mbox))) of
          Some (receiving_thread, tx', rx') \<Rightarrow>
            let e2 = e1\<lparr>msgs := (msgs e1)(tx_msg := tx', swap_data (thread k1 receiving_thread) := rx')\<rparr>;
                k2 = snd (abort_thread_timeout (unpend_thread k1 receiving_thread) receiving_thread);
                k3 = ready_thread c (set_thread_return_value k2 receiving_thread 0) receiving_thread
            in if dummy then (Some 0, e2, reschedule_threads c k3)
               else let k4 = remove_thread_from_ready_q c k3 (current k3);
                        k5 = mark_thread_as_pending k4 (current k4)
                    in (None, e2, Swap c k5)
        | None \<Rightarrow>
            if timeout = K_NO_WAIT then (Some (- ENOMSG), e1, k1)
            else if dummy then (Some 0, e1, pend_thread c k1 sending_thread (tx_msg_queue mbox) K_FOREVER)
            else (None, e1, Swap c (pend_current_thread c k1 (tx_msg_queue mbox) timeout)))"

definition k_mbox_put :: "kconfig \<Rightarrow> k_mbox \<Rightarrow> 'z mbox_state \<Rightarrow> addr \<Rightarrow> int \<Rightarrow> int option \<times> 'z mbox_state" where
  "k_mbox_put c mbox = (\<lambda>(e, k) tx_msg timeout.
     mbox_message_put c mbox (upd_msg e tx_msg (\<lambda>m. m\<lparr>syncing_thread := current k\<rparr>), k) tx_msg timeout)"

text \<open>
  \<^verbatim>\<open>k_mbox_async_put\<close> waits for an unused descriptor; the rest of it, with the descriptor \<open>async\<close>, is \<open>async_send\<close>.
\<close>

definition async_send :: "kconfig \<Rightarrow> k_mbox \<Rightarrow> 'z mbox_state \<Rightarrow> addr \<Rightarrow> addr \<Rightarrow> tid \<Rightarrow> 'z mbox_state" where
  "async_send c mbox = (\<lambda>(e, k) tx_msg sem async.
     let k1 = upd_thread k async (\<lambda>th. th\<lparr>prio := prio (thread k (current k))\<rparr>);
         a = async_tx_msg e async;
         e1 = upd_msg e a (\<lambda>_. (msgs e tx_msg)\<lparr>syncing_thread := async, async_sem := sem\<rparr>)
     in snd (mbox_message_put c mbox (e1, k1) a K_FOREVER))"

definition k_mbox_async_put :: "kconfig \<Rightarrow> k_mbox \<Rightarrow> 'z mbox_state \<Rightarrow> addr \<Rightarrow> addr \<Rightarrow> bool \<times> 'z mbox_state" where
  "k_mbox_async_put c mbox s tx_msg sem =
     (case mbox_async_alloc c s of
        (Some (r, Some a), s1) \<Rightarrow> (True, async_send c mbox s1 tx_msg sem (unat a))
      | (_, s1) \<Rightarrow> (False, s1))"

definition k_mbox_async_put_resume :: "kconfig \<Rightarrow> k_mbox \<Rightarrow> 'z mbox_state \<Rightarrow> addr \<Rightarrow> addr \<Rightarrow> 'z mbox_state" where
  "k_mbox_async_put_resume c mbox s tx_msg sem =
     (case k_stack_pop_resume (snd s) of
        (r, Some a) \<Rightarrow> async_send c mbox s tx_msg sem (unat a)
      | (r, None) \<Rightarrow> s)"

definition k_mbox_data_get :: "defrag_policy \<Rightarrow> kconfig \<Rightarrow> 'z mbox_state \<Rightarrow> addr \<Rightarrow> addr \<Rightarrow> 'z mbox_state option" where
  "k_mbox_data_get pol c = (\<lambda>(e, k) rx_msg buffer.
     let m = msgs e rx_msg
     in if buffer = NULL then mbox_message_dispose pol c (upd_msg e rx_msg (\<lambda>m. m\<lparr>msg_size := 0\<rparr>), k) rx_msg
        else mbox_message_dispose pol c
               (if tx_data m \<noteq> NULL \<and> msg_size m > 0
                then e\<lparr>msg_bytes := memcpy (msg_bytes e) buffer (tx_data m) (unat (msg_size m))\<rparr> else e, k) rx_msg)"

text \<open>
  \<^verbatim>\<open>k_mbox_data_block_get\<close>: the result is \<open>None\<close> while the caller waits for memory; \<open>finish_block_get\<close> is what follows
  the allocation.
\<close>

definition finish_block_get ::
  "defrag_policy \<Rightarrow> kconfig \<Rightarrow> 'z mbox_state \<Rightarrow> addr \<Rightarrow> int \<Rightarrow> k_mem_block \<Rightarrow> (int \<times> k_mem_block \<times> 'z mbox_state) option" where
  "finish_block_get pol c s rx_msg result block =
     (if result \<noteq> 0 then Some (result, block, s)
      else map_option (\<lambda>s1. (0, block, s1)) (k_mbox_data_get pol c s rx_msg (block_data block)))"

definition k_mbox_data_block_get ::
  "defrag_policy \<Rightarrow> kconfig \<Rightarrow> 'z mbox_state \<Rightarrow> addr \<Rightarrow> wqid \<Rightarrow> k_mem_block \<Rightarrow> int \<Rightarrow>
     (int option \<times> k_mem_block \<times> 'z mbox_state) option" where
  "k_mbox_data_block_get pol c = (\<lambda>(e, k) rx_msg pool block timeout.
     let m = msgs e rx_msg
     in if pool = NULL
        then map_option (\<lambda>s. (Some 0, block, s))
               (mbox_message_dispose pol c (upd_msg e rx_msg (\<lambda>m. m\<lparr>msg_size := 0\<rparr>), k) rx_msg)
        else if pool_id (tx_block m) \<noteq> NULL
        then map_option (\<lambda>s. (Some 0, tx_block m, s))
               (mbox_message_dispose pol c (upd_msg e rx_msg (\<lambda>m. m\<lparr>tx_block := (tx_block m)\<lparr>pool_id := NULL\<rparr>\<rparr>), k) rx_msg)
        else case k_mem_pool_alloc pol c (mem_pools e pool, k) block (msg_size m) timeout of
               None \<Rightarrow> None
             | Some (None, block1, p, k1) \<Rightarrow> Some (None, block1, e\<lparr>mem_pools := (mem_pools e)(pool := p)\<rparr>, k1)
             | Some (Some result, block1, p, k1) \<Rightarrow>
                 map_option (map_prod Some id)
                   (finish_block_get pol c (e\<lparr>mem_pools := (mem_pools e)(pool := p)\<rparr>, k1) rx_msg result block1))"

definition k_mbox_data_block_get_resume ::
  "defrag_policy \<Rightarrow> kconfig \<Rightarrow> 'z mbox_state \<Rightarrow> addr \<Rightarrow> wqid \<Rightarrow> k_mem_block \<Rightarrow> (int \<times> k_mem_block \<times> 'z mbox_state) option" where
  "k_mbox_data_block_get_resume pol c = (\<lambda>(e, k) rx_msg pool block.
     case k_mem_pool_alloc_resume (mem_pools e pool) k block (msg_size (msgs e rx_msg)) of
       (result, block1) \<Rightarrow> finish_block_get pol c (e, k) rx_msg result block1)"

definition mbox_message_data_check :: "defrag_policy \<Rightarrow> kconfig \<Rightarrow> 'z mbox_state \<Rightarrow> addr \<Rightarrow> addr \<Rightarrow> 'z mbox_state option" where
  "mbox_message_data_check pol c s rx_msg buffer =
     (if buffer \<noteq> NULL then k_mbox_data_get pol c s rx_msg buffer
      else if msg_size (msgs (fst s) rx_msg) = 0 then mbox_message_dispose pol c s rx_msg
      else Some s)"

definition k_mbox_get ::
  "defrag_policy \<Rightarrow> kconfig \<Rightarrow> k_mbox \<Rightarrow> 'z mbox_state \<Rightarrow> addr \<Rightarrow> addr \<Rightarrow> int \<Rightarrow> (int option \<times> 'z mbox_state) option" where
  "k_mbox_get pol c mbox = (\<lambda>(e, k) rx_msg buffer timeout.
     let e1 = upd_msg e rx_msg (\<lambda>m. m\<lparr>tx_target_thread := current k\<rparr>)
     in case first_match (\<lambda>t. mbox_message_match (msgs e1 (swap_data (thread k t))) (msgs e1 rx_msg))
               (queues k (WaitQ (tx_msg_queue mbox))) of
          Some (sending_thread, tx', rx') \<Rightarrow>
            let e2 = e1\<lparr>msgs := (msgs e1)(swap_data (thread k sending_thread) := tx', rx_msg := rx')\<rparr>;
                k1 = snd (abort_thread_timeout (unpend_thread k sending_thread) sending_thread)
            in map_option (\<lambda>s. (Some 0, s)) (mbox_message_data_check pol c (e2, k1) rx_msg buffer)
        | None \<Rightarrow> Some
            (if timeout = K_NO_WAIT then (Some (- ENOMSG), e1, k)
             else let k1 = pend_current_thread c k (rx_msg_queue mbox) timeout;
                      k2 = upd_thread k1 (current k1) (\<lambda>th. th\<lparr>swap_data := rx_msg\<rparr>)
                  in (None, e1, Swap c k2)))"

definition k_mbox_get_resume ::
  "defrag_policy \<Rightarrow> kconfig \<Rightarrow> 'z mbox_state \<Rightarrow> addr \<Rightarrow> addr \<Rightarrow> (int \<times> 'z mbox_state) option" where
  "k_mbox_get_resume pol c = (\<lambda>(e, k) rx_msg buffer.
     let result = swap_return_value (thread k (current k))
     in if result = 0 then map_option (\<lambda>s. (0, s)) (mbox_message_data_check pol c (e, k) rx_msg buffer)
        else Some (result, e, k))"

section \<open>Matching\<close>

lemma first_match_split:
  "\<forall>u \<in> set us. f u = None \<Longrightarrow> f t = Some m \<Longrightarrow> first_match f (us @ t # vs) = Some (t, m)"
  by (induction us) auto

abbreviation compatible :: "k_mbox_msg \<Rightarrow> k_mbox_msg \<Rightarrow> bool" where
  "compatible tx rx \<equiv> (tx_target_thread tx = K_ANY \<or> tx_target_thread tx = tx_target_thread rx) \<and>
     (rx_source_thread rx = K_ANY \<or> rx_source_thread rx = rx_source_thread tx)"

lemma match_iff: "mbox_message_match tx rx = None \<longleftrightarrow> \<not> compatible tx rx"
  by (auto simp: mbox_message_match_def Let_def)

text \<open>What a match does for a message with its data in a buffer of the sender.\<close>

definition sent :: "k_mbox_msg \<Rightarrow> k_mbox_msg \<Rightarrow> k_mbox_msg" where
  "sent tx rx = tx\<lparr>tx_target_thread := tx_target_thread rx, msg_info := msg_info rx\<rparr>"

definition received :: "k_mbox_msg \<Rightarrow> k_mbox_msg \<Rightarrow> k_mbox_msg" where
  "received tx rx = rx\<lparr>rx_source_thread := rx_source_thread tx, msg_info := msg_info tx,
     msg_size := min (msg_size tx) (msg_size rx), tx_data := tx_data tx, tx_block := (tx_block tx)\<lparr>pool_id := NULL\<rparr>,
     syncing_thread := syncing_thread tx\<rparr>"

lemma match_some:
  assumes "compatible tx rx" "tx_data tx \<noteq> NULL"
  shows "mbox_message_match tx rx = Some (sent tx rx, received tx rx)"
proof -
  have "(if msg_size rx > msg_size tx then msg_size tx else msg_size rx) = min (msg_size tx) (msg_size rx)"
    by (auto simp: min_def not_le)
  then show ?thesis using assms by (simp add: mbox_message_match_def Let_def sent_def received_def)
qed

section \<open>Hand-over\<close>

text \<open>
  However the sender has been left waiting, queued and then taken off by the receiver, or off every queue,
  disposing of the message wakes it as serving the first waiter of an object does.
\<close>

lemma clear_pending_twice:
  "mark_thread_as_not_pending (set_thread_return_value (mark_thread_as_not_pending k t) t v) t =
     set_thread_return_value (mark_thread_as_not_pending k t) t v"
proof -
  have "w AND NOT K_PENDING AND NOT K_PENDING = w AND NOT K_PENDING" for w by (simp add: and.assoc)
  then show ?thesis by (cases "thread k t") (simp add: mark_defs upd_thread_def)
qed

lemma woken_alt:
  "ready_thread c (set_thread_return_value (snd (abort_thread_timeout (unpend_thread k t) t)) t v) t = woken c k t v"
  by (simp add: woken_def wake_def mark_defs ready_thread_upd_thread)

lemma notify_taken_off:
  "ready_thread c (mark_thread_as_not_pending
     (set_thread_return_value (snd (abort_thread_timeout (unpend_thread k t) t)) t v) t) t = woken c k t v"
proof -
  have a: "snd (abort_thread_timeout (mark_thread_as_not_pending k' t) t) =
      mark_thread_as_not_pending (snd (abort_thread_timeout k' t)) t" for k' :: "'a kernel_scheme"
    by (simp add: abort_thread_timeout_def mark_defs abort_upd_thread)
  show ?thesis unfolding woken_alt[symmetric] by (simp add: unpend_thread_def a clear_pending_twice)
qed

lemma unpend_off_queue:
  assumes "\<And>q. t \<notin> set (queues k q)" "delta k (ThreadTO t) = -1"
  shows "snd (abort_thread_timeout (unpend_thread k t) t) = mark_thread_as_not_pending k t"
proof -
  have "unlink_node k t = k" using assms(1) by (simp add: unlink_node_def remove1_idem)
  then show ?thesis using assms(2) by (simp add: unpend_thread_def abort_thread_timeout_def abort_inactive mark_defs)
qed

lemma notify_off_queue:
  assumes "\<And>q. t \<notin> set (queues k q)" "delta k (ThreadTO t) = -1"
  shows "ready_thread c (mark_thread_as_not_pending (set_thread_return_value k t v) t) t = woken c k t v"
proof -
  have "mark_thread_as_not_pending (set_thread_return_value k t v) t = set_thread_return_value (mark_thread_as_not_pending k t) t v"
    by (cases "thread k t") (simp add: mark_defs upd_thread_def)
  then show ?thesis
    using notify_taken_off[of c k t v] unfolding unpend_off_queue[OF assms] by (simp add: clear_pending_twice)
qed

text \<open>Disposing of a message of a synchronous sender.\<close>

lemma dispose_sync:
  assumes "syncing_thread (msgs e rx) = t" "t \<noteq> NULL" "pool_id (tx_block (msgs e rx)) = NULL"
    "flags (thread k t) AND K_DUMMY = 0" "swap_data (thread k t) = tx" "tx \<noteq> rx"
  shows "mbox_message_dispose pol c (e, k) rx =
    Some (e\<lparr>msgs := (msgs e)(rx := (msgs e rx)\<lparr>syncing_thread := NULL\<rparr>, tx := (msgs e tx)\<lparr>msg_size := msg_size (msgs e rx)\<rparr>)\<rparr>,
      reschedule_threads c (ready_thread c (mark_thread_as_not_pending (set_thread_return_value k t 0) t) t))"
  using assms by (simp add: mbox_message_dispose_def notify_sender_def upd_msg_def Let_def)

text \<open>A receiver finds a waiting sender: the message and its data are handed over and the sender goes on.\<close>

definition exchanged :: "mbox_env \<Rightarrow> addr \<Rightarrow> addr \<Rightarrow> addr \<Rightarrow> k_mbox_msg \<Rightarrow> k_mbox_msg \<Rightarrow> mbox_env \<Rightarrow> bool" where
  "exchanged e tx rx buffer m r e' \<longleftrightarrow>
     msgs e' = (msgs e)(tx := (sent m r)\<lparr>msg_size := min (msg_size m) (msg_size r)\<rparr>,
       rx := (received m r)\<lparr>syncing_thread := NULL\<rparr>) \<and>
     msg_bytes e' = copied (msg_bytes e) buffer (tx_data m) (unat (min (msg_size m) (msg_size r)))"

lemma data_get_sync:
  assumes m: "msgs e rx = received m r" "msgs e tx = sent m r" "syncing_thread m = t" "t \<noteq> NULL" "tx_data m \<noteq> NULL"
    and t: "flags (thread k t) AND K_DUMMY = 0" "swap_data (thread k t) = tx" "tx \<noteq> rx"
    and b: "buffer \<noteq> NULL" "disjoint_areas buffer (tx_data m) (unat (min (msg_size m) (msg_size r)))"
  shows "\<exists>e'. k_mbox_data_get pol c (e, k) rx buffer =
      Some (e', reschedule_threads c (ready_thread c (mark_thread_as_not_pending (set_thread_return_value k t 0) t) t)) \<and>
    exchanged e tx rx buffer m r e'"
proof -
  let ?n = "min (msg_size m) (msg_size r)"
  let ?e = "e\<lparr>msg_bytes := copied (msg_bytes e) buffer (tx_data m) (unat ?n)\<rparr>"
  have n: "msg_size (msgs e rx) = ?n" "tx_data (msgs e rx) = tx_data m" "syncing_thread (msgs e rx) = t"
      "pool_id (tx_block (msgs e rx)) = NULL"
    using m(1,3) by (simp_all add: received_def)
  have "k_mbox_data_get pol c (e, k) rx buffer = mbox_message_dispose pol c (?e, k) rx"
  proof (cases "?n = 0")
    case True
    then show ?thesis using b(1) n(1) by (simp add: k_mbox_data_get_def Let_def)
  next
    case False
    then show ?thesis using b(1) m(5) n memcpy_copied[OF b(2), of "msg_bytes e"] by (simp add: k_mbox_data_get_def Let_def word_gt_0)
  qed
  then show ?thesis
    using dispose_sync[of ?e rx t k tx pol c] n m(1,2,4) t
    by (simp add: exchanged_def fun_upd_twist[OF t(3)])
qed

lemma get_from_sender:
  fixes e :: mbox_env and rx :: addr and k :: "'z kernel_scheme"
  defines "r \<equiv> (msgs e rx)\<lparr>tx_target_thread := current k\<rparr>" and "m \<equiv> \<lambda>u. msgs e (swap_data (thread k u))"
  assumes inv: "kernel_inv c X k" and q: "queues k (WaitQ (tx_msg_queue mbox)) = us @ t # vs"
    and us: "\<forall>u \<in> set us. swap_data (thread k u) \<noteq> rx \<and> \<not> compatible (m u) r"
    and t: "swap_data (thread k t) \<noteq> rx" "compatible (m t) r" "tx_data (m t) \<noteq> NULL" "syncing_thread (m t) = t"
      "flags (thread k t) AND K_DUMMY = 0"
    and b: "buffer \<noteq> NULL" "disjoint_areas buffer (tx_data (m t)) (unat (min (msg_size (m t)) (msg_size r)))"
  shows "\<exists>e'. k_mbox_get pol c mbox (e, k) rx buffer timeout = Some (Some 0, e', reschedule_threads c (woken c k t 0)) \<and>
      exchanged e (swap_data (thread k t)) rx buffer (m t) r e'"
    "kernel_inv c X (reschedule_threads c (woken c k t 0))"
proof -
  let ?tx = "swap_data (thread k t)" and ?e1 = "upd_msg e rx (\<lambda>m. m\<lparr>tx_target_thread := current k\<rparr>)"
  let ?e2 = "?e1\<lparr>msgs := (msgs ?e1)(?tx := sent (m t) r, rx := received (m t) r)\<rparr>"
  let ?k1 = "snd (abort_thread_timeout (unpend_thread k t) t)"
  have e1: "msgs ?e1 rx = r" "swap_data (thread k u) \<noteq> rx \<Longrightarrow> msgs ?e1 (swap_data (thread k u)) = m u" for u
    by (simp_all add: upd_msg_def r_def m_def)
  have tq: "t \<in> set (queues k (WaitQ (tx_msg_queue mbox)))" by (simp add: q)
  have p: "is_thread_pending k t" "t \<notin> X" "t \<noteq> NULL"
    using inv tq sched_invD(5,7,8)[of c X k] unfolding kernel_inv_def by metis+
  have "first_match (\<lambda>u. mbox_message_match (msgs ?e1 (swap_data (thread k u))) (msgs ?e1 rx)) (us @ t # vs) =
      Some (t, sent (m t) r, received (m t) r)"
    by (rule first_match_split) (use us t e1 in \<open>auto simp: match_iff match_some\<close>)
  then have g: "k_mbox_get pol c mbox (e, k) rx buffer timeout =
      map_option (\<lambda>s. (Some 0, s)) (k_mbox_data_get pol c (?e2, ?k1) rx buffer)"
    using b(1) by (simp add: k_mbox_get_def q Let_def mbox_message_data_check_def)
  have f: "flags (thread ?k1 t) AND K_DUMMY = 0" "swap_data (thread ?k1 t) = ?tx"
    using t(5) by (auto simp: abort_thread_timeout_def flag_tests bit_ops_flags)
  obtain e' where "k_mbox_data_get pol c (?e2, ?k1) rx buffer = Some (e', reschedule_threads c (woken c k t 0))"
      "exchanged ?e2 ?tx rx buffer (m t) r e'"
    using data_get_sync[of ?e2 rx "m t" r ?tx t ?k1 buffer pol c] t p(3) f b by (auto simp: notify_taken_off)
  then show "\<exists>e'. k_mbox_get pol c mbox (e, k) rx buffer timeout = Some (Some 0, e', reschedule_threads c (woken c k t 0)) \<and>
      exchanged e ?tx rx buffer (m t) r e'"
    using g t(1) by (auto simp: exchanged_def upd_msg_def)
  show "kernel_inv c X (reschedule_threads c (woken c k t 0))"
    using wake_inv(1)[OF inv p(1,2)] unfolding woken_def by (intro reschedule_inv kernel_inv_set_return)
qed

text \<open>A sender finds a waiting receiver: the receiver is woken with the message, the sender waits off every queue.\<close>

definition off_queues :: "'z kernel_scheme \<Rightarrow> tid \<Rightarrow> bool" where
  "off_queues k t \<longleftrightarrow> is_thread_pending k t \<and> (\<forall>q. t \<notin> set (queues k q)) \<and> delta k (ThreadTO t) = -1"

lemma pend_off_queues:
  assumes b: "may_block c X k"
  defines "k' \<equiv> mark_thread_as_pending (remove_thread_from_ready_q c k (current k)) (current k)"
  shows "kernel_inv c X k'" "off_queues k' (current k)"
proof -
  let ?t = "current k" and ?k1 = "remove_thread_from_ready_q c k (current k)"
  have s: "sched_inv c X k" and id: "idle_ready c X k" and t: "?t \<notin> X" "is_thread_ready k ?t" and ni: "?t \<noteq> idle_thread c"
    using b by (auto simp: may_block_def kernel_inv_def thread_ctx_def)
  have v: "?t \<noteq> NULL" "valid_prio c (prio (thread k ?t))" "delta k (ThreadTO ?t) = -1"
    using t sched_invD(5,10)[OF s] ready_inactive by metis+
  have i1: "sched_inv c (insert ?t X) ?k1" by (rule remove_ready_inv[OF s t])
  then have i2: "sched_inv c (insert ?t X) k'" unfolding k'_def mark_thread_as_pending_def by (rule sched_inv_upd_X) simp
  have pend: "is_thread_pending k' ?t" by (simp add: k'_def mark_defs pending_bit bit_ops_flags)
  have d: "delta k' (ThreadTO ?t) = -1" using v(3) by (simp add: k'_def mark_defs)
  have "sched_inv c (insert ?t X - {?t}) k'"
    by (rule sched_inv_admit[OF i2]) (use v pending_not_ready[OF pend] d in \<open>simp_all add: k'_def mark_defs\<close>)
  moreover have "idle_ready c X k'"
    using id ni unfolding k'_def mark_thread_as_pending_def by (intro idle_ready_other) auto
  ultimately show "kernel_inv c X k'" using t(1) by (simp add: kernel_inv_def)
  show "off_queues k' ?t" using pend d sched_invD(7)[OF i2, of ?t] by (simp add: off_queues_def)
qed

lemma put_to_receiver:
  fixes e :: mbox_env and tx :: addr and k :: "'z kernel_scheme"
  defines "m \<equiv> (msgs e tx)\<lparr>syncing_thread := current k, rx_source_thread := current k\<rparr>" and "r \<equiv> \<lambda>u. msgs e (swap_data (thread k u))"
  assumes b: "may_block c X k" and q: "queues k (WaitQ (rx_msg_queue mbox)) = us @ t # vs"
    and us: "\<forall>u \<in> set us. swap_data (thread k u) \<noteq> tx \<and> \<not> compatible m (r u)"
    and t: "swap_data (thread k t) \<noteq> tx" "compatible m (r t)" "tx_data m \<noteq> NULL"
    and p: "k_mbox_put c mbox (e, k) tx timeout = (res, e', k')"
  shows "res = None" "msgs e' = (msgs e)(tx := sent m (r t), swap_data (thread k t) := received m (r t))"
    "kernel_inv c X k'" "off_queues k' (current k)" "swap_data (thread k' (current k)) = tx"
    "queues k' (WaitQ (rx_msg_queue mbox)) = us @ vs" "\<not> is_thread_pending k' t" "swap_return_value (thread k' t) = 0"
    "flags (thread k' (current k)) AND K_DUMMY = 0"
proof -
  let ?t = "current k" and ?k1 = "upd_thread k (current k) (\<lambda>th. th\<lparr>swap_data := tx\<rparr>)"
  let ?e1 = "e\<lparr>msgs := (msgs e)(tx := m)\<rparr>"
  have inv: "kernel_inv c X k" and rd: "is_thread_ready k ?t" "?t \<notin> X" "\<not> in_isr k" using b by (auto simp: may_block_def thread_ctx_def)
  have qs: "u \<in> set (us @ t # vs) \<Longrightarrow> is_thread_pending k u \<and> u \<notin> X" for u
    using inv sched_invD(7,8)[of c X k] unfolding kernel_inv_def q[symmetric] by metis
  then have ne: "u \<in> set (us @ t # vs) \<Longrightarrow> u \<noteq> ?t" for u using pending_not_ready rd(1) by metis
  have dist: "distinct (us @ t # vs)" using inv sched_invD(2)[of c X k] unfolding kernel_inv_def queues_wf_def q[symmetric] by metis
  have k1: "kernel_inv c X ?k1" "thread_ctx X ?k1" "is_thread_pending ?k1 t"
    using b qs[of t] by (auto simp: may_block_def kernel_inv_upd_thread is_thread_pending_def)
  let ?w = "woken c ?k1 t 0"
  have w: "may_block c X ?w" "current ?w = ?t"
    using b wake_inv(1)[OF k1(1,3)] wake_thread_ctx[OF k1(1,3) _ k1(2)] qs[of t]
    by (auto simp: may_block_def woken_def mark_defs kernel_inv_upd_thread)
  let ?k2 = "mark_thread_as_pending (remove_thread_from_ready_q c ?w ?t) ?t"
  have nd: "flags (thread k ?t) AND K_DUMMY = 0" using rd(1) by (auto simp: ready_bits flag_tests)
  have "first_match (\<lambda>u. mbox_message_match m (msgs ?e1 (swap_data (thread ?k1 u)))) (us @ t # vs) =
      Some (t, sent m (r t), received m (r t))"
    by (rule first_match_split) (use us t ne in \<open>auto simp: match_iff match_some r_def\<close>)
  then have fm: "first_match (\<lambda>u. mbox_message_match m (msgs ?e1 (swap_data (thread ?k1 u)))) (queues ?k1 (WaitQ (rx_msg_queue mbox))) =
      Some (t, sent m (r t), received m (r t))" by (simp add: q)
  have u: "upd_msg (upd_msg e tx (\<lambda>m. m\<lparr>syncing_thread := ?t\<rparr>)) tx (\<lambda>m. m\<lparr>rx_source_thread := ?t\<rparr>) = ?e1"
      "msgs ?e1 tx = m" "syncing_thread m = ?t" "flags (thread ?k1 ?t) AND K_DUMMY = 0" "swap_data (thread ?k1 t) = swap_data (thread k t)"
    using nd ne[of t] by (simp_all add: upd_msg_def m_def)
  have "(res, e', k') = (None, ?e1\<lparr>msgs := (msgs ?e1)(tx := sent m (r t), swap_data (thread k t) := received m (r t))\<rparr>, Swap c ?k2)"
    unfolding p[symmetric] k_mbox_put_def mbox_message_put_def prod.case Let_def u fm woken_alt option.case by (simp add: mark_defs)
  then have e: "res = None" "msgs e' = (msgs e)(tx := sent m (r t), swap_data (thread k t) := received m (r t))" "k' = Swap c ?k2"
    by auto
  show "res = None" "msgs e' = (msgs e)(tx := sent m (r t), swap_data (thread k t) := received m (r t))" by (fact e)+
  note po = pend_off_queues[OF w(1), unfolded w(2)]
  show "kernel_inv c X k'" using Swap_inv(1)[OF po(1)] by (simp add: e(3))
  show "off_queues k' ?t" using po(2) by (simp add: e(3) off_queues_def is_thread_pending_def)
  show "swap_data (thread k' ?t) = tx" by (simp add: e(3) mark_defs)
  have "t \<notin> set us" "?t \<notin> set (us @ vs)" using dist ne by auto
  then show "queues k' (WaitQ (rx_msg_queue mbox)) = us @ vs"
    by (simp add: e(3) mark_defs queues_remove q remove1_append remove1_idem)
  show "\<not> is_thread_pending k' t" "swap_return_value (thread k' t) = 0"
    using ne[of t] by (simp_all add: e(3) mark_defs pending_bit bit_ops_flags Swap_return_value)
  show "flags (thread k' ?t) AND K_DUMMY = 0" using nd ne[of t] by (auto simp: e(3) mark_defs flag_tests bit_ops_flags)
qed

text \<open>The receiver runs again and takes the data of a sender that waits off every queue.\<close>

lemma resume_takes_data:
  assumes inv: "kernel_inv c X k" and t: "off_queues k t" "t \<notin> X" "flags (thread k t) AND K_DUMMY = 0"
    and m: "msgs e rx = received m r" "msgs e (swap_data (thread k t)) = sent m r" "syncing_thread m = t" "tx_data m \<noteq> NULL"
      "swap_data (thread k t) \<noteq> rx" "swap_return_value (thread k (current k)) = 0"
    and b: "buffer \<noteq> NULL" "disjoint_areas buffer (tx_data m) (unat (min (msg_size m) (msg_size r)))"
  shows "\<exists>e'. k_mbox_get_resume pol c (e, k) rx buffer = Some (0, e', reschedule_threads c (woken c k t 0)) \<and>
      exchanged e (swap_data (thread k t)) rx buffer m r e'"
    "kernel_inv c X (reschedule_threads c (woken c k t 0))"
proof -
  have p: "is_thread_pending k t" "\<And>q. t \<notin> set (queues k q)" "delta k (ThreadTO t) = -1" using t(1) by (auto simp: off_queues_def)
  have "t \<noteq> NULL" using inv sched_invD(5)[of c X k] t(2) unfolding kernel_inv_def by metis
  from data_get_sync[OF m(1,2,3) this m(4) t(3) refl m(5) b, of pol c]
  show "\<exists>e'. k_mbox_get_resume pol c (e, k) rx buffer = Some (0, e', reschedule_threads c (woken c k t 0)) \<and>
      exchanged e (swap_data (thread k t)) rx buffer m r e'"
    using m(6) b(1) by (auto simp: k_mbox_get_resume_def mbox_message_data_check_def notify_off_queue[OF p(2,3)])
  show "kernel_inv c X (reschedule_threads c (woken c k t 0))"
    using wake_inv(1)[OF inv p(1) t(2)] unfolding woken_def by (intro reschedule_inv kernel_inv_set_return)
qed

text \<open>Receiving without a buffer leaves the data, and the sender, for later.\<close>

lemma get_keeps_sender:
  fixes e :: mbox_env and rx :: addr and k :: "'z kernel_scheme"
  defines "r \<equiv> (msgs e rx)\<lparr>tx_target_thread := current k\<rparr>" and "m \<equiv> \<lambda>u. msgs e (swap_data (thread k u))"
  assumes inv: "kernel_inv c X k" and q: "queues k (WaitQ (tx_msg_queue mbox)) = us @ t # vs"
    and us: "\<forall>u \<in> set us. swap_data (thread k u) \<noteq> rx \<and> \<not> compatible (m u) r"
    and t: "swap_data (thread k t) \<noteq> rx" "compatible (m t) r" "tx_data (m t) \<noteq> NULL"
      "\<not> bit (flags (thread k t)) 14" "\<not> bit (flags (thread k t)) 15" "\<not> bit (flags (thread k t)) 16" "\<not> bit (flags (thread k t)) 17"
    and sz: "min (msg_size (m t)) (msg_size r) \<noteq> 0"
  defines "k' \<equiv> snd (abort_thread_timeout (unpend_thread k t) t)"
  shows "\<exists>e'. k_mbox_get pol c mbox (e, k) rx NULL timeout = Some (Some 0, e', k')"
    "is_thread_ready k' t" "\<And>q. t \<notin> set (queues k' q)" "\<not> kernel_inv c X k'" "sched_inv c (insert t X) k'"
proof -
  let ?e1 = "upd_msg e rx (\<lambda>m. m\<lparr>tx_target_thread := current k\<rparr>)"
  have e1: "msgs ?e1 rx = r" "swap_data (thread k u) \<noteq> rx \<Longrightarrow> msgs ?e1 (swap_data (thread k u)) = m u" for u
    by (simp_all add: upd_msg_def r_def m_def)
  have tq: "t \<in> set (queues k (WaitQ (tx_msg_queue mbox)))" by (simp add: q)
  have s: "sched_inv c X k" and p: "is_thread_pending k t" "t \<notin> X"
    using inv tq sched_invD(7,8)[of c X k] unfolding kernel_inv_def by metis+
  have "first_match (\<lambda>u. mbox_message_match (msgs ?e1 (swap_data (thread k u))) (msgs ?e1 rx)) (us @ t # vs) =
      Some (t, sent (m t) r, received (m t) r)"
    by (rule first_match_split) (use us t e1 in \<open>auto simp: match_iff match_some\<close>)
  moreover have "msg_size (received (m t) r) \<noteq> 0" using sz by (simp add: received_def)
  ultimately show "\<exists>e'. k_mbox_get pol c mbox (e, k) rx NULL timeout = Some (Some 0, e', k')"
    by (simp add: k_mbox_get_def q Let_def mbox_message_data_check_def k'_def)
  have i1: "sched_inv c (insert t X) (unpend_thread k t)" by (rule unpend_thread_inv[OF s p(1)])
  show i2: "sched_inv c (insert t X) k'"
    using abort_thread_timeout_inv[OF i1, of t] sched_invD(7)[OF i1, of t] by (simp add: k'_def)
  show nq: "\<And>q. t \<notin> set (queues k' q)" using sched_invD(7)[OF i2, of t] by simp
  have "delta k' (ThreadTO t) = -1" by (simp add: k'_def abort_thread_timeout_def delta_abort_self)
  then show rdy: "is_thread_ready k' t" using t by (simp add: ready_bits k'_def abort_thread_timeout_def bit_ops_flags)
  show "\<not> kernel_inv c X k'"
    using rdy nq p(2) sched_invD(6)[of c X k'] unfolding kernel_inv_def ready_iff_queued_def by metis
qed

end
