(* ===== verification/Mailbox_Properties.thy ===== *)
theory Mailbox_Properties
  imports Mailbox Sample_System
begin

text \<open>
  Properties of mailboxes: the first compatible sender and receiver exchange their message, whichever of the
  two comes first, and the state a receiver leaves the sender in when it does not take the data at once.
\<close>

section \<open>The exchange\<close>

text \<open>Property C10: a receiver with a buffer takes the message of the first waiting sender that is compatible with
  it, passing over those that are not: the data, as many bytes as both sizes allow, are copied to the
  buffer, both descriptors are updated with the other thread, the other's information and the size,
  the sender leaves the queue and goes on with return value 0, and the kernel's invariant is kept.\<close>

theorem mbox_get_takes_message:
  assumes "kernel_inv c X k" "queues k (WaitQ (tx_msg_queue mbox)) = us @ t # vs"
    "r = (msgs e rx)\<lparr>tx_target_thread := current k\<rparr>" "tx = swap_data (thread k t)" "m = msgs e tx"
    "\<forall>u \<in> set us. swap_data (thread k u) \<noteq> rx \<and> \<not> compatible (msgs e (swap_data (thread k u))) r"
    "tx \<noteq> rx" "compatible m r" "tx_data m \<noteq> NULL" "syncing_thread m = t" "flags (thread k t) AND K_DUMMY = 0"
    "buffer \<noteq> NULL" "disjoint_areas buffer (tx_data m) (unat (min (msg_size m) (msg_size r)))"
  shows "\<exists>e' k'. k_mbox_get pol c mbox (e, k) rx buffer timeout = Some (Some 0, e', k') \<and>
    msg_bytes e' = copied (msg_bytes e) buffer (tx_data m) (unat (min (msg_size m) (msg_size r))) \<and>
    msgs e' = (msgs e)(tx := m\<lparr>tx_target_thread := current k, msg_info := msg_info r, msg_size := min (msg_size m) (msg_size r)\<rparr>,
      rx := (received m r)\<lparr>syncing_thread := NULL\<rparr>) \<and>
    kernel_inv c X k' \<and> queues k' (WaitQ (tx_msg_queue mbox)) = us @ vs \<and> \<not> is_thread_pending k' t \<and>
    (t \<noteq> current k \<longrightarrow> swap_return_value (thread k' t) = 0)"
proof -
  let ?k = "reschedule_threads c (woken c k t 0)"
  note g = get_from_sender(1)[OF assms(1,2), where rx = rx and e = e and pol = pol and timeout = timeout,
      folded assms(3,4), folded assms(5), OF assms(6-13)]
    get_from_sender(2)[OF assms(1,2), where rx = rx and e = e, folded assms(3,4), folded assms(5), OF assms(6-13)]
  obtain e' where e: "k_mbox_get pol c mbox (e, k) rx buffer timeout = Some (Some 0, e', ?k)" "exchanged e tx rx buffer m r e'"
    using g(1) by blast
  have "t \<notin> set us" using assms(1,2) sched_invD(2)[of c X k] unfolding kernel_inv_def queues_wf_def
    by (metis distinct_append distinct.simps(2) disjoint_insert(1) list.set(2))
  then have q: "queues ?k (WaitQ (tx_msg_queue mbox)) = us @ vs"
    using assms(2) by (simp add: reschedule_threads_def remove1_append)
  have n: "\<not> is_thread_pending ?k t" by (simp add: reschedule_threads_def pending_bit bit_ops_flags)
  have v: "t \<noteq> current k \<longrightarrow> swap_return_value (thread ?k t) = 0" by (simp add: reschedule_threads_def Swap_return_value)
  show ?thesis using e g(2) q n v assms(3) by (intro exI[of _ e'] exI[of _ ?k]) (simp add: exchanged_def sent_def)
qed

definition msg0 :: k_mbox_msg where
  "msg0 = \<lparr>msg_size = 8, msg_info = 0, tx_data = NULL, tx_block = \<lparr>pool_id = NULL, addr_in_pool = NULL, block_data = NULL, req_size = 0\<rparr>,
     rx_source_thread = NULL, tx_target_thread = NULL, syncing_thread = NULL, async_sem = NULL\<rparr>"

text \<open>Thread 4 waits with the descriptor at 610; the descriptors at 600 and 620 are unused.\<close>

definition mbox_sys0 :: kernel where
  "mbox_sys0 = upd_thread sys0 4 (\<lambda>th. th\<lparr>swap_data := 610\<rparr>)"

definition mbox_env0 :: mbox_env where
  "mbox_env0 = \<lparr>msgs = (\<lambda>_. msg0)(610 := msg0\<lparr>msg_size := 3, msg_info := 42, tx_data := 1000, rx_source_thread := 4, syncing_thread := 4\<rparr>,
       620 := msg0\<lparr>msg_size := 5, tx_data := 1000\<rparr>),
     msg_bytes = of_nat, mem_pools = (\<lambda>_. \<lparr>max_block_size = 64, min_block_size = 64, nr_of_maxblocks = 0, nr_of_block_sets = 0,
       block_set = [], bufblock = NULL, pool_wait_q = 0\<rparr>),
     msg_sems = (\<lambda>_. \<lparr>sem_wait_q = 500, count = 0, limit = 1\<rparr>), msg_groups = groups0,
     async_msg_free = \<lparr>stack_wait_q = 501, stack_base = 0, stack_next = 0, stack_top = 0\<rparr>, async_buf = (\<lambda>_. 0), async_tx_msg = id\<rparr>"

definition mbox0 :: k_mbox where "mbox0 = \<lparr>tx_msg_queue = 100, rx_msg_queue = 101\<rparr>"

lemma mbox_sys0_inv: "kernel_inv cfg0 X0 mbox_sys0" "may_block cfg0 X0 mbox_sys0"
  using sys0_inv sys0_ctx by (simp_all add: mbox_sys0_def may_block_def kernel_inv_upd_thread)

theorem mbox_get_takes_message_witness:
  "\<exists>e' k'. k_mbox_get NoDefrag cfg0 mbox0 (mbox_env0, mbox_sys0) 600 2000 K_NO_WAIT = Some (Some 0, e', k') \<and>
     map (msg_bytes e') [2000..<2004] = [232, 233, 234, 211] \<and> queues k' (WaitQ 100) = [5]"
proof -
  have m: "queues mbox_sys0 (WaitQ (tx_msg_queue mbox0)) = [] @ 4 # [5]" "swap_data (thread mbox_sys0 4) = 610" "current mbox_sys0 = 2"
      "flags (thread mbox_sys0 4) AND K_DUMMY = 0"
    by (simp_all add: mbox0_def mbox_sys0_def sys0_queues) (simp add: sys0_def thread0_def flag_tests bit_flags)
  show ?thesis
    using mbox_get_takes_message[OF mbox_sys0_inv(1) m(1) refl refl refl, where e = mbox_env0 and rx = 600 and buffer = 2000 and pol = NoDefrag and timeout = K_NO_WAIT]
    by (auto simp: m(2-4) mbox_env0_def msg0_def K_ANY_def disjoint_areas_def copied_def mbox0_def)
qed

text \<open>Property C9: a synchronous send to a waiting receiver delivers the descriptor to the first compatible receiver,
  which leaves the queue with return value 0, and the sender waits off every queue, with no timeout.
  Whenever the receiver runs again after that, while the sender still waits, it copies the data to its
  buffer and returns 0, and the sender is made ready with return value 0; the kernel's invariant is kept
  throughout.\<close>

theorem mbox_put_reaches_receiver:
  assumes "may_block c X k" "queues k (WaitQ (rx_msg_queue mbox)) = us @ t # vs"
    "m = (msgs e tx)\<lparr>syncing_thread := current k, rx_source_thread := current k\<rparr>" "rx = swap_data (thread k t)" "r = msgs e rx"
    "\<forall>u \<in> set us. swap_data (thread k u) \<noteq> tx \<and> \<not> compatible m (msgs e (swap_data (thread k u)))"
    "rx \<noteq> tx" "compatible m r" "tx_data m \<noteq> NULL"
    "buffer \<noteq> NULL" "disjoint_areas buffer (tx_data m) (unat (min (msg_size m) (msg_size r)))"
  shows "case k_mbox_put c mbox (e, k) tx timeout of (res, e', k') \<Rightarrow>
    res = None \<and> kernel_inv c X k' \<and> off_queues k' (current k) \<and>
    queues k' (WaitQ (rx_msg_queue mbox)) = us @ vs \<and> \<not> is_thread_pending k' t \<and> swap_return_value (thread k' t) = 0 \<and>
    (\<forall>k''. kernel_inv c X k'' \<and> off_queues k'' (current k) \<and> thread k'' (current k) = thread k' (current k) \<and>
       swap_return_value (thread k'' (current k'')) = 0 \<longrightarrow>
       (\<exists>e'' k3. k_mbox_get_resume pol c (e', k'') rx buffer = Some (0, e'', k3) \<and> kernel_inv c X k3 \<and> exchanged e' tx rx buffer m r e'' \<and>
          \<not> is_thread_pending k3 (current k) \<and> (current k'' \<noteq> current k \<longrightarrow> swap_return_value (thread k3 (current k)) = 0)))"
proof (cases "k_mbox_put c mbox (e, k) tx timeout")
  case (fields res e' k')
  note p = put_to_receiver[OF assms(1,2), where tx = tx and e = e, folded assms(3,4), folded assms(5), OF assms(6-9) fields]
  let ?s = "current k"
  have s: "?s \<notin> X" using assms(1) by (simp add: may_block_def thread_ctx_def)
  have "\<exists>e'' k3. k_mbox_get_resume pol c (e', k'') rx buffer = Some (0, e'', k3) \<and> kernel_inv c X k3 \<and> exchanged e' tx rx buffer m r e'' \<and>
      \<not> is_thread_pending k3 ?s \<and> (current k'' \<noteq> ?s \<longrightarrow> swap_return_value (thread k3 ?s) = 0)"
    if k: "kernel_inv c X k''" "off_queues k'' ?s" "thread k'' ?s = thread k' ?s" "swap_return_value (thread k'' (current k'')) = 0" for k''
  proof -
    let ?k = "reschedule_threads c (woken c k'' ?s 0)"
    have d: "flags (thread k'' ?s) AND K_DUMMY = 0" "swap_data (thread k'' ?s) = tx" "syncing_thread m = ?s"
      using p(5,9) k(3) assms(3) by simp_all
    have g: "msgs e' rx = received m r" "msgs e' tx = sent m r" using p(2) assms(7) by simp_all
    have "rx \<noteq> tx" by (fact assms(7))
    then obtain e'' where "k_mbox_get_resume pol c (e', k'') rx buffer = Some (0, e'', ?k)" "exchanged e' tx rx buffer m r e''"
      using resume_takes_data(1)[OF k(1,2) s d(1), where e = e' and rx = rx and m = m and r = r and pol = pol and buffer = buffer] d(2,3) g assms(9-11) k(4)
      by auto
    moreover have "kernel_inv c X ?k"
      using k(2) wake_inv(1)[OF k(1) _ s] unfolding woken_def off_queues_def by (intro reschedule_inv kernel_inv_set_return) auto
    moreover have "\<not> is_thread_pending ?k ?s" by (simp add: reschedule_threads_def pending_bit bit_ops_flags)
    moreover have "current k'' \<noteq> ?s \<longrightarrow> swap_return_value (thread ?k ?s) = 0" by (auto simp: reschedule_threads_def Swap_return_value)
    ultimately show ?thesis by blast
  qed
  then show ?thesis using p(1,3,4,6,7,8) unfolding fields prod.case by blast
qed

definition mbox1 :: k_mbox where "mbox1 = \<lparr>tx_msg_queue = 101, rx_msg_queue = 100\<rparr>"

definition mbox_env1 :: mbox_env where
  "mbox_env1 = mbox_env0\<lparr>msgs := (msgs mbox_env0)(610 := msg0)\<rparr>"

theorem mbox_put_reaches_receiver_witness:
  "case k_mbox_put cfg0 mbox1 (mbox_env1, mbox_sys0) 620 K_FOREVER of (res, e', k') \<Rightarrow>
     res = None \<and> kernel_inv cfg0 X0 k' \<and> off_queues k' 2 \<and> queues k' (WaitQ 100) = [5] \<and> swap_return_value (thread k' 4) = 0"
proof -
  have m: "queues mbox_sys0 (WaitQ (rx_msg_queue mbox1)) = [] @ 4 # [5]" "swap_data (thread mbox_sys0 4) = 610" "current mbox_sys0 = 2"
    by (simp_all add: mbox1_def mbox_sys0_def sys0_queues)
  show ?thesis
    using mbox_put_reaches_receiver[OF mbox_sys0_inv(2) m(1) refl refl refl, where e = mbox_env1 and tx = 620 and buffer = 2000 and pol = NoDefrag and timeout = K_FOREVER]
    by (auto simp: m(2,3) mbox_env1_def mbox_env0_def msg0_def K_ANY_def disjoint_areas_def mbox1_def split: prod.splits)
qed

section \<open>Receiving without a buffer\<close>

text \<open>Property C24: a receiver that takes a message without a buffer, to fetch the data later, leaves the sender with flags
  that say it is ready although it is on no queue: the kernel's invariant no longer holds, until the data
  are fetched.  A priority change of the sender in between puts it on the ready queue, so that its
  send returns early and fetching the data puts it there a second time.\<close>

theorem mbox_sender_left_ready:
  assumes "kernel_inv c X k" "queues k (WaitQ (tx_msg_queue mbox)) = us @ t # vs"
    "r = (msgs e rx)\<lparr>tx_target_thread := current k\<rparr>" "tx = swap_data (thread k t)" "m = msgs e tx"
    "\<forall>u \<in> set us. swap_data (thread k u) \<noteq> rx \<and> \<not> compatible (msgs e (swap_data (thread k u))) r"
    "tx \<noteq> rx" "compatible m r" "tx_data m \<noteq> NULL"
    "\<not> bit (flags (thread k t)) 14" "\<not> bit (flags (thread k t)) 15" "\<not> bit (flags (thread k t)) 16" "\<not> bit (flags (thread k t)) 17"
    "min (msg_size m) (msg_size r) \<noteq> 0"
  shows "case k_mbox_get pol c mbox (e, k) rx NULL timeout of None \<Rightarrow> False | Some (res, e', k') \<Rightarrow>
    res = Some 0 \<and> is_thread_ready k' t \<and> (\<forall>q. t \<notin> set (queues k' q)) \<and> \<not> kernel_inv c X k' \<and>
    (\<exists>i. t \<in> set (queues (thread_priority_set c k' t p) (ReadyQ i)))"
proof -
  let ?k = "snd (abort_thread_timeout (unpend_thread k t) t)"
  note g = get_keeps_sender(1)[OF assms(1,2), where rx = rx and e = e and pol = pol and timeout = timeout,
      folded assms(3,4), folded assms(5), OF assms(6-14)]
    get_keeps_sender(2-4)[OF assms(1,2), where rx = rx and e = e, folded assms(3,4), folded assms(5), OF assms(6-14)]
  obtain e' where r: "k_mbox_get pol c mbox (e, k) rx NULL timeout = Some (Some 0, e', ?k)" using g(1) by blast
  have "\<exists>i. t \<in> set (queues (thread_priority_set c ?k t p) (ReadyQ i))"
    using g(2) by (auto simp: thread_priority_set_def Let_def queues_add)
  then show ?thesis using g(2-4) unfolding r option.case prod.case by blast
qed

theorem mbox_sender_left_ready_witness:
  "case k_mbox_get NoDefrag cfg0 mbox0 (mbox_env0, mbox_sys0) 600 NULL K_NO_WAIT of None \<Rightarrow> False | Some (res, e', k') \<Rightarrow>
     is_thread_ready k' 4 \<and> (\<forall>q. 4 \<notin> set (queues k' q)) \<and> (\<exists>i. 4 \<in> set (queues (thread_priority_set cfg0 k' 4 1) (ReadyQ i)))"
proof -
  have m: "queues mbox_sys0 (WaitQ (tx_msg_queue mbox0)) = [] @ 4 # [5]" "swap_data (thread mbox_sys0 4) = 610" "current mbox_sys0 = 2"
      "flags (thread mbox_sys0 4) = K_PENDING"
    by (simp_all add: mbox0_def mbox_sys0_def sys0_queues) (simp add: sys0_def thread0_def)
  show ?thesis
    using mbox_sender_left_ready[OF mbox_sys0_inv(1) m(1) refl refl refl, where e = mbox_env0 and rx = 600 and pol = NoDefrag
        and timeout = K_NO_WAIT and p = 1]
    by (auto simp: m(2-4) mbox_env0_def msg0_def K_ANY_def bit_flags split: option.splits)
qed

end
