(* ===== verification/Sys_Slist.thy ===== *)
theory Sys_Slist
  imports Zephyr_Prelude
begin

text \<open>
  Singly linked lists, \<^verbatim>\<open>include/misc/slist.h\<close>, at the level of pointers: memory maps the address of a
  node to its \<^verbatim>\<open>next\<close> field, and a list is a pair of head and tail pointers.  Every operation is
  related to the corresponding operation on HOL lists.
\<close>

section \<open>Operations\<close>

type_synonym links = "addr \<Rightarrow> addr"

record sys_slist =
  head :: addr
  tail :: addr

definition sys_slist_init :: "sys_slist \<Rightarrow> sys_slist" where
  "sys_slist_init l = l\<lparr>head := NULL, tail := NULL\<rparr>"

definition sys_slist_is_empty :: "sys_slist \<Rightarrow> bool" where
  "sys_slist_is_empty l \<longleftrightarrow> head l = NULL"

definition sys_slist_peek_head :: "sys_slist \<Rightarrow> addr" where
  "sys_slist_peek_head l = head l"

definition sys_slist_peek_tail :: "sys_slist \<Rightarrow> addr" where
  "sys_slist_peek_tail l = tail l"

definition sys_slist_peek_next :: "links \<Rightarrow> addr \<Rightarrow> addr" where
  "sys_slist_peek_next h node = (if node = NULL then NULL else h node)"

definition sys_slist_prepend :: "links \<Rightarrow> sys_slist \<Rightarrow> addr \<Rightarrow> links \<times> sys_slist" where
  "sys_slist_prepend h l node =
     (let h1 = h(node := head l);
          l1 = l\<lparr>head := node\<rparr>
      in (h1, if tail l1 = NULL then l1\<lparr>tail := head l1\<rparr> else l1))"

definition sys_slist_append :: "links \<Rightarrow> sys_slist \<Rightarrow> addr \<Rightarrow> links \<times> sys_slist" where
  "sys_slist_append h l node =
     (let h1 = h(node := NULL)
      in if tail l = NULL then (h1, l\<lparr>tail := node, head := node\<rparr>)
         else (h1(tail l := node), l\<lparr>tail := node\<rparr>))"

definition sys_slist_append_list :: "links \<Rightarrow> sys_slist \<Rightarrow> addr \<Rightarrow> addr \<Rightarrow> links \<times> sys_slist" where
  "sys_slist_append_list h l hd' tl' =
     (if tail l = NULL then (h, l\<lparr>head := hd', tail := tl'\<rparr>)
      else (h(tail l := hd'), l\<lparr>tail := tl'\<rparr>))"

text \<open>The source re-initialises the list it has just appended to, not the appended one.\<close>

definition sys_slist_merge_slist ::
  "links \<Rightarrow> sys_slist \<Rightarrow> sys_slist \<Rightarrow> links \<times> sys_slist \<times> sys_slist" where
  "sys_slist_merge_slist h l list_to_append =
     (case sys_slist_append_list h l (head list_to_append) (tail list_to_append) of
        (h1, l1) \<Rightarrow> (h1, sys_slist_init l1, list_to_append))"

definition sys_slist_insert :: "links \<Rightarrow> sys_slist \<Rightarrow> addr \<Rightarrow> addr \<Rightarrow> links \<times> sys_slist" where
  "sys_slist_insert h l prev node =
     (if prev = NULL then sys_slist_prepend h l node
      else if h prev = NULL then sys_slist_append h l node
      else (h(node := h prev, prev := node), l))"

definition sys_slist_get_not_empty :: "links \<Rightarrow> sys_slist \<Rightarrow> addr \<times> sys_slist" where
  "sys_slist_get_not_empty h l =
     (let node = head l; l1 = l\<lparr>head := h node\<rparr>
      in (node, if tail l1 = node then l1\<lparr>tail := head l1\<rparr> else l1))"

definition sys_slist_get :: "links \<Rightarrow> sys_slist \<Rightarrow> addr \<times> sys_slist" where
  "sys_slist_get h l = (if sys_slist_is_empty l then (NULL, l) else sys_slist_get_not_empty h l)"

definition sys_slist_remove :: "links \<Rightarrow> sys_slist \<Rightarrow> addr \<Rightarrow> addr \<Rightarrow> links \<times> sys_slist" where
  "sys_slist_remove h l prev_node node =
     (if prev_node = NULL
      then let l1 = l\<lparr>head := h node\<rparr>
           in (h(node := NULL), if tail l1 = node then l1\<lparr>tail := head l1\<rparr> else l1)
      else ((h(prev_node := h node))(node := NULL),
            if tail l = node then l\<lparr>tail := prev_node\<rparr> else l))"

text \<open>The loop of \<^verbatim>\<open>sys_slist_find_and_remove\<close>; it ends only when it meets the node or the end.\<close>

partial_function (option) find_and_remove_from ::
  "links \<Rightarrow> sys_slist \<Rightarrow> addr \<Rightarrow> addr \<Rightarrow> addr \<Rightarrow> (links \<times> sys_slist) option" where
  "find_and_remove_from h l node prev test =
     (if test = NULL then Some (h, l)
      else if test = node then Some (sys_slist_remove h l prev node)
      else find_and_remove_from h l node test (sys_slist_peek_next h test))"

definition sys_slist_find_and_remove :: "links \<Rightarrow> sys_slist \<Rightarrow> addr \<Rightarrow> (links \<times> sys_slist) option" where
  "sys_slist_find_and_remove h l node = find_and_remove_from h l node NULL (sys_slist_peek_head l)"

section \<open>The list a pair of pointers stands for\<close>

fun chain :: "links \<Rightarrow> addr \<Rightarrow> addr list \<Rightarrow> bool" where
  "chain h p [] \<longleftrightarrow> p = NULL"
| "chain h p (x # xs) \<longleftrightarrow> p = x \<and> x \<noteq> NULL \<and> chain h (h x) xs"

definition slist :: "links \<Rightarrow> sys_slist \<Rightarrow> addr list \<Rightarrow> bool" where
  "slist h l xs \<longleftrightarrow> chain h (head l) xs \<and> distinct xs \<and>
     tail l = (if xs = [] then NULL else last xs)"

text \<open>Following the links, and the proof that it ends on a list.\<close>

partial_function (option) walk :: "links \<Rightarrow> addr \<Rightarrow> addr list option" where
  "walk h p = (if p = NULL then Some [] else Option.bind (walk h (h p)) (\<lambda>xs. Some (p # xs)))"

declare walk.simps [code]
declare find_and_remove_from.simps [code]

lemma chain_walk: "chain h p xs \<Longrightarrow> walk h p = Some xs"
  by (induction xs arbitrary: p) (subst walk.simps, auto)+

lemma chain_unique: "chain h p xs \<Longrightarrow> chain h p ys \<Longrightarrow> xs = ys"
  by (metis chain_walk option.inject)

lemma chain_null [simp]: "chain h NULL xs \<longleftrightarrow> xs = []"
  by (cases xs) auto

lemma chain_nonnull: "chain h p xs \<Longrightarrow> NULL \<notin> set xs"
  by (induction xs arbitrary: p) auto

lemma chain_upd [simp]: "y \<notin> set xs \<Longrightarrow> chain (h(y := z)) p xs \<longleftrightarrow> chain h p xs"
  by (induction xs arbitrary: p) auto

text \<open>A segment: links from \<open>p\<close> through \<open>xs\<close> to \<open>q\<close>.\<close>

fun seg :: "links \<Rightarrow> addr \<Rightarrow> addr list \<Rightarrow> addr \<Rightarrow> bool" where
  "seg h p [] q \<longleftrightarrow> p = q"
| "seg h p (x # xs) q \<longleftrightarrow> p = x \<and> x \<noteq> NULL \<and> seg h (h x) xs q"

lemma chain_split: "chain h p (xs @ ys) \<longleftrightarrow> (\<exists>q. seg h p xs q \<and> chain h q ys)"
  by (induction xs arbitrary: p) auto

lemma seg_upd [simp]: "y \<notin> set xs \<Longrightarrow> seg (h(y := z)) p xs q \<longleftrightarrow> seg h p xs q"
  by (induction xs arbitrary: p) auto

lemma seg_last:
  "seg h p (xs @ [x]) q \<longleftrightarrow> seg h p xs x \<and> x \<noteq> NULL \<and> h x = q"
  by (induction xs arbitrary: p) auto

section \<open>Refinement\<close>

lemma slist_init: "slist h (sys_slist_init l) []"
  by (simp add: slist_def sys_slist_init_def)

lemma slist_empty: "slist h l xs \<Longrightarrow> sys_slist_is_empty l \<longleftrightarrow> xs = []"
  by (cases xs) (auto simp: slist_def sys_slist_is_empty_def)

lemma slist_tail_null: "slist h l xs \<Longrightarrow> tail l = NULL \<longleftrightarrow> xs = []"
  using chain_nonnull[of h "head l" xs] by (auto simp: slist_def) (metis last_in_set neq0_conv)

lemma slist_peek:
  "slist h l xs \<Longrightarrow> sys_slist_peek_head l = (case xs of [] \<Rightarrow> NULL | x # _ \<Rightarrow> x)"
  "slist h l xs \<Longrightarrow> sys_slist_peek_tail l = (if xs = [] then NULL else last xs)"
  by (auto simp: slist_def sys_slist_peek_head_def sys_slist_peek_tail_def split: list.splits)

lemma prepend_slist:
  assumes "slist h l xs" "node \<noteq> NULL" "node \<notin> set xs"
  shows "slist (fst (sys_slist_prepend h l node)) (snd (sys_slist_prepend h l node)) (node # xs)"
  using assms slist_tail_null[OF assms(1)] by (auto simp: sys_slist_prepend_def slist_def Let_def)

lemma append_slist:
  assumes s: "slist h l xs" and n: "node \<noteq> NULL" "node \<notin> set xs"
  shows "slist (fst (sys_slist_append h l node)) (snd (sys_slist_append h l node)) (xs @ [node])"
proof (cases xs rule: rev_cases)
  case Nil
  then show ?thesis using s n by (simp add: sys_slist_append_def slist_def)
next
  case (snoc ys y)
  have y: "tail l = y" "y \<noteq> NULL" "y \<notin> set ys" "node \<noteq> y" "node \<notin> set ys"
    using s n chain_nonnull[of h "head l" xs] by (auto simp: slist_def snoc)
  have "seg h (head l) ys y" using s by (auto simp: slist_def snoc chain_split)
  then have "chain (h(node := NULL, y := node)) (head l) (ys @ [y, node])"
    using y n by (auto simp: chain_split)
  then show ?thesis using s y n by (simp add: sys_slist_append_def slist_def snoc)
qed

text \<open>Appending a ready-made chain.\<close>

lemma append_list_slist:
  assumes s: "slist h l xs" and c: "chain h hd' ys" "distinct ys" "ys \<noteq> []" "tl' = last ys" "set xs \<inter> set ys = {}"
  shows "slist (fst (sys_slist_append_list h l hd' tl')) (snd (sys_slist_append_list h l hd' tl')) (xs @ ys)"
proof (cases xs rule: rev_cases)
  case Nil
  then show ?thesis using s c by (simp add: sys_slist_append_list_def slist_def)
next
  case (snoc us u)
  have u: "tail l = u" "u \<noteq> NULL" "u \<notin> set us" "u \<notin> set ys"
    using s c chain_nonnull[of h "head l" xs] by (auto simp: slist_def snoc)
  have "seg h (head l) us u" using s by (auto simp: slist_def snoc chain_split)
  then have "chain (h(u := hd')) (head l) (us @ u # ys)" using u c by (auto simp: chain_split)
  then show ?thesis using s u c by (auto simp: sys_slist_append_list_def slist_def snoc)
qed

lemma insert_slist:
  assumes s: "slist h l (us @ p # vs)" and n: "node \<noteq> NULL" "node \<notin> set (us @ p # vs)"
  shows "slist (fst (sys_slist_insert h l p node)) (snd (sys_slist_insert h l p node)) (us @ p # node # vs)"
proof -
  have seg: "seg h (head l) us p" "p \<noteq> NULL" "chain h (h p) vs" and d: "p \<notin> set us" "p \<notin> set vs"
    using s by (auto simp: slist_def chain_split)
  show ?thesis
  proof (cases vs)
    case Nil
    then have "h p = NULL" using seg by simp
    then show ?thesis using append_slist[OF s n] Nil seg by (simp add: sys_slist_insert_def)
  next
    case (Cons v ws)
    then have "h p \<noteq> NULL" using seg by auto
    moreover have "chain (h(node := h p, p := node)) (head l) (us @ p # node # vs)"
      using seg n d by (auto simp: chain_split)
    ultimately show ?thesis using s n seg Cons by (auto simp: sys_slist_insert_def slist_def)
  qed
qed

lemma get_slist:
  assumes "slist h l (x # xs)"
  shows "fst (sys_slist_get h l) = x" "slist h (snd (sys_slist_get h l)) xs"
    "fst (sys_slist_get_not_empty h l) = x" "slist h (snd (sys_slist_get_not_empty h l)) xs"
proof -
  have "tail l = x \<longleftrightarrow> xs = []" using assms by (auto simp: slist_def) (metis last_in_set)
  then show "fst (sys_slist_get_not_empty h l) = x" "slist h (snd (sys_slist_get_not_empty h l)) xs"
    "fst (sys_slist_get h l) = x" "slist h (snd (sys_slist_get h l)) xs"
    using assms by (auto simp: sys_slist_get_def sys_slist_get_not_empty_def slist_def Let_def sys_slist_is_empty_def)
qed

lemma get_empty: "slist h l [] \<Longrightarrow> sys_slist_get h l = (NULL, l)"
  by (simp add: sys_slist_get_def sys_slist_is_empty_def slist_def)

lemma remove_slist:
  assumes s: "slist h l (us @ x # vs)" and p: "prev = (if us = [] then NULL else last us)"
  shows "slist (fst (sys_slist_remove h l prev x)) (snd (sys_slist_remove h l prev x)) (us @ vs)"
proof (cases us rule: rev_cases)
  case Nil
  have "tail l = x \<longleftrightarrow> vs = []" using s Nil by (auto simp: slist_def) (metis last_in_set)
  then show ?thesis using s p Nil by (auto simp: sys_slist_remove_def slist_def Let_def)
next
  case (snoc ts t)
  have seg: "seg h (head l) ts t" "t \<noteq> NULL" "h t = x" "chain h (h x) vs"
    and d: "t \<notin> set ts" "x \<notin> set ts" "t \<noteq> x" "t \<notin> set vs" "x \<notin> set vs"
    using s snoc by (auto simp: slist_def chain_split)
  have "chain (h(t := h x, x := NULL)) (head l) (ts @ t # vs)" using seg d by (auto simp: chain_split)
  moreover have "tail l = x \<longleftrightarrow> vs = []" using s snoc d by (auto simp: slist_def)
  ultimately show ?thesis using s p snoc seg by (auto simp: sys_slist_remove_def slist_def)
qed

lemma find_from:
  assumes "slist h l (us @ ws)" "chain h test ws" "prev = (if us = [] then NULL else last us)"
  shows "\<exists>h' l'. find_and_remove_from h l x prev test = Some (h', l') \<and>
    slist h' l' (us @ (if x \<in> set ws then remove1 x ws else ws))"
  using assms
proof (induction ws arbitrary: us prev test)
  case Nil
  then show ?case by (subst find_and_remove_from.simps) simp
next
  case (Cons w ws)
  have t: "test = w" "w \<noteq> NULL" "chain h (h w) ws" using Cons.prems(2) by auto
  show ?case
  proof (cases "w = x")
    case True
    have "slist (fst (sys_slist_remove h l prev x)) (snd (sys_slist_remove h l prev x)) (us @ ws)"
      using remove_slist[of h l us x ws prev] Cons.prems True by simp
    then show ?thesis using t True
      by (cases "sys_slist_remove h l prev x") (subst find_and_remove_from.simps, simp)
  next
    case False
    have "\<exists>h' l'. find_and_remove_from h l x w (h w) = Some (h', l') \<and>
        slist h' l' ((us @ [w]) @ (if x \<in> set ws then remove1 x ws else ws))"
      using Cons.IH[of "us @ [w]" "h w" w] Cons.prems t by simp
    then show ?thesis using t False
      by (subst find_and_remove_from.simps) (auto simp: sys_slist_peek_next_def)
  qed
qed

lemma find_and_remove_slist:
  assumes "slist h l xs"
  shows "\<exists>h' l'. sys_slist_find_and_remove h l x = Some (h', l') \<and> slist h' l' (remove1 x xs)"
  using find_from[of h l "[]" xs "head l" NULL x] assms
  by (auto simp: sys_slist_find_and_remove_def sys_slist_peek_head_def slist_def remove1_idem split: if_splits)

text \<open>
  The merge empties the list it should extend, and leaves the appended list as it was.
\<close>

lemma merge_slist_result:
  "slist (fst (sys_slist_merge_slist h l l2)) (fst (snd (sys_slist_merge_slist h l l2))) []"
  "snd (snd (sys_slist_merge_slist h l l2)) = l2"
  by (simp_all add: sys_slist_merge_slist_def slist_init case_prod_beta)

end
