(* ===== verification/Fifo.thy ===== *)
theory Fifo
  imports Wait_Queue Sys_Slist
begin

text \<open>
  FIFO queues of caller-owned items, \<^verbatim>\<open>kernel/unified/fifo.c\<close>.  The items are linked through their
  first word, so the state is the object, the memory of those words, and the kernel.
\<close>

section \<open>Operations\<close>

record k_fifo =
  fifo_wait_q :: wqid
  data_q :: sys_slist

type_synonym 'z fifo_state = "k_fifo \<times> links \<times> 'z kernel_scheme"

definition k_fifo_init :: "'z fifo_state \<Rightarrow> 'z fifo_state" where
  "k_fifo_init = (\<lambda>(f, h, k). (f\<lparr>data_q := sys_slist_init (data_q f)\<rparr>, h,
     upd_queue k (WaitQ (fifo_wait_q f)) (\<lambda>_. [])))"

definition prepare_thread_to_run ::
  "kconfig \<Rightarrow> 'z kernel_scheme \<Rightarrow> tid \<Rightarrow> nat \<Rightarrow> 'z kernel_scheme" where
  "prepare_thread_to_run c k t data =
     (let k1 = snd (abort_thread_timeout k t);
          k2 = ready_thread c k1 t
      in set_thread_return_value_with_data k2 t 0 data)"

definition k_fifo_put :: "kconfig \<Rightarrow> 'z fifo_state \<Rightarrow> addr \<Rightarrow> 'z fifo_state" where
  "k_fifo_put c = (\<lambda>(f, h, k) data.
     case unpend_first_thread k (fifo_wait_q f) of (t, k1) \<Rightarrow>
       if t \<noteq> NULL then (f, h, resched_unless_isr c (prepare_thread_to_run c k1 t data))
       else (case sys_slist_append h (data_q f) data of (h1, q) \<Rightarrow> (f\<lparr>data_q := q\<rparr>, h1, k1)))"

text \<open>The loop of \<^verbatim>\<open>k_fifo_put_list\<close>: items go to waiters until one of the two runs out.\<close>

function put_list_loop ::
  "kconfig \<Rightarrow> wqid \<Rightarrow> links \<Rightarrow> 'z kernel_scheme \<Rightarrow> addr \<Rightarrow> addr \<times> 'z kernel_scheme" where
  "put_list_loop c w h k hd' =
     (if hd' = NULL then (hd', k)
      else case unpend_first_thread k w of (t, k1) \<Rightarrow>
        if t = NULL then (hd', k1)
        else put_list_loop c w h (prepare_thread_to_run c k1 t hd') (h hd'))"
  by pat_completeness auto

lemma prepare_handed: "prepare_thread_to_run c (unpend_thread k t) t d = handed c k t 0 d"
  by (simp add: prepare_thread_to_run_def handed_def wake_def)

lemma unpend_first_shrinks:
  assumes "unpend_first_thread k w = (t, k1)" "t \<noteq> NULL"
  shows "length (queues (prepare_thread_to_run c k1 t d) (WaitQ w)) < length (queues k (WaitQ w))"
  using assms by (cases "queues k (WaitQ w)")
    (auto simp: unpend_first_thread_def prepare_handed simp flip: unpend_thread_def)

termination put_list_loop
  by (relation "measure (\<lambda>(c, w, h, k, hd'). length (queues k (WaitQ w)))")
    (auto simp: unpend_first_shrinks)

declare put_list_loop.simps [simp del]

definition k_fifo_put_list :: "kconfig \<Rightarrow> 'z fifo_state \<Rightarrow> addr \<Rightarrow> addr \<Rightarrow> 'z fifo_state" where
  "k_fifo_put_list c = (\<lambda>(f, h, k) hd' tl'.
     let first_thread = peek_first_pending_thread k (fifo_wait_q f)
     in case put_list_loop c (fifo_wait_q f) h k hd' of (hd1, k1) \<Rightarrow>
          case (if hd1 \<noteq> NULL then sys_slist_append_list h (data_q f) hd1 tl' else (h, data_q f)) of
            (h1, q) \<Rightarrow> (f\<lparr>data_q := q\<rparr>, h1,
                        if first_thread \<noteq> NULL then resched_unless_isr c k1 else k1))"

definition k_fifo_put_slist :: "kconfig \<Rightarrow> 'z fifo_state \<Rightarrow> sys_slist \<Rightarrow> 'z fifo_state" where
  "k_fifo_put_slist c s l = k_fifo_put_list c s (head l) (tail l)"

definition k_fifo_get :: "kconfig \<Rightarrow> 'z fifo_state \<Rightarrow> int \<Rightarrow> addr option \<times> 'z fifo_state" where
  "k_fifo_get c = (\<lambda>(f, h, k) timeout.
     if \<not> sys_slist_is_empty (data_q f)
     then (case sys_slist_get_not_empty h (data_q f) of (data, q) \<Rightarrow> (Some data, f\<lparr>data_q := q\<rparr>, h, k))
     else if timeout = K_NO_WAIT then (Some NULL, f, h, k)
     else (None, f, h, Swap c (pend_current_thread c k (fifo_wait_q f) timeout)))"

text \<open>What a blocked get returns once the thread runs again.\<close>

definition k_fifo_get_resume :: "'z kernel_scheme \<Rightarrow> addr" where
  "k_fifo_get_resume k =
     (if swap_return_value (thread k (current k)) \<noteq> 0 then NULL else swap_data (thread k (current k)))"

section \<open>The queue it stands for\<close>

definition fifo_items :: "'z fifo_state \<Rightarrow> addr list" where
  "fifo_items = (\<lambda>(f, h, k). case walk h (head (data_q f)) of None \<Rightarrow> [] | Some xs \<Rightarrow> xs)"

definition fifo_waiters :: "'z fifo_state \<Rightarrow> tid list" where
  "fifo_waiters = (\<lambda>(f, h, k). queues k (WaitQ (fifo_wait_q f)))"

definition fifo_inv :: "kconfig \<Rightarrow> tid set \<Rightarrow> 'z fifo_state \<Rightarrow> bool" where
  "fifo_inv c X = (\<lambda>(f, h, k). kernel_inv c X k \<and> (\<exists>xs. slist h (data_q f) xs))"

lemma slist_walk: "slist h l xs \<Longrightarrow> walk h (head l) = Some xs"
  by (simp add: slist_def chain_walk)

lemma fifo_items_eq: "slist h (data_q f) xs \<Longrightarrow> fifo_items (f, h, k) = xs"
  by (simp add: fifo_items_def slist_walk)

lemma fifo_inv_slist: "fifo_inv c X (f, h, k) \<Longrightarrow> slist h (data_q f) (fifo_items (f, h, k))"
  by (auto simp: fifo_inv_def fifo_items_eq)

lemma put_waiter:
  assumes inv: "fifo_inv c X (f, h, k)" and q: "queues k (WaitQ (fifo_wait_q f)) = t # ts"
  shows "k_fifo_put c (f, h, k) d = (f, h, resched_unless_isr c (handed c k t 0 d))"
proof -
  have "t \<noteq> NULL" using first_waiter(2)[OF _ q, of c X] inv by (simp add: fifo_inv_def)
  then show ?thesis by (simp add: k_fifo_put_def unpend_first_eq[OF q] prepare_handed)
qed

lemma put_stock:
  assumes inv: "fifo_inv c X (f, h, k)" and q: "queues k (WaitQ (fifo_wait_q f)) = []"
    and d: "d \<noteq> NULL" "d \<notin> set (fifo_items (f, h, k))"
  shows "fifo_items (k_fifo_put c (f, h, k) d) = fifo_items (f, h, k) @ [d]"
    "fifo_inv c X (k_fifo_put c (f, h, k) d)" "snd (snd (k_fifo_put c (f, h, k) d)) = k"
    "fifo_wait_q (fst (k_fifo_put c (f, h, k) d)) = fifo_wait_q f"
proof -
  let ?xs = "fifo_items (f, h, k)"
  obtain h1 q1 where a: "sys_slist_append h (data_q f) d = (h1, q1)" by force
  have s: "slist h1 q1 (?xs @ [d])" using append_slist[OF fifo_inv_slist[OF inv] d] a by simp
  have p: "k_fifo_put c (f, h, k) d = (f\<lparr>data_q := q1\<rparr>, h1, k)"
    using q a by (simp add: k_fifo_put_def unpend_first_thread_def)
  show "fifo_items (k_fifo_put c (f, h, k) d) = ?xs @ [d]" using fifo_items_eq[of h1 "f\<lparr>data_q := q1\<rparr>"] s p by simp
  show "fifo_inv c X (k_fifo_put c (f, h, k) d)" using inv s p by (auto simp: fifo_inv_def)
  show "snd (snd (k_fifo_put c (f, h, k) d)) = k"
    "fifo_wait_q (fst (k_fifo_put c (f, h, k) d)) = fifo_wait_q f" using p by simp_all
qed

lemma get_stock:
  assumes inv: "fifo_inv c X (f, h, k)" and q: "fifo_items (f, h, k) = x # xs"
  shows "fst (k_fifo_get c (f, h, k) n) = Some x" "fifo_items (snd (k_fifo_get c (f, h, k) n)) = xs"
    "fifo_inv c X (snd (k_fifo_get c (f, h, k) n))"
    "fifo_waiters (snd (k_fifo_get c (f, h, k) n)) = fifo_waiters (f, h, k)"
    "snd (snd (snd (k_fifo_get c (f, h, k) n))) = k"
proof -
  have s: "slist h (data_q f) (x # xs)" using fifo_inv_slist[OF inv] q by simp
  obtain q1 where g: "sys_slist_get_not_empty h (data_q f) = (x, q1)" "slist h q1 xs"
    using get_slist(3,4)[OF s] by (metis prod.collapse)
  have e: "k_fifo_get c (f, h, k) n = (Some x, f\<lparr>data_q := q1\<rparr>, h, k)"
    using slist_empty[OF s] g by (simp add: k_fifo_get_def)
  show "fst (k_fifo_get c (f, h, k) n) = Some x" "snd (snd (snd (k_fifo_get c (f, h, k) n))) = k"
    "fifo_waiters (snd (k_fifo_get c (f, h, k) n)) = fifo_waiters (f, h, k)"
    by (simp_all add: e fifo_waiters_def)
  show "fifo_items (snd (k_fifo_get c (f, h, k) n)) = xs" using fifo_items_eq[of h "f\<lparr>data_q := q1\<rparr>"] g e by simp
  show "fifo_inv c X (snd (k_fifo_get c (f, h, k) n))" using inv g by (auto simp: e fifo_inv_def)
qed

lemma get_block:
  assumes inv: "fifo_inv c X (f, h, k)" and q: "fifo_items (f, h, k) = []" and n: "n \<noteq> K_NO_WAIT"
  shows "k_fifo_get c (f, h, k) n = (None, f, h, Swap c (pend_current_thread c k (fifo_wait_q f) n))"
  using slist_empty[OF fifo_inv_slist[OF inv]] q n by (simp add: k_fifo_get_def)

lemma fifo_put_inv:
  assumes inv: "fifo_inv c X (f, h, k)" and d: "d \<noteq> NULL" "d \<notin> set (fifo_items (f, h, k))"
  shows "fifo_inv c X (k_fifo_put c (f, h, k) d)"
proof (cases "queues k (WaitQ (fifo_wait_q f))")
  case Nil
  then show ?thesis using put_stock(2)[OF inv Nil d] by simp
next
  case (Cons t ts)
  have "kernel_inv c X (resched_unless_isr c (handed c k t 0 d))"
    using inv by (intro resched_unless_isr_inv(1) handed_inv(1)[OF _ Cons]) (simp add: fifo_inv_def)
  then show ?thesis using inv by (simp add: put_waiter[OF inv Cons] fifo_inv_def)
qed

lemma fifo_get_inv:
  assumes inv: "fifo_inv c X (f, h, k)" and b: "may_block c X k" and n: "n \<noteq> K_NO_WAIT" "timeout_ok c n"
  shows "fifo_inv c X (snd (k_fifo_get c (f, h, k) n))"
proof (cases "fifo_items (f, h, k)")
  case Nil
  then show ?thesis using inv Swap_inv(1)[OF pend_current_inv(1)[OF b n(2)]]
    by (simp add: get_block[OF inv Nil n(1)] fifo_inv_def)
next
  case (Cons x xs)
  then show ?thesis using get_stock(3)[OF inv Cons] by simp
qed

interpretation fifo: blocking_resource "fifo_inv c X"
  "\<lambda>d s. d \<noteq> NULL \<and> d \<notin> set (fifo_items s)" "\<lambda>s. may_block c X (snd (snd s))"
  "\<lambda>n. n \<noteq> K_NO_WAIT \<and> timeout_ok c n" "\<lambda>s. length (fifo_items s)" fifo_waiters
  "\<lambda>d s. k_fifo_put c s d" "\<lambda>n s. snd (k_fifo_get c s n)"
  for c X
proof unfold_locales
  fix s :: "'a fifo_state" and d n t ts
  assume inv: "fifo_inv c X s"
  obtain f h k where s: "s = (f, h, k)" by (cases s)
  note inv' = inv[unfolded s]
  { assume d: "d \<noteq> NULL \<and> d \<notin> set (fifo_items s)"
    show "fifo_inv c X (k_fifo_put c s d)" using fifo_put_inv[OF inv'] d s by simp
    show "fifo_waiters (k_fifo_put c s d) = ts \<and> length (fifo_items (k_fifo_put c s d)) = length (fifo_items s)"
      if "fifo_waiters s = t # ts"
      using that s put_waiter[OF inv', of t ts d] by (simp add: fifo_waiters_def fifo_items_def)
    show "fifo_waiters (k_fifo_put c s d) = [] \<and> length (fifo_items s) \<le> length (fifo_items (k_fifo_put c s d)) \<and>
        length (fifo_items (k_fifo_put c s d)) \<le> length (fifo_items s) + 1"
      if "fifo_waiters s = []"
      using that s d put_stock[OF inv', of d] by (simp add: fifo_waiters_def case_prod_beta) }
  assume b: "may_block c X (snd (snd s))" and n: "n \<noteq> K_NO_WAIT \<and> timeout_ok c n"
  then show "fifo_inv c X (snd (k_fifo_get c s n))" using fifo_get_inv[OF inv'] s by simp
  show "fifo_waiters (snd (k_fifo_get c s n)) = fifo_waiters s \<and>
      length (fifo_items (snd (k_fifo_get c s n))) + 1 = length (fifo_items s)"
    if "0 < length (fifo_items s)"
    using that s get_stock[OF inv'] by (cases "fifo_items s") auto
  show "length (fifo_items (snd (k_fifo_get c s n))) = 0" if "length (fifo_items s) = 0"
    using that s n get_block[OF inv'] by (simp add: fifo_items_def)
qed

section \<open>Putting a list\<close>

text \<open>Each item goes to the next waiter; when the waiters run out, the rest is left over.\<close>

fun hand_out :: "kconfig \<Rightarrow> 'z kernel_scheme \<Rightarrow> tid list \<Rightarrow> addr list \<Rightarrow> 'z kernel_scheme" where
  "hand_out c k (t # ts) (d # ds) = hand_out c (handed c k t 0 d) ts ds"
| "hand_out c k _ _ = k"

lemma hand_out_inv:
  assumes "kernel_inv c X k" "queues k (WaitQ w) = ts"
  shows "kernel_inv c X (hand_out c k ts ds)"
    "queues (hand_out c k ts ds) (WaitQ w) = drop (length ds) ts"
  using assms
proof (induction c k ts ds rule: hand_out.induct)
  case (1 c k t ts d ds)
  { case 1 then show ?case using "1.IH"(1) handed_inv(1)[OF 1] by simp }
  { case 2 then show ?case using "1.IH"(2) handed_inv(1)[OF 2] by simp }
qed auto

lemma put_list_loop_eq:
  assumes "kernel_inv c X k" "queues k (WaitQ w) = ts" "chain h hd' ds"
  shows "snd (put_list_loop c w h k hd') = hand_out c k ts ds \<and>
    chain h (fst (put_list_loop c w h k hd')) (drop (length ts) ds)"
  using assms
proof (induction ds arbitrary: k ts hd')
  case Nil
  then show ?case by (subst (1 2) put_list_loop.simps) (cases ts; simp)
next
  case (Cons d ds)
  show ?case
  proof (cases ts)
    case Nil
    then show ?thesis using Cons.prems
      by (subst (1 2) put_list_loop.simps) (simp add: unpend_first_thread_def)
  next
    case (Cons t ts')
    have q: "queues k (WaitQ w) = t # ts'" using Cons.prems Cons by simp
    have "t \<noteq> NULL" by (rule first_waiter(2)[OF Cons.prems(1) q])
    then have "put_list_loop c w h k hd' = put_list_loop c w h (handed c k t 0 hd') (h hd')"
      using Cons.prems(3) q by (subst put_list_loop.simps) (simp add: unpend_first_eq[OF q] prepare_handed)
    then show ?thesis
      using Cons.IH[of "handed c k t 0 hd'" ts' "h hd'"] Cons.prems handed_inv(1)[OF Cons.prems(1) q] q Cons
      by simp
  qed
qed

lemma put_list_items:
  assumes inv: "fifo_inv c X (f, h, k)" and ds: "chain h hd' ds" "distinct ds" "ds \<noteq> []" "tl' = last ds"
    and disj: "set (fifo_items (f, h, k)) \<inter> set ds = {}"
  defines "s' \<equiv> k_fifo_put_list c (f, h, k) hd' tl'"
  shows "fifo_items s' = fifo_items (f, h, k) @ drop (length (fifo_waiters (f, h, k))) ds"
    "fifo_waiters s' = drop (length ds) (fifo_waiters (f, h, k))" "fifo_inv c X s'"
proof -
  let ?ts = "queues k (WaitQ (fifo_wait_q f))" and ?xs = "fifo_items (f, h, k)"
  let ?rest = "drop (length ?ts) ds"
  have k: "kernel_inv c X k" using inv by (simp add: fifo_inv_def)
  obtain hd1 k1 where l: "put_list_loop c (fifo_wait_q f) h k hd' = (hd1, k1)" by force
  have r: "k1 = hand_out c k ?ts ds" "chain h hd1 ?rest"
    using put_list_loop_eq[OF k refl ds(1), of "fifo_wait_q f"] l by auto
  obtain h1 q1 where a: "(if hd1 \<noteq> NULL then sys_slist_append_list h (data_q f) hd1 tl' else (h, data_q f)) = (h1, q1)"
    by force
  have sl: "slist h1 q1 (?xs @ ?rest)"
  proof (cases "?rest = []")
    case True
    then show ?thesis using a r(2) fifo_inv_slist[OF inv] by simp
  next
    case False
    then have nz: "hd1 \<noteq> NULL" using r(2) by (cases ?rest) auto
    have "set ?xs \<inter> set ?rest = {}" using disj set_drop_subset[of "length ?ts" ds] by blast
    then have "slist (fst (sys_slist_append_list h (data_q f) hd1 tl')) (snd (sys_slist_append_list h (data_q f) hd1 tl')) (?xs @ ?rest)"
      using append_list_slist[OF fifo_inv_slist[OF inv] r(2)] ds False by (simp add: last_drop)
    then show ?thesis using a nz by simp
  qed
  then have sl': "slist h1 (data_q (f\<lparr>data_q := q1\<rparr>)) (?xs @ ?rest)" by simp
  define b where "b = (peek_first_pending_thread k (fifo_wait_q f) \<noteq> NULL)"
  have e: "s' = (f\<lparr>data_q := q1\<rparr>, h1, if b then resched_unless_isr c k1 else k1)"
    unfolding s'_def b_def by (simp only: k_fifo_put_list_def case_prod_conv l Let_def a)
  have k1: "kernel_inv c X k1" "queues k1 (WaitQ (fifo_wait_q f)) = drop (length ds) ?ts"
    using hand_out_inv[OF k refl] r(1) by auto
  then have k2: "kernel_inv c X (if b then resched_unless_isr c k1 else k1)"
    using resched_unless_isr_inv(1)[OF k1(1)] by simp
  show "fifo_items s' = ?xs @ drop (length (fifo_waiters (f, h, k))) ds"
    by (simp add: e fifo_waiters_def fifo_items_eq[OF sl'])
  show "fifo_waiters s' = drop (length ds) (fifo_waiters (f, h, k))" using k1(2) by (simp add: e fifo_waiters_def)
  show "fifo_inv c X s'" using k2 sl by (auto simp: e fifo_inv_def)
qed

end
