(* ===== verification/Work_Queue.thy ===== *)
theory Work_Queue
  imports Timer Fifo
begin

text \<open>
  Work queues and delayed work, \<^verbatim>\<open>kernel/unified/work_q.c\<close> and the inline functions of
  \<^verbatim>\<open>include/kernel.h\<close>.  A work queue is a FIFO and the thread that drains it; a delayed work item
  is a work item with a timeout.
\<close>

section \<open>Operations\<close>

record k_work =
  work_handler :: addr
  work_flags :: u32

text \<open>
  The state, extended by the memory of first words, the FIFO of each work queue, the work items,
  and for each delayed work item the work queue it is attached to.
\<close>

record worked = timed +
  mem :: links
  work_fifo :: "addr \<Rightarrow> k_fifo"
  works :: "addr \<Rightarrow> k_work"
  delayed_work_q :: "addr \<Rightarrow> addr"

definition upd_work :: "'z worked_scheme \<Rightarrow> addr \<Rightarrow> (k_work \<Rightarrow> k_work) \<Rightarrow> 'z worked_scheme" where
  "upd_work k w f = k\<lparr>works := (works k)(w := f (works k w))\<rparr>"

text \<open>A FIFO operation on the FIFO of work queue \<open>q\<close>.\<close>

definition work_fifo_put :: "kconfig \<Rightarrow> 'z worked_scheme \<Rightarrow> addr \<Rightarrow> addr \<Rightarrow> 'z worked_scheme" where
  "work_fifo_put c k q w =
     (case k_fifo_put c (work_fifo k q, mem k, k) w of (f, h, k1) \<Rightarrow>
        k1\<lparr>mem := h, work_fifo := (work_fifo k1)(q := f)\<rparr>)"

definition work_fifo_get :: "kconfig \<Rightarrow> 'z worked_scheme \<Rightarrow> addr \<Rightarrow> addr option \<times> 'z worked_scheme" where
  "work_fifo_get c k q =
     (case k_fifo_get c (work_fifo k q, mem k, k) K_FOREVER of (r, f, h, k1) \<Rightarrow>
        (r, k1\<lparr>mem := h, work_fifo := (work_fifo k1)(q := f)\<rparr>))"

definition k_work_init :: "'z worked_scheme \<Rightarrow> addr \<Rightarrow> addr \<Rightarrow> 'z worked_scheme" where
  "k_work_init k w handler =
     upd_work k w (\<lambda>wk. wk\<lparr>work_flags := unset_bit 0 (work_flags wk), work_handler := handler\<rparr>)"

definition k_work_pending :: "'z worked_scheme \<Rightarrow> addr \<Rightarrow> bool" where
  "k_work_pending k w \<longleftrightarrow> bit (work_flags (works k w)) 0"

definition k_work_submit_to_queue :: "kconfig \<Rightarrow> 'z worked_scheme \<Rightarrow> addr \<Rightarrow> addr \<Rightarrow> 'z worked_scheme" where
  "k_work_submit_to_queue c k q w =
     (let k1 = upd_work k w (\<lambda>wk. wk\<lparr>work_flags := set_bit 0 (work_flags wk)\<rparr>)
      in if \<not> k_work_pending k w then work_fifo_put c k1 q w else k1)"

text \<open>
  \<^verbatim>\<open>work_q_main\<close>: one round of its loop, cut where the thread may block.  \<open>call\<close> calls the handler
  of a work item through its address.
\<close>

definition work_q_process ::
  "kconfig \<Rightarrow> (addr \<Rightarrow> addr \<Rightarrow> 'z worked_scheme \<Rightarrow> 'z worked_scheme) \<Rightarrow> 'z worked_scheme \<Rightarrow> addr \<Rightarrow>
     'z worked_scheme" where
  "work_q_process c call k w =
     (let handler = work_handler (works k w);
          k1 = upd_work k w (\<lambda>wk. wk\<lparr>work_flags := unset_bit 0 (work_flags wk)\<rparr>);
          k2 = (if k_work_pending k w then call handler w k1 else k1)
      in k_yield c k2)"

definition work_q_main ::
  "kconfig \<Rightarrow> (addr \<Rightarrow> addr \<Rightarrow> 'z worked_scheme \<Rightarrow> 'z worked_scheme) \<Rightarrow> 'z worked_scheme \<Rightarrow> addr \<Rightarrow>
     addr option \<times> 'z worked_scheme" where
  "work_q_main c call k q =
     (case work_fifo_get c k q of
        (None, k1) \<Rightarrow> (None, k1)
      | (Some w, k1) \<Rightarrow> (Some w, work_q_process c call k1 w))"

definition k_work_q_start :: "kconfig \<Rightarrow> 'z worked_scheme \<Rightarrow> addr \<Rightarrow> tid \<Rightarrow> int \<Rightarrow> 'z worked_scheme" where
  "k_work_q_start c k q stack p =
     (case k_fifo_init (work_fifo k q, mem k, k) of (f, h, k1) \<Rightarrow>
        snd (k_thread_spawn c (k1\<lparr>mem := h, work_fifo := (work_fifo k1)(q := f)\<rparr>) stack p 0 0))"

definition work_timeout :: "kconfig \<Rightarrow> 'z worked_scheme \<Rightarrow> addr \<Rightarrow> 'z worked_scheme" where
  "work_timeout c k w =
     (let k1 = k_work_submit_to_queue c k (delayed_work_q k w) w
      in k1\<lparr>delayed_work_q := (delayed_work_q k1)(w := NULL)\<rparr>)"

definition k_delayed_work_init :: "'z worked_scheme \<Rightarrow> addr \<Rightarrow> addr \<Rightarrow> 'z worked_scheme" where
  "k_delayed_work_init k w handler =
     (let k1 = init_timeout (k_work_init k w handler) (WorkTO w) WorkTimeout
      in k1\<lparr>delayed_work_q := (delayed_work_q k1)(w := NULL)\<rparr>)"

definition k_delayed_work_cancel :: "'z worked_scheme \<Rightarrow> addr \<Rightarrow> int \<times> 'z worked_scheme" where
  "k_delayed_work_cancel k w =
     (if k_work_pending k w then (- EINPROGRESS, k)
      else if delayed_work_q k w = NULL then (- EINVAL, k)
      else let k1 = snd (abort_timeout k (WorkTO w))
           in (0, k1\<lparr>delayed_work_q := (delayed_work_q k1)(w := NULL)\<rparr>))"

definition k_delayed_work_submit_to_queue ::
  "kconfig \<Rightarrow> 'z worked_scheme \<Rightarrow> addr \<Rightarrow> addr \<Rightarrow> int \<Rightarrow> int \<times> 'z worked_scheme" where
  "k_delayed_work_submit_to_queue c k q w delay =
     (if delayed_work_q k w \<noteq> NULL \<and> delayed_work_q k w \<noteq> q then (- EADDRINUSE, k)
      else case (if delayed_work_q k w = q then k_delayed_work_cancel k w else (0, k)) of (err, k1) \<Rightarrow>
        if err < 0 then (err, k1)
        else let k2 = k1\<lparr>delayed_work_q := (delayed_work_q k1)(w := q)\<rparr>
             in (0, if delay = 0 then k_work_submit_to_queue c k2 q w
                    else add_timeout k2 NULL (WorkTO w) NULL (TICK_ALIGN + ms_to_ticks c delay)))"

section \<open>Frame\<close>

lemma upd_work_simps [simp]:
  "in_isr (upd_work k w f) = in_isr k" "current (upd_work k w f) = current k"
  "cache (upd_work k w f) = cache k" "prio_bmap (upd_work k w f) = prio_bmap k"
  "queues (upd_work k w f) = queues k" "timeout_q (upd_work k w f) = timeout_q k"
  "timeouts (upd_work k w f) = timeouts k" "thread (upd_work k w f) = thread k"
  "timers (upd_work k w f) = timers k" "mem (upd_work k w f) = mem k" "work_fifo (upd_work k w f) = work_fifo k"
  "delayed_work_q (upd_work k w f) = delayed_work_q k" "works (upd_work k w f) = (works k)(w := f (works k w))"
  by (simp_all add: upd_work_def)


lemma worked_more:
  "kernel.more k' = kernel.more k \<Longrightarrow> mem k' = mem k \<and> work_fifo k' = work_fifo k \<and> works k' = works k \<and>
     delayed_work_q k' = delayed_work_q k \<and> timers k' = timers k"
  by (cases k; cases k') auto

section \<open>The queues of work items\<close>

definition work_items :: "'z worked_scheme \<Rightarrow> addr \<Rightarrow> addr list" where
  "work_items k q = fifo_items (work_fifo k q, mem k, k)"

text \<open>An item is on at most one queue, at most once, and then it is marked as pending.\<close>

definition works_ok :: "'z worked_scheme \<Rightarrow> bool" where
  "works_ok k \<longleftrightarrow>
     (\<forall>q. slist (mem k) (data_q (work_fifo k q)) (work_items k q) \<and> (\<forall>w \<in> set (work_items k q). k_work_pending k w)) \<and>
     (\<forall>q r w. w \<in> set (work_items k q) \<longrightarrow> w \<in> set (work_items k r) \<longrightarrow> q = r)"

lemma slist_frame: "slist h l xs \<Longrightarrow> y \<notin> set xs \<Longrightarrow> slist (h(y := z)) l xs"
  by (simp add: slist_def)

lemma append_other:
  assumes "slist h l xs" "slist h m ys" "w \<notin> set ys" "set xs \<inter> set ys = {}"
  shows "slist (fst (sys_slist_append h l w)) m ys"
proof -
  have "tail l \<noteq> NULL \<Longrightarrow> tail l \<notin> set ys"
    using assms(1,4) slist_tail_null[OF assms(1)] by (auto simp: slist_def dest: last_in_set split: if_splits)
  then show ?thesis using assms(2,3) by (auto simp: sys_slist_append_def Let_def intro!: slist_frame)
qed

text \<open>Submitting an item that is not pending while the queue's thread is busy: it is queued last.\<close>

lemma submit_queues:
  fixes c :: kconfig
  assumes ok: "works_ok k" and w: "w \<noteq> NULL" "\<not> k_work_pending k w"
    and idle: "queues k (WaitQ (fifo_wait_q (work_fifo k q))) = []"
  defines "k' \<equiv> k_work_submit_to_queue c k q w"
  shows "works_ok k'" "work_items k' = (work_items k)(q := work_items k q @ [w])"
    "k_work_pending k' v \<longleftrightarrow> v = w \<or> k_work_pending k v" "queues k' = queues k"
    "\<And>r. fifo_wait_q (work_fifo k' r) = fifo_wait_q (work_fifo k r)"
proof -
  let ?l = "\<lambda>r. data_q (work_fifo k r)"
  obtain h1 q1 where a: "sys_slist_append (mem k) (?l q) w = (h1, q1)" by force
  have s: "slist (mem k) (?l r) (work_items k r)" for r using ok by (simp add: works_ok_def)
  have nw: "w \<notin> set (work_items k r)" for r using ok w(2) by (auto simp: works_ok_def)
  let ?k1 = "upd_work k w (\<lambda>wk. wk\<lparr>work_flags := set_bit 0 (work_flags wk)\<rparr>)"
  let ?f = "(work_fifo k q)\<lparr>data_q := q1\<rparr>"
  have k': "k' = ?k1\<lparr>mem := h1, work_fifo := (work_fifo k)(q := ?f)\<rparr>"
    using w(2) idle a by (simp add: k'_def k_work_submit_to_queue_def work_fifo_put_def k_fifo_put_def
        unpend_first_thread_def Let_def)
  have new: "slist h1 q1 (work_items k q @ [w])" using append_slist[OF s[of q] w(1) nw] a by simp
  have old: "slist h1 (?l r) (work_items k r)" if "r \<noteq> q" for r
  proof -
    have "set (work_items k q) \<inter> set (work_items k r) = {}" using ok that by (auto simp: works_ok_def)
    from append_other[OF s s nw this] show ?thesis using a by simp
  qed
  show items: "work_items k' = (work_items k)(q := work_items k q @ [w])"
    using fifo_items_eq[OF old] fifo_items_eq[of h1 ?f] new by (auto simp: fun_eq_iff work_items_def k')
  show pend: "k_work_pending k' v \<longleftrightarrow> v = w \<or> k_work_pending k v" for v
    by (simp add: k' k_work_pending_def bit_set_bit_iff)
  show "queues k' = queues k" "\<And>r. fifo_wait_q (work_fifo k' r) = fifo_wait_q (work_fifo k r)" by (simp_all add: k')
  have "slist (mem k') (data_q (work_fifo k' r)) (work_items k' r)" for r
    using new old[of r] by (auto simp: items) (simp_all add: k')
  moreover have "\<forall>v \<in> set (work_items k' r). k_work_pending k' v" for r
    using ok by (auto simp: works_ok_def items pend split: if_splits)
  moreover have "r = r'" if "v \<in> set (work_items k' r)" "v \<in> set (work_items k' r')" for r r' v
    using that ok nw by (auto simp: works_ok_def items split: if_splits)
  ultimately show "works_ok k'" unfolding works_ok_def by blast
qed

lemma submit_pending:
  assumes "k_work_pending k w"
  shows "k_work_submit_to_queue c k q w = k"
proof -
  have "set_bit 0 (work_flags (works k w)) = work_flags (works k w)"
    using assms by (intro bit_eqI) (auto simp: k_work_pending_def bit_set_bit_iff)
  then show ?thesis using assms by (simp add: k_work_submit_to_queue_def upd_work_def)
qed

text \<open>Several submissions are served in order.\<close>

lemma submit_all:
  assumes "works_ok k" "distinct ws" "\<forall>w \<in> set ws. w \<noteq> NULL \<and> \<not> k_work_pending k w"
    and "queues k (WaitQ (fifo_wait_q (work_fifo k q))) = []"
  shows "works_ok (fold (\<lambda>w k. k_work_submit_to_queue c k q w) ws k)"
    "work_items (fold (\<lambda>w k. k_work_submit_to_queue c k q w) ws k) = (work_items k)(q := work_items k q @ ws)"
proof -
  have "works_ok (fold (\<lambda>w k. k_work_submit_to_queue c k q w) ws k) \<and>
    work_items (fold (\<lambda>w k. k_work_submit_to_queue c k q w) ws k) = (work_items k)(q := work_items k q @ ws)"
    using assms
  proof (induction ws arbitrary: k)
    case (Cons w ws)
    let ?k = "k_work_submit_to_queue c k q w"
    have w: "w \<noteq> NULL" "\<not> k_work_pending k w" using Cons.prems by auto
    note s = submit_queues[OF Cons.prems(1) w Cons.prems(4), of c]
    have "\<forall>v \<in> set ws. v \<noteq> NULL \<and> \<not> k_work_pending ?k v" using Cons.prems s(3) by auto
    from Cons.IH[OF s(1) _ this] Cons.prems show ?case by (simp add: s(2,4,5) fun_eq_iff)
  qed simp
  then show "works_ok (fold (\<lambda>w k. k_work_submit_to_queue c k q w) ws k)"
    "work_items (fold (\<lambda>w k. k_work_submit_to_queue c k q w) ws k) = (work_items k)(q := work_items k q @ ws)" by auto
qed

section \<open>Delayed work\<close>

text \<open>
  The threads of the work queues wait on their FIFO for ever, and a delayed work item that counts
  down carries its handler.
\<close>

definition work_waits_ok :: "'z worked_scheme \<Rightarrow> bool" where
  "work_waits_ok k \<longleftrightarrow>
     (\<forall>q. \<forall>t \<in> set (queues k (WaitQ (fifo_wait_q (work_fifo k q)))). delta k (ThreadTO t) = -1) \<and>
     (\<forall>w. WorkTO w \<in> set (timeout_q k) \<longrightarrow> to_func (timeouts k (WorkTO w)) = WorkTimeout)"

lemma work_waits_mono:
  assumes "work_waits_ok k" "\<And>q. fifo_wait_q (work_fifo k' q) = fifo_wait_q (work_fifo k q)"
    "\<And>w. set (queues k' (WaitQ w)) \<subseteq> set (queues k (WaitQ w))"
    "\<And>t. delta k (ThreadTO t) = -1 \<Longrightarrow> delta k' (ThreadTO t) = -1" "\<And>x. to_func (timeouts k' x) = to_func (timeouts k x)"
    "\<And>w. WorkTO w \<in> set (timeout_q k') \<Longrightarrow> WorkTO w \<in> set (timeout_q k)"
  shows "work_waits_ok k'"
  using assms unfolding work_waits_ok_def by (metis subsetD)

lemma wake_waiting:
  assumes "delta k (ThreadTO t) = -1"
  shows "timeouts (wake c k t) = timeouts k" "timeout_q (wake c k t) = timeout_q k"
  using assms by (simp_all flip: wake_untimed)

lemma work_put_effect:
  fixes k :: "'z worked_scheme"
  assumes inv: "kernel_inv c X k" and ok: "work_waits_ok k"
  shows "kernel_inv c X (work_fifo_put c k q w)" "timeouts (work_fifo_put c k q w) = timeouts k"
    "timeout_q (work_fifo_put c k q w) = timeout_q k" "timers (work_fifo_put c k q w) = timers k"
    "\<And>v. set (queues (work_fifo_put c k q w) (WaitQ v)) \<subseteq> set (queues k (WaitQ v))"
    "\<And>r. fifo_wait_q (work_fifo (work_fifo_put c k q w) r) = fifo_wait_q (work_fifo k r)"
    "delayed_work_q (work_fifo_put c k q w) = delayed_work_q k" "works (work_fifo_put c k q w) = works k"
    "in_isr k \<Longrightarrow> runs_on X k (work_fifo_put c k q w)"
proof -
  let ?k = "work_fifo_put c k q w"
  have "kernel_inv c X ?k \<and> timeouts ?k = timeouts k \<and> timeout_q ?k = timeout_q k \<and> timers ?k = timers k \<and>
    (\<forall>v. set (queues ?k (WaitQ v)) \<subseteq> set (queues k (WaitQ v))) \<and>
    (\<forall>r. fifo_wait_q (work_fifo ?k r) = fifo_wait_q (work_fifo k r)) \<and>
    delayed_work_q ?k = delayed_work_q k \<and> works ?k = works k \<and> (in_isr k \<longrightarrow> runs_on X k ?k)"
  proof (cases "queues k (WaitQ (fifo_wait_q (work_fifo k q)))")
    case Nil
    obtain h1 q1 where "sys_slist_append (mem k) (data_q (work_fifo k q)) w = (h1, q1)" by force
    then have e: "?k = k\<lparr>mem := h1, work_fifo := (work_fifo k)(q := (work_fifo k q)\<lparr>data_q := q1\<rparr>)\<rparr>"
      using Nil by (simp add: work_fifo_put_def k_fifo_put_def unpend_first_thread_def)
    then show ?thesis using inv kernel_inv_cong(1)[of ?k k c X] by (simp add: runs_on_def ready_bits prevented_bits)
  next
    case (Cons t ts)
    let ?k1 = "resched_unless_isr c (handed c k t 0 w)"
    have t: "t \<noteq> NULL" using first_waiter(2)[OF inv Cons] .
    have "t \<in> set (queues k (WaitQ (fifo_wait_q (work_fifo k q))))" by (simp add: Cons)
    then have d: "delta k (ThreadTO t) = -1" using ok unfolding work_waits_ok_def by blast
    have m: "mem ?k1 = mem k \<and> work_fifo ?k1 = work_fifo k \<and> works ?k1 = works k \<and>
        delayed_work_q ?k1 = delayed_work_q k \<and> timers ?k1 = timers k" by (rule worked_more) simp
    then have e: "?k = ?k1"
      using t by (simp add: work_fifo_put_def k_fifo_put_def unpend_first_eq[OF Cons] prepare_handed)
    have "kernel_inv c X ?k1" by (intro resched_unless_isr_inv(1) handed_inv(1)[OF inv Cons])
    moreover have "in_isr k \<longrightarrow> runs_on X k ?k"
    proof
      assume "in_isr k"
      then have "?k1 = handed c k t 0 w" by (simp add: resched_unless_isr_def handed_def mark_defs)
      then show "runs_on X k ?k"
        using wake_ready(2)[OF inv first_waiter(3,1)[OF inv Cons]] pending_not_ready[OF first_waiter(3)[OF inv Cons]]
        unfolding e runs_on_def by (auto simp: handed_def mark_defs ready_bits prevented_bits bit_ops_flags)
    qed
    ultimately show ?thesis using m wake_waiting[OF d, of c]
      by (simp add: e handed_def mark_defs set_remove1_subset)
  qed
  then show "kernel_inv c X (work_fifo_put c k q w)" "timeouts (work_fifo_put c k q w) = timeouts k"
    "timeout_q (work_fifo_put c k q w) = timeout_q k" "timers (work_fifo_put c k q w) = timers k"
    "\<And>v. set (queues (work_fifo_put c k q w) (WaitQ v)) \<subseteq> set (queues k (WaitQ v))"
    "\<And>r. fifo_wait_q (work_fifo (work_fifo_put c k q w) r) = fifo_wait_q (work_fifo k r)"
    "delayed_work_q (work_fifo_put c k q w) = delayed_work_q k" "works (work_fifo_put c k q w) = works k"
    "in_isr k \<Longrightarrow> runs_on X k (work_fifo_put c k q w)" by auto
qed

text \<open>The end of a countdown: the item is submitted and detached, and no other timeout changes.\<close>

lemma work_timeout_effect:
  fixes k :: "'z worked_scheme"
  assumes inv: "kernel_inv c X k" and ok: "work_waits_ok k" "timers_ok k"
  shows "kernel_inv c X (work_timeout c k w)" "expiry (work_timeout c k w) = expiry k"
    "work_waits_ok (work_timeout c k w)" "timers_ok (work_timeout c k w)" "timers (work_timeout c k w) = timers k"
    "timeouts (work_timeout c k w) = timeouts k"
    "k_work_pending (work_timeout c k w) w" "delayed_work_q (work_timeout c k w) w = NULL"
    "in_isr k \<Longrightarrow> runs_on X k (work_timeout c k w)"
proof -
  let ?q = "delayed_work_q k w"
  let ?k1 = "upd_work k w (\<lambda>wk. wk\<lparr>work_flags := set_bit 0 (work_flags wk)\<rparr>)"
  let ?k2 = "if k_work_pending k w then ?k1 else work_fifo_put c ?k1 ?q w"
  have e: "work_timeout c k w = ?k2\<lparr>delayed_work_q := (delayed_work_q ?k2)(w := NULL)\<rparr>"
    by (simp add: work_timeout_def k_work_submit_to_queue_def Let_def)
  have i1: "kernel_inv c X ?k1" using inv kernel_inv_cong(1)[of ?k1 k c X] by simp
  have o1: "work_waits_ok ?k1" using ok by (simp add: work_waits_ok_def)
  note p = work_put_effect[OF i1 o1, of ?q w]
  have f: "timeouts ?k2 = timeouts k" "timeout_q ?k2 = timeout_q k" "timers ?k2 = timers k"
    "\<And>v. set (queues ?k2 (WaitQ v)) \<subseteq> set (queues k (WaitQ v))"
    "\<And>r. fifo_wait_q (work_fifo ?k2 r) = fifo_wait_q (work_fifo k r)" using p(2-6) by auto
  have i2: "kernel_inv c X ?k2" using i1 p(1) by simp
  then show "kernel_inv c X (work_timeout c k w)" using kernel_inv_cong(1)[of "work_timeout c k w" ?k2] by (simp add: e)
  show "expiry (work_timeout c k w) = expiry k" by (simp add: e expiry_def expiries_def f fun_eq_iff del: if_split)
  show "work_waits_ok (work_timeout c k w)"
    by (rule work_waits_mono[OF ok(1)]) (simp_all add: e f del: if_split)
  show "timers_ok (work_timeout c k w)" by (rule timers_ok_mono[OF ok(2)]) (simp_all add: e f del: if_split)
  show "timers (work_timeout c k w) = timers k" "timeouts (work_timeout c k w) = timeouts k" by (simp_all add: e f del: if_split)
  show "k_work_pending (work_timeout c k w) w" using p(8) by (simp add: e k_work_pending_def bit_set_bit_iff)
  show "delayed_work_q (work_timeout c k w) w = NULL" by (simp add: e)
  show "runs_on X k (work_timeout c k w)" if "in_isr k"
    using p(9) that by (simp add: e runs_on_def ready_bits prevented_bits)
qed

text \<open>A countdown that is started and cancelled leaves every timeout as it was.\<close>

lemma delayed_submit_cancel:
  fixes k :: "'z worked_scheme"
  assumes inv: "kernel_inv c X k" and k: "delayed_work_q k w = NULL" "\<not> k_work_pending k w" "expiry k (WorkTO w) = None"
    and q: "q \<noteq> NULL" and d: "d \<noteq> 0" "0 \<le> ms_to_ticks c d" "ms_to_ticks c d < 2 ^ 31 - 1"
  defines "k1 \<equiv> snd (k_delayed_work_submit_to_queue c k q w d)"
  shows "fst (k_delayed_work_submit_to_queue c k q w d) = 0" "kernel_inv c X k1"
    "expiry k1 = (expiry k)(WorkTO w \<mapsto> 1 + ms_to_ticks c d)" "delayed_work_q k1 w = q"
    "fst (k_delayed_work_cancel k1 w) = 0" "kernel_inv c X (snd (k_delayed_work_cancel k1 w))"
    "expiry (snd (k_delayed_work_cancel k1 w)) = expiry k" "delayed_work_q (snd (k_delayed_work_cancel k1 w)) w = NULL"
proof -
  let ?k0 = "k\<lparr>delayed_work_q := (delayed_work_q k)(w := q)\<rparr>"
  have e: "k_delayed_work_submit_to_queue c k q w d = (0, add_timeout ?k0 NULL (WorkTO w) NULL (1 + ms_to_ticks c d))"
    using k q d(1) by (auto simp: k_delayed_work_submit_to_queue_def TICK_ALIGN_def)
  then show "fst (k_delayed_work_submit_to_queue c k q w d) = 0" by simp
  have c0: "kernel_inv c X ?k0" "expiry ?k0 = expiry k" using inv kernel_inv_cong[of ?k0 k] by auto
  have k1: "k1 = add_timeout ?k0 NULL (WorkTO w) NULL (1 + ms_to_ticks c d)" by (simp add: k1_def e)
  have ti0: "timeout_inv ?k0" using c0(1) sched_invD(4) by (auto simp: kernel_inv_def)
  show i1: "kernel_inv c X k1" unfolding k1 by (rule add_callback_inv[OF c0(1)]) (use k(3) c0(2) d in auto)
  show e1: "expiry k1 = (expiry k)(WorkTO w \<mapsto> 1 + ms_to_ticks c d)" using expiry_add[OF ti0, of "WorkTO w"] k(3) c0(2) by (simp add: k1)
  have m: "kernel.more k1 = kernel.more ?k0" by (simp only: k1 more_frame)
  have w1: "works k1 = works k" "delayed_work_q k1 = (delayed_work_q k)(w := q)" using worked_more[OF m] by auto
  then show "delayed_work_q k1 w = q" by simp
  let ?k2 = "snd (abort_timeout k1 (WorkTO w))"
  have c: "k_delayed_work_cancel k1 w = (0, ?k2\<lparr>delayed_work_q := (delayed_work_q ?k2)(w := NULL)\<rparr>)"
    using k(2) q w1 by (simp add: k_delayed_work_cancel_def k_work_pending_def Let_def)
  show "fst (k_delayed_work_cancel k1 w) = 0" "delayed_work_q (snd (k_delayed_work_cancel k1 w)) w = NULL" by (simp_all add: c)
  have ti1: "timeout_inv k1" using i1 sched_invD(4) by (auto simp: kernel_inv_def)
  have i2: "kernel_inv c X ?k2" by (rule abort_callback_inv[OF i1]) simp
  then show "kernel_inv c X (snd (k_delayed_work_cancel k1 w))"
    using kernel_inv_cong(1)[of "snd (k_delayed_work_cancel k1 w)" ?k2] by (simp add: c)
  show "expiry (snd (k_delayed_work_cancel k1 w)) = expiry k"
    using kernel_inv_cong(2)[of "snd (k_delayed_work_cancel k1 w)" ?k2] expiry_abort[OF ti1, of "WorkTO w"] e1 k(3)
    by (simp add: c fun_upd_idem)
qed

text \<open>
  With a delay of 0 the item is submitted at once but stays attached to its queue, also after it
  has been processed.
\<close>

lemma delay_zero_attached:
  assumes k: "delayed_work_q k w = NULL" "\<not> k_work_pending k w" and inv: "kernel_inv c X k" "work_waits_ok k"
    and q: "q \<noteq> NULL"
  shows "delayed_work_q (snd (k_delayed_work_submit_to_queue c k q w 0)) w = q"
proof -
  let ?k0 = "k\<lparr>delayed_work_q := (delayed_work_q k)(w := q)\<rparr>"
  let ?k2 = "upd_work ?k0 w (\<lambda>wk. wk\<lparr>work_flags := set_bit 0 (work_flags wk)\<rparr>)"
  have e: "snd (k_delayed_work_submit_to_queue c k q w 0) = work_fifo_put c ?k2 q w"
    using k q by (auto simp: k_delayed_work_submit_to_queue_def k_work_submit_to_queue_def k_work_pending_def)
  have "kernel_inv c X ?k2" using inv(1) kernel_inv_cong(1)[of ?k2 k] by simp
  moreover have "work_waits_ok ?k2" using inv(2) by (simp add: work_waits_ok_def)
  ultimately show ?thesis using work_put_effect(7)[of c X ?k2 q w] by (simp add: e)
qed

text \<open>A handler that leaves the work items alone.\<close>

definition keeps_works :: "(addr \<Rightarrow> addr \<Rightarrow> 'z worked_scheme \<Rightarrow> 'z worked_scheme) \<Rightarrow> bool" where
  "keeps_works call \<longleftrightarrow>
     (\<forall>f w k. works (call f w k) = works k \<and> delayed_work_q (call f w k) = delayed_work_q k)"

lemma more_yield [simp]: "kernel.more (k_yield c k) = kernel.more k"
  by (simp add: k_yield_def move_thread_to_end_of_prio_q_def get_next_ready_thread_def
      get_next_ready_thread_slow_def Let_def case_prod_beta)

lemma process_done:
  assumes "keeps_works call"
  shows "\<not> k_work_pending (work_q_process c call k w) w"
    "delayed_work_q (work_q_process c call k w) = delayed_work_q k"
proof -
  let ?k1 = "upd_work k w (\<lambda>wk. wk\<lparr>work_flags := unset_bit 0 (work_flags wk)\<rparr>)"
  define k2 where "k2 = (if k_work_pending k w then call (work_handler (works k w)) w ?k1 else ?k1)"
  have e: "work_q_process c call k w = k_yield c k2" by (simp add: work_q_process_def k2_def)
  have m: "works (k_yield c k2) = works k2" "delayed_work_q (k_yield c k2) = delayed_work_q k2"
    using worked_more[OF more_yield[of c k2]] by auto
  have "works k2 = works ?k1" "delayed_work_q k2 = delayed_work_q k" using assms by (simp_all add: keeps_works_def k2_def)
  then show "\<not> k_work_pending (work_q_process c call k w) w"
    "delayed_work_q (work_q_process c call k w) = delayed_work_q k"
    by (simp_all add: e k_work_pending_def m bit_unset_bit_iff)
qed

end
