(* ===== verification/Sys_Clock.thy ===== *)
theory Sys_Clock
  imports Work_Queue
begin

text \<open>
  The system clock, \<^verbatim>\<open>kernel/unified/sys_clock.c\<close>: the tick, uptime, time slicing.  The timeouts
  that expire are those of threads, timers and delayed work, whose handlers are proved to meet the
  contract \<open>timeout_handlers\<close>.
\<close>

section \<open>Operations\<close>

text \<open>\<^verbatim>\<open>_sys_clock_tick_count\<close> is a signed 64-bit integer, the reference times are too.\<close>

record clocked = worked +
  sys_clock_tick_count :: "64 word"
  time_slice_elapsed :: int
  time_slice_duration :: int
  time_slice_prio_ceiling :: int

definition tick_get_32 :: "'z clocked_scheme \<Rightarrow> u32" where
  "tick_get_32 k = ucast (sys_clock_tick_count k)"

definition tick_get :: "'z clocked_scheme \<Rightarrow> 64 word" where
  "tick_get k = sys_clock_tick_count k"

definition k_uptime_get :: "kconfig \<Rightarrow> 'z clocked_scheme \<Rightarrow> 64 word" where
  "k_uptime_get c k = word_of_int (ticks_to_ms_64 c (sint (tick_get k)))"

definition k_uptime_get_32 :: "kconfig \<Rightarrow> 'z clocked_scheme \<Rightarrow> u32" where
  "k_uptime_get_32 c k = word_of_int (ticks_to_ms_64 c (uint (tick_get_32 k)))"

text \<open>A reference time that is passed by address is returned updated.\<close>

definition nano_tick_delta :: "'z clocked_scheme \<Rightarrow> 64 word \<Rightarrow> 64 word \<times> 64 word" where
  "nano_tick_delta k reftime = (let saved = sys_clock_tick_count k in (saved - reftime, saved))"

definition sys_tick_delta :: "'z clocked_scheme \<Rightarrow> 64 word \<Rightarrow> 64 word \<times> 64 word" where
  "sys_tick_delta k reftime = nano_tick_delta k reftime"

definition sys_tick_delta_32 :: "'z clocked_scheme \<Rightarrow> 64 word \<Rightarrow> u32 \<times> 64 word" where
  "sys_tick_delta_32 k reftime = (case nano_tick_delta k reftime of (d, r) \<Rightarrow> (ucast d, r))"

definition k_uptime_delta :: "kconfig \<Rightarrow> 'z clocked_scheme \<Rightarrow> 64 word \<Rightarrow> 64 word \<times> 64 word" where
  "k_uptime_delta c k reftime = (let uptime = k_uptime_get c k in (uptime - reftime, uptime))"

definition k_uptime_delta_32 :: "kconfig \<Rightarrow> 'z clocked_scheme \<Rightarrow> 64 word \<Rightarrow> u32 \<times> 64 word" where
  "k_uptime_delta_32 c k reftime = (case k_uptime_delta c k reftime of (d, r) \<Rightarrow> (ucast d, r))"

definition k_sched_time_slice_set :: "'z clocked_scheme \<Rightarrow> int \<Rightarrow> int \<Rightarrow> 'z clocked_scheme" where
  "k_sched_time_slice_set k duration_in_ms p =
     k\<lparr>time_slice_duration := duration_in_ms, time_slice_elapsed := 0, time_slice_prio_ceiling := p\<rparr>"

definition handle_time_slicing :: "kconfig \<Rightarrow> 'z clocked_scheme \<Rightarrow> int \<Rightarrow> 'z clocked_scheme" where
  "handle_time_slicing c k ticks =
     (if time_slice_duration k = 0 then k
      else if is_prio_higher (prio (thread k (current k))) (time_slice_prio_ceiling k) then k
      else let k1 = k\<lparr>time_slice_elapsed := time_slice_elapsed k + ticks_to_ms c ticks\<rparr>
           in if time_slice_elapsed k1 \<ge> time_slice_duration k1
              then move_thread_to_end_of_prio_q c (k1\<lparr>time_slice_elapsed := 0\<rparr>) (current k1) else k1)"

text \<open>The call of \<^verbatim>\<open>t->func\<close>: the two functions the kernel stores in a timeout.\<close>

definition timeout_fire ::
  "kconfig \<Rightarrow> (addr \<Rightarrow> addr \<Rightarrow> 'z clocked_scheme \<Rightarrow> 'z clocked_scheme) \<Rightarrow> toid \<Rightarrow> 'z clocked_scheme \<Rightarrow>
     'z clocked_scheme" where
  "timeout_fire c call x k =
     (case (to_func (timeouts k x), x) of
        (TimerExpirationHandler, TimerTO a) \<Rightarrow> timer_expiration_handler c call k a
      | (WorkTimeout, WorkTO w) \<Rightarrow> work_timeout c k w
      | _ \<Rightarrow> k)"

definition nano_sys_clock_tick_announce ::
  "kconfig \<Rightarrow> (addr \<Rightarrow> addr \<Rightarrow> 'z clocked_scheme \<Rightarrow> 'z clocked_scheme) \<Rightarrow> 'z clocked_scheme \<Rightarrow> int \<Rightarrow>
     'z clocked_scheme option" where
  "nano_sys_clock_tick_announce c call k ticks =
     (let k1 = k\<lparr>sys_clock_tick_count := sys_clock_tick_count k + word_of_int ticks\<rparr>
      in case handle_expired_timeouts c (timeout_fire c call) k1 ticks of
           None \<Rightarrow> None
         | Some k2 \<Rightarrow> Some (handle_time_slicing c k2 ticks))"

section \<open>The handlers meet their contract\<close>

definition clock_ok :: "'z clocked_scheme \<Rightarrow> bool" where
  "clock_ok k \<longleftrightarrow> in_isr k \<and> timers_ok k \<and> work_waits_ok k \<and> (\<forall>a. to_func (timeouts k (TimerTO a)) \<noteq> WorkTimeout)"

definition rearm :: "'z clocked_scheme \<Rightarrow> toid \<Rightarrow> int option" where
  "rearm k x = (case x of TimerTO a \<Rightarrow> if tmr_period (timers k a) > 0 then Some (tmr_period (timers k a)) else None
     | _ \<Rightarrow> None)"

text \<open>A function of the application that leaves the kernel and its objects alone.\<close>

definition keeps_kernel :: "(addr \<Rightarrow> addr \<Rightarrow> 'z clocked_scheme \<Rightarrow> 'z clocked_scheme) \<Rightarrow> bool" where
  "keeps_kernel call \<longleftrightarrow> (\<forall>f a k. clocked.truncate (call f a k) = clocked.truncate k)"

lemma keeps_kernel_timed: "keeps_kernel call \<Longrightarrow> keeps_timed call"
  by (auto simp: keeps_kernel_def keeps_timed_def timed.truncate_def clocked.truncate_def)

lemma keeps_kernel_works: "keeps_kernel call \<Longrightarrow> work_fifo (call f a k) = work_fifo k"
  unfolding keeps_kernel_def clocked.truncate_def by (drule spec[of _ f], drule spec[of _ a], drule spec[of _ k]) simp

definition clock_part :: "'z clocked_scheme \<Rightarrow> 64 word \<times> int \<times> int \<times> int" where
  "clock_part k = (sys_clock_tick_count k, time_slice_elapsed k, time_slice_duration k, time_slice_prio_ceiling k)"

lemma clock_part_more: "kernel.more k' = kernel.more k \<Longrightarrow> clock_part k' = clock_part k"
  by (cases k; cases k') (auto simp: clock_part_def)

lemma keeps_kernel_clock: "keeps_kernel call \<Longrightarrow> clock_part (call f a k) = clock_part k"
  unfolding keeps_kernel_def clocked.truncate_def clock_part_def
  by (drule spec[of _ f], drule spec[of _ a], drule spec[of _ k]) simp

lemma rearm_cong: "timers k' = timers k \<Longrightarrow> rearm k' = rearm k"
  by (simp add: rearm_def fun_eq_iff split: toid.splits)

lemma work_fifo_frame [simp]:
  "work_fifo (upd_timer k a f) = work_fifo k" "work_fifo (upd_thread k t g) = work_fifo k"
  "work_fifo (add_timeout k t x w n) = work_fifo k" "work_fifo (ready_thread c k t) = work_fifo k"
  "work_fifo (snd (unpend_first_thread k w)) = work_fifo k"
  using worked_more[OF more_frame(1), of k t g] worked_more[OF more_frame(7), of k t x w n]
    worked_more[OF more_frame(9), of c k t]
  by (simp_all add: upd_timer_def) (simp add: unpend_first_thread_def unlink_node_def mark_defs upd_thread_def split: list.splits)

lemma handler_work_fifo:
  assumes "keeps_kernel call"
  shows "work_fifo (timer_expiration_handler c call k a) = work_fifo k"
  by (simp add: timer_expiration_handler_def Let_def case_prod_beta mark_defs keeps_kernel_works[OF assms])

lemma clock_part_frame [simp]:
  "clock_part (upd_timer k a f) = clock_part k" "clock_part (upd_work k w g) = clock_part k"
  "clock_part (k\<lparr>delayed_work_q := d\<rparr>) = clock_part k" "clock_part (k\<lparr>mem := h, work_fifo := m\<rparr>) = clock_part k"
  "clock_part (snd (unpend_first_thread k w)) = clock_part k"
  by (simp_all add: clock_part_def upd_timer_def upd_work_def)
    (simp add: unpend_first_thread_def unlink_node_def mark_defs upd_thread_def split: list.splits)

lemma handler_clock:
  assumes "keeps_kernel call"
  shows "clock_part (timer_expiration_handler c call k a) = clock_part k"
  by (simp add: timer_expiration_handler_def Let_def case_prod_beta mark_defs keeps_kernel_clock[OF assms]
      clock_part_more[OF more_frame(1)] clock_part_more[OF more_frame(7)] clock_part_more[OF more_frame(9)])

lemma put_more: "kernel.more (snd (snd (k_fifo_put c (f, h, k) w))) = kernel.more k"
  by (simp add: k_fifo_put_def case_prod_beta prepare_thread_to_run_def mark_defs abort_thread_timeout_def
      unpend_first_thread_def split: list.splits)

lemma put_clock: "clock_part (work_fifo_put c k q w) = clock_part k"
proof -
  obtain f h k1 where e: "k_fifo_put c (work_fifo k q, mem k, k) w = (f, h, k1)" by (cases "k_fifo_put c (work_fifo k q, mem k, k) w")
  have "kernel.more k1 = kernel.more k" using put_more[of c "work_fifo k q" "mem k" k w] unfolding e by simp
  then have "clock_part k1 = clock_part k" by (rule clock_part_more)
  then show ?thesis by (simp add: work_fifo_put_def e)
qed

lemma work_clock: "clock_part (work_timeout c k w) = clock_part k"
  by (simp add: work_timeout_def k_work_submit_to_queue_def Let_def put_clock)

lemma clock_ok_settles:
  assumes "clock_ok k" "settles k k'"
  shows "clock_ok k' \<and> rearm k' = rearm k"
proof -
  have m: "kernel.more k' = kernel.more k" using assms(2) by (simp add: settles_def)
  have "timers_ok k'" using timers_ok_settles[OF _ assms(2)] assms(1) by (simp add: clock_ok_def)
  moreover have "work_waits_ok k'"
    by (rule work_waits_mono[of k]) (use assms worked_more[OF m] in \<open>auto simp: settles_def clock_ok_def\<close>)
  moreover have "\<forall>a. to_func (timeouts k' (TimerTO a)) \<noteq> WorkTimeout" using assms by (auto simp: settles_def clock_ok_def)
  ultimately show ?thesis using rearm_cong[of k' k] worked_more[OF m] assms by (simp add: clock_ok_def settles_def)
qed

lemma timer_fires_ok:
  assumes call: "keeps_kernel call" and inv: "kernel_inv c X k" and ok: "clock_ok k"
    and e: "expiry k (TimerTO a) = None" and f: "to_func (timeouts k (TimerTO a)) = TimerExpirationHandler"
  defines "k' \<equiv> timer_expiration_handler c call k a"
  shows "kernel_inv c X k' \<and> clock_ok k' \<and> rearm k' = rearm k \<and> runs_on X k k' \<and> expiry k' = (expiry k)(TimerTO a := rearm k (TimerTO a))"
proof -
  note t = timer_expires[OF inv _ e f keeps_kernel_timed[OF call], folded k'_def]
  have tk: "timers_ok k" "work_waits_ok k" using ok by (auto simp: clock_ok_def)
  have ti: "timeout_inv k" "timeout_inv k'" using inv t(1)[OF tk(1)] sched_invD(4) by (auto simp: kernel_inv_def)
  have w: "work_waits_ok k'"
  proof (rule work_waits_mono[OF tk(2)])
    show "fifo_wait_q (work_fifo k' q) = fifo_wait_q (work_fifo k q)" for q
      using handler_work_fifo[OF call, of c k a] by (simp add: k'_def)
    show "set (queues k' (WaitQ w)) \<subseteq> set (queues k (WaitQ w))" "to_func (timeouts k' x) = to_func (timeouts k x)" for w x
      using t(5,6) tk by auto
    show "delta k (ThreadTO u) = -1 \<Longrightarrow> delta k' (ThreadTO u) = -1" for u
      using expiry_active[OF ti(1), of "ThreadTO u"] expiry_active[OF ti(2), of "ThreadTO u"] t(3)[OF tk(1)] by simp
    show "WorkTO w \<in> set (timeout_q k') \<Longrightarrow> WorkTO w \<in> set (timeout_q k)" for w
      using expiry_None[of k "WorkTO w"] expiry_None[of k' "WorkTO w"] t(3)[OF tk(1)] by auto
  qed
  moreover have "rearm k' = rearm k" using t(4)[OF tk(1)] by (auto simp: rearm_def fun_eq_iff split: toid.splits)
  ultimately show ?thesis using t tk ok t(7)[OF tk(1)] by (auto simp: clock_ok_def rearm_def runs_on_def)
qed

lemma work_fires_ok:
  assumes inv: "kernel_inv c X k" and ok: "clock_ok k" and e: "expiry k (WorkTO w) = None"
  shows "kernel_inv c X (work_timeout c k w) \<and> clock_ok (work_timeout c k w) \<and> rearm (work_timeout c k w) = rearm k \<and>
    runs_on X k (work_timeout c k w) \<and>
    expiry (work_timeout c k w) = (expiry k)(WorkTO w := rearm k (WorkTO w))"
  using work_timeout_effect[OF inv, of w] ok e rearm_cong[of "work_timeout c k w" k]
  by (auto simp: clock_ok_def rearm_def fun_upd_idem runs_on_def)

lemma fire_contract:
  assumes call: "keeps_kernel call" and k: "kernel_inv c X k" "clock_ok k" "expiry k x = None" "to_func (timeouts k x) \<noteq> NoFunc"
  shows "kernel_inv c X (timeout_fire c call x k) \<and> clock_ok (timeout_fire c call x k) \<and>
    rearm (timeout_fire c call x k) = rearm k \<and> runs_on X k (timeout_fire c call x k) \<and> expiry (timeout_fire c call x k) = (expiry k)(x := rearm k x)"
proof (cases x)
  case (ThreadTO t)
  then show ?thesis using k by (simp add: timeout_fire_def rearm_def fun_upd_idem runs_on_def split: timeout_func.splits)
next
  case (TimerTO a)
  then have f: "to_func (timeouts k (TimerTO a)) = TimerExpirationHandler"
    using k(2,4) by (cases "to_func (timeouts k x)") (auto simp: clock_ok_def)
  show ?thesis using timer_fires_ok[OF call k(1,2) _ f] k(3) f TimerTO by (simp add: timeout_fire_def)
next
  case (WorkTO w)
  show ?thesis
  proof (cases "to_func (timeouts k x) = WorkTimeout")
    case True
    then show ?thesis using work_fires_ok[OF k(1,2)] k(3) WorkTO by (simp add: timeout_fire_def)
  next
    case False
    then show ?thesis using k WorkTO by (cases "to_func (timeouts k x)") (simp_all add: timeout_fire_def rearm_def fun_upd_idem runs_on_def)
  qed
qed

lemma clock_ok_func:
  assumes "clock_ok k" "x \<in> set (timeout_q k)" "\<And>t. x \<noteq> ThreadTO t"
  shows "to_func (timeouts k x) \<noteq> NoFunc"
  using assms by (cases x) (auto simp: clock_ok_def timers_ok_def work_waits_ok_def)

lemma fire_clock: "keeps_kernel call \<Longrightarrow> clock_part (timeout_fire c call x k) = clock_part k"
  by (auto simp: timeout_fire_def handler_clock work_clock split: timeout_func.splits toid.splits)

text \<open>
  The contract holds of the kernel's own handlers, for every application function that leaves the
  kernel alone.
\<close>

abbreviation (input) app_call ::
  "(addr \<Rightarrow> addr \<Rightarrow> 'z clocked_scheme \<Rightarrow> 'z) \<Rightarrow> addr \<Rightarrow> addr \<Rightarrow> 'z clocked_scheme \<Rightarrow> 'z clocked_scheme" where
  "app_call app \<equiv> \<lambda>f a k. k\<lparr>clocked.more := app f a k\<rparr>"

lemma app_call_keeps: "keeps_kernel (app_call app)"
  by (simp add: keeps_kernel_def clocked.truncate_def)

interpretation ticks: timeout_handlers c X "timeout_fire c (app_call app)" "\<lambda>k. clock_ok k \<and> clock_part k = T" rearm
  for c X app T
proof unfold_locales
  fix k :: "'a clocked_scheme" and x
  let ?f = "timeout_fire c (app_call app) x k"
  show "kernel_inv c X ?f \<and> (clock_ok ?f \<and> clock_part ?f = T) \<and> rearm ?f = rearm k \<and> runs_on X k ?f \<and>
      expiry ?f = (expiry k)(x := rearm k x)"
    if "kernel_inv c X k" "clock_ok k \<and> clock_part k = T" "expiry k x = None" "to_func (timeouts k x) \<noteq> NoFunc"
    using fire_contract[OF app_call_keeps that(1) _ that(3,4)] fire_clock[OF app_call_keeps, of c app x k] that(2) by auto
  show "to_func (timeouts k x) \<noteq> NoFunc"
    if "clock_ok k \<and> clock_part k = T" "x \<in> set (timeout_q k)" "\<And>t. x \<noteq> ThreadTO t"
    using clock_ok_func that by blast
  show "(clock_ok k' \<and> clock_part k' = T) \<and> rearm k' = rearm k" if "clock_ok k \<and> clock_part k = T" "settles k k'" for k'
    using clock_ok_settles[OF _ that(2)] clock_part_more[of k' k] that by (simp add: settles_def)
  show "0 < n" if "rearm k x = Some n" for n using that by (auto simp: rearm_def split: toid.splits if_splits)
  show "rearm k (ThreadTO t) = None" for t by (simp add: rearm_def)
qed

section \<open>The tick\<close>

text \<open>Time slicing keeps the invariant and every timeout.\<close>

lemma time_slicing_inv:
  assumes inv: "kernel_inv c X k" and t: "current k \<notin> X" "is_thread_ready k (current k)"
  shows "kernel_inv c X (handle_time_slicing c k n)" "expiry (handle_time_slicing c k n) = expiry k"
    "sys_clock_tick_count (handle_time_slicing c k n) = sys_clock_tick_count k"
    "current (handle_time_slicing c k n) = current k"
proof -
  have i: "kernel_inv c X (k\<lparr>time_slice_elapsed := e\<rparr>)" "expiry (k\<lparr>time_slice_elapsed := e\<rparr>) = expiry k" for e
    using inv kernel_inv_cong[of "k\<lparr>time_slice_elapsed := e\<rparr>" k] by auto
  have r: "is_thread_ready (k\<lparr>time_slice_elapsed := e\<rparr>) (current k)" for e using t(2) by (simp add: ready_bits)
  have m: "kernel_inv c X (move_thread_to_end_of_prio_q c (k\<lparr>time_slice_elapsed := e\<rparr>) (current k))" for e
    by (rule move_inv[OF i(1)]) (use t r in simp_all)
  show "kernel_inv c X (handle_time_slicing c k n)" using inv i m by (simp add: handle_time_slicing_def Let_def)
  show "expiry (handle_time_slicing c k n) = expiry k"
    by (simp add: handle_time_slicing_def Let_def expiry_def expiries_def fun_eq_iff)
  have "kernel.more (move_thread_to_end_of_prio_q c k' u) = kernel.more k'" for k' :: "'a clocked_scheme" and u
    by (simp add: move_thread_to_end_of_prio_q_def Let_def)
  then show "sys_clock_tick_count (handle_time_slicing c k n) = sys_clock_tick_count k"
    using clock_part_more[of "move_thread_to_end_of_prio_q c (k\<lparr>time_slice_elapsed := 0\<rparr>) (current k)" "k\<lparr>time_slice_elapsed := 0\<rparr>"]
    by (simp add: handle_time_slicing_def Let_def clock_part_def)
  show "current (handle_time_slicing c k n) = current k" by (simp add: handle_time_slicing_def Let_def)
qed

text \<open>
  A tick count beyond the next expiry is never made up for: the head's delta goes negative, nothing
  is handled, and no later tick handles it either.
\<close>

lemma overrun_stuck:
  assumes "timeout_q k = x # xs" "delta k x < n"
  shows "handle_expired_timeouts c fire k n =
    Some (upd_timeout k x (\<lambda>u. u\<lparr>delta_ticks_from_prev := delta_ticks_from_prev u - n\<rparr>))"
  using assms by (simp add: handle_expired_timeouts_def handle_timeouts.simps)

end
