(* ===== verification/Atomic.thy ===== *)
theory Atomic
  imports Zephyr_Prelude
begin

text \<open>
  Atomic operations, \<^verbatim>\<open>kernel/unified/atomic_c.c\<close>, and the operations on bit arrays of \<^verbatim>\<open>include/atomic.h\<close>.  Each
  primitive runs with interrupts locked, so it is one function of the old value of its target, with the
  returned value and the new value of the target as its result.
\<close>

section \<open>Primitives\<close>

type_synonym atomic_val = u32

definition atomic_cas :: "atomic_val \<Rightarrow> atomic_val \<Rightarrow> atomic_val \<Rightarrow> bool \<times> atomic_val" where
  "atomic_cas target old_value new_value = (if target = old_value then (True, new_value) else (False, target))"

definition atomic_add :: "atomic_val \<Rightarrow> atomic_val \<Rightarrow> atomic_val \<times> atomic_val" where
  "atomic_add target value = (target, target + value)"

definition atomic_sub :: "atomic_val \<Rightarrow> atomic_val \<Rightarrow> atomic_val \<times> atomic_val" where
  "atomic_sub target value = (target, target - value)"

definition atomic_inc :: "atomic_val \<Rightarrow> atomic_val \<times> atomic_val" where
  "atomic_inc target = (target, target + 1)"

definition atomic_dec :: "atomic_val \<Rightarrow> atomic_val \<times> atomic_val" where
  "atomic_dec target = (target, target - 1)"

definition atomic_get :: "atomic_val \<Rightarrow> atomic_val" where
  "atomic_get target = target"

definition atomic_set :: "atomic_val \<Rightarrow> atomic_val \<Rightarrow> atomic_val \<times> atomic_val" where
  "atomic_set target value = (target, value)"

definition atomic_clear :: "atomic_val \<Rightarrow> atomic_val \<times> atomic_val" where
  "atomic_clear target = (target, 0)"

definition atomic_or :: "atomic_val \<Rightarrow> atomic_val \<Rightarrow> atomic_val \<times> atomic_val" where
  "atomic_or target value = (target, target OR value)"

definition atomic_xor :: "atomic_val \<Rightarrow> atomic_val \<Rightarrow> atomic_val \<times> atomic_val" where
  "atomic_xor target value = (target, target XOR value)"

definition atomic_and :: "atomic_val \<Rightarrow> atomic_val \<Rightarrow> atomic_val \<times> atomic_val" where
  "atomic_and target value = (target, target AND value)"

definition atomic_nand :: "atomic_val \<Rightarrow> atomic_val \<Rightarrow> atomic_val \<times> atomic_val" where
  "atomic_nand target value = (target, NOT (target AND value))"

section \<open>Bit arrays\<close>

text \<open>An array of atomic variables in a memory of words.\<close>

definition ATOMIC_MASK :: "nat \<Rightarrow> atomic_val" where
  "ATOMIC_MASK b = push_bit (b AND 31) 1"

definition ATOMIC_ELEM :: "addr \<Rightarrow> nat \<Rightarrow> addr" where
  "ATOMIC_ELEM target b = target + b div 32"

definition atomic_test_bit :: "(addr \<Rightarrow> atomic_val) \<Rightarrow> addr \<Rightarrow> nat \<Rightarrow> bool" where
  "atomic_test_bit h target b \<longleftrightarrow> 1 AND drop_bit (b AND 31) (atomic_get (h (ATOMIC_ELEM target b))) \<noteq> 0"

definition atomic_test_and_clear_bit :: "(addr \<Rightarrow> atomic_val) \<Rightarrow> addr \<Rightarrow> nat \<Rightarrow> bool \<times> (addr \<Rightarrow> atomic_val)" where
  "atomic_test_and_clear_bit h target b =
     (case atomic_and (h (ATOMIC_ELEM target b)) (NOT (ATOMIC_MASK b)) of
        (old, new) \<Rightarrow> (old AND ATOMIC_MASK b \<noteq> 0, h(ATOMIC_ELEM target b := new)))"

definition atomic_test_and_set_bit :: "(addr \<Rightarrow> atomic_val) \<Rightarrow> addr \<Rightarrow> nat \<Rightarrow> bool \<times> (addr \<Rightarrow> atomic_val)" where
  "atomic_test_and_set_bit h target b =
     (case atomic_or (h (ATOMIC_ELEM target b)) (ATOMIC_MASK b) of
        (old, new) \<Rightarrow> (old AND ATOMIC_MASK b \<noteq> 0, h(ATOMIC_ELEM target b := new)))"

definition atomic_clear_bit :: "(addr \<Rightarrow> atomic_val) \<Rightarrow> addr \<Rightarrow> nat \<Rightarrow> addr \<Rightarrow> atomic_val" where
  "atomic_clear_bit h target b = h(ATOMIC_ELEM target b := snd (atomic_and (h (ATOMIC_ELEM target b)) (NOT (ATOMIC_MASK b))))"

definition atomic_set_bit :: "(addr \<Rightarrow> atomic_val) \<Rightarrow> addr \<Rightarrow> nat \<Rightarrow> addr \<Rightarrow> atomic_val" where
  "atomic_set_bit h target b = h(ATOMIC_ELEM target b := snd (atomic_or (h (ATOMIC_ELEM target b)) (ATOMIC_MASK b)))"

section \<open>The set of bits\<close>

lemma and_31: "b AND 31 = b mod 32" for b :: nat
  using take_bit_eq_mask[of 5 b] by (simp add: take_bit_eq_mod mask_eq_exp_minus_1)

lemma atomic_test_bit_iff: "atomic_test_bit h target b \<longleftrightarrow> bit (h (target + b div 32)) (b mod 32)"
  by (simp add: atomic_test_bit_def atomic_get_def ATOMIC_ELEM_def and_31 one_and_eq odd_iff_mod_2_eq_one[symmetric] bit_iff_odd_drop_bit)

lemma bit_ATOMIC_MASK: "bit (ATOMIC_MASK b) i \<longleftrightarrow> i = b mod 32"
  by (auto simp: ATOMIC_MASK_def and_31 bit_exp_iff)

lemma and_mask_nonzero: "w AND ATOMIC_MASK b \<noteq> 0 \<longleftrightarrow> bit w (b mod 32)"
proof -
  have "w AND ATOMIC_MASK b = 0 \<longleftrightarrow> (\<forall>i. \<not> bit (w AND ATOMIC_MASK b) i)" by (metis bit_0_eq bit_word_eqI bot_apply bot_bool_def)
  then show ?thesis by (auto simp: bit_and_iff bit_ATOMIC_MASK)
qed

lemma same_cell: "b div 32 = b' div 32 \<and> b mod 32 = b' mod 32 \<longleftrightarrow> b = b'" for b b' :: nat
  by (metis div_mult_mod_eq)

lemma test_bit_set: "atomic_test_bit (atomic_set_bit h target b) target b' \<longleftrightarrow> b' = b \<or> atomic_test_bit h target b'"
  using same_cell[of b b']
  by (auto simp: atomic_test_bit_iff atomic_set_bit_def atomic_or_def ATOMIC_ELEM_def bit_or_iff bit_ATOMIC_MASK)

lemma test_bit_clear: "atomic_test_bit (atomic_clear_bit h target b) target b' \<longleftrightarrow> b' \<noteq> b \<and> atomic_test_bit h target b'"
  using same_cell[of b b']
  by (auto simp: atomic_test_bit_iff atomic_clear_bit_def atomic_and_def ATOMIC_ELEM_def bit_and_iff bit_not_iff bit_ATOMIC_MASK)

lemma test_and_bit:
  "atomic_test_and_set_bit h target b = (atomic_test_bit h target b, atomic_set_bit h target b)"
  "atomic_test_and_clear_bit h target b = (atomic_test_bit h target b, atomic_clear_bit h target b)"
  by (simp_all add: atomic_test_and_set_bit_def atomic_test_and_clear_bit_def atomic_or_def atomic_and_def atomic_set_bit_def
      atomic_clear_bit_def atomic_test_bit_iff and_mask_nonzero ATOMIC_ELEM_def)

end
