(* ===== verification/Alert.thy ===== *)
theory Alert
  imports Work_Queue Sem Atomic
begin

text \<open>
  Alerts, \<^verbatim>\<open>kernel/unified/alert.c\<close>, and the system work queue they are delivered by,
  \<^verbatim>\<open>kernel/unified/system_work_q.c\<close>.  An alert sent to a handler is counted, and a work item delivers all
  that have been counted when it runs.
\<close>

section \<open>Operations\<close>

record k_alert =
  alert_handler :: addr
  send_count :: atomic_val
  alert_work :: addr
  alert_sem :: k_sem

type_synonym 'z alert_state = "k_alert \<times> sem_groups \<times> 'z worked_scheme"

definition K_ALERT_DEFAULT :: addr where "K_ALERT_DEFAULT = NULL"
definition K_ALERT_IGNORE :: addr where "K_ALERT_IGNORE = 2 ^ 32 - 1"

definition k_sys_work_q_init :: "kconfig \<Rightarrow> 'z worked_scheme \<Rightarrow> addr \<Rightarrow> tid \<Rightarrow> int \<Rightarrow> 'z worked_scheme" where
  "k_sys_work_q_init c k k_sys_work_q sys_work_q_stack priority = k_work_q_start c k k_sys_work_q sys_work_q_stack priority"

text \<open>
  One round of the loop of \<^verbatim>\<open>_alert_deliver\<close>; \<open>call\<close> calls the application's handler, which may send alerts and
  make other kernel calls.  The first component says whether the loop ends.
\<close>

definition deliver_round ::
  "kconfig \<Rightarrow> (addr \<Rightarrow> 'z alert_state \<Rightarrow> int \<times> 'z alert_state) \<Rightarrow> 'z alert_state \<Rightarrow> bool \<times> 'z alert_state" where
  "deliver_round c call s =
     (case call (alert_handler (fst s)) s of (r, a1, g1, k1) \<Rightarrow>
        case (if r = 0 then (g1, alert_sem a1, k1) else k_sem_give c g1 (alert_sem a1) k1) of (g2, s2, k2) \<Rightarrow>
          case atomic_dec (send_count a1) of (old, new) \<Rightarrow>
            (old = 1, a1\<lparr>alert_sem := s2, send_count := new\<rparr>, g2, k2))"

partial_function (option) alert_deliver ::
  "kconfig \<Rightarrow> (addr \<Rightarrow> 'z alert_state \<Rightarrow> int \<times> 'z alert_state) \<Rightarrow> 'z alert_state \<Rightarrow> 'z alert_state option" where
  "alert_deliver c call s =
     (case deliver_round c call s of (done, s1) \<Rightarrow> if done then Some s1 else alert_deliver c call s1)"

text \<open>The address of \<^verbatim>\<open>_alert_deliver\<close>, the handler of the alert's work item, is an argument.\<close>

definition k_alert_init ::
  "'z worked_scheme \<Rightarrow> addr \<Rightarrow> addr \<Rightarrow> wqid \<Rightarrow> addr \<Rightarrow> u32 \<Rightarrow> k_alert \<times> 'z worked_scheme" where
  "k_alert_init k deliver work w handler max_num_pending_alerts =
     (let k1 = (upd_work k work (\<lambda>_. \<lparr>work_handler = deliver, work_flags = 0\<rparr>))\<lparr>mem := (mem k)(work := NULL)\<rparr>
      in case k_sem_init k1 w 0 max_num_pending_alerts of
           (s, k2) \<Rightarrow> (\<lparr>alert_handler = handler, send_count = 0, alert_work = work, alert_sem = s\<rparr>, k2))"

definition k_alert_send :: "kconfig \<Rightarrow> addr \<Rightarrow> 'z alert_state \<Rightarrow> 'z alert_state" where
  "k_alert_send c k_sys_work_q = (\<lambda>(a, g, k).
     if alert_handler a = K_ALERT_IGNORE then (a, g, k)
     else if alert_handler a = K_ALERT_DEFAULT
     then case k_sem_give c g (alert_sem a) k of (g1, s1, k1) \<Rightarrow> (a\<lparr>alert_sem := s1\<rparr>, g1, k1)
     else case atomic_inc (send_count a) of (old, new) \<Rightarrow>
            (a\<lparr>send_count := new\<rparr>, g, if old = 0 then k_work_submit_to_queue c k k_sys_work_q (alert_work a) else k))"

definition k_alert_recv :: "kconfig \<Rightarrow> 'z alert_state \<Rightarrow> int \<Rightarrow> int option \<times> 'z alert_state" where
  "k_alert_recv c = (\<lambda>(a, g, k) timeout.
     case k_sem_take c (alert_sem a) k timeout of (r, s1, k1) \<Rightarrow> (r, a\<lparr>alert_sem := s1\<rparr>, g, k1))"

section \<open>Delivery\<close>

text \<open>
  When the handler does not send the alert again, the loop ends after one round for each alert counted.
\<close>

definition no_resend :: "(addr \<Rightarrow> 'z alert_state \<Rightarrow> int \<times> 'z alert_state) \<Rightarrow> bool" where
  "no_resend call \<longleftrightarrow> (\<forall>f s. send_count (fst (snd (call f s))) = send_count (fst s))"

lemma round_count:
  assumes "no_resend call"
  shows "fst (deliver_round c call s) \<longleftrightarrow> send_count (fst s) = 1"
    "send_count (fst (snd (deliver_round c call s))) = send_count (fst s) - 1"
proof -
  obtain r a1 g1 k1 where e: "call (alert_handler (fst s)) s = (r, a1, g1, k1)" by (metis prod_cases4)
  then have "send_count a1 = send_count (fst s)" using assms unfolding no_resend_def by (metis fst_conv snd_conv)
  then show "fst (deliver_round c call s) \<longleftrightarrow> send_count (fst s) = 1"
    "send_count (fst (snd (deliver_round c call s))) = send_count (fst s) - 1"
    using e by (auto simp: deliver_round_def atomic_dec_def split: prod.splits)
qed

lemma deliver_all:
  assumes "no_resend call" "0 < unat (send_count (fst s))"
  shows "alert_deliver c call s = Some (((\<lambda>s. snd (deliver_round c call s)) ^^ unat (send_count (fst s))) s)"
    "send_count (fst (((\<lambda>s. snd (deliver_round c call s)) ^^ unat (send_count (fst s))) s)) = 0"
proof -
  let ?f = "\<lambda>s. snd (deliver_round c call s)"
  have "alert_deliver c call s = Some ((?f ^^ Suc n) s) \<and> send_count (fst ((?f ^^ Suc n) s)) = 0"
    if "unat (send_count (fst s)) = Suc n" for n s
    using that
  proof (induction n arbitrary: s)
    case 0
    then have "send_count (fst s) = 1" by (metis One_nat_def unat_1 word_unat_eq_iff)
    then show ?case using round_count[OF assms(1), of c s] by (subst alert_deliver.simps) (simp add: case_prod_beta)
  next
    case (Suc n)
    have "0 < send_count (fst s)" "send_count (fst s) \<noteq> 1" using Suc.prems by (auto simp: word_less_nat_alt)
    then have c: "unat (send_count (fst (?f s))) = Suc n" "\<not> fst (deliver_round c call s)"
      using unat_dec[of "send_count (fst s)"] Suc.prems by (simp_all add: round_count[OF assms(1)])
    have "alert_deliver c call s = alert_deliver c call (?f s)"
      using c(2) by (subst alert_deliver.simps) (simp add: case_prod_beta)
    moreover have "(?f ^^ Suc (Suc n)) s = (?f ^^ Suc n) (?f s)" by (simp only: funpow_Suc_right o_apply)
    ultimately show ?case using Suc.IH[OF c(1)] by metis
  qed
  from this[of s "unat (send_count (fst s)) - 1"] assms(2)
  show "alert_deliver c call s = Some ((?f ^^ unat (send_count (fst s))) s)"
    "send_count (fst ((?f ^^ unat (send_count (fst s))) s)) = 0"
    by simp_all
qed

text \<open>Sending to a handler: the first alert submits the work item, the others are only counted.\<close>

lemma send_more:
  assumes "alert_handler a \<noteq> K_ALERT_IGNORE" "alert_handler a \<noteq> K_ALERT_DEFAULT" "unat (send_count a) = Suc m" "Suc m + n < 2 ^ 32"
  shows "(k_alert_send c q ^^ n) (a, g, k) = (a\<lparr>send_count := send_count a + of_nat n\<rparr>, g, k)"
  using assms(4)
proof (induction n)
  case (Suc n)
  have "unat (send_count a + of_nat n) = Suc m + n"
    using assms(3) Suc.prems by (simp add: unat_word_ariths(1) unat_of_nat)
  then have "send_count a + of_nat n \<noteq> 0" by (metis Zero_not_Suc add_Suc unat_0)
  then show ?case using Suc assms(1,2) by (simp add: k_alert_send_def atomic_inc_def ac_simps)
qed simp

lemma send_many:
  assumes "alert_handler a \<noteq> K_ALERT_IGNORE" "alert_handler a \<noteq> K_ALERT_DEFAULT" "send_count a = 0" "0 < n" "n < 2 ^ 32"
  shows "(k_alert_send c q ^^ n) (a, g, k) = (a\<lparr>send_count := of_nat n\<rparr>, g, k_work_submit_to_queue c k q (alert_work a))"
proof -
  obtain m where m: "n = Suc m" using assms(4) by (cases n) auto
  let ?a = "a\<lparr>send_count := 1\<rparr>"
  have "(k_alert_send c q ^^ n) (a, g, k) = (k_alert_send c q ^^ m) (?a, g, k_work_submit_to_queue c k q (alert_work a))"
    using assms(1-3) by (simp add: m funpow_swap1 k_alert_send_def atomic_inc_def)
  also have "\<dots> = (?a\<lparr>send_count := 1 + of_nat m\<rparr>, g, k_work_submit_to_queue c k q (alert_work a))"
    using send_more[of ?a 0 m] assms(1,2,5) m by simp
  finally show ?thesis by (simp add: m)
qed

end
