(* ===== verification/Clock_Properties.thy ===== *)
theory Clock_Properties
  imports Sys_Clock Alert Sample_System
begin

text \<open>
  What the clock, timers and work queues guarantee together: the tick, time slicing, the life of a
  timer, and the work items.
\<close>

section \<open>A system with a clock\<close>

text \<open>The sample system with a timer at 200 and a work queue at 300 whose thread is not waiting.\<close>

definition clk0 :: clocked where
  "clk0 = \<lparr>in_isr = True, current = current sys0, cache = cache sys0, prio_bmap = prio_bmap sys0, queues = queues sys0,
     timeout_q = timeout_q sys0, timeouts = timeouts sys0, thread = thread sys0,
     timers = (\<lambda>_. \<lparr>tmr_wait_q = 201, expiry_fn = NULL, stop_fn = NULL, tmr_period = 0, tmr_status = 0\<rparr>),
     mem = (\<lambda>_. 0), work_fifo = (\<lambda>_. \<lparr>fifo_wait_q = 301, data_q = \<lparr>head = NULL, tail = NULL\<rparr>\<rparr>),
     works = (\<lambda>_. \<lparr>work_handler = 900, work_flags = 0\<rparr>), delayed_work_q = (\<lambda>_. NULL),
     sys_clock_tick_count = 5, time_slice_elapsed = 0, time_slice_duration = 20, time_slice_prio_ceiling = 0\<rparr>"

lemma clk0_simps [simp]:
  "in_isr clk0" "current clk0 = 2" "timeout_q clk0 = [ThreadTO 4, ThreadTO 6]" "sys_clock_tick_count clk0 = 5"
  "queues clk0 = queues sys0" "timeouts clk0 = timeouts sys0" "thread clk0 = thread sys0"
  "delayed_work_q clk0 w = NULL" "work_flags (works clk0 w) = 0"
  by (simp_all add: clk0_def)

lemma sys0_delta:
  "delta sys0 (ThreadTO t) = (if t = 4 then 20 else if t = 6 then 10 else -1)"
  "delta sys0 (TimerTO a) = -1" "delta sys0 (WorkTO w) = -1"
  "to_func (timeouts sys0 (TimerTO a)) = TimerExpirationHandler" "to_func (timeouts sys0 (WorkTO w)) = WorkTimeout"
  by (simp_all add: sys0_def timeout0_def)

lemma clk0_ok:
  "kernel_inv cfg0 X0 clk0" "expiry clk0 = expiry sys0" "timers_ok clk0" "work_waits_ok clk0" "clock_ok clk0"
  "is_thread_ready clk0 t \<longleftrightarrow> is_thread_ready sys0 t"
proof -
  show "kernel_inv cfg0 X0 clk0" "expiry clk0 = expiry sys0"
    using kernel_inv_cong[of clk0 sys0] sys0_inv by (simp_all add: clk0_def)
  show t: "timers_ok clk0" "work_waits_ok clk0"
    by (simp_all add: timers_ok_def work_waits_ok_def sys0_queues) (simp_all add: clk0_def)
  show "clock_ok clk0" using t by (simp add: clock_ok_def sys0_delta)
  show "is_thread_ready clk0 t \<longleftrightarrow> is_thread_ready sys0 t" by (simp add: ready_bits)
qed



text \<open>Property C17: when the running thread has used up its time slice, the tick moves it behind the ready
  threads of its priority and starts a new slice; otherwise it only counts the time.  Threads above
  the slicing priority are exempt.\<close>

theorem time_slice_rotates:
  assumes "kernel_inv c X k" "current k \<notin> X" "is_thread_ready k (current k)" "time_slice_duration k \<noteq> 0"
  shows "kernel_inv c X (handle_time_slicing c k n) \<and>
    (if prio (thread k (current k)) < time_slice_prio_ceiling k then handle_time_slicing c k n = k
     else if time_slice_elapsed k + ticks_to_ms c n < time_slice_duration k
     then handle_time_slicing c k n = k\<lparr>time_slice_elapsed := time_slice_elapsed k + ticks_to_ms c n\<rparr>
     else ready_list c (handle_time_slicing c k n) =
         insert_by_prio (\<lambda>u. prio (thread k u)) (current k) (remove1 (current k) (ready_list c k)) \<and>
       time_slice_elapsed (handle_time_slicing c k n) = 0)"
proof -
  let ?k = "k\<lparr>time_slice_elapsed := 0\<rparr>" and ?t = "current k"
  have i: "kernel_inv c X ?k" using assms(1) kernel_inv_cong(1)[of ?k k] by simp
  have "is_thread_ready ?k ?t" using assms(3) by (simp add: ready_bits)
  then have l: "ready_list c (move_thread_to_end_of_prio_q c ?k ?t) =
      insert_by_prio (\<lambda>u. prio (thread k u)) ?t (remove1 ?t (ready_list c k))"
    using ready_list_move[of c X ?k ?t] i assms(2) by (simp add: kernel_inv_def ready_list_def)
  have m: "kernel.more (move_thread_to_end_of_prio_q c ?k ?t) = kernel.more ?k"
    by (simp add: move_thread_to_end_of_prio_q_def Let_def)
  have "time_slice_elapsed k' = time_slice_elapsed k''" if "kernel.more k' = kernel.more k''"
    for k' k'' :: "'a clocked_scheme" using that by (cases k'; cases k'') simp
  from this[OF m] have e: "time_slice_elapsed (move_thread_to_end_of_prio_q c ?k ?t) = 0" by simp
  show ?thesis using time_slicing_inv(1)[OF assms(1-3)] l e assms(4)
    by (auto simp: handle_time_slicing_def is_prio_higher_def Let_def)
qed

theorem time_slice_rotates_witness:
  "ready_list cfg0 (handle_time_slicing cfg0 clk0 2) = [2, 3, 7] \<and> time_slice_elapsed (handle_time_slicing cfg0 clk0 2) = 0"
proof -
  have "ready_list cfg0 clk0 = [2, 3, 7]" by (simp add: ready_list_def sys0_queues upt_rec)
  moreover have "time_slice_duration clk0 = 20" "time_slice_elapsed clk0 = 0" "time_slice_prio_ceiling clk0 = 0"
    by (simp_all add: clk0_def)
  moreover have "ticks_to_ms cfg0 2 = 20" by (simp add: ticks_to_ms_eq)
  ultimately show ?thesis using time_slice_rotates[OF clk0_ok(1), of 2]
    by (simp add: clk0_ok sys0_ready sys0_prio insert_by_prio_def)
qed

lemma ticks_roundtrip:
  fixes d f :: int
  assumes "0 \<le> d" "0 < f"
  shows "d \<le> 1000 * (1 + (d * f + 999) div 1000) div f"
    "1000 * (1 + (d * f + 999) div 1000) div f \<le> d + 1999 div f"
proof -
  define m where "m = d * f"
  define n where "n = (m + 999) div 1000"
  have "0 \<le> (m + 999) mod 1000" "(m + 999) mod 1000 < 1000" by simp_all
  moreover have "n * 1000 + (m + 999) mod 1000 = m + 999" unfolding n_def by (rule div_mult_mod_eq)
  ultimately have n: "m \<le> 1000 * (1 + n)" "1000 * (1 + n) \<le> 1999 + m" by simp_all
  have "m div f \<le> 1000 * (1 + n) div f" using n(1) assms by (intro zdiv_mono1) auto
  then show "d \<le> 1000 * (1 + (d * f + 999) div 1000) div f" using assms by (simp add: m_def n_def)
  have "1000 * (1 + n) div f \<le> (1999 + m) div f" using n(2) assms by (intro zdiv_mono1) auto
  also have "\<dots> = d + 1999 div f" using assms by (simp add: m_def)
  finally show "1000 * (1 + (d * f + 999) div 1000) div f \<le> d + 1999 div f" by (simp add: m_def n_def)
qed
text \<open>Property C18: a timer started for \<open>d\<close> milliseconds has no less than \<open>d\<close> milliseconds left, and
  less than two ticks more; no other timeout moves; stopping it, with any stop function that leaves the
  kernel alone, leaves every other timeout as it was before the start.\<close>

theorem timer_start_remaining:
  fixes k :: "'z clocked_scheme"
  assumes "kernel_inv c X k" "timers_ok k" "to_func (timeouts k (TimerTO a)) = TimerExpirationHandler"
    "0 \<le> d" "d < 2 ^ 30" "0 \<le> p" "p < 2 ^ 30" "0 < sys_clock_ticks_per_sec c" "sys_clock_ticks_per_sec c \<le> 1000"
  shows "kernel_inv c X (k_timer_start c k a d p) \<and> timers_ok (k_timer_start c k a d p) \<and>
    d \<le> k_timer_remaining_get c (k_timer_start c k a d p) a \<and>
    k_timer_remaining_get c (k_timer_start c k a d p) a \<le> d + 1999 div sys_clock_ticks_per_sec c \<and>
    (\<forall>x. x \<noteq> TimerTO a \<longrightarrow> expiry (k_timer_start c k a d p) x = expiry k x) \<and>
    expiry (k_timer_stop c (app_call app) (k_timer_start c k a d p) a) = (expiry k)(TimerTO a := None)"
proof -
  let ?k = "k_timer_start c k a d p" and ?f = "sys_clock_ticks_per_sec c"
  let ?n = "(d * ?f + 999) div 1000"
  note d = ms_to_ticks_bounds[of d c] and p = ms_to_ticks_bounds[of p c]
  note t = timer_started[OF assms(1-3), of d p]
  have i: "kernel_inv c X ?k" "timers_ok ?k" "expiry ?k = (expiry k)(TimerTO a \<mapsto> 1 + ?n)"
    using t d p assms by auto
  have ti: "timeout_inv ?k" using i(1) sched_invD(4) by (auto simp: kernel_inv_def)
  note r = ticks_roundtrip[OF assms(4,8)]
  have "?n < 2 ^ 31 - 1" "0 \<le> ?n" using d assms by simp_all
  moreover have "1999 div ?f \<le> 1999" using assms(8) zdiv_mono2[of 1999 1 ?f] by simp
  ultimately have "k_timer_remaining_get c ?k a = 1000 * (1 + ?n) div ?f"
    using r assms i(3) by (simp add: remaining_get_eq[OF ti] ticks_to_ms_eq)
  then show ?thesis using i r timer_stopped(2)[OF i(1,2) keeps_kernel_timed[OF app_call_keeps], of app a] by simp
qed

theorem timer_start_remaining_witness:
  "k_timer_remaining_get cfg0 (k_timer_start cfg0 clk0 200 45 100) 200 \<in> {45..64} \<and>
   expiry (k_timer_stop cfg0 (app_call (\<lambda>_ _ _. ())) (k_timer_start cfg0 clk0 200 45 100) 200) (ThreadTO 6) =
     expiry clk0 (ThreadTO 6)"
  using timer_start_remaining[OF clk0_ok(1,3), of 200 45 100 "\<lambda>_ _ _. ()"] by (simp add: sys0_delta)

section \<open>Work queues\<close>

text \<open>Property C19: work items submitted to a busy work queue are queued in the order of submission, each
  at most once, and submitting an item that is still pending does nothing.\<close>

theorem work_served_in_order:
  assumes "works_ok k" "distinct ws" "\<forall>w \<in> set ws. w \<noteq> NULL \<and> \<not> k_work_pending k w"
    "queues k (WaitQ (fifo_wait_q (work_fifo k q))) = []"
  shows "works_ok (fold (\<lambda>w k. k_work_submit_to_queue c k q w) ws k) \<and>
    work_items (fold (\<lambda>w k. k_work_submit_to_queue c k q w) ws k) = (work_items k)(q := work_items k q @ ws) \<and>
    (\<forall>v \<in> set (work_items k q) \<union> set ws.
       k_work_submit_to_queue c (fold (\<lambda>w k. k_work_submit_to_queue c k q w) ws k) q v =
         fold (\<lambda>w k. k_work_submit_to_queue c k q w) ws k)"
proof -
  let ?k = "fold (\<lambda>w k. k_work_submit_to_queue c k q w) ws k"
  have s: "works_ok ?k" "work_items ?k = (work_items k)(q := work_items k q @ ws)"
    using submit_all[of k ws q c] assms by simp_all
  then have "k_work_pending ?k v" if "v \<in> set (work_items k q) \<union> set ws" for v
    using that unfolding works_ok_def by (metis Un_iff fun_upd_same set_append)
  then show ?thesis using s submit_pending by blast
qed

lemma clk0_works: "works_ok clk0" "work_items clk0 q = []"
proof -
  show e: "work_items clk0 q = []" for q by (simp add: work_items_def fifo_items_def clk0_def walk.simps)
  show "works_ok clk0" unfolding works_ok_def e by (simp add: slist_def) (simp add: clk0_def)
qed

theorem work_served_in_order_witness:
  "work_items (fold (\<lambda>w k. k_work_submit_to_queue cfg0 k 300 w) [310, 320] clk0) 300 = [310, 320]"
proof -
  have "queues sys0 (WaitQ (fifo_wait_q (work_fifo clk0 300))) = []" by (simp add: sys0_queues) (simp add: clk0_def)
  then show ?thesis using work_served_in_order[OF clk0_works(1), of "[310, 320]" 300 cfg0]
    by (auto simp: clk0_works k_work_pending_def)
qed

text \<open>Delayed work is attached to its queue with its timeout set, no other timeout moves, and
  cancelling it before the delay has passed succeeds and undoes the submission; when the delay passes
  the item is pending and detached.\<close>

theorem delayed_work_cancel:
  fixes k :: "'z worked_scheme"
  assumes "kernel_inv c X k" "work_waits_ok k" "timers_ok k"
    "delayed_work_q k w = NULL" "\<not> k_work_pending k w" "expiry k (WorkTO w) = None" "q \<noteq> NULL"
    "0 < d" "d < 2 ^ 31 - 1" "0 \<le> sys_clock_ticks_per_sec c" "sys_clock_ticks_per_sec c \<le> 1000"
  shows "fst (k_delayed_work_submit_to_queue c k q w d) = 0 \<and>
    expiry (snd (k_delayed_work_submit_to_queue c k q w d)) =
      (expiry k)(WorkTO w \<mapsto> 1 + (d * sys_clock_ticks_per_sec c + 999) div 1000) \<and>
    fst (k_delayed_work_cancel (snd (k_delayed_work_submit_to_queue c k q w d)) w) = 0 \<and>
    kernel_inv c X (snd (k_delayed_work_cancel (snd (k_delayed_work_submit_to_queue c k q w d)) w)) \<and>
    expiry (snd (k_delayed_work_cancel (snd (k_delayed_work_submit_to_queue c k q w d)) w)) = expiry k \<and>
    delayed_work_q (snd (k_delayed_work_cancel (snd (k_delayed_work_submit_to_queue c k q w d)) w)) w = NULL \<and>
    kernel_inv c X (work_timeout c k w) \<and> k_work_pending (work_timeout c k w) w \<and>
    delayed_work_q (work_timeout c k w) w = NULL"
  using delayed_submit_cancel[OF assms(1,4-7), of d] ms_to_ticks_bounds[of d c] work_timeout_effect[OF assms(1-3), of w]
    assms(8-11) by simp

text \<open>Property C20: delayed work submitted with no delay stays attached to its queue after it has been
  processed: the handler has run and the item is not pending, yet submitting it to another queue is
  refused and cancelling it reports success.\<close>

theorem zero_delay_work_stays_attached:
  fixes k :: "'z worked_scheme"
  assumes "kernel_inv c X k" "work_waits_ok k" "delayed_work_q k w = NULL" "\<not> k_work_pending k w" "q \<noteq> NULL"
    "r \<noteq> q" "keeps_works call"
  shows "\<not> k_work_pending (work_q_process c call (snd (k_delayed_work_submit_to_queue c k q w 0)) w) w \<and>
    fst (k_delayed_work_submit_to_queue c (work_q_process c call (snd (k_delayed_work_submit_to_queue c k q w 0)) w) r w d) =
      - EADDRINUSE \<and>
    fst (k_delayed_work_cancel (work_q_process c call (snd (k_delayed_work_submit_to_queue c k q w 0)) w) w) = 0"
proof -
  let ?k = "work_q_process c call (snd (k_delayed_work_submit_to_queue c k q w 0)) w"
  have "\<not> k_work_pending ?k w" "delayed_work_q ?k w = q"
    using process_done[OF assms(7)] delay_zero_attached[OF assms(3,4,1,2,5)] by simp_all
  then show ?thesis using assms(5,6)
    by (simp add: k_delayed_work_submit_to_queue_def k_delayed_work_cancel_def Let_def)
qed

theorem zero_delay_work_stays_attached_witness:
  "fst (k_delayed_work_submit_to_queue cfg0
     (work_q_process cfg0 (\<lambda>_ _ k. k) (snd (k_delayed_work_submit_to_queue cfg0 clk0 300 310 0)) 310) 400 310 10) = - EADDRINUSE"
  using zero_delay_work_stays_attached[OF clk0_ok(1,4), of 310 300 400 "\<lambda>_ _ k. k" 10]
  by (simp add: k_work_pending_def keeps_works_def)

section \<open>Alerts\<close>

text \<open>Property C34: however many alerts are sent to a handler before the system work queue runs, the alert's work item is
  queued once, and when it runs its loop ends after calling the handler exactly once for each alert
  sent, with none left to deliver.  The handler may do anything but send the same alert again.\<close>

theorem alert_each_delivered:
  assumes "alert_handler a \<noteq> K_ALERT_IGNORE" "alert_handler a \<noteq> K_ALERT_DEFAULT" "send_count a = 0" "0 < n" "n < 2 ^ 32"
    "works_ok k" "alert_work a \<noteq> NULL" "\<not> k_work_pending k (alert_work a)"
    "queues k (WaitQ (fifo_wait_q (work_fifo k q))) = []" "no_resend call"
  shows "case (k_alert_send c q ^^ n) (a, g, k) of (a', g', k') \<Rightarrow>
    works_ok k' \<and> work_items k' q = work_items k q @ [alert_work a] \<and>
    (\<forall>g'' k''. \<exists>s. alert_deliver c call (a', g'', k'') = Some s \<and> send_count (fst s) = 0 \<and>
       s = ((\<lambda>s. snd (deliver_round c call s)) ^^ n) (a', g'', k''))"
proof -
  let ?a = "a\<lparr>send_count := of_nat n\<rparr>"
  have "unat (of_nat n :: atomic_val) = n" using assms(5) by (simp add: unat_of_nat)
  then have "\<exists>s. alert_deliver c call (?a, g'', k'') = Some s \<and> send_count (fst s) = 0 \<and>
      s = ((\<lambda>s. snd (deliver_round c call s)) ^^ n) (?a, g'', k'')" for g'' k''
    using deliver_all[OF assms(10), of "(?a, g'', k'')" c] assms(4) by simp
  then show ?thesis
    using send_many[OF assms(1-5), of c q g k] submit_queues(1,2)[OF assms(6-9), of c] by simp
qed

definition alert0 :: k_alert where
  "alert0 = \<lparr>alert_handler = 700, send_count = 0, alert_work = 310, alert_sem = \<lparr>sem_wait_q = 311, count = 0, limit = 5\<rparr>\<rparr>"

theorem alert_each_delivered_witness:
  "case (k_alert_send cfg0 300 ^^ 3) (alert0, groups0, clk0) of (a', g', k') \<Rightarrow>
    work_items k' 300 = [310] \<and> map_option (\<lambda>s. send_count (fst s)) (alert_deliver cfg0 (\<lambda>f s. (0, s)) (a', g', k')) = Some 0"
proof -
  have q: "queues clk0 (WaitQ (fifo_wait_q (work_fifo clk0 300))) = []" by (simp add: sys0_queues) (simp add: clk0_def)
  have "no_resend (\<lambda>f s. (0, s :: unit clocked_ext alert_state))" by (simp add: no_resend_def)
  from alert_each_delivered[of alert0 3 clk0 300 _ cfg0 groups0, OF _ _ _ _ _ clk0_works(1) _ _ q this]
  show ?thesis by (force simp: alert0_def K_ALERT_IGNORE_def K_ALERT_DEFAULT_def k_work_pending_def clk0_works split: prod.splits)
qed

end
