(* ===== verification/Object_Properties.thy ===== *)
theory Object_Properties
  imports Sem Mutex Sample_System
begin

text \<open>
  What semaphores and mutexes guarantee, stated over the operations of the object and the kernel
  together.
\<close>

section \<open>Serving the first waiter\<close>

text \<open>What a thread finds when an object has served it.\<close>

definition served :: "'z kernel_scheme \<Rightarrow> tid \<Rightarrow> int \<Rightarrow> 'z kernel_scheme \<Rightarrow> bool" where
  "served k t v k' \<longleftrightarrow> \<not> is_thread_pending k' t \<and> expiry k' = (expiry k)(ThreadTO t := None) \<and>
     (current k \<noteq> t \<longrightarrow> swap_return_value (thread k' t) = v)"

lemma first_served:
  assumes "kernel_inv c X k" "queues k (WaitQ w) = t # ts"
  shows "served k t v (resched_unless_isr c (woken c k t v))" "served k t v (resched_unless_isr c (handed c k t v d))"
    "served k t v (reschedule_threads c (woken c k t v))" "served k t v (reschedule_threads c (handed c k t v d))"
proof -
  note w = first_waiter[OF assms] and e = wake_inv(2)[OF assms(1) first_waiter(3,1)[OF assms]]
  have "expiry (reschedule_threads c k') = expiry k'" for k' :: "'a kernel_scheme"
    by (simp add: expiry_def expiries_def fun_eq_iff)
  moreover have "t \<noteq> current k' \<Longrightarrow> swap_return_value (thread (reschedule_threads c k') t) = swap_return_value (thread k' t)"
    for k' :: "'a kernel_scheme" by (simp add: reschedule_threads_def Swap_return_value)
  moreover have "flags (thread (handed c k t v d) t) = flags (thread (wake c k t) t)" by (simp add: handed_def mark_defs)
  ultimately show "served k t v (resched_unless_isr c (woken c k t v))" "served k t v (resched_unless_isr c (handed c k t v d))"
    "served k t v (reschedule_threads c (woken c k t v))" "served k t v (reschedule_threads c (handed c k t v d))"
    using e by (auto simp: served_def pending_bit bit_ops_flags resched_return_value)
qed

section \<open>Semaphores\<close>

text \<open>Property C12: giving a semaphore either makes the first waiting thread runnable with the return
  value 0 and leaves the count, or adds one to the count up to the limit.\<close>

theorem sem_give_serves:
  assumes "sem_inv c X (s, k)"
  shows "case k_sem_give c g s k of (g', s', k') \<Rightarrow>
    g' = g \<and> sem_inv c X (s', k') \<and>
    (case sem_waiters (s, k) of
       [] \<Rightarrow> k' = k \<and> unat (count s') = min (unat (count s) + 1) (unat (limit s))
     | t # ts \<Rightarrow> s' = s \<and> sem_waiters (s', k') = ts \<and> served k t 0 k')"
proof (cases "queues k (WaitQ (sem_wait_q s))")
  case Nil
  have "count s \<le> limit s" using assms by (simp add: sem_inv_def)
  then show ?thesis using Nil k_sem_give_inv[OF assms, of g] count_inc(1)[of s]
    by (simp add: give_no_waiter)
next
  case (Cons t ts)
  have k: "kernel_inv c X k" "flags (thread k t) AND K_DUMMY = 0" using assms Cons by (auto simp: sem_inv_def)
  let ?k = "if \<not> in_isr k then reschedule_threads c (woken c k t 0) else woken c k t 0"
  have g: "k_sem_give c g s k = (g, s, ?k)" by (rule give_waiter(2)[OF k(1) Cons k(2)])
  have "served k t 0 ?k"
    using first_served(1,3)[OF k(1) Cons, of 0] by (cases "in_isr k") (simp_all add: resched_unless_isr_def)
  then show ?thesis using Cons k_sem_give_inv[OF assms, of g] unfolding g by simp
qed

definition sem0 :: k_sem where "sem0 = \<lparr>sem_wait_q = 100, count = 0, limit = 3\<rparr>"

lemma sem0_inv: "sem_inv cfg0 X0 (sem0, sys0)"
  by (simp add: sem_inv_def sys0_inv sem0_def sys0_queues) (simp add: sys0_def thread0_def flag_tests bit_flags)

theorem sem_give_serves_witness:
  "sem_waiters (snd (k_sem_give cfg0 groups0 sem0 sys0)) = [5]"
  using sem_give_serves[OF sem0_inv, of groups0] by (simp add: sem0_def sys0_queues split: prod.splits)

section \<open>Mutexes\<close>


definition mutex0 :: k_mutex where
  "mutex0 = \<lparr>mutex_wait_q = 400, owner = 3, lock_count = 1, owner_orig_prio = 5\<rparr>"

lemma mutex0_inv: "mutex_inv cfg0 X0 (mutex0, sys0)"
  by (simp add: mutex_inv_def mutex0_def sys0_inv sys0_queues valid_prio_def)


text \<open>Property C23: the last unlock of a mutex gives the owner its own priority back and passes the mutex
  to the first waiting thread, with one lock held at that thread's priority, or frees it.\<close>

theorem mutex_unlock_passes_on:
  assumes "mutex_inv c X (m, k)" "owner m \<noteq> NULL" "lock_count m = 1"
  shows "case k_mutex_unlock c m k of None \<Rightarrow> False | Some (m', k') \<Rightarrow>
    mutex_inv c X (m', k') \<and> prio (thread k' (owner m)) = owner_orig_prio m \<and>
    (case queues k (WaitQ (mutex_wait_q m)) of
       [] \<Rightarrow> owner m' = NULL \<and> lock_count m' = 0
     | t # ts \<Rightarrow> owner m' = t \<and> lock_count m' = 1 \<and> owner_orig_prio m' = prio (thread k' t) \<and>
         queues k' (WaitQ (mutex_wait_q m)) = ts \<and> \<not> is_thread_pending k' t)"
proof (cases "queues k (WaitQ (mutex_wait_q m))")
  case Nil
  have "prio (thread (restored c m k) (owner m)) = owner_orig_prio m" by (simp add: restored_def)
  then show ?thesis using k_mutex_unlock_inv[OF assms(1,2)] unlock_free[OF assms Nil] Nil by simp
next
  case (Cons t ts)
  let ?r = "restored c m k"
  have q: "queues ?r (WaitQ (mutex_wait_q m)) = t # ts" using restored_inv(2)[OF assms(1,2)] Cons by simp
  have p: "prio (thread ?r (owner m)) = owner_orig_prio m" by (simp add: restored_def)
  show ?thesis using k_mutex_unlock_inv[OF assms(1,2)] unlock_handoff[OF assms Cons] Cons q p
    by (auto simp: mark_defs pending_bit bit_ops_flags)
qed

theorem mutex_unlock_passes_on_witness:
  "case k_mutex_unlock cfg0 (mutex0\<lparr>mutex_wait_q := 100\<rparr>) sys0 of None \<Rightarrow> False
   | Some (m', k') \<Rightarrow> owner m' = 4 \<and> owner_orig_prio m' = prio (thread k' 4)"
proof -
  have "mutex_inv cfg0 X0 (mutex0\<lparr>mutex_wait_q := 100\<rparr>, sys0)"
    by (simp add: mutex_inv_def mutex0_def sys0_inv sys0_queues valid_prio_def)
  from mutex_unlock_passes_on[OF this] show ?thesis
    by (simp add: mutex0_def sys0_queues split: option.splits prod.splits)
qed

text \<open>Property C25: when a thread's wait for a mutex times out and the owner frees the mutex before that
  thread runs again, the timed-out \<^verbatim>\<open>k_mutex_lock\<close> dereferences the owner pointer, which is null.\<close>

theorem mutex_timeout_null_owner:
  assumes "mutex_inv c X (m, k)" "owner m \<noteq> NULL" "lock_count m = 1" "queues k (WaitQ (mutex_wait_q m)) = []"
    "k_mutex_unlock c m k = Some (m', k')" "swap_return_value (thread k'' (current k'')) = - EAGAIN"
  shows "fst (k_mutex_lock_resume c m' k'') = NullDeref"
proof -
  have "owner m' = NULL" using unlock_free[OF assms(1-4)] assms(5) by auto
  moreover have "swap_return_value (thread k'' (current k'')) \<noteq> 0" using assms(6) by (simp add: EAGAIN_def)
  ultimately show ?thesis by (rule resume_null_owner)
qed

theorem mutex_timeout_null_owner_witness:
  "\<exists>m' k'. k_mutex_unlock cfg0 mutex0 sys0 = Some (m', k') \<and>
     fst (k_mutex_lock_resume cfg0 m' (set_thread_return_value k' (current k') (- EAGAIN))) = NullDeref"
proof -
  have q: "owner mutex0 \<noteq> NULL" "lock_count mutex0 = 1" "queues sys0 (WaitQ (mutex_wait_q mutex0)) = []"
    by (simp_all add: mutex0_def sys0_queues)
  obtain m' k' where u: "k_mutex_unlock cfg0 mutex0 sys0 = Some (m', k')" using unlock_free[OF mutex0_inv q] by blast
  from mutex_timeout_null_owner[OF mutex0_inv q u, of "set_thread_return_value k' (current k') (- EAGAIN)"] u
  show ?thesis by (auto simp: mark_defs)
qed

end
