(* ===== verification/Lifo.thy ===== *)
theory Lifo
  imports Wait_Queue Sys_Slist
begin

text \<open>
  LIFO queues of caller-owned items, \<^verbatim>\<open>kernel/unified/lifo.c\<close>: a chain through the first word of
  each item, newest first.
\<close>

section \<open>Operations\<close>

record k_lifo =
  lifo_wait_q :: wqid
  lifo_list :: addr

type_synonym 'z lifo_state = "k_lifo \<times> links \<times> 'z kernel_scheme"

definition k_lifo_init :: "'z lifo_state \<Rightarrow> 'z lifo_state" where
  "k_lifo_init = (\<lambda>(l, h, k). (l\<lparr>lifo_list := NULL\<rparr>, h, upd_queue k (WaitQ (lifo_wait_q l)) (\<lambda>_. [])))"

definition k_lifo_put :: "kconfig \<Rightarrow> 'z lifo_state \<Rightarrow> addr \<Rightarrow> 'z lifo_state" where
  "k_lifo_put c = (\<lambda>(l, h, k) data.
     case unpend_first_thread k (lifo_wait_q l) of (t, k1) \<Rightarrow>
       if t \<noteq> NULL
       then let k2 = snd (abort_thread_timeout k1 t);
                k3 = ready_thread c k2 t;
                k4 = set_thread_return_value_with_data k3 t 0 data
            in (l, h, resched_unless_isr c k4)
       else (l\<lparr>lifo_list := data\<rparr>, h(data := lifo_list l), k1))"

definition k_lifo_get :: "kconfig \<Rightarrow> 'z lifo_state \<Rightarrow> int \<Rightarrow> addr option \<times> 'z lifo_state" where
  "k_lifo_get c = (\<lambda>(l, h, k) timeout.
     if lifo_list l \<noteq> NULL
     then (Some (lifo_list l), l\<lparr>lifo_list := h (lifo_list l)\<rparr>, h, k)
     else if timeout = K_NO_WAIT then (Some NULL, l, h, k)
     else (None, l, h, Swap c (pend_current_thread c k (lifo_wait_q l) timeout)))"

section \<open>The stack it stands for\<close>

definition lifo_items :: "'z lifo_state \<Rightarrow> addr list" where
  "lifo_items = (\<lambda>(l, h, k). case walk h (lifo_list l) of None \<Rightarrow> [] | Some xs \<Rightarrow> xs)"

definition lifo_waiters :: "'z lifo_state \<Rightarrow> tid list" where
  "lifo_waiters = (\<lambda>(l, h, k). queues k (WaitQ (lifo_wait_q l)))"

definition lifo_inv :: "kconfig \<Rightarrow> tid set \<Rightarrow> 'z lifo_state \<Rightarrow> bool" where
  "lifo_inv c X = (\<lambda>(l, h, k). kernel_inv c X k \<and> (\<exists>xs. chain h (lifo_list l) xs \<and> distinct xs))"

lemma lifo_items_eq: "chain h (lifo_list l) xs \<Longrightarrow> lifo_items (l, h, k) = xs"
  by (simp add: lifo_items_def chain_walk)

lemma lifo_inv_chain:
  "lifo_inv c X (l, h, k) \<Longrightarrow> chain h (lifo_list l) (lifo_items (l, h, k)) \<and> distinct (lifo_items (l, h, k))"
  by (auto simp: lifo_inv_def lifo_items_eq)

lemma lifo_put_waiter:
  assumes inv: "lifo_inv c X (l, h, k)" and q: "queues k (WaitQ (lifo_wait_q l)) = t # ts"
  shows "k_lifo_put c (l, h, k) d = (l, h, resched_unless_isr c (handed c k t 0 d))"
proof -
  have "t \<noteq> NULL" using first_waiter(2)[OF _ q, of c X] inv by (simp add: lifo_inv_def)
  then show ?thesis
    by (simp add: k_lifo_put_def unpend_first_eq[OF q] handed_def Let_def flip: wake_def)
qed

lemma lifo_put_stock:
  assumes inv: "lifo_inv c X (l, h, k)" and q: "queues k (WaitQ (lifo_wait_q l)) = []"
    and d: "d \<noteq> NULL" "d \<notin> set (lifo_items (l, h, k))"
  shows "k_lifo_put c (l, h, k) d = (l\<lparr>lifo_list := d\<rparr>, h(d := lifo_list l), k)"
    "lifo_items (k_lifo_put c (l, h, k) d) = d # lifo_items (l, h, k)"
    "lifo_inv c X (k_lifo_put c (l, h, k) d)"
proof -
  let ?xs = "lifo_items (l, h, k)"
  have ch: "chain (h(d := lifo_list l)) d (d # ?xs)" "distinct (d # ?xs)"
    using lifo_inv_chain[OF inv] d by auto
  show p: "k_lifo_put c (l, h, k) d = (l\<lparr>lifo_list := d\<rparr>, h(d := lifo_list l), k)"
    using q by (simp add: k_lifo_put_def unpend_first_thread_def)
  show "lifo_items (k_lifo_put c (l, h, k) d) = d # ?xs"
    using lifo_items_eq[of "h(d := lifo_list l)" "l\<lparr>lifo_list := d\<rparr>" "d # ?xs" k] ch by (simp add: p)
  have "kernel_inv c X k" using inv by (simp add: lifo_inv_def)
  then show "lifo_inv c X (k_lifo_put c (l, h, k) d)" unfolding p lifo_inv_def using ch by (auto intro!: exI[of _ "d # ?xs"])
qed

lemma lifo_get_stock:
  assumes inv: "lifo_inv c X (l, h, k)" and q: "lifo_items (l, h, k) = x # xs"
  shows "k_lifo_get c (l, h, k) n = (Some x, l\<lparr>lifo_list := h x\<rparr>, h, k)"
    "lifo_items (snd (k_lifo_get c (l, h, k) n)) = xs" "lifo_inv c X (snd (k_lifo_get c (l, h, k) n))"
proof -
  have ch: "lifo_list l = x" "x \<noteq> NULL" "chain h (h x) xs" "distinct xs" using lifo_inv_chain[OF inv] q by auto
  show g: "k_lifo_get c (l, h, k) n = (Some x, l\<lparr>lifo_list := h x\<rparr>, h, k)" using ch by (simp add: k_lifo_get_def)
  show "lifo_items (snd (k_lifo_get c (l, h, k) n)) = xs"
    using lifo_items_eq[of h "l\<lparr>lifo_list := h x\<rparr>" xs k] ch by (simp add: g)
  show "lifo_inv c X (snd (k_lifo_get c (l, h, k) n))" using inv ch by (auto simp: g lifo_inv_def)
qed

lemma lifo_get_block:
  assumes inv: "lifo_inv c X (l, h, k)" and q: "lifo_items (l, h, k) = []" and n: "n \<noteq> K_NO_WAIT"
  shows "k_lifo_get c (l, h, k) n = (None, l, h, Swap c (pend_current_thread c k (lifo_wait_q l) n))"
  using lifo_inv_chain[OF inv] q n by (simp add: k_lifo_get_def)

lemma lifo_put_inv:
  assumes inv: "lifo_inv c X (l, h, k)" and d: "d \<noteq> NULL" "d \<notin> set (lifo_items (l, h, k))"
  shows "lifo_inv c X (k_lifo_put c (l, h, k) d)"
proof (cases "queues k (WaitQ (lifo_wait_q l))")
  case Nil
  then show ?thesis using lifo_put_stock(3)[OF inv Nil d] by simp
next
  case (Cons t ts)
  have "kernel_inv c X (resched_unless_isr c (handed c k t 0 d))"
    using inv by (intro resched_unless_isr_inv(1) handed_inv(1)[OF _ Cons]) (simp add: lifo_inv_def)
  then show ?thesis using inv by (simp add: lifo_put_waiter[OF inv Cons] lifo_inv_def)
qed

interpretation lifo: blocking_resource "lifo_inv c X"
  "\<lambda>d s. d \<noteq> NULL \<and> d \<notin> set (lifo_items s)" "\<lambda>s. may_block c X (snd (snd s))"
  "\<lambda>n. n \<noteq> K_NO_WAIT \<and> timeout_ok c n" "\<lambda>s. length (lifo_items s)" lifo_waiters
  "\<lambda>d s. k_lifo_put c s d" "\<lambda>n s. snd (k_lifo_get c s n)"
  for c X
proof unfold_locales
  fix s :: "'a lifo_state" and d n t ts
  assume inv: "lifo_inv c X s"
  obtain l h k where s: "s = (l, h, k)" by (cases s)
  note inv' = inv[unfolded s]
  { assume d: "d \<noteq> NULL \<and> d \<notin> set (lifo_items s)"
    show "lifo_inv c X (k_lifo_put c s d)" using lifo_put_inv[OF inv'] d s by simp
    show "lifo_waiters (k_lifo_put c s d) = ts \<and> length (lifo_items (k_lifo_put c s d)) = length (lifo_items s)"
      if "lifo_waiters s = t # ts"
      using that s lifo_put_waiter[OF inv', of t ts d] by (simp add: lifo_waiters_def lifo_items_def)
    show "lifo_waiters (k_lifo_put c s d) = [] \<and> length (lifo_items s) \<le> length (lifo_items (k_lifo_put c s d)) \<and>
        length (lifo_items (k_lifo_put c s d)) \<le> length (lifo_items s) + 1"
      if "lifo_waiters s = []"
      using that s d lifo_put_stock[OF inv', of d] by (simp add: lifo_waiters_def) }
  assume b: "may_block c X (snd (snd s))" and n: "n \<noteq> K_NO_WAIT \<and> timeout_ok c n"
  show "lifo_inv c X (snd (k_lifo_get c s n))"
  proof (cases "lifo_items s")
    case Nil
    then show ?thesis using inv' s b n lifo_get_block[OF inv', of n] block_inv(1)[of c X k n]
      by (simp add: lifo_inv_def)
  next
    case (Cons x xs)
    then show ?thesis using lifo_get_stock(3)[OF inv'] s by simp
  qed
  show "lifo_waiters (snd (k_lifo_get c s n)) = lifo_waiters s \<and>
      length (lifo_items (snd (k_lifo_get c s n))) + 1 = length (lifo_items s)"
    if "0 < length (lifo_items s)"
    using that s lifo_get_stock[OF inv', of _ _ n] by (cases "lifo_items s") (auto simp: lifo_waiters_def)
  show "length (lifo_items (snd (k_lifo_get c s n))) = 0" if "length (lifo_items s) = 0"
    using that s n lifo_get_block[OF inv'] by (simp add: lifo_items_def)
qed

end
