(* ===== verification/Mem_Slab.thy ===== *)
theory Mem_Slab
  imports Wait_Queue Sys_Slist
begin

text \<open>
  Memory slabs, \<^verbatim>\<open>kernel/unified/mem_slab.c\<close>: a chain of equally sized free blocks, linked through the
  first word of each block.
\<close>

section \<open>Operations\<close>

record k_mem_slab =
  slab_wait_q :: wqid
  num_blocks :: u32
  block_size :: nat
  buffer :: addr
  free_list :: addr
  num_used :: u32

type_synonym 'z slab_state = "k_mem_slab \<times> links \<times> 'z kernel_scheme"

text \<open>The loop of \<^verbatim>\<open>create_free_list\<close>, for \<open>n\<close> blocks from address \<open>p\<close>.\<close>

fun free_list_loop :: "nat \<Rightarrow> nat \<Rightarrow> addr \<Rightarrow> addr \<Rightarrow> links \<Rightarrow> addr \<times> links" where
  "free_list_loop 0 bs p fl h = (fl, h)"
| "free_list_loop (Suc n) bs p fl h = free_list_loop n bs (p + bs) p (h(p := fl))"

definition create_free_list :: "k_mem_slab \<Rightarrow> links \<Rightarrow> k_mem_slab \<times> links" where
  "create_free_list slab h =
     (case free_list_loop (unat (num_blocks slab)) (block_size slab) (buffer slab) NULL h of
        (fl, h1) \<Rightarrow> (slab\<lparr>free_list := fl\<rparr>, h1))"

text \<open>\<^verbatim>\<open>init_mem_slab_module\<close>: the free list of every statically defined slab.\<close>

fun init_mem_slab_module :: "k_mem_slab list \<Rightarrow> links \<Rightarrow> k_mem_slab list \<times> links" where
  "init_mem_slab_module [] h = ([], h)"
| "init_mem_slab_module (slab # slabs) h =
     (case create_free_list slab h of (slab1, h1) \<Rightarrow>
        case init_mem_slab_module slabs h1 of (slabs1, h2) \<Rightarrow> (slab1 # slabs1, h2))"

definition k_mem_slab_init :: "'z slab_state \<Rightarrow> addr \<Rightarrow> nat \<Rightarrow> u32 \<Rightarrow> 'z slab_state" where
  "k_mem_slab_init = (\<lambda>(slab, h, k) buf bs n.
     let s1 = slab\<lparr>num_blocks := n, block_size := bs, buffer := buf, num_used := 0\<rparr>
     in case create_free_list s1 h of (s2, h1) \<Rightarrow>
          (s2, h1, upd_queue k (WaitQ (slab_wait_q s2)) (\<lambda>_. [])))"

text \<open>The result of an allocation that does not block is its code and the value stored in \<^verbatim>\<open>*mem\<close>.\<close>

definition k_mem_slab_alloc :: "kconfig \<Rightarrow> 'z slab_state \<Rightarrow> int \<Rightarrow> (int \<times> addr) option \<times> 'z slab_state" where
  "k_mem_slab_alloc c = (\<lambda>(slab, h, k) timeout.
     if free_list slab \<noteq> NULL
     then (Some (0, free_list slab),
           slab\<lparr>free_list := h (free_list slab), num_used := num_used slab + 1\<rparr>, h, k)
     else if timeout = K_NO_WAIT then (Some (- ENOMEM, NULL), slab, h, k)
     else (None, slab, h, Swap c (pend_current_thread c k (slab_wait_q slab) timeout)))"

definition k_mem_slab_free :: "kconfig \<Rightarrow> 'z slab_state \<Rightarrow> addr \<Rightarrow> 'z slab_state" where
  "k_mem_slab_free c = (\<lambda>(slab, h, k) mem.
     case unpend_first_thread k (slab_wait_q slab) of (t, k1) \<Rightarrow>
       if t \<noteq> NULL
       then let k2 = set_thread_return_value_with_data k1 t 0 mem;
                k3 = snd (abort_thread_timeout k2 t);
                k4 = ready_thread c k3 t
            in (slab, h, if must_switch_threads c k4 then Swap c k4 else k4)
       else (slab\<lparr>free_list := mem, num_used := num_used slab - 1\<rparr>, h(mem := free_list slab), k1))"

definition k_mem_slab_num_used_get :: "k_mem_slab \<Rightarrow> u32" where
  "k_mem_slab_num_used_get slab = num_used slab"

definition k_mem_slab_num_free_get :: "k_mem_slab \<Rightarrow> u32" where
  "k_mem_slab_num_free_get slab = num_blocks slab - num_used slab"

section \<open>The free list\<close>

definition block_addrs :: "k_mem_slab \<Rightarrow> addr list" where
  "block_addrs slab = map (\<lambda>i. buffer slab + i * block_size slab) [0..<unat (num_blocks slab)]"

lemma free_list_loop_chain:
  assumes "chain h fl xs" "p \<noteq> NULL" "0 < bs" "\<forall>x \<in> set xs. x < p"
  shows "chain (snd (free_list_loop n bs p fl h)) (fst (free_list_loop n bs p fl h))
    (rev (map (\<lambda>i. p + i * bs) [0..<n]) @ xs)"
  using assms
proof (induction n arbitrary: p fl h xs)
  case (Suc n)
  have "chain (h(p := fl)) p (p # xs)" using Suc.prems by auto
  then have "chain (snd (free_list_loop n bs (p + bs) p (h(p := fl)))) (fst (free_list_loop n bs (p + bs) p (h(p := fl))))
      (rev (map (\<lambda>i. p + bs + i * bs) [0..<n]) @ p # xs)"
    by (rule Suc.IH) (use Suc.prems in auto)
  moreover have "map (\<lambda>i. p + i * bs) [0..<Suc n] = p # map (\<lambda>i. p + bs + i * bs) [0..<n]"
    by (simp add: upt_conv_Cons flip: map_Suc_upt del: upt_Suc)
  ultimately show ?case by (simp del: upt_Suc)
qed simp

lemma distinct_block_addrs: "0 < block_size slab \<Longrightarrow> distinct (block_addrs slab)"
  by (simp add: block_addrs_def distinct_map inj_on_def)

lemma create_free_list_chain:
  assumes "buffer slab \<noteq> NULL" "0 < block_size slab"
  shows "chain (snd (create_free_list slab h)) (free_list (fst (create_free_list slab h))) (rev (block_addrs slab))"
  using free_list_loop_chain[of h NULL "[]" "buffer slab" "block_size slab" "unat (num_blocks slab)"] assms
  by (simp add: create_free_list_def block_addrs_def case_prod_beta)

section \<open>The invariant\<close>

text \<open>
  The free blocks are distinct blocks of the slab, and used and free blocks add up to all of them.
\<close>

definition slab_items :: "'z slab_state \<Rightarrow> addr list" where
  "slab_items = (\<lambda>(slab, h, k). case walk h (free_list slab) of None \<Rightarrow> [] | Some xs \<Rightarrow> xs)"

definition slab_waiters :: "'z slab_state \<Rightarrow> tid list" where
  "slab_waiters = (\<lambda>(slab, h, k). queues k (WaitQ (slab_wait_q slab)))"

definition slab_inv :: "kconfig \<Rightarrow> tid set \<Rightarrow> 'z slab_state \<Rightarrow> bool" where
  "slab_inv c X = (\<lambda>(slab, h, k). kernel_inv c X k \<and> (\<exists>fl. chain h (free_list slab) fl \<and> distinct fl \<and>
     set fl \<subseteq> set (block_addrs slab) \<and> unat (num_used slab) + length fl = unat (num_blocks slab)))"

text \<open>A block the slab has handed out: what the callers of \<^verbatim>\<open>k_mem_slab_free\<close> may pass.\<close>

definition slab_used :: "addr \<Rightarrow> 'z slab_state \<Rightarrow> bool" where
  "slab_used m s \<longleftrightarrow> m \<in> set (block_addrs (fst s)) \<and> m \<notin> set (slab_items s) \<and> m \<noteq> NULL"

lemma slab_items_eq: "chain h (free_list s) xs \<Longrightarrow> slab_items (s, h, k) = xs"
  by (simp add: slab_items_def chain_walk)

lemma slab_invD:
  assumes "slab_inv c X (s, h, k)"
  shows "kernel_inv c X k" "chain h (free_list s) (slab_items (s, h, k))" "distinct (slab_items (s, h, k))"
    "set (slab_items (s, h, k)) \<subseteq> set (block_addrs s)"
    "unat (num_used s) + length (slab_items (s, h, k)) = unat (num_blocks s)"
  using assms by (auto simp: slab_inv_def slab_items_eq)

lemma slab_invI:
  assumes "kernel_inv c X k" "chain h (free_list s) xs" "distinct xs" "set xs \<subseteq> set (block_addrs s)"
    "unat (num_used s) + length xs = unat (num_blocks s)"
  shows "slab_inv c X (s, h, k)" "slab_items (s, h, k) = xs"
  using assms by (auto simp: slab_inv_def slab_items_eq)

lemma slab_init:
  assumes k: "kernel_inv c X k" and w: "queues k (WaitQ (slab_wait_q slab)) = []" and b: "buf \<noteq> NULL" "0 < bs"
  shows "slab_inv c X (k_mem_slab_init (slab, h, k) buf bs n)"
    "slab_items (k_mem_slab_init (slab, h, k) buf bs n) = rev (map (\<lambda>i. buf + i * bs) [0..<unat n])"
proof -
  let ?s = "slab\<lparr>num_blocks := n, block_size := bs, buffer := buf, num_used := 0\<rparr>"
  obtain s2 h1 where c: "create_free_list ?s h = (s2, h1)" by force
  have s2: "s2 = ?s\<lparr>free_list := free_list s2\<rparr>" using c by (auto simp: create_free_list_def split: prod.splits)
  have f: "slab_wait_q s2 = slab_wait_q slab" "num_used s2 = 0" "num_blocks s2 = n"
    "block_addrs s2 = map (\<lambda>i. buf + i * bs) [0..<unat n]"
    by (subst s2, simp add: block_addrs_def)+
  have u: "upd_queue k (WaitQ (slab_wait_q slab)) (\<lambda>_. []) = k"
    using w by (simp add: upd_queue_def fun_upd_idem)
  have e: "k_mem_slab_init (slab, h, k) buf bs n = (s2, h1, k)" by (simp add: k_mem_slab_init_def c f u)
  have ch: "chain h1 (free_list s2) (rev (block_addrs s2))"
    using create_free_list_chain[of ?s h] b c f(4) by (simp add: block_addrs_def)
  have d: "distinct (block_addrs s2)" using b f(4) by (simp add: distinct_map inj_on_def)
  show "slab_inv c X (k_mem_slab_init (slab, h, k) buf bs n)"
    "slab_items (k_mem_slab_init (slab, h, k) buf bs n) = rev (map (\<lambda>i. buf + i * bs) [0..<unat n])"
    using slab_invI[OF k ch] d f by (simp_all add: e)
qed

lemma alloc_stock:
  assumes inv: "slab_inv c X (s, h, k)" and q: "slab_items (s, h, k) = x # xs"
  shows "k_mem_slab_alloc c (s, h, k) n =
      (Some (0, x), s\<lparr>free_list := h x, num_used := num_used s + 1\<rparr>, h, k)"
    "slab_items (snd (k_mem_slab_alloc c (s, h, k) n)) = xs" "slab_inv c X (snd (k_mem_slab_alloc c (s, h, k) n))"
    "unat (num_used s + 1) = unat (num_used s) + 1"
proof -
  note D = slab_invD[OF inv, unfolded q]
  let ?s = "s\<lparr>free_list := h x, num_used := num_used s + 1\<rparr>"
  have ch: "free_list s = x" "x \<noteq> NULL" "chain h (h x) xs" using D(2) by auto
  have "num_used s < num_blocks s" using D(5) by (simp add: word_less_nat_alt)
  then show u: "unat (num_used s + 1) = unat (num_used s) + 1" by (rule unat_inc)
  show e: "k_mem_slab_alloc c (s, h, k) n = (Some (0, x), ?s, h, k)" using ch by (simp add: k_mem_slab_alloc_def)
  have "slab_inv c X (?s, h, k) \<and> slab_items (?s, h, k) = xs"
    using slab_invI[OF D(1), of h ?s xs] ch(3) D(3-5) u by (simp add: block_addrs_def)
  then show "slab_items (snd (k_mem_slab_alloc c (s, h, k) n)) = xs"
    "slab_inv c X (snd (k_mem_slab_alloc c (s, h, k) n))" by (simp_all add: e)
qed

lemma alloc_empty:
  assumes inv: "slab_inv c X (s, h, k)" and q: "slab_items (s, h, k) = []"
  shows "k_mem_slab_alloc c (s, h, k) n =
    (if n = K_NO_WAIT then (Some (- ENOMEM, NULL), s, h, k)
     else (None, s, h, Swap c (pend_current_thread c k (slab_wait_q s) n)))"
  using slab_invD(2)[OF inv] q by (simp add: k_mem_slab_alloc_def)

lemma free_waiter:
  assumes inv: "slab_inv c X (s, h, k)" and q: "queues k (WaitQ (slab_wait_q s)) = t # ts"
  shows "k_mem_slab_free c (s, h, k) m = (s, h, reschedule_threads c (handed c k t 0 m))"
proof -
  have "t \<noteq> NULL" using first_waiter(2)[OF slab_invD(1)[OF inv] q] .
  then show ?thesis
    by (simp add: k_mem_slab_free_def unpend_first_eq[OF q] handed_early Let_def reschedule_threads_def)
qed

text \<open>A block that is not free may be given back.\<close>

lemma free_stock:
  assumes inv: "slab_inv c X (s, h, k)" and q: "queues k (WaitQ (slab_wait_q s)) = []"
    and m: "m \<in> set (block_addrs s)" "m \<notin> set (slab_items (s, h, k))" "m \<noteq> NULL"
  shows "k_mem_slab_free c (s, h, k) m =
      (s\<lparr>free_list := m, num_used := num_used s - 1\<rparr>, h(m := free_list s), k)"
    "slab_items (k_mem_slab_free c (s, h, k) m) = m # slab_items (s, h, k)"
    "slab_inv c X (k_mem_slab_free c (s, h, k) m)"
proof -
  note D = slab_invD[OF inv]
  let ?xs = "slab_items (s, h, k)"
  let ?s = "s\<lparr>free_list := m, num_used := num_used s - 1\<rparr>" and ?h = "h(m := free_list s)"
  show e: "k_mem_slab_free c (s, h, k) m = (?s, ?h, k)"
    using q by (simp add: k_mem_slab_free_def unpend_first_thread_def)
  have "length (m # ?xs) = card (set (m # ?xs))" using D(3) m(2) distinct_card by (metis distinct.simps(2))
  also have "\<dots> \<le> card (set (block_addrs s))" using m(1) D(4) by (intro card_mono) auto
  also have "\<dots> \<le> unat (num_blocks s)" using card_length[of "block_addrs s"] by (simp add: block_addrs_def)
  finally have "0 < num_used s" using D(5) by (simp add: word_gt_0 unat_gt_0 unat_eq_zero) (auto simp: unat_eq_zero)
  then have u: "unat (num_used s - 1) + 1 = unat (num_used s)" by (rule unat_dec)
  have "slab_inv c X (?s, ?h, k) \<and> slab_items (?s, ?h, k) = m # ?xs"
    using slab_invI[OF D(1), of ?h ?s "m # ?xs"] D(2-5) m u by (simp add: block_addrs_def)
  then show "slab_items (k_mem_slab_free c (s, h, k) m) = m # ?xs" "slab_inv c X (k_mem_slab_free c (s, h, k) m)"
    by (simp_all add: e)
qed

lemma free_inv:
  assumes inv: "slab_inv c X (s, h, k)"
    and m: "m \<in> set (block_addrs s)" "m \<notin> set (slab_items (s, h, k))" "m \<noteq> NULL"
  shows "slab_inv c X (k_mem_slab_free c (s, h, k) m)"
proof (cases "queues k (WaitQ (slab_wait_q s))")
  case Nil
  then show ?thesis using free_stock(3)[OF inv Nil m] by simp
next
  case (Cons t ts)
  have "kernel_inv c X (reschedule_threads c (handed c k t 0 m))"
    by (intro reschedule_inv handed_inv(1)[OF slab_invD(1)[OF inv] Cons])
  then show ?thesis using inv by (simp add: free_waiter[OF inv Cons] slab_inv_def)
qed

interpretation slab: blocking_resource "slab_inv c X"
  slab_used "\<lambda>s. may_block c X (snd (snd s))"
  "\<lambda>n. n \<noteq> K_NO_WAIT \<and> timeout_ok c n" "\<lambda>s. length (slab_items s)" slab_waiters
  "\<lambda>m s. k_mem_slab_free c s m" "\<lambda>n s. snd (k_mem_slab_alloc c s n)"
  for c X
proof unfold_locales
  fix s :: "'a slab_state" and m n t ts
  assume inv: "slab_inv c X s"
  obtain l h k where s: "s = (l, h, k)" by (cases s)
  note inv' = inv[unfolded s]
  { assume m: "slab_used m s"
    show "slab_inv c X (k_mem_slab_free c s m)" using free_inv[OF inv'] m s by (simp add: slab_used_def)
    show "slab_waiters (k_mem_slab_free c s m) = ts \<and> length (slab_items (k_mem_slab_free c s m)) = length (slab_items s)"
      if "slab_waiters s = t # ts"
      using that s free_waiter[OF inv', of t ts m] by (simp add: slab_waiters_def slab_items_def)
    show "slab_waiters (k_mem_slab_free c s m) = [] \<and> length (slab_items s) \<le> length (slab_items (k_mem_slab_free c s m)) \<and>
        length (slab_items (k_mem_slab_free c s m)) \<le> length (slab_items s) + 1"
      if "slab_waiters s = []"
      using that s m free_stock[OF inv', of m] by (simp add: slab_waiters_def slab_used_def) }
  assume b: "may_block c X (snd (snd s))" and n: "n \<noteq> K_NO_WAIT \<and> timeout_ok c n"
  show "slab_inv c X (snd (k_mem_slab_alloc c s n))"
  proof (cases "slab_items s")
    case Nil
    then show ?thesis using inv' s b n alloc_empty[OF inv', of n] block_inv(1)[of c X k n]
      by (simp add: slab_inv_def)
  next
    case (Cons x xs)
    then show ?thesis using alloc_stock(3)[OF inv'] s by simp
  qed
  show "slab_waiters (snd (k_mem_slab_alloc c s n)) = slab_waiters s \<and>
      length (slab_items (snd (k_mem_slab_alloc c s n))) + 1 = length (slab_items s)"
    if "0 < length (slab_items s)"
    using that s alloc_stock(1,2)[OF inv', of _ _ n] by (cases "slab_items s") (auto simp: slab_waiters_def)
  show "length (slab_items (snd (k_mem_slab_alloc c s n))) = 0" if "length (slab_items s) = 0"
    using that s n alloc_empty[OF inv', of n] by (simp add: slab_items_def)
qed

end
