(* ===== verification/Msgq.thy ===== *)
theory Msgq
  imports Wait_Queue Libc_String
begin

text \<open>
  Message queues, \<^verbatim>\<open>kernel/unified/msg_q.c\<close>: a ring buffer of messages of one size.  Messages are
  bytes of memory, moved by \<^verbatim>\<open>memcpy\<close>.
\<close>

section \<open>Operations\<close>

record k_msgq =
  msgq_wait_q :: wqid
  msg_size :: nat
  max_msgs :: u32
  buffer_start :: addr
  buffer_end :: addr
  read_ptr :: addr
  write_ptr :: addr
  used_msgs :: u32

type_synonym 'z msgq_state = "k_msgq \<times> bytes \<times> 'z kernel_scheme"

definition k_msgq_init :: "'z msgq_state \<Rightarrow> addr \<Rightarrow> nat \<Rightarrow> u32 \<Rightarrow> 'z msgq_state" where
  "k_msgq_init = (\<lambda>(q, h, k) buf size n.
     (q\<lparr>msg_size := size, max_msgs := n, buffer_start := buf, buffer_end := buf + unat n * size,
        read_ptr := buf, write_ptr := buf, used_msgs := 0\<rparr>,
      h, upd_queue k (WaitQ (msgq_wait_q q)) (\<lambda>_. [])))"

text \<open>Copying a message into the ring and out of it, with the pointer wrapping at the end.\<close>

definition ring_put :: "k_msgq \<Rightarrow> bytes \<Rightarrow> addr \<Rightarrow> k_msgq \<times> bytes" where
  "ring_put q h data =
     (let h1 = memcpy h (write_ptr q) data (msg_size q);
          q1 = q\<lparr>write_ptr := write_ptr q + msg_size q\<rparr>;
          q2 = (if write_ptr q1 = buffer_end q1 then q1\<lparr>write_ptr := buffer_start q1\<rparr> else q1)
      in (q2\<lparr>used_msgs := used_msgs q2 + 1\<rparr>, h1))"

definition ring_get :: "k_msgq \<Rightarrow> bytes \<Rightarrow> addr \<Rightarrow> k_msgq \<times> bytes" where
  "ring_get q h data =
     (let h1 = memcpy h data (read_ptr q) (msg_size q);
          q1 = q\<lparr>read_ptr := read_ptr q + msg_size q\<rparr>;
          q2 = (if read_ptr q1 = buffer_end q1 then q1\<lparr>read_ptr := buffer_start q1\<rparr> else q1)
      in (q2\<lparr>used_msgs := used_msgs q2 - 1\<rparr>, h1))"

text \<open>Waking a thread that waits on the queue with a result.\<close>

definition msgq_wake :: "kconfig \<Rightarrow> 'z kernel_scheme \<Rightarrow> tid \<Rightarrow> int \<Rightarrow> 'z kernel_scheme" where
  "msgq_wake c k t v =
     (let k1 = set_thread_return_value k t v;
          k2 = snd (abort_thread_timeout k1 t)
      in ready_thread c k2 t)"

definition k_msgq_put :: "kconfig \<Rightarrow> 'z msgq_state \<Rightarrow> addr \<Rightarrow> int \<Rightarrow> int option \<times> 'z msgq_state" where
  "k_msgq_put c = (\<lambda>(q, h, k) data timeout.
     if used_msgs q < max_msgs q
     then case unpend_first_thread k (msgq_wait_q q) of (t, k1) \<Rightarrow>
            if t \<noteq> NULL
            then let h1 = memcpy h (swap_data (thread k1 t)) data (msg_size q)
                 in (Some 0, q, h1, resched_unless_isr c (msgq_wake c k1 t 0))
            else case ring_put q h data of (q1, h1) \<Rightarrow> (Some 0, q1, h1, k1)
     else if timeout = K_NO_WAIT then (Some (- ENOMSG), q, h, k)
     else let k1 = pend_current_thread c k (msgq_wait_q q) timeout;
              k2 = upd_thread k1 (current k1) (\<lambda>th. th\<lparr>swap_data := data\<rparr>)
          in (None, q, h, Swap c k2))"

definition k_msgq_get :: "kconfig \<Rightarrow> 'z msgq_state \<Rightarrow> addr \<Rightarrow> int \<Rightarrow> int option \<times> 'z msgq_state" where
  "k_msgq_get c = (\<lambda>(q, h, k) data timeout.
     if used_msgs q > 0
     then case ring_get q h data of (q1, h1) \<Rightarrow>
            case unpend_first_thread k (msgq_wait_q q1) of (t, k1) \<Rightarrow>
              if t \<noteq> NULL
              then case ring_put q1 h1 (swap_data (thread k1 t)) of (q2, h2) \<Rightarrow>
                     (Some 0, q2, h2, resched_unless_isr c (msgq_wake c k1 t 0))
              else (Some 0, q1, h1, k1)
     else if timeout = K_NO_WAIT then (Some (- ENOMSG), q, h, k)
     else let k1 = pend_current_thread c k (msgq_wait_q q) timeout;
              k2 = upd_thread k1 (current k1) (\<lambda>th. th\<lparr>swap_data := data\<rparr>)
          in (None, q, h, Swap c k2))"

text \<open>The value a blocked put or get returns when its thread runs again is that of \<^verbatim>\<open>_Swap\<close>.\<close>

definition k_msgq_resume :: "'z kernel_scheme \<Rightarrow> int" where
  "k_msgq_resume k = swap_return_value (thread k (current k))"

function purge_loop :: "kconfig \<Rightarrow> wqid \<Rightarrow> 'z kernel_scheme \<Rightarrow> 'z kernel_scheme" where
  "purge_loop c w k =
     (case unpend_first_thread k w of (t, k1) \<Rightarrow>
        if t \<noteq> NULL then purge_loop c w (msgq_wake c k1 t (- ENOMSG)) else k1)"
  by pat_completeness auto

lemma msgq_wake_woken: "msgq_wake c (unpend_thread k t) t v = woken c k t v"
  by (simp add: msgq_wake_def handed_early)

termination purge_loop
  by (relation "measure (\<lambda>(c, w, k). length (queues k (WaitQ w)))")
    (auto simp: unpend_first_thread_def msgq_wake_woken simp flip: unpend_thread_def split: list.splits)

declare purge_loop.simps [simp del]

definition k_msgq_purge :: "kconfig \<Rightarrow> 'z msgq_state \<Rightarrow> 'z msgq_state" where
  "k_msgq_purge c = (\<lambda>(q, h, k).
     let k1 = purge_loop c (msgq_wait_q q) k
     in (q\<lparr>used_msgs := 0, read_ptr := write_ptr q\<rparr>, h, reschedule_threads c k1))"

definition k_msgq_num_free_get :: "k_msgq \<Rightarrow> u32" where
  "k_msgq_num_free_get q = max_msgs q - used_msgs q"

definition k_msgq_num_used_get :: "k_msgq \<Rightarrow> u32" where
  "k_msgq_num_used_get q = used_msgs q"

section \<open>The queue it stands for\<close>

text \<open>Slot \<open>i\<close> of the ring, and the messages from the read pointer on.\<close>

definition slot :: "k_msgq \<Rightarrow> nat \<Rightarrow> addr" where
  "slot q i = buffer_start q + (i mod unat (max_msgs q)) * msg_size q"

definition read_index :: "k_msgq \<Rightarrow> nat" where
  "read_index q = (read_ptr q - buffer_start q) div msg_size q"

definition message :: "bytes \<Rightarrow> addr \<Rightarrow> nat \<Rightarrow> u8 list" where
  "message h a n = map (\<lambda>i. h (a + i)) [0..<n]"

definition messages :: "k_msgq \<Rightarrow> bytes \<Rightarrow> u8 list list" where
  "messages q h = map (\<lambda>i. message h (slot q (read_index q + i)) (msg_size q)) [0..<unat (used_msgs q)]"

definition ring_ok :: "k_msgq \<Rightarrow> bool" where
  "ring_ok q \<longleftrightarrow> 0 < msg_size q \<and> 0 < max_msgs q \<and> used_msgs q \<le> max_msgs q \<and>
     buffer_end q = buffer_start q + unat (max_msgs q) * msg_size q \<and>
     (\<exists>r < unat (max_msgs q). read_ptr q = slot q r \<and> write_ptr q = slot q (r + unat (used_msgs q)))"

text \<open>The area of the ring, and an area outside it.\<close>

definition outside :: "k_msgq \<Rightarrow> addr \<Rightarrow> bool" where
  "outside q a \<longleftrightarrow> a + msg_size q \<le> buffer_start q \<or> buffer_end q \<le> a"

lemma read_index_eq: "0 < msg_size q \<Longrightarrow> r < unat (max_msgs q) \<Longrightarrow> read_ptr q = slot q r \<Longrightarrow> read_index q = r"
  by (simp add: read_index_def slot_def)

lemma slot_bounds:
  assumes "0 < max_msgs q"
  shows "slot q i + msg_size q \<le> buffer_start q + unat (max_msgs q) * msg_size q" "buffer_start q \<le> slot q i"
proof -
  have "0 < unat (max_msgs q)" using assms by (simp add: unat_gt_0 word_gt_0)
  then have "Suc (i mod unat (max_msgs q)) \<le> unat (max_msgs q)" by (simp add: Suc_leI)
  then have "Suc (i mod unat (max_msgs q)) * msg_size q \<le> unat (max_msgs q) * msg_size q" by (rule mult_le_mono1)
  then show "slot q i + msg_size q \<le> buffer_start q + unat (max_msgs q) * msg_size q" by (simp add: slot_def)
qed (simp add: slot_def)

lemma slot_disjoint:
  assumes "i mod unat (max_msgs q) \<noteq> j mod unat (max_msgs q)"
  shows "slot q i + msg_size q \<le> slot q j \<or> slot q j + msg_size q \<le> slot q i"
proof -
  have "a < b \<Longrightarrow> Suc a * msg_size q \<le> b * msg_size q" for a b by (rule mult_le_mono1) simp
  from this[of "i mod unat (max_msgs q)" "j mod unat (max_msgs q)"] this[of "j mod unat (max_msgs q)" "i mod unat (max_msgs q)"]
  show ?thesis using assms by (cases "i mod unat (max_msgs q) < j mod unat (max_msgs q)") (auto simp: slot_def)
qed

text \<open>Stepping from a slot to the next, with the wrap at the end of the buffer.\<close>

lemma slot_step:
  assumes "0 < max_msgs q" "0 < msg_size q"
  shows "(if slot q i + msg_size q = buffer_start q + unat (max_msgs q) * msg_size q then buffer_start q
     else slot q i + msg_size q) = slot q (Suc i)"
proof -
  let ?n = "unat (max_msgs q)"
  have n: "0 < ?n" using assms(1) by (simp add: unat_gt_0 word_gt_0)
  define m where "m = i mod ?n"
  have e: "slot q i + msg_size q = buffer_start q + Suc m * msg_size q" by (simp add: slot_def m_def)
  have "Suc m * msg_size q = ?n * msg_size q \<longleftrightarrow> Suc m = ?n" using assms(2) by (metis mult_cancel2 neq0_conv)
  moreover have "Suc i mod ?n = (if Suc m = ?n then 0 else Suc m)" by (simp add: mod_Suc m_def)
  ultimately show ?thesis unfolding e by (simp add: slot_def)
qed

lemma message_copied: "disjoint_areas d s n \<Longrightarrow> message (copied h d s n) d n = message h s n"
  by (simp add: message_def copied_def)

lemma message_frame: "a + n \<le> d \<or> d + m \<le> a \<Longrightarrow> message (copied h d s m) a n = message h a n"
  by (auto simp: message_def copied_def)

lemma slot_frame [simp]:
  "slot (q\<lparr>read_ptr := p\<rparr>) i = slot q i" "slot (q\<lparr>write_ptr := p\<rparr>) i = slot q i" "slot (q\<lparr>used_msgs := n\<rparr>) i = slot q i"
  by (simp_all add: slot_def)

text \<open>A message put into the ring is last, one taken out of it is the first.\<close>

lemma ring_put_messages:
  fixes h :: bytes
  assumes ok: "ring_ok q" and n: "used_msgs q < max_msgs q" and d: "outside q data"
  defines "q' \<equiv> fst (ring_put q h data)" and "h' \<equiv> snd (ring_put q h data)"
  shows "ring_ok q'" "messages q' h' = messages q h @ [message h data (msg_size q)]"
    "h' = copied h (write_ptr q) data (msg_size q)" "buffer_start q \<le> write_ptr q" "write_ptr q + msg_size q \<le> buffer_end q"
    "unat (used_msgs q') = unat (used_msgs q) + 1" "\<And>a. outside q' a \<longleftrightarrow> outside q a"
    "msg_size q' = msg_size q" "max_msgs q' = max_msgs q" "msgq_wait_q q' = msgq_wait_q q"
proof -
  let ?u = "unat (used_msgs q)" and ?n = "unat (max_msgs q)" and ?sz = "msg_size q"
  obtain r where r: "r < ?n" "read_ptr q = slot q r" "write_ptr q = slot q (r + ?u)" using ok by (auto simp: ring_ok_def)
  have p: "0 < max_msgs q" "0 < ?sz" "buffer_end q = buffer_start q + ?n * ?sz" using ok by (auto simp: ring_ok_def)
  note b = slot_bounds[OF p(1), of "r + ?u"]
  show w: "buffer_start q \<le> write_ptr q" "write_ptr q + ?sz \<le> buffer_end q" using b r(3) p(3) by auto
  then have dj: "disjoint_areas (write_ptr q) data ?sz" using d by (auto simp: outside_def disjoint_areas_def)
  have q': "q' = q\<lparr>write_ptr := slot q (Suc (r + ?u)), used_msgs := used_msgs q + 1\<rparr>"
    using slot_step[OF p(1,2), of "r + ?u"] r(3) p(3) by (simp add: q'_def ring_put_def Let_def split: if_splits)
  show h': "h' = copied h (write_ptr q) data ?sz" using memcpy_copied[OF dj] by (simp add: h'_def ring_put_def Let_def)
  show u: "unat (used_msgs q') = ?u + 1" using unat_inc[OF n] by (simp add: q')
  show "\<And>a. outside q' a \<longleftrightarrow> outside q a" "msg_size q' = ?sz" "max_msgs q' = max_msgs q" "msgq_wait_q q' = msgq_wait_q q"
    by (simp_all add: q' outside_def)
  have le: "?u + 1 \<le> ?n" using n by (simp add: word_less_nat_alt)
  show "ring_ok q'" using p r u le unfolding ring_ok_def
    by (simp add: word_le_nat_alt) (simp add: q', metis)
  have i: "read_index q = r" "read_index q' = r" using read_index_eq[of _ r] p r by (simp_all add: q')
  have old: "message h' (slot q (r + j)) ?sz = message h (slot q (r + j)) ?sz" if "j < ?u" for j
  proof -
    have "(r + j) mod ?n \<noteq> (r + ?u) mod ?n"
    proof
      assume "(r + j) mod ?n = (r + ?u) mod ?n"
      then have "?n dvd (r + ?u) - (r + j)" using that by (metis mod_eq_dvd_iff_nat add_le_cancel_left less_imp_le)
      then show False using that le by (auto dest: dvd_imp_le)
    qed
    from slot_disjoint[OF this] show ?thesis unfolding h' r(3) by (intro message_frame) auto
  qed
  have new: "message h' (slot q (r + ?u)) ?sz = message h data ?sz" unfolding h' using message_copied[OF dj] r(3) by simp
  have "messages q' h' = map (\<lambda>j. message h' (slot q (r + j)) ?sz) [0..<?u + 1]"
    unfolding messages_def u i(2) by (simp add: q')
  then show "messages q' h' = messages q h @ [message h data ?sz]" using old new by (simp add: messages_def i(1))
qed

lemma ring_get_messages:
  fixes h :: bytes
  assumes ok: "ring_ok q" and n: "0 < used_msgs q" and d: "outside q data"
  defines "q' \<equiv> fst (ring_get q h data)" and "h' \<equiv> snd (ring_get q h data)"
  shows "ring_ok q'" "messages q h = message h' data (msg_size q) # messages q' h'"
    "h' = copied h data (read_ptr q) (msg_size q)" "unat (used_msgs q') + 1 = unat (used_msgs q)"
    "\<And>a. outside q' a \<longleftrightarrow> outside q a" "msg_size q' = msg_size q" "max_msgs q' = max_msgs q" "msgq_wait_q q' = msgq_wait_q q"
    "buffer_start q' = buffer_start q" "buffer_end q' = buffer_end q"
proof -
  let ?u = "unat (used_msgs q)" and ?n = "unat (max_msgs q)" and ?sz = "msg_size q"
  obtain r where r: "r < ?n" "read_ptr q = slot q r" "write_ptr q = slot q (r + ?u)" using ok by (auto simp: ring_ok_def)
  have p: "0 < max_msgs q" "0 < ?sz" "buffer_end q = buffer_start q + ?n * ?sz" "?u \<le> ?n"
    using ok by (auto simp: ring_ok_def word_le_nat_alt)
  note b = slot_bounds[OF p(1), of r]
  have dj: "disjoint_areas data (read_ptr q) ?sz" using d b p(3) r(2) by (auto simp: outside_def disjoint_areas_def)
  have q': "q' = q\<lparr>read_ptr := slot q (Suc r), used_msgs := used_msgs q - 1\<rparr>"
    using slot_step[OF p(1,2), of r] r(2) p(3) by (simp add: q'_def ring_get_def Let_def split: if_splits)
  show h': "h' = copied h data (read_ptr q) ?sz" using memcpy_copied[OF dj] by (simp add: h'_def ring_get_def Let_def)
  show u: "unat (used_msgs q') + 1 = ?u" using unat_dec[OF n] by (simp add: q')
  show "\<And>a. outside q' a \<longleftrightarrow> outside q a" "msg_size q' = ?sz" "max_msgs q' = max_msgs q" "msgq_wait_q q' = msgq_wait_q q"
    "buffer_start q' = buffer_start q" "buffer_end q' = buffer_end q"
    by (simp_all add: q' outside_def)
  let ?r = "Suc r mod ?n"
  have s: "slot q ?r = slot q (Suc r)" "slot q (?r + j) = slot q (Suc r + j)" for j by (simp_all add: slot_def mod_add_left_eq)
  have lt: "?r < ?n" using r(1) by simp
  show "ring_ok q'" unfolding ring_ok_def
  proof (intro conjI exI[of _ ?r])
    show "used_msgs q' \<le> max_msgs q'" using u p(4) by (simp add: word_le_nat_alt) (simp add: q')
    show "read_ptr q' = slot q' ?r" using s(1) by (simp add: q')
    have "r + ?u = Suc r + unat (used_msgs q')" using u by simp
    then show "write_ptr q' = slot q' (?r + unat (used_msgs q'))" using s(2)[of "unat (used_msgs q')"] r(3) by (simp add: q')
  qed (use p lt in \<open>simp_all add: q'\<close>)
  have i: "read_index q = r" "read_index q' = ?r" using read_index_eq[of _ r] read_index_eq[of q' ?r] p r s lt by (simp_all add: q')
  have fr: "message h' (slot q j) ?sz = message h (slot q j) ?sz" for j
    unfolding h' using slot_bounds[OF p(1), of j] d p(3) by (intro message_frame) (auto simp: outside_def)
  have hd: "message h (slot q r) ?sz = message h' data ?sz" unfolding h' using message_copied[OF dj] r(2) by simp
  have "messages q h = map (\<lambda>j. message h (slot q (r + j)) ?sz) [0..<Suc (unat (used_msgs q'))]"
    using u by (simp add: messages_def i(1))
  also have "\<dots> = message h (slot q r) ?sz # map (\<lambda>j. message h (slot q (Suc r + j)) ?sz) [0..<unat (used_msgs q')]"
    by (simp only: upt_conv_Cons zero_less_Suc map_Suc_upt[symmetric] list.map map_map comp_def add_0_right add_Suc_right add_Suc)
  also have "\<dots> = message h' data ?sz # messages q' h'"
    unfolding messages_def i(2) hd using fr s(2) by (simp add: q')
  finally show "messages q h = message h' data ?sz # messages q' h'" .
qed

section \<open>Operations on the whole\<close>

text \<open>Threads wait only on an empty queue, to receive, or on a full one, to send.\<close>

definition msgq_waiters :: "'z msgq_state \<Rightarrow> tid list" where
  "msgq_waiters = (\<lambda>(q, h, k). queues k (WaitQ (msgq_wait_q q)))"

definition msgq_inv :: "kconfig \<Rightarrow> tid set \<Rightarrow> 'z msgq_state \<Rightarrow> bool" where
  "msgq_inv c X = (\<lambda>(q, h, k). kernel_inv c X k \<and> ring_ok q \<and>
     (msgq_waiters (q, h, k) \<noteq> [] \<longrightarrow> used_msgs q = 0 \<or> used_msgs q = max_msgs q))"

lemma msgq_put_stock:
  assumes inv: "msgq_inv c X (q, h, k)" and n: "used_msgs q < max_msgs q" and w: "msgq_waiters (q, h, k) = []"
    and d: "outside q data"
  shows "fst (k_msgq_put c (q, h, k) data timeout) = Some 0"
    "msgq_inv c X (snd (k_msgq_put c (q, h, k) data timeout))"
    "(case snd (k_msgq_put c (q, h, k) data timeout) of (q', h', k') \<Rightarrow> messages q' h') =
       messages q h @ [message h data (msg_size q)]"
proof -
  have ok: "ring_ok q" using inv by (simp add: msgq_inv_def)
  note p = ring_put_messages(1,2,6-10)[OF ok n d, of h]
  obtain q1 h1 where e: "ring_put q h data = (q1, h1)" by force
  have "k_msgq_put c (q, h, k) data timeout = (Some 0, q1, h1, k)"
    using n w e by (simp add: k_msgq_put_def msgq_waiters_def unpend_first_thread_def)
  then show "fst (k_msgq_put c (q, h, k) data timeout) = Some 0"
    "msgq_inv c X (snd (k_msgq_put c (q, h, k) data timeout))"
    "(case snd (k_msgq_put c (q, h, k) data timeout) of (q', h', k') \<Rightarrow> messages q' h') =
       messages q h @ [message h data (msg_size q)]"
    using p e inv w by (simp_all add: msgq_inv_def msgq_waiters_def)
qed

lemma msgq_first:
  assumes inv: "msgq_inv c X (q, h, k)" and w: "msgq_waiters (q, h, k) = t # ts"
  shows "unpend_first_thread k (msgq_wait_q q) = (t, unpend_thread k t)" "t \<noteq> NULL"
    "kernel_inv c X (resched_unless_isr c (woken c k t v))"
    "queues (resched_unless_isr c (woken c k t v)) (WaitQ (msgq_wait_q q)) = ts"
proof -
  have k: "kernel_inv c X k" and q: "queues k (WaitQ (msgq_wait_q q)) = t # ts"
    using inv w by (auto simp: msgq_inv_def msgq_waiters_def)
  show "unpend_first_thread k (msgq_wait_q q) = (t, unpend_thread k t)" by (rule unpend_first_eq[OF q])
  show "t \<noteq> NULL" by (rule first_waiter(2)[OF k q])
  show "kernel_inv c X (resched_unless_isr c (woken c k t v))"
    by (intro resched_unless_isr_inv(1) handed_inv(2)[OF k q])
  show "queues (resched_unless_isr c (woken c k t v)) (WaitQ (msgq_wait_q q)) = ts" by (simp add: q)
qed

text \<open>A message that finds a receiver waiting is copied straight into the receiver's buffer.\<close>

lemma msgq_put_waiter:
  assumes inv: "msgq_inv c X (q, h, k)" and n: "used_msgs q < max_msgs q" and w: "msgq_waiters (q, h, k) = t # ts"
    and d: "disjoint_areas (swap_data (thread k t)) data (msg_size q)"
  shows "k_msgq_put c (q, h, k) data timeout =
      (Some 0, q, copied h (swap_data (thread k t)) data (msg_size q), resched_unless_isr c (woken c k t 0))"
    "msgq_inv c X (snd (k_msgq_put c (q, h, k) data timeout))" "messages q h = []"
proof -
  note f = msgq_first[OF inv w]
  show e: "k_msgq_put c (q, h, k) data timeout =
      (Some 0, q, copied h (swap_data (thread k t)) data (msg_size q), resched_unless_isr c (woken c k t 0))"
    using n f memcpy_copied[OF d] by (simp add: k_msgq_put_def msgq_wake_woken)
  have u: "used_msgs q = 0" using inv n w by (auto simp: msgq_inv_def)
  then show "messages q h = []" by (simp add: messages_def)
  show "msgq_inv c X (snd (k_msgq_put c (q, h, k) data timeout))"
    using inv u f(3) by (simp add: e msgq_inv_def msgq_waiters_def)
qed

text \<open>A receiver gets the first message; the first waiting sender's message takes the free place.\<close>

lemma msgq_get_messages:
  assumes inv: "msgq_inv c X (q, h, k)" and n: "0 < used_msgs q" and d: "outside q data"
    and w: "\<And>t ts. msgq_waiters (q, h, k) = t # ts \<Longrightarrow>
      outside q (swap_data (thread k t)) \<and> disjoint_areas data (swap_data (thread k t)) (msg_size q)"
  shows "\<exists>q' h' k'. k_msgq_get c (q, h, k) data timeout = (Some 0, q', h', k') \<and> msgq_inv c X (q', h', k') \<and>
    message h' data (msg_size q) = hd (messages q h) \<and>
    messages q' h' = tl (messages q h) @
      (case msgq_waiters (q, h, k) of [] \<Rightarrow> [] | t # ts \<Rightarrow> [message h (swap_data (thread k t)) (msg_size q)])"
proof -
  have ok: "ring_ok q" using inv by (simp add: msgq_inv_def)
  obtain q1 h1 where e: "ring_get q h data = (q1, h1)" by force
  note g = ring_get_messages[OF ok n d, of h, unfolded e, simplified]
  show ?thesis
  proof (cases "msgq_waiters (q, h, k)")
    case Nil
    then have "k_msgq_get c (q, h, k) data timeout = (Some 0, q1, h1, k)"
      using n e g(8) by (simp add: k_msgq_get_def msgq_waiters_def unpend_first_thread_def)
    then show ?thesis using g Nil inv by (simp add: msgq_inv_def msgq_waiters_def)
  next
    case (Cons t ts)
    let ?m = "swap_data (thread k t)"
    note f = msgq_first[OF inv Cons]
    have om: "outside q ?m" "disjoint_areas data ?m (msg_size q)" using w[OF Cons] by auto
    have full: "used_msgs q = max_msgs q" using inv n Cons by (auto simp: msgq_inv_def)
    have lt: "used_msgs q1 < max_msgs q1" using g(4,7) full by (simp add: word_less_nat_alt)
    obtain q2 h2 where e2: "ring_put q1 h1 ?m = (q2, h2)" by force
    have "outside q1 ?m" using om(1) g(5) by simp
    note p = ring_put_messages(1-3)[OF g(1) lt this, of h1, unfolded e2, simplified]
      ring_put_messages(4,5)[OF g(1) lt this] ring_put_messages(6-10)[OF g(1) lt this, of h1, unfolded e2, simplified]
    have r: "k_msgq_get c (q, h, k) data timeout = (Some 0, q2, h2, resched_unless_isr c (woken c k t 0))"
      using n e e2 f g(8) by (simp add: k_msgq_get_def msgq_wake_woken)
    have m: "message h1 ?m (msg_size q) = message h ?m (msg_size q)"
      unfolding g(3) using om(2) by (intro message_frame) (auto simp: disjoint_areas_def)
    have hd': "message h2 data (msg_size q) = message h1 data (msg_size q)"
      unfolding p(3) using d p(4,5) g(6,9,10) by (intro message_frame) (auto simp: outside_def)
    have "used_msgs q2 = max_msgs q2" using p(6) g(4) full p(9) g(7) by (simp add: word_unat_eq_iff)
    then have "msgq_inv c X (q2, h2, resched_unless_isr c (woken c k t 0))"
      using p f by (simp add: msgq_inv_def)
    then show ?thesis using r g(2,6) p(2) m hd' Cons by simp
  qed
qed

text \<open>Blocking, on a full queue for a sender and on an empty one for a receiver.\<close>

lemma msgq_block:
  fixes data :: addr
  assumes inv: "msgq_inv c X (q, h, k)" and b: "may_block c X k" and t: "timeout \<noteq> K_NO_WAIT" "timeout_ok c timeout"
  defines "k' \<equiv> Swap c (upd_thread (pend_current_thread c k (msgq_wait_q q) timeout) (current k) (\<lambda>th. th\<lparr>swap_data := data\<rparr>))"
  shows "used_msgs q = max_msgs q \<Longrightarrow> k_msgq_put c (q, h, k) data timeout = (None, q, h, k')"
    "used_msgs q = 0 \<Longrightarrow> k_msgq_get c (q, h, k) data timeout = (None, q, h, k')"
    "used_msgs q = max_msgs q \<or> used_msgs q = 0 \<Longrightarrow> msgq_inv c X (q, h, k')" "swap_data (thread k' (current k)) = data"
proof -
  show "used_msgs q = max_msgs q \<Longrightarrow> k_msgq_put c (q, h, k) data timeout = (None, q, h, k')"
    "used_msgs q = 0 \<Longrightarrow> k_msgq_get c (q, h, k) data timeout = (None, q, h, k')"
    using t(1) by (simp_all add: k_msgq_put_def k_msgq_get_def k'_def Let_def)
  have "kernel_inv c X (upd_thread (pend_current_thread c k (msgq_wait_q q) timeout) (current k) (\<lambda>th. th\<lparr>swap_data := data\<rparr>))"
    by (rule kernel_inv_upd_thread[OF pend_current_inv(1)[OF b t(2)]]) simp_all
  from Swap_inv(1)[OF this] show "used_msgs q = max_msgs q \<or> used_msgs q = 0 \<Longrightarrow> msgq_inv c X (q, h, k')"
    using inv by (auto simp: msgq_inv_def k'_def)
  show "swap_data (thread k' (current k)) = data" by (simp add: k'_def)
qed

text \<open>Purging wakes everybody who waits, senders and receivers, with \<open>-ENOMSG\<close>.\<close>

lemma purge_loop_effect:
  assumes "kernel_inv c X k"
  shows "kernel_inv c X (purge_loop c w k)" "queues (purge_loop c w k) (WaitQ w) = []"
    "current (purge_loop c w k) = current k"
    "\<And>t. swap_return_value (thread (purge_loop c w k) t) =
      (if t \<in> set (queues k (WaitQ w)) then - ENOMSG else swap_return_value (thread k t))"
proof -
  have "kernel_inv c X (purge_loop c w k) \<and> queues (purge_loop c w k) (WaitQ w) = [] \<and>
    current (purge_loop c w k) = current k \<and>
    (\<forall>t. swap_return_value (thread (purge_loop c w k) t) =
      (if t \<in> set (queues k (WaitQ w)) then - ENOMSG else swap_return_value (thread k t)))"
    using assms
  proof (induction "queues k (WaitQ w)" arbitrary: k)
    case Nil
    then show ?case by (simp add: purge_loop.simps[of c w k] unpend_first_thread_def)
  next
    case (Cons t ts)
    note q = Cons.hyps(2)[symmetric]
    let ?k = "woken c k t (- ENOMSG)"
    have e: "purge_loop c w k = purge_loop c w ?k"
      using first_waiter(2)[OF Cons.prems q] by (subst purge_loop.simps) (simp add: unpend_first_eq[OF q] msgq_wake_woken)
    have i: "kernel_inv c X ?k" by (rule handed_inv(2)[OF Cons.prems q])
    have r: "swap_return_value (thread ?k u) = (if u = t then - ENOMSG else swap_return_value (thread k u))" for u
      by (simp add: woken_def mark_defs)
    have "ts = queues ?k (WaitQ w)" by (simp add: q)
    from Cons.hyps(1)[OF this i] show ?case by (auto simp: e r q)
  qed
  then show "kernel_inv c X (purge_loop c w k)" "queues (purge_loop c w k) (WaitQ w) = []"
    "current (purge_loop c w k) = current k"
    "\<And>t. swap_return_value (thread (purge_loop c w k) t) =
      (if t \<in> set (queues k (WaitQ w)) then - ENOMSG else swap_return_value (thread k t))" by auto
qed

lemma msgq_purged:
  assumes inv: "msgq_inv c X (q, h, k)"
  shows "\<exists>q' k'. k_msgq_purge c (q, h, k) = (q', h, k') \<and> msgq_inv c X (q', h, k') \<and> messages q' h = [] \<and>
    msgq_waiters (q', h, k') = [] \<and>
    (\<forall>t \<in> set (msgq_waiters (q, h, k)). t \<noteq> current k \<longrightarrow> swap_return_value (thread k' t) = - ENOMSG)"
proof -
  let ?w = "msgq_wait_q q" and ?q = "q\<lparr>used_msgs := 0, read_ptr := write_ptr q\<rparr>"
  have k: "kernel_inv c X k" and ok: "ring_ok q" using inv by (auto simp: msgq_inv_def)
  note p = purge_loop_effect[OF k, of ?w]
  obtain r where r: "write_ptr q = slot q r" using ok by (auto simp: ring_ok_def)
  have "0 < unat (max_msgs q)" using ok by (simp add: ring_ok_def unat_gt_0 word_gt_0)
  then have "ring_ok ?q" using ok r unfolding ring_ok_def
    by (auto intro!: exI[of _ "r mod unat (max_msgs q)"]) (simp_all add: slot_def)
  then show ?thesis using p reschedule_inv[OF p(1)]
    by (simp add: k_msgq_purge_def msgq_inv_def msgq_waiters_def messages_def reschedule_threads_def Swap_return_value Let_def)
qed

end
