(* ===== verification/Passing_Properties.thy ===== *)
theory Passing_Properties
  imports Fifo Lifo Kstack Mem_Slab Msgq Sample_System
begin

text \<open>
  What the kernel objects that pass data between threads guarantee: FIFOs, LIFOs, stacks, memory
  slabs and message queues.
\<close>

section \<open>FIFOs\<close>

lemma puts_items:
  assumes "fifo_inv c X s" "distinct ds" "NULL \<notin> set ds" "set (fifo_items s) \<inter> set ds = {}"
  shows "fifo_inv c X (fold (\<lambda>d s. k_fifo_put c s d) ds s) \<and>
    fifo_items (fold (\<lambda>d s. k_fifo_put c s d) ds s) = fifo_items s @ drop (length (fifo_waiters s)) ds \<and>
    fifo_waiters (fold (\<lambda>d s. k_fifo_put c s d) ds s) = drop (length ds) (fifo_waiters s)"
  using assms
proof (induction ds arbitrary: s)
  case (Cons d ds)
  obtain f h k where s: "s = (f, h, k)" by (cases s)
  note inv = Cons.prems(1)[unfolded s] and d = Cons.prems(2-4)[unfolded s]
  have i: "fifo_inv c X (k_fifo_put c s d)" using fifo_put_inv[OF inv] d by (simp add: s)
  show ?case
  proof (cases "fifo_waiters s")
    case Nil
    then have q: "queues k (WaitQ (fifo_wait_q f)) = []" by (simp add: s fifo_waiters_def)
    obtain f' h' k' where p: "k_fifo_put c (f, h, k) d = (f', h', k')" by (cases "k_fifo_put c (f, h, k) d")
    have e: "fifo_items (k_fifo_put c s d) = fifo_items s @ [d]" "fifo_waiters (k_fifo_put c s d) = []"
      using put_stock[OF inv q, of d] d q p by (auto simp: s fifo_waiters_def)
    show ?thesis using Cons.IH[OF i] e d Nil by (simp add: s)
  next
    case (Cons t ts)
    then have q: "queues k (WaitQ (fifo_wait_q f)) = t # ts" by (simp add: s fifo_waiters_def)
    have e: "fifo_items (k_fifo_put c s d) = fifo_items s" "fifo_waiters (k_fifo_put c s d) = ts"
      using put_waiter[OF inv q, of d] q by (simp_all add: s fifo_waiters_def fifo_items_def)
    show ?thesis using Cons.IH[OF i] e d Cons by (simp add: s)
  qed
qed simp


definition fifo0 :: "nat \<Rightarrow> k_fifo" where
  "fifo0 w = \<lparr>fifo_wait_q = w, data_q = \<lparr>head = NULL, tail = NULL\<rparr>\<rparr>"

definition links0 :: links where "links0 = (\<lambda>_. NULL)(500 := 510, 510 := 520, 520 := NULL)"

lemma fifo0_state: "fifo_inv cfg0 X0 (fifo0 w, h, sys0)" "fifo_items (fifo0 w, h, sys0) = []"
proof -
  have "slist h (data_q (fifo0 w)) []" by (simp add: slist_def fifo0_def)
  then show "fifo_inv cfg0 X0 (fifo0 w, h, sys0)" "fifo_items (fifo0 w, h, sys0) = []"
    using sys0_inv by (auto simp: fifo_inv_def fifo_items_eq)
qed


text \<open>Gets without waiting, one after the other.\<close>

primrec fifo_gets :: "kconfig \<Rightarrow> nat \<Rightarrow> 'z fifo_state \<Rightarrow> addr option list \<times> 'z fifo_state" where
  "fifo_gets c 0 s = ([], s)"
| "fifo_gets c (Suc n) s = (case k_fifo_get c s K_NO_WAIT of (r, s1) \<Rightarrow>
     case fifo_gets c n s1 of (rs, s2) \<Rightarrow> (r # rs, s2))"

lemma gets_items:
  assumes "fifo_inv c X s" "fifo_items s = xs @ ys"
  shows "fst (fifo_gets c (length xs) s) = map Some xs \<and> fifo_items (snd (fifo_gets c (length xs) s)) = ys"
  using assms
proof (induction xs arbitrary: s)
  case (Cons x xs)
  obtain f h k where s: "s = (f, h, k)" by (cases s)
  note g = get_stock[of c X f h k x "xs @ ys" K_NO_WAIT, folded s]
  have i: "fst (k_fifo_get c s K_NO_WAIT) = Some x" "fifo_items (snd (k_fifo_get c s K_NO_WAIT)) = xs @ ys"
    "fifo_inv c X (snd (k_fifo_get c s K_NO_WAIT))" using g Cons.prems by simp_all
  then show ?case using Cons.IH[OF i(3,2)] by (simp add: case_prod_beta)
qed simp

text \<open>Property C27: items put into a FIFO nobody waits for come out in the order they went in, after the
  items that were there before.\<close>

theorem fifo_first_in_first_out:
  assumes "fifo_inv c X s" "fifo_waiters s = []" "distinct ds" "NULL \<notin> set ds" "set (fifo_items s) \<inter> set ds = {}"
  shows "fst (fifo_gets c (length (fifo_items s) + length ds) (fold (\<lambda>d s. k_fifo_put c s d) ds s)) =
    map Some (fifo_items s @ ds)"
  using gets_items[of c X "fold (\<lambda>d s. k_fifo_put c s d) ds s" "fifo_items s @ ds" "[]"] puts_items[OF assms(1,3-5)] assms(2)
  by simp

theorem fifo_first_in_first_out_witness:
  "fst (fifo_gets cfg0 3 (fold (\<lambda>d s. k_fifo_put cfg0 s d) [510, 500, 520] (fifo0 101, links0, sys0))) =
     [Some 510, Some 500, Some 520]"
  using fifo_first_in_first_out[OF fifo0_state(1), of 101 links0 "[510, 500, 520]"]
  by (simp add: fifo0_state fifo_waiters_def sys0_queues) (simp add: fifo0_def numeral_eq_Suc)

section \<open>LIFOs and stacks\<close>

text \<open>The last item put into a LIFO nobody waits for is the first to come out, and taking it
  leaves the items that were there before.\<close>

theorem lifo_last_in_first_out:
  assumes "lifo_inv c X (l, h, k)" "queues k (WaitQ (lifo_wait_q l)) = []" "d \<noteq> NULL" "d \<notin> set (lifo_items (l, h, k))"
  shows "fst (k_lifo_get c (k_lifo_put c (l, h, k) d) n) = Some d \<and>
    lifo_items (snd (k_lifo_get c (k_lifo_put c (l, h, k) d) n)) = lifo_items (l, h, k) \<and>
    lifo_inv c X (snd (k_lifo_get c (k_lifo_put c (l, h, k) d) n)) \<and>
    snd (snd (snd (k_lifo_get c (k_lifo_put c (l, h, k) d) n))) = k"
proof -
  note p = lifo_put_stock[OF assms]
  obtain l' h' where e: "k_lifo_put c (l, h, k) d = (l', h', k)" using p(1) by blast
  show ?thesis using lifo_get_stock[of c X l' h' k d "lifo_items (l, h, k)" n] p(2,3) by (simp add: e)
qed

text \<open>A push on a stack that is not full and that nobody waits for stays within the buffer
  and is undone by a pop, which returns the word; with a waiting thread the push hands the word to it
  and leaves the stack alone.\<close>

theorem stack_push_pop:
  assumes "stack_inv c X (s, buf, k)" "stack_not_full (s, buf, k)"
  shows "case queues k (WaitQ (stack_wait_q s)) of
      [] \<Rightarrow> stack_inv c X (k_stack_push c (s, buf, k) d) \<and>
        fst (k_stack_pop c (k_stack_push c (s, buf, k) d) n) = Some (0, Some d) \<and>
        stack_items (snd (k_stack_pop c (k_stack_push c (s, buf, k) d) n)) = stack_items (s, buf, k) \<and>
        (\<forall>a. a < stack_base s \<or> stack_top s \<le> a \<longrightarrow> fst (snd (k_stack_push c (s, buf, k) d)) a = buf a)
    | t # ts \<Rightarrow> \<exists>k'. k_stack_push c (s, buf, k) d = (s, buf, k') \<and> kernel_inv c X k' \<and>
        queues k' (WaitQ (stack_wait_q s)) = ts \<and> swap_data (thread k' t) = unat d"
proof (cases "queues k (WaitQ (stack_wait_q s))")
  case Nil
  note i = push_inv[OF assms, of d] and p = push_stock[OF Nil, of c buf d]
  have b: "stack_base s \<le> stack_next s" "stack_next s < stack_top s"
    using assms by (auto simp: stack_inv_def stack_not_full_def)
  have e: "stack_items (k_stack_push c (s, buf, k) d) = d # stack_items (s, buf, k)" by (rule push_items[OF assms(1) Nil])
  note q = pop_stock(1,2)[OF i[unfolded p] e[unfolded p], of n]
  have "fst (k_stack_pop c (k_stack_push c (s, buf, k) d) n) = Some (0, Some d)" unfolding p q(1) by simp
  moreover have "stack_items (snd (k_stack_pop c (k_stack_push c (s, buf, k) d) n)) = stack_items (s, buf, k)"
    unfolding p by (rule q(2))
  moreover have "\<forall>a. a < stack_base s \<or> stack_top s \<le> a \<longrightarrow> fst (snd (k_stack_push c (s, buf, k) d)) a = buf a"
    unfolding p using b by auto
  ultimately show ?thesis using i Nil by simp
next
  case (Cons t ts)
  have k: "kernel_inv c X k" using assms(1) by (simp add: stack_inv_def)
  show ?thesis using Cons push_waiter[OF assms(1) Cons, of d] resched_unless_isr_inv(1)[OF handed_inv(1)[OF k Cons]] by simp
qed

section \<open>Memory slabs\<close>

text \<open>Property C28: in every run of allocations and frees on a memory slab every block is either in use or
  free, no block is free twice, all free blocks lie in the slab's buffer, and no thread waits while a
  block is free.\<close>

theorem slab_blocks_conserved:
  assumes "slab_inv c X s" "slab_items s = [] \<or> slab_waiters s = []"
    "\<forall>p \<in> set ops. \<forall>n. p = Inr n \<longrightarrow> n \<noteq> K_NO_WAIT \<and> timeout_ok c n"
  shows "case resource_run (\<lambda>m s. k_mem_slab_free c s m) (\<lambda>n s. snd (k_mem_slab_alloc c s n)) slab_used
      (\<lambda>s. may_block c X (snd (snd s))) ops s of
    (slab, h, k) \<Rightarrow> kernel_inv c X k \<and>
      unat (k_mem_slab_num_used_get slab) + length (slab_items (slab, h, k)) = unat (num_blocks slab) \<and>
      distinct (slab_items (slab, h, k)) \<and> set (slab_items (slab, h, k)) \<subseteq> set (block_addrs slab) \<and>
      (slab_items (slab, h, k) = [] \<or> slab_waiters (slab, h, k) = [])"
proof -
  let ?r = "resource_run (\<lambda>m s. k_mem_slab_free c s m) (\<lambda>n s. snd (k_mem_slab_alloc c s n)) slab_used
      (\<lambda>s. may_block c X (snd (snd s))) ops s"
  obtain slab h k where r: "?r = (slab, h, k)" by (cases ?r)
  have "slab_inv c X (slab, h, k)" "slab_items (slab, h, k) = [] \<or> slab_waiters (slab, h, k) = []"
    using slab.run_no_idle_stock[OF assms(1) _ assms(3)] assms(2) r by auto
  then show ?thesis using slab_invD[of c X slab h k] by (simp add: r k_mem_slab_num_used_get_def)
qed

definition slab0 :: "unit slab_state" where
  "slab0 = k_mem_slab_init (\<lparr>slab_wait_q = 101, num_blocks = 0, block_size = 0, buffer = 0, free_list = 0, num_used = 0\<rparr>,
     \<lambda>_. 0, sys0) 1000 16 4"

theorem slab_blocks_conserved_witness:
  "case resource_run (\<lambda>m s. k_mem_slab_free cfg0 s m) (\<lambda>n s. snd (k_mem_slab_alloc cfg0 s n)) slab_used
      (\<lambda>s. may_block cfg0 X0 (snd (snd s))) [Inr 50, Inr 50, Inl 1048, Inr 50] slab0 of
    (slab, h, k) \<Rightarrow> unat (k_mem_slab_num_used_get slab) + length (slab_items (slab, h, k)) = unat (num_blocks slab)"
proof -
  have "slab_inv cfg0 X0 slab0" unfolding slab0_def by (rule slab_init[OF sys0_inv]) (simp_all add: sys0_queues)
  moreover have "slab_waiters slab0 = []"
    by (simp add: slab0_def k_mem_slab_init_def slab_waiters_def create_free_list_def case_prod_beta)
  ultimately show ?thesis using slab_blocks_conserved[of cfg0 X0 slab0 "[Inr 50, Inr 50, Inl 1048, Inr 50]"]
    by (auto simp: cfg0_timeout_ok K_NO_WAIT_def)
qed

section \<open>Message queues\<close>

text \<open>Property C30: a message put into a queue with room that nobody waits for is appended to the messages
  in the ring buffer, across its end, and a get on the result copies the oldest message out and leaves
  the others in order; the ring's pointers stay within the buffer.\<close>

theorem msgq_put_then_get:
  assumes "msgq_inv c X (q, h, k)" "used_msgs q < max_msgs q" "msgq_waiters (q, h, k) = []"
    "outside q src" "outside q dst"
  shows "\<exists>q1 h1 q2 h2. k_msgq_put c (q, h, k) src t1 = (Some 0, q1, h1, k) \<and> msgq_inv c X (q1, h1, k) \<and>
    messages q1 h1 = messages q h @ [message h src (msg_size q)] \<and>
    k_msgq_get c (q1, h1, k) dst t2 = (Some 0, q2, h2, k) \<and> msgq_inv c X (q2, h2, k) \<and>
    message h2 dst (msg_size q) # messages q2 h2 = messages q h @ [message h src (msg_size q)]"
proof -
  have ok: "ring_ok q" and k: "kernel_inv c X k" "queues k (WaitQ (msgq_wait_q q)) = []"
    using assms(1,3) by (simp_all add: msgq_inv_def msgq_waiters_def)
  obtain q1 h1 where e1: "ring_put q h src = (q1, h1)" by force
  note p = ring_put_messages(1-3,6-10)[OF ok assms(2,4), of h, unfolded e1 fst_conv snd_conv]
  obtain q2 h2 where e2: "ring_get q1 h1 dst = (q2, h2)" by force
  have u: "0 < used_msgs q1" using p(4) by (simp add: word_less_nat_alt)
  have d: "outside q1 dst" using p(5) assms(5) by simp
  note g = ring_get_messages[OF p(1) u d, of h1, unfolded e2 fst_conv snd_conv]
  have "k_msgq_put c (q, h, k) src t1 = (Some 0, q1, h1, k)"
    using assms(2) k(2) e1 by (simp add: k_msgq_put_def unpend_first_thread_def)
  moreover have "k_msgq_get c (q1, h1, k) dst t2 = (Some 0, q2, h2, k)"
    using u k(2) e2 p(8) g(8) by (simp add: k_msgq_get_def unpend_first_thread_def)
  ultimately show ?thesis using p g k by (simp add: msgq_inv_def msgq_waiters_def)
qed

definition msgq0 :: k_msgq where
  "msgq0 = \<lparr>msgq_wait_q = 101, msg_size = 4, max_msgs = 3, buffer_start = 2000, buffer_end = 2012,
     read_ptr = 2004, write_ptr = 2000, used_msgs = 2\<rparr>"

lemma msgq0_inv: "msgq_inv cfg0 X0 (msgq0\<lparr>msgq_wait_q := w, used_msgs := n, write_ptr := slot msgq0 (1 + unat n)\<rparr>, h, sys0)"
  if "w = 101 \<or> w = 100 \<and> n = 0" "n \<le> 3"
proof -
  have "ring_ok (msgq0\<lparr>msgq_wait_q := w, used_msgs := n, write_ptr := slot msgq0 (1 + unat n)\<rparr>)"
    using that(2) unfolding ring_ok_def by (auto simp: slot_def msgq0_def intro!: exI[of _ 1])
  then show ?thesis using that(1) sys0_inv by (auto simp: msgq_inv_def msgq_waiters_def sys0_queues)
qed

theorem msgq_put_then_get_witness:
  "\<exists>q1 h1. k_msgq_put cfg0 (msgq0, \<lambda>a. of_nat a, sys0) 3000 K_NO_WAIT = (Some 0, q1, h1, sys0) \<and>
     messages q1 h1 = messages msgq0 of_nat @ [message of_nat 3000 4]"
proof -
  have "msgq_inv cfg0 X0 (msgq0, of_nat, sys0)" using msgq0_inv[of 101 2 of_nat] by (simp add: msgq0_def slot_def)
  moreover have "outside msgq0 3000" "used_msgs msgq0 < max_msgs msgq0" "msg_size msgq0 = 4"
    "msgq_waiters (msgq0, of_nat, sys0) = []"
    by (simp_all add: outside_def msgq0_def msgq_waiters_def sys0_queues)
  ultimately show ?thesis using msgq_put_then_get[of cfg0 X0 msgq0 of_nat sys0 3000 3000 K_NO_WAIT K_NO_WAIT] by auto
qed

text \<open>Purging a message queue empties it and makes every waiting thread return \<^verbatim>\<open>-ENOMSG\<close>, the
  threads that wait to receive from an empty queue included.\<close>

theorem msgq_purge_wakes_all:
  assumes "msgq_inv c X (q, h, k)"
  shows "\<exists>q' k'. k_msgq_purge c (q, h, k) = (q', h, k') \<and> msgq_inv c X (q', h, k') \<and> messages q' h = [] \<and>
    msgq_waiters (q', h, k') = [] \<and>
    (\<forall>t \<in> set (msgq_waiters (q, h, k)). t \<noteq> current k \<longrightarrow> swap_return_value (thread k' t) = - ENOMSG)"
  by (rule msgq_purged[OF assms])

end
