(* ===== verification/Libc_Stdlib.thy ===== *)
theory Libc_Stdlib
  imports Libc_String
begin

text \<open>
  Number conversion of the minimal C library, \<^verbatim>\<open>source/stdlib/strtol.c\<close>, \<^verbatim>\<open>strtoul.c\<close> and \<^verbatim>\<open>atoi.c\<close>, with the character
  tests of \<^verbatim>\<open>include/ctype.h\<close>.  \<^verbatim>\<open>long\<close> has 32 bits.  The accumulator and the character are 32-bit words, so the
  tests by unsigned subtraction wrap as they do in the source.  Results are the value, the end pointer and
  whether \<^verbatim>\<open>errno\<close> is set to \<^verbatim>\<open>ERANGE\<close>.
\<close>

section \<open>Characters\<close>

definition isupper :: "u32 \<Rightarrow> bool" where "isupper a \<longleftrightarrow> a - 65 < 26"

definition isalpha :: "u32 \<Rightarrow> bool" where "isalpha c \<longleftrightarrow> (c OR 32) - 97 < 26"

definition isspace :: "u32 \<Rightarrow> bool" where "isspace c \<longleftrightarrow> c = 32 \<or> c - 9 < 5"

definition isgraph :: "u32 \<Rightarrow> bool" where "isgraph c \<longleftrightarrow> c > 32 \<and> c \<le> 126"

definition isprint :: "u32 \<Rightarrow> bool" where "isprint c \<longleftrightarrow> c \<ge> 32 \<and> c \<le> 126"

definition isdigit :: "u32 \<Rightarrow> bool" where "isdigit a \<longleftrightarrow> a - 48 < 10"

definition isxdigit :: "u32 \<Rightarrow> bool" where "isxdigit a \<longleftrightarrow> a - 48 < 10 \<or> a - 97 < 6 \<or> a - 65 < 6"

definition tolower :: "u32 \<Rightarrow> u32" where "tolower c = (if c \<ge> 65 \<and> c \<le> 90 then c + 32 else c)"

definition toupper :: "u32 \<Rightarrow> u32" where "toupper c = (if c \<ge> 97 \<and> c \<le> 122 then c - 32 else c)"

section \<open>Conversion\<close>

abbreviation char_at :: "bytes \<Rightarrow> addr \<Rightarrow> u32" where "char_at h s \<equiv> ucast (h s)"

text \<open>The first loop: the first character that is not white space, and the address behind it.\<close>

partial_function (option) skip_space :: "bytes \<Rightarrow> addr \<Rightarrow> (u32 \<times> addr) option" where
  "skip_space h s = (if isspace (char_at h s) then skip_space h (s + 1) else Some (char_at h s, s + 1))"

text \<open>Sign and prefix: whether there is a minus sign, the base, the first digit and the address behind it.\<close>

definition sign_and_base :: "bytes \<Rightarrow> u32 \<Rightarrow> addr \<Rightarrow> nat \<Rightarrow> bool \<times> nat \<times> u32 \<times> addr" where
  "sign_and_base h c s base =
     (let (neg, c, s) = (if c = 45 then (True, char_at h s, s + 1) else if c = 43 then (False, char_at h s, s + 1) else (False, c, s));
          (base, c, s) = (if (base = 0 \<or> base = 16) \<and> c = 48 \<and> (h s = 120 \<or> h s = 88)
                          then (16, char_at h (s + 1), s + 2) else (base, c, s));
          base = (if base = 0 then if c = 48 then 8 else 10 else base)
      in (neg, base, c, s))"

definition digit_value :: "u32 \<Rightarrow> u32 option" where
  "digit_value c =
     (if isdigit c then Some (c - 48)
      else if isalpha c then Some (c - (if isupper c then 65 - 10 else 97 - 10)) else None)"

text \<open>The conversion loop.\<close>

partial_function (option) digits_loop ::
  "bytes \<Rightarrow> nat \<Rightarrow> u32 \<Rightarrow> u32 \<Rightarrow> u32 \<Rightarrow> addr \<Rightarrow> u32 \<Rightarrow> int \<Rightarrow> (u32 \<times> int \<times> addr) option" where
  "digits_loop h base cutoff cutlim c s acc any =
     (case digit_value c of
        None \<Rightarrow> Some (acc, any, s)
      | Some d \<Rightarrow>
          if unat d \<ge> base then Some (acc, any, s)
          else if any < 0 \<or> acc > cutoff \<or> (acc = cutoff \<and> d > cutlim)
          then digits_loop h base cutoff cutlim (char_at h s) (s + 1) acc (-1)
          else digits_loop h base cutoff cutlim (char_at h s) (s + 1) (acc * of_nat base + d) 1)"

definition strtol :: "bytes \<Rightarrow> addr \<Rightarrow> nat \<Rightarrow> (u32 \<times> addr \<times> bool) option" where
  "strtol h nptr base =
     Option.bind (skip_space h nptr) (\<lambda>(c, s).
       let (neg, base, c, s) = sign_and_base h c s base;
           cutoff = (if neg then 0x80000000 else 0x7FFFFFFF);
           cutlim = cutoff mod of_nat base
       in Option.bind (digits_loop h base (cutoff div of_nat base) cutlim c s 0 0) (\<lambda>(acc, any, s).
            let acc' = (if any < 0 then if neg then 0x80000000 else 0x7FFFFFFF else if neg then - acc else acc)
            in Some (acc', if any \<noteq> 0 then s - 1 else nptr, any < 0)))"

definition strtoul :: "bytes \<Rightarrow> addr \<Rightarrow> nat \<Rightarrow> (u32 \<times> addr \<times> bool) option" where
  "strtoul h nptr base =
     Option.bind (skip_space h nptr) (\<lambda>(c, s).
       let (neg, base, c, s) = sign_and_base h c s base;
           cutoff = 0xFFFFFFFF div of_nat base;
           cutlim = 0xFFFFFFFF mod of_nat base
       in Option.bind (digits_loop h base cutoff cutlim c s 0 0) (\<lambda>(acc, any, s).
            let acc' = (if any < 0 then 0xFFFFFFFF else if neg then - acc else acc)
            in Some (acc', if any \<noteq> 0 then s - 1 else nptr, any < 0)))"

text \<open>\<^verbatim>\<open>atoi\<close> accumulates the negative of the number; signed arithmetic of the processor wraps.\<close>

partial_function (option) atoi_skip :: "bytes \<Rightarrow> addr \<Rightarrow> addr option" where
  "atoi_skip h s = (if isspace (char_at h s) then atoi_skip h (s + 1) else Some s)"

partial_function (option) atoi_loop :: "bytes \<Rightarrow> addr \<Rightarrow> u32 \<Rightarrow> u32 option" where
  "atoi_loop h s n = (if isdigit (char_at h s) then atoi_loop h (s + 1) (10 * n - (char_at h s - 48)) else Some n)"

definition atoi :: "bytes \<Rightarrow> addr \<Rightarrow> u32 option" where
  "atoi h s =
     Option.bind (atoi_skip h s) (\<lambda>s.
       let (neg, s) = (if h s = 45 then (True, s + 1) else if h s = 43 then (False, s + 1) else (False, s))
       in map_option (\<lambda>n. if neg then n else - n) (atoi_loop h s 0))"

section \<open>The number a string of digits stands for\<close>

definition digits_value :: "nat \<Rightarrow> nat list \<Rightarrow> nat" where
  "digits_value b ds = foldl (\<lambda>a d. a * b + d) 0 ds"

text \<open>The value of a character as a digit, and the white space, by the codes of ASCII.\<close>

definition digit_of :: "u8 \<Rightarrow> nat option" where
  "digit_of x =
     (let n = unat x
      in if 48 \<le> n \<and> n \<le> 57 then Some (n - 48) else if 65 \<le> n \<and> n \<le> 90 then Some (n - 65 + 10)
         else if 97 \<le> n \<and> n \<le> 122 then Some (n - 97 + 10) else None)"

definition white :: "u8 \<Rightarrow> bool" where
  "white x \<longleftrightarrow> x = 32 \<or> 9 \<le> x \<and> x \<le> 13"

text \<open>The digits of a base in memory, ended by a character that is not one.\<close>

fun digits_at :: "bytes \<Rightarrow> nat \<Rightarrow> addr \<Rightarrow> nat list \<Rightarrow> bool" where
  "digits_at h b s [] \<longleftrightarrow> (case digit_of (h s) of None \<Rightarrow> True | Some d \<Rightarrow> d \<ge> b)"
| "digits_at h b s (d # ds) \<longleftrightarrow> digit_of (h s) = Some d \<and> d < b \<and> digits_at h b (s + 1) ds"

text \<open>The tests by unsigned subtraction agree with them on every character.\<close>

lemma every_u8: "\<forall>i \<in> set [0..<256]. P (of_nat i) \<Longrightarrow> P x" for x :: u8
  using unsigned_less[where ?'a = nat, of x] by (auto dest: bspec[where x = "unat x"])

lemma isspace_white: "isspace (ucast x) \<longleftrightarrow> white x"
  by (rule every_u8[of "\<lambda>x. isspace (ucast x) \<longleftrightarrow> white x"]) code_simp

lemma digit_value_char: "digit_value (ucast x) = map_option of_nat (digit_of x)"
  by (rule every_u8[of "\<lambda>x. digit_value (ucast x) = map_option of_nat (digit_of x)"]) code_simp

lemma digit_of_small: "digit_of x = Some d \<Longrightarrow> d < 36"
  by (auto simp: digit_of_def Let_def split: if_splits)

lemma digits_at_value:
  "digits_at h b s [] \<longleftrightarrow> (case digit_value (char_at h s) of None \<Rightarrow> True | Some d \<Rightarrow> unat d \<ge> b)"
  "digits_at h b s (d # ds) \<longleftrightarrow> (\<exists>w. digit_value (char_at h s) = Some w \<and> unat w = d \<and> d < b) \<and> digits_at h b (s + 1) ds"
  using digit_of_small[of "h s"] by (auto simp: digit_value_char unat_of_nat split: option.splits)

declare digits_at.simps [simp del] digits_at_value [simp]

text \<open>The test of the source against the cut-off is the test of the next value against the limit.\<close>

lemma cutoff_test:
  fixes v d b m :: nat
  assumes "d < b"
  shows "v * b + d > m \<longleftrightarrow> v > m div b \<or> (v = m div b \<and> d > m mod b)"
proof -
  define q r where "q = m div b" and "r = m mod b"
  have m: "m = q * b + r" "r < b" using assms by (simp_all add: q_def r_def)
  consider "v < q" | "v = q" | "v > q" by linarith
  then have "v * b + d > m \<longleftrightarrow> v > q \<or> (v = q \<and> d > r)"
  proof cases
    case 1
    then have "(v + 1) * b \<le> q * b" by (intro mult_right_mono) auto
    then have "v * b + b \<le> q * b" by simp
    then show ?thesis using 1 m assms by linarith
  next
    case 2
    then show ?thesis using m by simp
  next
    case 3
    then have "(q + 1) * b \<le> v * b" by (intro mult_right_mono) auto
    then have "q * b + b \<le> v * b" by simp
    then show ?thesis using 3 m by linarith
  qed
  then show ?thesis by (simp add: q_def r_def)
qed

lemma foldl_digits_ge: "0 < b \<Longrightarrow> v \<le> foldl (\<lambda>a d. a * b + d) v ds" for v b :: nat
proof (induction ds arbitrary: v)
  case (Cons d ds)
  have "v \<le> v * b + d" using Cons.prems by (simp add: trans_le_add1)
  also have "\<dots> \<le> foldl (\<lambda>a d. a * b + d) (v * b + d) ds" using Cons by blast
  finally show ?case by simp
qed simp

lemma digits_loop_over:
  "digits_at h b s ds \<Longrightarrow> digits_loop h b cutoff cutlim (char_at h s) (s + 1) acc (-1) = Some (acc, -1, s + 1 + length ds)"
proof (induction ds arbitrary: s)
  case Nil
  then show ?case by (subst digits_loop.simps) (auto split: option.splits)
next
  case (Cons d ds)
  then show ?case by (subst digits_loop.simps) auto
qed

lemma unat_acc: "v < 2 ^ 32 \<Longrightarrow> unat (of_nat v :: u32) = v" by (simp add: unat_of_nat)

lemma digits_loop_value:
  assumes "digits_at h b s ds" "v \<le> L" "L < 2 ^ 32" "1 < b" "b \<le> 36" "0 \<le> any"
  shows "\<exists>acc. digits_loop h b (of_nat (L div b)) (of_nat (L mod b)) (char_at h s) (s + 1) (of_nat v) any =
    Some (acc, if foldl (\<lambda>a d. a * b + d) v ds \<le> L then if ds = [] then any else 1 else -1, s + 1 + length ds) \<and>
    (foldl (\<lambda>a d. a * b + d) v ds \<le> L \<longrightarrow> acc = of_nat (foldl (\<lambda>a d. a * b + d) v ds))"
  using assms
proof (induction ds arbitrary: s v any)
  case Nil
  then show ?case by (subst digits_loop.simps) (auto split: option.splits)
next
  case (Cons d ds)
  obtain w where w: "digit_value (char_at h s) = Some w" "unat w = d" "d < b" and ds: "digits_at h b (s + 1) ds"
    using Cons.prems(1) by auto
  have "L mod b < b" "36 < (2 :: nat) ^ 32" using Cons.prems(4) by simp_all
  then have lt: "L div b < 2 ^ 32" "L mod b < 2 ^ 32" "v < 2 ^ 32"
    using Cons.prems(2,3,5) div_le_dividend[of L b] by linarith+
  have test: "of_nat v > (of_nat (L div b) :: u32) \<or> (of_nat v = (of_nat (L div b) :: u32) \<and> w > of_nat (L mod b)) \<longleftrightarrow> v * b + d > L"
    using cutoff_test[OF w(3), of L v] w(2) lt by (auto simp: word_less_nat_alt unat_acc word_unat_eq_iff)
  show ?case
  proof (cases "v * b + d \<le> L")
    case True
    have "of_nat v * of_nat b + w = (of_nat (v * b + d) :: u32)" using w(2) by (simp add: word_unat_eq_iff flip: w(2))
    then have "digits_loop h b (of_nat (L div b)) (of_nat (L mod b)) (char_at h s) (s + 1) (of_nat v) any =
        digits_loop h b (of_nat (L div b)) (of_nat (L mod b)) (char_at h (s + 1)) (s + 1 + 1) (of_nat (v * b + d)) 1"
      using True test w Cons.prems(6) by (subst digits_loop.simps) (auto simp del: of_nat_add of_nat_mult)
    then show ?thesis using Cons.IH[OF ds True Cons.prems(3-5), of 1] by (auto simp del: of_nat_add of_nat_mult)
  next
    case False
    then have "digits_loop h b (of_nat (L div b)) (of_nat (L mod b)) (char_at h s) (s + 1) (of_nat v) any =
        digits_loop h b (of_nat (L div b)) (of_nat (L mod b)) (char_at h (s + 1)) (s + 1 + 1) (of_nat v) (-1)"
      using test w by (subst digits_loop.simps) auto
    moreover have "\<not> foldl (\<lambda>a d. a * b + d) (v * b + d) ds \<le> L"
      using False foldl_digits_ge[of b "v * b + d" ds] Cons.prems(4) by linarith
    ultimately show ?thesis using digits_loop_over[OF ds] by simp
  qed
qed

section \<open>Numbers in memory\<close>

text \<open>\<open>n\<close> white-space characters at \<open>p\<close>, an optional sign, and at \<open>q\<close> the digits, not with a prefix for base 16.\<close>

definition number_at :: "bytes \<Rightarrow> addr \<Rightarrow> nat \<Rightarrow> nat \<Rightarrow> bool \<Rightarrow> addr \<Rightarrow> nat list \<Rightarrow> bool" where
  "number_at h p n b neg q ds \<longleftrightarrow> (\<forall>i < n. white (h (p + i))) \<and>
     (h (p + n) = 45 \<and> neg \<and> q = p + n + 1 \<or> h (p + n) = 43 \<and> \<not> neg \<and> q = p + n + 1 \<or> \<not> neg \<and> q = p + n) \<and>
     ds \<noteq> [] \<and> digits_at h b q ds \<and> (b = 16 \<longrightarrow> \<not> (h q = 48 \<and> (h (q + 1) = 120 \<or> h (q + 1) = 88)))"

lemma skip_space_eq:
  "\<forall>i < n. isspace (char_at h (p + i)) \<Longrightarrow> \<not> isspace (char_at h (p + n)) \<Longrightarrow>
     skip_space h p = Some (char_at h (p + n), p + n + 1)"
proof (induction n arbitrary: p)
  case 0
  then show ?case by (subst skip_space.simps) simp
next
  case (Suc n)
  have "isspace (char_at h p)" using Suc.prems(1) by force
  moreover have "\<forall>i < n. isspace (char_at h (p + 1 + i))" using Suc.prems(1) by force
  ultimately show ?case using Suc.IH[of "p + 1"] Suc.prems(2) by (subst skip_space.simps) simp
qed

lemma char_codes: "isspace 45 = False" "isspace 43 = False" "digit_value 45 = None" "digit_value 43 = None"
  by (simp_all add: isspace_def digit_value_def isdigit_def isalpha_def)

lemma space_no_digit: "isspace c \<Longrightarrow> digit_value c = None"
proof -
  assume "isspace c"
  moreover have "c \<in> {9, 10, 11, 12, 13}" if "c - 9 < 5"
  proof -
    have "unat (c - 9) \<in> {0, 1, 2, 3, 4}" using that by (auto simp: word_less_nat_alt)
    then have "c - 9 \<in> {0, 1, 2, 3, 4}" by (auto simp: word_unat_eq_iff)
    then show ?thesis by (auto simp: diff_eq_eq)
  qed
  ultimately have "c \<in> {9, 10, 11, 12, 13, 32}" by (auto simp: isspace_def)
  then show ?thesis by (auto simp: digit_value_def isdigit_def isalpha_def)
qed

lemma uint_char: "uint (ucast (x :: u8) :: u32) = uint x"
proof -
  have "uint x < 2 ^ 8" using uint_bounded[of x] by simp
  then show ?thesis by (simp add: unsigned_ucast_eq take_bit_int_eq_self)
qed

lemma number_parts:
  assumes "number_at h p n b neg q ds" "1 < b"
  shows "skip_space h p = Some (char_at h (p + n), p + n + 1)"
    "sign_and_base h (char_at h (p + n)) (p + n + 1) b = (neg, b, char_at h q, q + 1)"
proof -
  have dq: "digit_value (char_at h q) \<noteq> None" using assms by (cases ds) (auto simp: number_at_def isspace_white)
  then have nq: "\<not> isspace (char_at h q)" "h q \<noteq> 45" "h q \<noteq> 43" using space_no_digit char_codes by auto
  then have "\<not> isspace (char_at h (p + n))" using assms(1) char_codes by (auto simp: number_at_def)
  then show "skip_space h p = Some (char_at h (p + n), p + n + 1)"
    using assms(1) by (intro skip_space_eq) (auto simp: number_at_def isspace_white)
  have z: "char_at h x = 48 \<longleftrightarrow> h x = 48" "char_at h x = 45 \<longleftrightarrow> h x = 45" "char_at h x = 43 \<longleftrightarrow> h x = 43" for x
    by (auto simp: word_uint_eq_iff uint_char)
  show "sign_and_base h (char_at h (p + n)) (p + n + 1) b = (neg, b, char_at h q, q + 1)"
    using assms nq unfolding number_at_def sign_and_base_def Let_def by (auto simp: z)
qed

lemma number_loop:
  assumes "number_at h p n b neg q ds" "1 < b" "b \<le> 36" "L < 2 ^ 32"
  shows "\<exists>acc. digits_loop h b (of_nat L div of_nat b) (of_nat L mod of_nat b) (char_at h q) (q + 1) 0 0 =
      Some (acc, if digits_value b ds \<le> L then 1 else -1, q + 1 + length ds) \<and>
    (digits_value b ds \<le> L \<longrightarrow> acc = of_nat (digits_value b ds))"
proof -
  have "unat (of_nat L :: u32) = L" "unat (of_nat b :: u32) = b" using assms by (simp_all add: unat_of_nat)
  moreover have "L div b < 2 ^ 32" "L mod b < 2 ^ 32"
    using assms(4) div_le_dividend[of L b] mod_less_eq_dividend[of L b] by linarith+
  ultimately have e: "of_nat L div of_nat b = (of_nat (L div b) :: u32)" "of_nat L mod of_nat b = (of_nat (L mod b) :: u32)"
    using assms by (simp_all add: word_unat_eq_iff unat_div_distrib unat_mod_distrib unat_of_nat)
  have "digits_at h b q ds" "ds \<noteq> []" using assms(1) by (simp_all add: number_at_def)
  then show ?thesis using digits_loop_value[of h b q ds 0 L 0] assms(2-4) unfolding e digits_value_def by auto
qed

lemma sint_small: "- (2 ^ 31) \<le> x \<Longrightarrow> x < 2 ^ 31 \<Longrightarrow> sint (of_int x :: u32) = x"
  by (simp add: signed_of_int signed_take_bit_int_eq_self)

lemma strtol_number:
  assumes num: "number_at h p n b neg q ds" "1 < b" "b \<le> 36"
  defines "V \<equiv> int (digits_value b ds)" and "M \<equiv> if neg then 2 ^ 31 else 2 ^ 31 - 1"
  shows "\<exists>w. strtol h p b = Some (w, q + length ds, V > M) \<and> sint w = (if neg then - min V M else min V M)"
proof -
  define L :: nat where "L = (if neg then 2 ^ 31 else 2 ^ 31 - 1)"
  have L: "L < 2 ^ 32" "of_nat L = (if neg then 0x80000000 else 0x7FFFFFFF :: u32)" "int L = M" by (simp_all add: L_def M_def)
  obtain acc where a: "digits_loop h b (of_nat L div of_nat b) (of_nat L mod of_nat b) (char_at h q) (q + 1) 0 0 =
      Some (acc, if digits_value b ds \<le> L then 1 else -1, q + 1 + length ds)" "digits_value b ds \<le> L \<Longrightarrow> acc = of_nat (digits_value b ds)"
    using number_loop[OF num L(1)] by blast
  have V: "digits_value b ds \<le> L \<longleftrightarrow> V \<le> M" by (simp add: V_def flip: L(3))
  let ?w = "if V \<le> M then if neg then - acc else acc else if neg then 0x80000000 else 0x7FFFFFFF"
  have "strtol h p b = Some (?w, q + length ds, V > M)"
    using a(1) number_parts(2)[OF num(1,2)] unfolding L(2) V by (simp add: strtol_def number_parts(1)[OF num(1,2)] Let_def)
  moreover have "sint ?w = (if neg then - min V M else min V M)"
  proof (cases "V \<le> M")
    case True
    then have acc: "acc = of_int V" using a(2) V by (simp add: V_def)
    have "0 \<le> V" by (simp add: V_def)
    then show ?thesis using True unfolding acc M_def
      by (cases neg) (simp_all add: sint_small flip: of_int_minus)
  qed (auto simp: M_def min_def)
  ultimately show ?thesis by blast
qed

lemma strtoul_number:
  assumes num: "number_at h p n b neg q ds" "1 < b" "b \<le> 36"
  defines "V \<equiv> digits_value b ds"
  shows "strtoul h p b = Some (if V < 2 ^ 32 then if neg then - of_nat V else of_nat V else -1, q + length ds, V \<ge> 2 ^ 32)"
proof -
  define L :: nat where "L = 2 ^ 32 - 1"
  have L: "L < 2 ^ 32" "of_nat L = (0xFFFFFFFF :: u32)" "V \<le> L \<longleftrightarrow> V < 2 ^ 32" by (auto simp: L_def)
  obtain acc where a: "digits_loop h b (of_nat L div of_nat b) (of_nat L mod of_nat b) (char_at h q) (q + 1) 0 0 =
      Some (acc, if V \<le> L then 1 else -1, q + 1 + length ds)" "V \<le> L \<Longrightarrow> acc = of_nat V"
    using number_loop[OF num L(1)] unfolding V_def by blast
  have "strtoul h p b = Some (if V \<le> L then if neg then - acc else acc else 0xFFFFFFFF, q + length ds, \<not> V \<le> L)"
    using a(1) number_parts(2)[OF num(1,2)] unfolding L(2) by (simp add: strtoul_def number_parts(1)[OF num(1,2)] Let_def)
  then show ?thesis using a(2) L(3) by (auto simp: not_le not_less)
qed

lemma isdigit_value: "isdigit c \<Longrightarrow> digit_value c = Some (c - 48) \<and> unat (c - 48) < 10"
  by (simp add: digit_value_def isdigit_def word_less_nat_alt)

lemma or_32: "c OR 32 = (if bit c 5 then c else c + 32)" for c :: u32
proof -
  have b: "bit (32 :: u32) n \<longleftrightarrow> n = 5" for n using bit_exp_iff[of 5 n, where 'a = u32] by auto
  show ?thesis
  proof (cases "bit c 5")
    case True
    then show ?thesis by (intro bit_word_eqI) (auto simp only: bit_or_iff b if_True)
  next
    case False
    have "c + 32 = c OR 32" by (rule disjunctive_add) (use False b in metis)
    then show ?thesis using False by (simp only: if_False)
  qed
qed

lemma value_isdigit:
  assumes "digit_value c = Some w"
  shows "unat w < 10 \<longleftrightarrow> isdigit c"
proof (cases "isdigit c")
  case False
  then have al: "isalpha c" "w = c - (if isupper c then 55 else 87)" using assms by (auto simp: digit_value_def split: if_splits)
  define k where "k = (if isupper c then c - 65 else c - 97)"
  have "k < 26"
  proof (cases "isupper c")
    case False
    then have "c OR 32 = c" using al(1) unfolding or_32 by (auto simp: isalpha_def isupper_def or_32 algebra_simps split: if_splits)
    then show ?thesis using al(1) False by (simp add: k_def isalpha_def)
  qed (simp add: k_def isupper_def)
  moreover have "w = k + 10" by (simp add: al(2) k_def)
  ultimately have "unat w = unat k + 10" by (simp add: word_less_nat_alt unat_word_ariths(1))
  then show ?thesis using False by simp
qed (use assms isdigit_value[of c] in auto)

lemma atoi_loop_value:
  "digits_at h 10 s ds \<Longrightarrow> atoi_loop h s n = Some (foldl (\<lambda>a d. 10 * a - of_nat d) n ds)"
proof (induction ds arbitrary: s n)
  case Nil
  then have "\<not> isdigit (char_at h s)" using isdigit_value[of "char_at h s"] by auto
  then show ?case by (subst atoi_loop.simps) simp
next
  case (Cons d ds)
  obtain w where w: "digit_value (char_at h s) = Some w" "unat w = d" "d < 10" "digits_at h 10 (s + 1) ds"
    using Cons.prems by auto
  have dg: "isdigit (char_at h s)" using value_isdigit[OF w(1)] w(2,3) by simp
  then have "char_at h s - 48 = of_nat d" using isdigit_value[OF dg] w(1,2) by auto
  then show ?case using Cons.IH[OF w(4)] dg by (subst atoi_loop.simps) simp
qed

lemma atoi_skip_eq:
  "\<forall>i < n. isspace (char_at h (p + i)) \<Longrightarrow> \<not> isspace (char_at h (p + n)) \<Longrightarrow> atoi_skip h p = Some (p + n)"
proof (induction n arbitrary: p)
  case 0
  then show ?case by (subst atoi_skip.simps) simp
next
  case (Suc n)
  have "isspace (char_at h p)" using Suc.prems(1) by force
  moreover have "\<forall>i < n. isspace (char_at h (p + 1 + i))" using Suc.prems(1) by force
  ultimately show ?case using Suc.IH[of "p + 1"] Suc.prems(2) by (subst atoi_skip.simps) simp
qed

lemma foldl_negative:
  "foldl (\<lambda>a d. 10 * a - of_nat d) (- of_nat v) ds = (- of_nat (foldl (\<lambda>a d. a * 10 + d) v ds) :: u32)"
proof (induction ds arbitrary: v)
  case (Cons d ds)
  have "10 * (- of_nat v) - of_nat d = (- of_nat (v * 10 + d) :: u32)" by (simp add: algebra_simps)
  then show ?case unfolding foldl_Cons Cons.IH[symmetric] by (simp add: mult.commute)
qed simp

lemma atoi_number:
  assumes num: "number_at h p n 10 neg q ds"
  shows "atoi h p = Some (if neg then - of_nat (digits_value 10 ds) else of_nat (digits_value 10 ds))"
proof -
  have dq: "digit_value (char_at h q) \<noteq> None" using num by (cases ds) (auto simp: number_at_def isspace_white)
  then have nq: "\<not> isspace (char_at h q)" "h q \<noteq> 45" "h q \<noteq> 43" using space_no_digit char_codes by auto
  then have "\<not> isspace (char_at h (p + n))" using num char_codes by (auto simp: number_at_def)
  then have sk: "atoi_skip h p = Some (p + n)" using num by (intro atoi_skip_eq) (auto simp: number_at_def isspace_white)
  have "atoi_loop h q 0 = Some (- of_nat (digits_value 10 ds))"
    using atoi_loop_value[of h q ds 0] foldl_negative[of 0 ds] num by (simp add: number_at_def digits_value_def)
  then show ?thesis using num nq by (auto simp: atoi_def sk number_at_def Let_def)
qed

end
