(* ===== verification/Libc_Search.thy ===== *)
theory Libc_Search
  imports Libc_Stdlib "HOL-Library.Sublist"
begin

text \<open>
  Searching and comparing text in the minimal C library, \<^verbatim>\<open>source/string/strstr.c\<close> and \<^verbatim>\<open>strncasecmp.c\<close>.
\<close>

section \<open>Operations\<close>

text \<open>The two nested loops of \<^verbatim>\<open>strstr\<close> as one: both go on with the next character.\<close>

partial_function (option) strstr_loop :: "bytes \<Rightarrow> addr \<Rightarrow> u8 \<Rightarrow> addr \<Rightarrow> nat \<Rightarrow> addr option" where
  "strstr_loop h s c needle len =
     (if h s = 0 then Some NULL
      else if h s \<noteq> c \<or> strncmp h (s + 1) needle len \<noteq> 0 then strstr_loop h (s + 1) c needle len
      else Some s)"

definition strstr :: "bytes \<Rightarrow> addr \<Rightarrow> addr \<Rightarrow> addr option" where
  "strstr h s needle =
     (if h needle \<noteq> 0 then Option.bind (strlen h (needle + 1)) (strstr_loop h s (h needle) (needle + 1)) else Some s)"

definition charmap :: "u8 list" where
  "charmap = [
   0, 1, 2, 3, 4, 5, 6, 7, 8, 9, 10, 11, 12, 13, 14, 15,
   16, 17, 18, 19, 20, 21, 22, 23, 24, 25, 26, 27, 28, 29, 30, 31,
   32, 33, 34, 35, 36, 37, 38, 39, 40, 41, 42, 43, 44, 45, 46, 47,
   48, 49, 50, 51, 52, 53, 54, 55, 56, 57, 58, 59, 60, 61, 62, 63,
   64, 97, 98, 99, 100, 101, 102, 103, 104, 105, 106, 107, 108, 109, 110, 111,
   112, 113, 114, 115, 116, 117, 118, 119, 120, 121, 122, 91, 92, 93, 94, 95,
   96, 97, 98, 99, 100, 101, 102, 103, 104, 105, 106, 107, 108, 109, 110, 111,
   112, 113, 114, 115, 116, 117, 118, 119, 120, 121, 122, 123, 124, 125, 126, 127,
   128, 129, 130, 131, 132, 133, 134, 135, 136, 137, 138, 139, 140, 141, 142, 143,
   144, 145, 146, 147, 148, 149, 150, 151, 152, 153, 154, 155, 156, 157, 158, 159,
   160, 161, 162, 163, 164, 165, 166, 167, 168, 169, 170, 171, 172, 173, 174, 175,
   176, 177, 178, 179, 180, 181, 182, 183, 184, 185, 186, 187, 188, 189, 190, 191,
   192, 225, 226, 227, 228, 229, 230, 231, 232, 233, 234, 235, 236, 237, 238, 239,
   240, 241, 242, 243, 244, 245, 246, 247, 248, 249, 250, 219, 220, 221, 222, 223,
   224, 225, 226, 227, 228, 229, 230, 231, 232, 233, 234, 235, 236, 237, 238, 239,
   240, 241, 242, 243, 244, 245, 246, 247, 248, 249, 250, 251, 252, 253, 254, 255
]"

fun strncasecmp :: "bytes \<Rightarrow> addr \<Rightarrow> addr \<Rightarrow> nat \<Rightarrow> int" where
  "strncasecmp h s1 s2 0 = 0"
| "strncasecmp h s1 s2 (Suc n) =
     (let u1 = h s1; u2 = h s2
      in if charmap ! unat u1 \<noteq> charmap ! unat u2 then uint (charmap ! unat u1) - uint (charmap ! unat u2)
         else if u1 = 0 then 0 else strncasecmp h (s1 + 1) (s2 + 1) n)"

section \<open>Searching\<close>

lemma strncmp_prefix: "cstr h s xs \<Longrightarrow> cstr h t ys \<Longrightarrow> strncmp h s t (length ys) = 0 \<longleftrightarrow> prefix ys xs"
proof (induction ys arbitrary: s t xs)
  case Nil
  then show ?case by (subst strncmp.simps) simp
next
  case (Cons y ys)
  show ?case
  proof (cases xs)
    case Nil
    then show ?thesis using Cons.prems u8_diff(2)[of 0 y] by (subst strncmp.simps) auto
  next
    case (Cons x zs)
    then show ?thesis
      using Cons.prems Cons.IH[of "s + 1" zs "t + 1"] u8_diff(2)[of x y] by (subst strncmp.simps) auto
  qed
qed

lemma least_prefix_drop:
  assumes "sublist ys xs" "\<not> prefix ys (x # xs)"
  shows "(LEAST i. prefix ys (drop i (x # xs))) = Suc (LEAST i. prefix ys (drop i xs))"
proof -
  obtain ps ss where "xs = ps @ ys @ ss" using assms(1) by (auto simp: sublist_def)
  then have "prefix ys (drop (Suc (length ps)) (x # xs))" by simp
  from Least_Suc[of "\<lambda>i. prefix ys (drop i (x # xs))", OF this] assms(2) show ?thesis by simp
qed

lemma strstr_loop_eq:
  assumes "cstr h s xs" "cstr h t zs" "y \<noteq> 0"
  shows "strstr_loop h s y t (length zs) =
    Some (if sublist (y # zs) xs then s + (LEAST i. prefix (y # zs) (drop i xs)) else NULL)"
  using assms(1)
proof (induction xs arbitrary: s)
  case Nil
  then show ?case by (subst strstr_loop.simps) simp
next
  case (Cons x xs)
  have p: "prefix (y # zs) (x # xs) \<longleftrightarrow> x = y \<and> strncmp h (s + 1) t (length zs) = 0"
    using strncmp_prefix[of h "s + 1" xs t zs] Cons.prems assms(2) by auto
  show ?case
  proof (cases "prefix (y # zs) (x # xs)")
    case True
    then have "(LEAST i. prefix (y # zs) (drop i (x # xs))) = 0" by (intro Least_eq_0) simp
    then show ?thesis using True p Cons.prems by (subst strstr_loop.simps) (simp add: sublist_Cons_right)
  next
    case False
    then have "strstr_loop h s y t (length zs) = strstr_loop h (s + 1) y t (length zs)"
      using p Cons.prems by (subst strstr_loop.simps) auto
    moreover have "sublist (y # zs) (x # xs) \<longleftrightarrow> sublist (y # zs) xs" using False by (auto simp: sublist_Cons_right)
    ultimately show ?thesis
      using Cons.IH[of "s + 1"] Cons.prems least_prefix_drop[OF _ False] by (cases "sublist (y # zs) xs") auto
  qed
qed

text \<open>\<^verbatim>\<open>strstr\<close> returns, and its result is the first position at which the needle occurs.\<close>

lemma strstr_eq:
  assumes "cstr h s xs" "cstr h t ys"
  shows "strstr h s t = Some (if sublist ys xs then s + (LEAST i. prefix ys (drop i xs)) else NULL)"
proof (cases ys)
  case Nil
  have "(LEAST i. prefix [] (drop i xs)) = 0" by (intro Least_eq_0) simp
  then show ?thesis using Nil assms(2) by (simp add: strstr_def)
next
  case (Cons y zs)
  then show ?thesis using assms strlen_eq[of h "t + 1" zs] strstr_loop_eq[of h s xs "t + 1" zs y] by (simp add: strstr_def)
qed

section \<open>Comparing without case\<close>

definition fold_case :: "u8 \<Rightarrow> u8" where
  "fold_case u = (if 65 \<le> u \<and> u \<le> 90 \<or> 193 \<le> u \<and> u \<le> 218 then u + 32 else u)"

lemma charmap_eq: "charmap = map (\<lambda>i. fold_case (of_nat i)) [0..<256]"
  by code_simp

lemma charmap_nth: "charmap ! unat u = fold_case u" for u :: u8
  using unsigned_less[where ?'a = nat, of u] by (simp add: charmap_eq)

lemma fold_case_zero [simp]: "fold_case u = 0 \<longleftrightarrow> u = 0"
  by (rule every_u8[of "\<lambda>u. fold_case u = 0 \<longleftrightarrow> u = 0"]) code_simp

text \<open>Comparing without case is comparing what the table makes of the two strings.\<close>

lemma strncasecmp_strncmp: "strncasecmp h s t n = strncmp (\<lambda>a. fold_case (h a)) s t n"
proof (induction n arbitrary: s t)
  case (Suc n)
  then show ?case by (subst strncmp.simps) (auto simp: Let_def charmap_nth)
qed (simp add: strncmp.simps)

lemma cstr_fold_case: "cstr h s xs \<Longrightarrow> cstr (\<lambda>a. fold_case (h a)) s (map fold_case xs)"
  by (simp add: cstr_iff)

lemma strncmp_whole: "cstr h s xs \<Longrightarrow> cstr h t ys \<Longrightarrow> length ys < n \<Longrightarrow> strncmp h s t n = 0 \<longleftrightarrow> xs = ys"
proof (induction ys arbitrary: s t xs n)
  case Nil
  then show ?case using u8_diff(2)[of "h s" 0] by (subst strncmp.simps, cases xs) auto
next
  case (Cons y ys)
  then show ?case using u8_diff(2)[of "h s" y] Cons.IH[of "s + 1" "tl xs" "t + 1" "n - 1"]
    by (subst strncmp.simps, cases xs) auto
qed

lemma strncasecmp_zero:
  assumes "cstr h s xs" "cstr h t ys" "length ys < n"
  shows "strncasecmp h s t n = 0 \<longleftrightarrow> map fold_case xs = map fold_case ys"
  using strncmp_whole[OF cstr_fold_case cstr_fold_case, OF assms(1,2)] assms(3) by (simp add: strncasecmp_strncmp)

end
