(* ===== verification/Library_Properties.thy ===== *)
theory Library_Properties
  imports Sys_Dlist Sys_Slist Libc_Search
begin

text \<open>
  What the libraries under the kernel guarantee: the intrusive lists on pointers, and the memory,
  string and number functions of the minimal C library.
\<close>

section \<open>Lists\<close>




text \<open>Property C36: \<^verbatim>\<open>sys_slist_merge_slist\<close> re-initialises the wrong list: the list it extends ends up empty, and
  the list whose nodes have moved still names them.\<close>

theorem slist_merge_loses_list:
  "slist (fst (sys_slist_merge_slist h l l2)) (fst (snd (sys_slist_merge_slist h l l2))) [] \<and>
   snd (snd (sys_slist_merge_slist h l l2)) = l2"
  using merge_slist_result by blast

section \<open>Memory\<close>

text \<open>Property C38: \<^verbatim>\<open>memcpy\<close>, which copies word by word where both areas have the same alignment, and
  \<^verbatim>\<open>memset\<close>, which fills word by word, do to disjoint areas exactly what copying and filling byte by
  byte does, and touch no other byte; \<^verbatim>\<open>memmove\<close> copies areas that may overlap in either direction as if
  the source were read before the destination is written.\<close>

theorem memory_functions_bytewise:
  assumes "d + n \<le> 2 ^ 32" "s + n \<le> 2 ^ 32"
  shows "(disjoint_areas d s n \<longrightarrow> memcpy h d s n a = (if d \<le> a \<and> a < d + n then h (s + (a - d)) else h a)) \<and>
    memset h d c n a = (if d \<le> a \<and> a < d + n then ucast c else h a) \<and>
    memmove h d s n a = (if d \<le> a \<and> a < d + n then h (s + (a - d)) else h a)"
  by (simp add: memcpy_copied copied_def memset_filled filled_def memmove_copied[OF assms])

theorem memory_functions_bytewise_witness:
  "memcpy (\<lambda>a. of_nat a) 1002 2006 9 1005 = 2009 \<and> memset (\<lambda>a. of_nat a) 1002 7 9 1010 = 7 \<and>
   memcpy (\<lambda>a. of_nat a) 1002 2006 9 1011 = of_nat 1011 \<and> memmove (\<lambda>a. of_nat a) 1002 1000 9 1008 = of_nat 1006 \<and>
   memmove (\<lambda>a. of_nat a) 1000 1002 9 1008 = of_nat 1010"
  using memory_functions_bytewise[of 1002 9 2006 "\<lambda>a. of_nat a" 1005 7] memory_functions_bytewise[of 1002 9 2006 "\<lambda>a. of_nat a" 1010 7]
    memory_functions_bytewise[of 1002 9 2006 "\<lambda>a. of_nat a" 1011 7] memory_functions_bytewise[of 1002 9 1000 "\<lambda>a. of_nat a" 1008 7]
    memory_functions_bytewise[of 1000 9 1002 "\<lambda>a. of_nat a" 1008 7]
  by (simp add: disjoint_areas_def)

section \<open>Strings\<close>

text \<open>Property C39: on null-terminated strings \<^verbatim>\<open>strlen\<close>, \<^verbatim>\<open>strcmp\<close>, \<^verbatim>\<open>strcat\<close>, \<^verbatim>\<open>strchr\<close> and \<^verbatim>\<open>strstr\<close> return: the
  length, a value whose sign is the lexicographic order, the concatenation, the first occurrence of a
  character or null, and the first occurrence of a string or null; \<^verbatim>\<open>strncasecmp\<close> with a large enough
  bound is zero exactly on strings that are equal up to the case of letters.\<close>

theorem string_functions_return:
  assumes "cstr h s xs" "cstr h t ys" "disjoint_areas (s + length xs) t (length ys + 1)"
  shows "strlen h s = Some (length xs) \<and>
    (\<exists>r. strcmp h s t = Some r \<and> (r = 0 \<longleftrightarrow> xs = ys) \<and> (r < 0 \<longleftrightarrow> (xs, ys) \<in> lexord {(a, b). a < b})) \<and>
    (\<exists>h'. strcat h s t = Some h' \<and> cstr h' s (xs @ ys)) \<and>
    strchr h s c = Some (if c = 0 then s + length xs else if c \<in> set xs
      then s + length (takeWhile (\<lambda>x. x \<noteq> c) xs) else NULL) \<and>
    strstr h s t = Some (if sublist ys xs then s + (LEAST i. prefix ys (drop i xs)) else NULL) \<and>
    (n > length ys \<longrightarrow> (strncasecmp h s t n = 0 \<longleftrightarrow> map fold_case xs = map fold_case ys))"
  using strlen_eq[OF assms(1)] strcmp_eq[OF assms(1,2)] strcat_eq[OF assms] strchr_eq[OF assms(1)]
    strstr_eq[OF assms(1,2)] strncasecmp_zero[OF assms(1,2)] by simp

theorem string_functions_return_witness:
  "strlen ((\<lambda>_. 0)(50 := 97, 51 := 98, 60 := 98)) 50 = Some 2 \<and> strchr ((\<lambda>_. 0)(50 := 97, 51 := 98, 60 := 98)) 50 98 = Some 51 \<and>
   strstr ((\<lambda>_. 0)(50 := 97, 51 := 98, 60 := 98)) 50 60 = Some 51 \<and>
   strncasecmp ((\<lambda>_. 0)(50 := 97, 51 := 98, 60 := 98)) 50 60 9 \<noteq> 0"
proof -
  let ?h = "(\<lambda>_. 0)(50 := 97, 51 := 98, 60 := 98) :: bytes"
  have h: "cstr ?h 50 [97, 98]" "cstr ?h 60 [98]" by simp_all
  have "(LEAST i. prefix [98] (drop i [97, 98 :: u8])) = 1"
    by (rule Least_equality) (auto simp: not_less_eq_eq[symmetric] intro: ccontr)
  then show ?thesis using string_functions_return[OF h, of 98 9] by (simp add: disjoint_areas_def sublist_Cons_right)
qed

section \<open>Numbers\<close>

text \<open>Property C40: on a number in a base from 2 to 36, with white space before it, an optional sign, and a
  character behind it that is no digit of the base, \<^verbatim>\<open>strtol\<close> and \<^verbatim>\<open>strtoul\<close> return, point behind the last digit,
  and give the value, or the nearest end of their range with a range error when it does not fit; \<^verbatim>\<open>atoi\<close>
  gives the value in base ten modulo \<open>2 ^ 32\<close>.\<close>

theorem numbers_converted:
  assumes "number_at h p n b neg q ds" "1 < b" "b \<le> 36"
  shows "(\<exists>w. strtol h p b = Some (w, q + length ds, int (digits_value b ds) > (if neg then 2 ^ 31 else 2 ^ 31 - 1)) \<and>
      sint w = (if neg then - min (int (digits_value b ds)) (2 ^ 31) else min (int (digits_value b ds)) (2 ^ 31 - 1))) \<and>
    strtoul h p b = Some (if digits_value b ds < 2 ^ 32 then if neg then - of_nat (digits_value b ds) else of_nat (digits_value b ds)
      else -1, q + length ds, digits_value b ds \<ge> 2 ^ 32) \<and>
    (b = 10 \<longrightarrow> atoi h p = Some (if neg then - of_nat (digits_value 10 ds) else of_nat (digits_value 10 ds)))"
  using strtol_number[OF assms] strtoul_number[OF assms] atoi_number[of h p n neg q ds] assms(1)
  by (cases neg; cases "b = 10") simp_all

theorem numbers_converted_witness:
  "(\<exists>w. strtol ((\<lambda>_. 0)(50 := 32, 51 := 45, 52 := 49, 53 := 50)) 50 10 = Some (w, 54, False) \<and> sint w = -12) \<and>
   atoi ((\<lambda>_. 0)(50 := 32, 51 := 45, 52 := 49, 53 := 50)) 50 = Some (-12) \<and>
   strtoul ((\<lambda>_. 0)(50 := 49, 51 := 102)) 50 16 = Some (31, 52, False)"
proof -
  have "number_at ((\<lambda>_. 0)(50 := 32, 51 := 45, 52 := 49, 53 := 50)) 50 1 10 True 52 [1, 2]"
    by (simp add: number_at_def digit_value_def isdigit_def isalpha_def white_def)
  moreover have "number_at ((\<lambda>_. 0)(50 := 49, 51 := 102)) 50 0 16 False 50 [1, 15]"
    by (simp add: number_at_def digit_value_def isdigit_def isalpha_def isupper_def)
  ultimately show ?thesis
    using numbers_converted[of "(\<lambda>_. 0)(50 := 32, 51 := 45, 52 := 49, 53 := 50)" 50 1 10 True 52 "[1, 2]"]
      numbers_converted[of "(\<lambda>_. 0)(50 := 49, 51 := 102)" 50 0 16 False 50 "[1, 15]"]
    by (simp add: digits_value_def)
qed

end
