(* ===== verification/Pool_Accounts.thy ===== *)
theory Pool_Accounts
  imports Mem_Pool "HOL-Library.Multiset"
begin

text \<open>
  The accounting of a memory pool: which blocks the arrays of quad-blocks stand for, the invariant that
  every block is free, in use or split and only one of these, and what the elementary steps (mark a
  block, split one, free one, merge four) do to the accounts.
\<close>

section \<open>Quad-blocks of one set\<close>

text \<open>The blocks and the free blocks of a quad-block, and of a list of them.\<close>

definition quad_blocks :: "nat \<Rightarrow> k_mem_pool_quad_block \<Rightarrow> addr set" where
  "quad_blocks sz q = (\<lambda>b. mem_blocks q + b * sz) ` {..<4}"

definition quad_free :: "nat \<Rightarrow> k_mem_pool_quad_block \<Rightarrow> addr set" where
  "quad_free sz q = (\<lambda>b. mem_blocks q + b * sz) ` {b. b < 4 \<and> bit (mem_status q) b}"

definition blocks :: "nat \<Rightarrow> k_mem_pool_quad_block list \<Rightarrow> addr set" where
  "blocks sz Q = \<Union> (quad_blocks sz ` set Q)"

definition free_blocks :: "nat \<Rightarrow> k_mem_pool_quad_block list \<Rightarrow> addr set" where
  "free_blocks sz Q = \<Union> (quad_free sz ` set Q)"

definition bases :: "k_mem_pool_quad_block list \<Rightarrow> addr set" where
  "bases Q = mem_blocks ` set Q"

definition quads_ok :: "addr \<Rightarrow> nat \<Rightarrow> k_mem_pool_quad_block list \<Rightarrow> bool" where
  "quads_ok buf sz Q \<longleftrightarrow> 0 < sz \<and> distinct (map mem_blocks Q) \<and>
     (\<forall>q \<in> set Q. mem_blocks q \<noteq> NULL \<and> (\<forall>b \<ge> 4. \<not> bit (mem_status q) b) \<and> (\<exists>m. mem_blocks q = buf + m * (4 * sz)))"

lemma quads_okD:
  assumes "quads_ok buf sz Q" "q \<in> set Q"
  shows "0 < sz" "mem_blocks q \<noteq> NULL" "b \<ge> 4 \<Longrightarrow> \<not> bit (mem_status q) b" "\<exists>m. mem_blocks q = buf + m * (4 * sz)"
  using assms by (auto simp: quads_ok_def)

lemma blocks_inj:
  assumes "quads_ok buf sz Q" "q \<in> set Q" "r \<in> set Q" "b < 4" "d < 4" "mem_blocks q + b * sz = mem_blocks r + d * sz"
  shows "q = r \<and> b = d"
proof -
  obtain m where m: "mem_blocks q = buf + m * (4 * sz)" using quads_okD(4)[OF assms(1,2)] by blast
  obtain n where n: "mem_blocks r = buf + n * (4 * sz)" using quads_okD(4)[OF assms(1,3)] by blast
  have "(4 * m + b) * sz = (4 * n + d) * sz" using assms(6) m n by (simp add: algebra_simps)
  then have "4 * m + b = 4 * n + d" using assms(1) by (simp add: quads_ok_def)
  then have "m = n \<and> b = d" using assms(4,5) by presburger
  then show ?thesis using m n assms(1-3) by (metis (no_types, lifting) distinct_map inj_onD quads_ok_def)
qed

lemma quad_blocks_disjoint:
  assumes "quads_ok buf sz Q" "q \<in> set Q" "r \<in> set Q" "q \<noteq> r"
  shows "quad_blocks sz q \<inter> quad_blocks sz r = {}"
  using blocks_inj[OF assms(1-3)] assms(4) by (auto simp: quad_blocks_def)

lemma quad_free_subset: "quad_free sz q \<subseteq> quad_blocks sz q"
  by (auto simp: quad_free_def quad_blocks_def)

lemma free_subset: "free_blocks sz Q \<subseteq> blocks sz Q"
  using quad_free_subset by (fastforce simp: free_blocks_def blocks_def)

lemma blocks_split [simp]:
  "blocks sz (us @ q # vs) = quad_blocks sz q \<union> blocks sz (us @ vs)"
  "free_blocks sz (us @ q # vs) = quad_free sz q \<union> free_blocks sz (us @ vs)"
  "bases (us @ q # vs) = insert (mem_blocks q) (bases (us @ vs))"
  by (auto simp: blocks_def free_blocks_def bases_def)

lemma blocks_Cons [simp]:
  "blocks sz (q # Q) = quad_blocks sz q \<union> blocks sz Q" "free_blocks sz (q # Q) = quad_free sz q \<union> free_blocks sz Q"
  "bases (q # Q) = insert (mem_blocks q) (bases Q)"
  by (auto simp: blocks_def free_blocks_def bases_def)

lemma blocks_Nil [simp]: "blocks sz [] = {}" "free_blocks sz [] = {}" "bases [] = {}"
  by (simp_all add: blocks_def free_blocks_def bases_def)

lemma quads_ok_split:
  assumes "quads_ok buf sz (us @ q # vs)"
  shows "quads_ok buf sz (us @ vs)" "quad_blocks sz q \<inter> blocks sz (us @ vs) = {}" "mem_blocks q \<notin> bases (us @ vs)"
proof -
  show "quads_ok buf sz (us @ vs)" "mem_blocks q \<notin> bases (us @ vs)" using assms by (auto simp: quads_ok_def bases_def)
  have "q \<noteq> r" if "r \<in> set (us @ vs)" for r using assms that by (auto simp: quads_ok_def)
  then show "quad_blocks sz q \<inter> blocks sz (us @ vs) = {}"
    using quad_blocks_disjoint[OF assms, of q] by (fastforce simp: blocks_def)
qed

lemma quads_ok_status:
  "quads_ok buf sz (us @ q # vs) \<Longrightarrow> (\<And>b. b \<ge> 4 \<Longrightarrow> \<not> bit st b) \<Longrightarrow> quads_ok buf sz (us @ q\<lparr>mem_status := st\<rparr> # vs)"
  by (auto simp: quads_ok_def)

text \<open>Changing one status bit changes one block.\<close>

lemma quad_free_set:
  assumes "0 < sz" "d < 4" "\<And>b. b < 4 \<Longrightarrow> b \<noteq> d \<Longrightarrow> bit st b = bit (mem_status q) b"
  shows "quad_free sz (q\<lparr>mem_status := st\<rparr>) =
    (if bit st d then insert (mem_blocks q + d * sz) (quad_free sz q) else quad_free sz q - {mem_blocks q + d * sz})"
proof -
  let ?f = "\<lambda>b. mem_blocks q + b * sz" and ?S = "\<lambda>w :: u32. {b. b < 4 \<and> bit w b}"
  have "inj ?f" using assms(1) by (auto intro: injI)
  moreover have "?S st = (if bit st d then insert d (?S (mem_status q)) else ?S (mem_status q) - {d})"
    using assms(2,3) by auto
  ultimately show ?thesis by (simp add: quad_free_def image_set_diff)
qed

lemma free_status:
  assumes "quads_ok buf sz (us @ q # vs)" "d < 4" "\<And>b. b < 4 \<Longrightarrow> b \<noteq> d \<Longrightarrow> bit st b = bit (mem_status q) b"
  shows "free_blocks sz (us @ q\<lparr>mem_status := st\<rparr> # vs) =
    (if bit st d then insert (mem_blocks q + d * sz) (free_blocks sz (us @ q # vs))
     else free_blocks sz (us @ q # vs) - {mem_blocks q + d * sz})"
proof -
  have sz: "0 < sz" using assms(1) by (simp add: quads_ok_def)
  have "mem_blocks q + d * sz \<in> quad_blocks sz q" using assms(2) by (auto simp: quad_blocks_def)
  then have "mem_blocks q + d * sz \<notin> free_blocks sz (us @ vs)"
    using quads_ok_split(2)[OF assms(1)] free_subset[of sz "us @ vs"] by blast
  then show ?thesis using quad_free_set[OF sz assms(2,3)] by auto
qed

lemma quad_blocks_status [simp]: "quad_blocks sz (q\<lparr>mem_status := st\<rparr>) = quad_blocks sz q"
  by (simp add: quad_blocks_def)

lemma quad_all_free: "mem_status q = QUAD_BLOCK_AVAILABLE \<Longrightarrow> quad_free sz q = quad_blocks sz q"
proof -
  assume "mem_status q = QUAD_BLOCK_AVAILABLE"
  moreover have "bit (0x0F :: u32) b" if "b < 4" for b
    using that by (auto simp: less_Suc_eq numeral_eq_Suc)
  ultimately show ?thesis by (auto simp: quad_free_def quad_blocks_def QUAD_BLOCK_AVAILABLE_def)
qed

section \<open>The searches\<close>

lemma find_lsb_bit:
  fixes w :: u32
  assumes "w \<noteq> 0"
  obtains b where "find_lsb_set w = Suc b" "bit w b"
proof -
  obtain i where "bit w i" using assms by (auto simp: bit_eq_iff)
  then obtain b where "bit w b" "\<And>j. j < b \<Longrightarrow> \<not> bit w j" by (metis exists_least_iff)
  then show thesis using find_lsb_set_eq that by blast
qed

lemma get_existing_spec:
  assumes "quads_ok buf sz Q" "\<forall>q \<in> set R. mem_blocks q = NULL" "entries = i + length Q + length R" "Q @ R \<noteq> []"
  shows "\<exists>found n Q'. get_existing_block sz entries i (Q @ R) = (found, n, Q' @ R) \<and> length Q' = length Q \<and> quads_ok buf sz Q' \<and>
    blocks sz Q' = blocks sz Q \<and> bases Q' = bases Q \<and> map mem_blocks Q' = map mem_blocks Q \<and>
    (if found = NULL then n = i + length Q \<and> Q' = Q \<and> free_blocks sz Q = {}
     else found \<in> free_blocks sz Q \<and> free_blocks sz Q' = free_blocks sz Q - {found})"
  using assms
proof (induction Q arbitrary: i)
  case Nil
  then obtain q R' where R: "R = q # R'" "mem_blocks q = NULL" by (cases R) auto
  then show ?case using Nil.prems(1) by (intro exI[of _ NULL] exI[of _ i] exI[of _ "[]"]) simp
next
  case (Cons q Q)
  note ok = Cons.prems(1) and sp = quads_ok_split[of buf sz "[]" q Q, simplified, OF Cons.prems(1)]
  have nn: "mem_blocks q \<noteq> NULL" using quads_okD(2)[OF ok, of q] by simp
  show ?case
  proof (cases "mem_status q = 0")
    case False
    then obtain b where b: "find_lsb_set (mem_status q) = Suc b" "bit (mem_status q) b" by (rule find_lsb_bit)
    then have b4: "b < 4" using quads_okD(3)[OF ok, of q b] by (cases "b < 4") auto
    let ?st = "mem_status q XOR push_bit b 1" and ?a = "mem_blocks q + b * sz"
    have st: "bit ?st d \<longleftrightarrow> (if d = b then \<not> bit (mem_status q) d else bit (mem_status q) d)" for d
      unfolding bit_xor_iff bit_exp_u32 using b4 by auto
    have ok': "quads_ok buf sz (q\<lparr>mem_status := ?st\<rparr> # Q)"
      using quads_ok_status[of buf sz "[]" q Q ?st] ok st b4 quads_okD(3)[OF ok, of q] by auto
    have "free_blocks sz (q\<lparr>mem_status := ?st\<rparr> # Q) = free_blocks sz (q # Q) - {?a}"
      using free_status[of buf sz "[]" q Q b ?st] ok b4 st b(2) by simp
    moreover have "?a \<in> free_blocks sz (q # Q)" using b(2) b4 by (auto simp: quad_free_def)
    ultimately show ?thesis using False nn b ok'
      by (intro exI[of _ ?a] exI[of _ i] exI[of _ "q\<lparr>mem_status := ?st\<rparr> # Q"])
        (simp add: QUAD_BLOCK_ALLOCATED_def)
  next
    case True
    have f: "quad_free sz q = {}" using True by (simp add: quad_free_def)
    show ?thesis
    proof (cases "Q @ R = []")
      case True
      then show ?thesis using Cons.prems(3) nn \<open>mem_status q = 0\<close> f ok
        by (intro exI[of _ NULL] exI[of _ "i + 1"] exI[of _ "[q]"]) (simp add: QUAD_BLOCK_ALLOCATED_def)
    next
      case False
      have "entries = (i + 1) + length Q + length R" "i + 1 < entries" using Cons.prems(3) False by auto
      then obtain found n Q' where IH: "get_existing_block sz entries (i + 1) (Q @ R) = (found, n, Q' @ R)" "length Q' = length Q"
        "quads_ok buf sz Q'" "blocks sz Q' = blocks sz Q" "bases Q' = bases Q" "map mem_blocks Q' = map mem_blocks Q"
        "if found = NULL then n = i + 1 + length Q \<and> Q' = Q \<and> free_blocks sz Q = {}
         else found \<in> free_blocks sz Q \<and> free_blocks sz Q' = free_blocks sz Q - {found}"
        using Cons.IH[OF sp(1) Cons.prems(2), of "i + 1"] False by auto
      have "quads_ok buf sz (q # Q')" using ok IH(3,6) by (auto simp: quads_ok_def)
      then show ?thesis using IH nn True f \<open>i + 1 < entries\<close>
        by (intro exI[of _ found] exI[of _ n] exI[of _ "q # Q'"])
          (simp add: QUAD_BLOCK_ALLOCATED_def split: if_splits)
    qed
  qed
qed

lemma less_4: "b < 4 \<longleftrightarrow> b = 0 \<or> b = 1 \<or> b = 2 \<or> b = (3 :: nat)"
  by auto

lemma free_in_quad_hit:
  "0 < sz \<Longrightarrow> b < 4 \<Longrightarrow> free_in_quad (mem_blocks q + b * sz) sz (mem_blocks q) [0, 1, 2, 3] st = Some (st OR push_bit b 1)"
  unfolding less_4 by auto

lemma free_in_quad_miss:
  assumes "x \<notin> quad_blocks sz q"
  shows "free_in_quad x sz (mem_blocks q) [0, 1, 2, 3] st = None"
proof -
  have "x \<noteq> mem_blocks q + b * sz" if "b < 4" for b using assms that by (auto simp: quad_blocks_def)
  from this[of 0] this[of 1] this[of 2] this[of 3] show ?thesis by simp
qed

lemma free_in_quads_spec:
  assumes "quads_ok buf sz Q" "x \<in> blocks sz Q"
  shows "\<exists>Q'. free_in_quads x sz (Q @ R) = Some (Q' @ R) \<and> length Q' = length Q \<and> quads_ok buf sz Q' \<and>
    map mem_blocks Q' = map mem_blocks Q \<and> blocks sz Q' = blocks sz Q \<and> bases Q' = bases Q \<and>
    free_blocks sz Q' = insert x (free_blocks sz Q)"
  using assms
proof (induction Q)
  case Nil
  then show ?case by (simp add: blocks_def)
next
  case (Cons q Q)
  note ok = Cons.prems(1) and sp = quads_ok_split[of buf sz "[]" q Q, simplified, OF Cons.prems(1)]
  have sz: "0 < sz" using ok by (simp add: quads_ok_def)
  show ?case
  proof (cases "x \<in> quad_blocks sz q")
    case True
    then obtain b where b: "b < 4" "x = mem_blocks q + b * sz" by (auto simp: quad_blocks_def)
    have e: "free_in_quad x sz (mem_blocks q) [0, 1, 2, 3] (mem_status q) = Some (mem_status q OR push_bit b 1)"
      unfolding b(2) by (rule free_in_quad_hit[OF sz b(1)])
    let ?st = "mem_status q OR push_bit b 1"
    have st: "bit ?st d \<longleftrightarrow> d = b \<or> bit (mem_status q) d" for d unfolding bit_or_iff bit_exp_u32 using b(1) by auto
    have "quads_ok buf sz (q\<lparr>mem_status := ?st\<rparr> # Q)"
      using quads_ok_status[of buf sz "[]" q Q ?st] ok st b(1) quads_okD(3)[OF ok, of q] by auto
    moreover have "free_blocks sz (q\<lparr>mem_status := ?st\<rparr> # Q) = insert x (free_blocks sz (q # Q))"
      using free_status[of buf sz "[]" q Q b ?st] ok b st by simp
    ultimately show ?thesis using e
      by (intro exI[of _ "q\<lparr>mem_status := ?st\<rparr> # Q"]) simp
  next
    case False
    note e = free_in_quad_miss[OF False, of "mem_status q"]
    obtain Q' where IH: "free_in_quads x sz (Q @ R) = Some (Q' @ R)" "length Q' = length Q" "quads_ok buf sz Q'"
      "map mem_blocks Q' = map mem_blocks Q" "blocks sz Q' = blocks sz Q" "bases Q' = bases Q"
      "free_blocks sz Q' = insert x (free_blocks sz Q)" using Cons.IH[OF sp(1)] Cons.prems(2) False by (auto simp: blocks_def)
    have "quads_ok buf sz (q # Q')" using ok IH(3,4) by (auto simp: quads_ok_def)
    then show ?thesis using IH e
      by (intro exI[of _ "q # Q'"]) simp
  qed
qed

text \<open>Deleting a quad-block: the last one in use takes its place.\<close>

lemma last_quad_eq:
  assumes "\<forall>q \<in> set Q. mem_blocks q \<noteq> NULL" "\<forall>q \<in> set R. mem_blocks q = NULL" "entries = length Q + length R" "i < length Q"
  shows "last_quad (Q @ R) entries i = length Q - 1"
  using assms(4)
proof (induction "length Q - i" arbitrary: i rule: less_induct)
  case less
  show ?case
  proof (cases "i + 1 < length Q")
    case True
    have "mem_blocks ((Q @ R) ! (i + 1)) \<noteq> NULL" using True assms(1) by (simp add: nth_append)
    then show ?thesis using less.hyps[of "i + 1"] True assms(3) by (subst last_quad.simps) simp
  next
    case False
    then have i: "i + 1 = length Q" using less.prems by simp
    have "mem_blocks (R ! 0) = NULL" if "R \<noteq> []" using that assms(2) by (simp add: nth_mem)
    then show ?thesis using i assms(3) by (subst last_quad.simps) (auto simp: nth_append)
  qed
qed

lemma delete_quad_spec:
  assumes "\<forall>q \<in> set Q. mem_blocks q \<noteq> NULL" "\<forall>q \<in> set R. mem_blocks q = NULL" "entries = length Q + length R" "i < length Q"
  shows "\<exists>Q' r. delete_quad entries i (Q @ R) = Q' @ r # R \<and> mem_blocks r = NULL \<and> length Q = length Q' + 1 \<and> take i Q' = take i Q \<and>
    (\<exists>us vs. Q = us @ Q ! i # vs \<and> mset Q' = mset (us @ vs))"
proof -
  let ?k = "length Q - 1"
  have l: "last_quad (Q @ R) entries i = ?k" by (rule last_quad_eq[OF assms])
  obtain Q1 z where Q: "Q = Q1 @ [z]" using assms(4) by (cases Q rule: rev_cases) auto
  have z: "(Q @ R) ! ?k = z" by (simp add: Q nth_append)
  let ?z = "\<lparr>mem_blocks = mem_blocks z, mem_status = mem_status z\<rparr>"
  have zz: "?z = z" by simp
  show ?thesis
  proof (cases "i = ?k")
    case True
    then have "delete_quad entries i (Q @ R) = Q1 @ z\<lparr>mem_blocks := NULL\<rparr> # R"
      unfolding delete_quad_def l Let_def z zz by (simp add: Q list_update_append)
    moreover have "Q ! i = z" using True by (simp add: Q nth_append)
    moreover have "Q = Q1 @ Q ! i # []" "mset Q1 = mset (Q1 @ [])" using \<open>Q ! i = z\<close> Q by simp_all
    ultimately show ?thesis using Q True
      by (intro exI[of _ Q1] exI[of _ "z\<lparr>mem_blocks := NULL\<rparr>"] conjI exI[of _ Q1] exI[of _ "[]"]) simp_all
  next
    case False
    then have i: "i < length Q1" using assms(4) by (simp add: Q)
    have "delete_quad entries i (Q @ R) = Q1[i := z] @ z\<lparr>mem_blocks := NULL\<rparr> # R"
      unfolding delete_quad_def l Let_def z zz using i by (simp add: Q list_update_append nth_append)
    moreover have "Q = take i Q1 @ Q ! i # (drop (Suc i) Q1 @ [z])" using i by (simp add: Q nth_append id_take_nth_drop[symmetric])
    moreover have "mset (Q1[i := z]) = mset (take i Q1 @ (drop (Suc i) Q1 @ [z]))"
      using i by (simp add: upd_conv_take_nth_drop)
    ultimately have "delete_quad entries i (Q @ R) = Q1[i := z] @ z\<lparr>mem_blocks := NULL\<rparr> # R"
      "\<exists>us vs. Q = us @ Q ! i # vs \<and> mset (Q1[i := z]) = mset (us @ vs)" by blast+
    then show ?thesis using Q i
      by (intro exI[of _ "Q1[i := z]"] exI[of _ "z\<lparr>mem_blocks := NULL\<rparr>"]) simp
  qed
qed

section \<open>The invariant\<close>

definition quads :: "k_mem_pool \<Rightarrow> nat \<Rightarrow> k_mem_pool_quad_block list" where
  "quads p j = takeWhile (\<lambda>q. mem_blocks q \<noteq> NULL) (quad_block (block_set p ! j))"

definition bsize :: "k_mem_pool \<Rightarrow> nat \<Rightarrow> nat" where
  "bsize p j = set_block_size (block_set p ! j)"

definition entries :: "k_mem_pool \<Rightarrow> nat \<Rightarrow> nat" where
  "entries p j = nr_of_entries (block_set p ! j)"

abbreviation free_of :: "k_mem_pool \<Rightarrow> nat \<Rightarrow> addr set" where
  "free_of p j \<equiv> free_blocks (bsize p j) (quads p j)"

text \<open>The blocks of set \<open>j\<close> that exist, and those that are split into blocks of the next set.\<close>

definition valid_blocks :: "k_mem_pool \<Rightarrow> nat \<Rightarrow> addr set" where
  "valid_blocks p j =
     (if j = 0 then (\<lambda>m. bufblock p + m * bsize p 0) ` {..<nr_of_maxblocks p} else blocks (bsize p j) (quads p j))"

definition split_blocks :: "k_mem_pool \<Rightarrow> nat \<Rightarrow> addr set" where
  "split_blocks p j = (if Suc j < nr_of_block_sets p then bases (quads p (Suc j)) else {})"

text \<open>
  What \<^verbatim>\<open>K_MEM_POOL_DEFINE\<close> lays out: sizes that shrink by four, and arrays long enough for every block
  of the next larger size to be split.
\<close>

definition pool_shape :: "k_mem_pool \<Rightarrow> bool" where
  "pool_shape p \<longleftrightarrow> 0 < nr_of_block_sets p \<and> length (block_set p) = nr_of_block_sets p \<and>
     0 < min_block_size p \<and> min_block_size p \<le> bsize p (nr_of_block_sets p - 1) \<and>
     (\<forall>j. Suc j < nr_of_block_sets p \<longrightarrow> bsize p j = 4 * bsize p (Suc j) \<and>
        (if j = 0 then nr_of_maxblocks p else 4 * entries p j) \<le> entries p (Suc j))"

definition set_ok :: "k_mem_pool \<Rightarrow> nat \<Rightarrow> bool" where
  "set_ok p j \<longleftrightarrow> length (quad_block (block_set p ! j)) = entries p j \<and> 0 < entries p j \<and>
     (\<forall>q \<in> set (drop (length (quads p j)) (quad_block (block_set p ! j))). mem_blocks q = NULL) \<and>
     quads_ok (bufblock p) (bsize p j) (quads p j)"

text \<open>Every block is free, or in use, or split, and only one of these: \<open>U j\<close> are the blocks in use.\<close>

definition accounted :: "k_mem_pool \<Rightarrow> (nat \<Rightarrow> addr set) \<Rightarrow> nat \<Rightarrow> bool" where
  "accounted p U j \<longleftrightarrow> free_of p j \<union> U j \<union> split_blocks p j = valid_blocks p j \<and>
     free_of p j \<inter> U j = {} \<and> free_of p j \<inter> split_blocks p j = {} \<and> U j \<inter> split_blocks p j = {}"

definition pool_inv :: "k_mem_pool \<Rightarrow> (nat \<Rightarrow> addr set) \<Rightarrow> bool" where
  "pool_inv p U \<longleftrightarrow> pool_shape p \<and> valid_blocks p 0 \<subseteq> blocks (bsize p 0) (quads p 0) \<and>
     (\<forall>j < nr_of_block_sets p. set_ok p j \<and> accounted p U j)"

lemma pool_invD:
  assumes "pool_inv p U" "j < nr_of_block_sets p"
  shows "set_ok p j" "accounted p U j" "length (block_set p) = nr_of_block_sets p" "quads_ok (bufblock p) (bsize p j) (quads p j)"
    "valid_blocks p j \<subseteq> blocks (bsize p j) (quads p j)" "U j \<subseteq> valid_blocks p j" "0 < bsize p j"
proof -
  show a: "set_ok p j" "accounted p U j" "length (block_set p) = nr_of_block_sets p"
    using assms by (auto simp: pool_inv_def pool_shape_def)
  show "quads_ok (bufblock p) (bsize p j) (quads p j)" "0 < bsize p j" using a(1) by (auto simp: set_ok_def quads_ok_def)
  show "valid_blocks p j \<subseteq> blocks (bsize p j) (quads p j)" using assms by (cases "j = 0") (auto simp: pool_inv_def valid_blocks_def)
  show "U j \<subseteq> valid_blocks p j" using a(2) unfolding accounted_def by blast
qed

text \<open>The array of a set: the quad-blocks in use, then unused entries.\<close>

lemma set_array:
  assumes "set_ok p j"
  obtains R where "quad_block (block_set p ! j) = quads p j @ R" "\<forall>q \<in> set R. mem_blocks q = NULL"
    "\<forall>q \<in> set (quads p j). mem_blocks q \<noteq> NULL" "entries p j = length (quads p j) + length R"
proof -
  let ?a = "quad_block (block_set p ! j)"
  have e: "?a = quads p j @ drop (length (quads p j)) ?a"
    unfolding quads_def by (metis dropWhile_eq_drop takeWhile_dropWhile_id)
  have n: "\<forall>q \<in> set (quads p j). mem_blocks q \<noteq> NULL" unfolding quads_def by (blast dest: set_takeWhileD)
  have l: "length ?a = length (quads p j) + length (drop (length (quads p j)) ?a)" by (subst (1) e) (simp only: length_append)
  show thesis by (rule that[OF e _ n]) (use assms l in \<open>(metis set_ok_def)+\<close>)
qed

lemma takeWhile_split:
  "\<forall>q \<in> set Q. mem_blocks q \<noteq> NULL \<Longrightarrow> \<forall>q \<in> set R. mem_blocks q = NULL \<Longrightarrow> takeWhile (\<lambda>q. mem_blocks q \<noteq> NULL) (Q @ R) = Q"
  by (cases R) (auto simp: takeWhile_append)

section \<open>Replacing the quad-blocks of one set\<close>

text \<open>Pools that differ in the contents of their arrays only.\<close>

definition same_layout :: "k_mem_pool \<Rightarrow> k_mem_pool \<Rightarrow> bool" where
  "same_layout p p' \<longleftrightarrow> nr_of_block_sets p' = nr_of_block_sets p \<and> nr_of_maxblocks p' = nr_of_maxblocks p \<and>
     min_block_size p' = min_block_size p \<and>
     bufblock p' = bufblock p \<and> pool_wait_q p' = pool_wait_q p \<and> length (block_set p') = length (block_set p) \<and>
     bsize p' = bsize p \<and> entries p' = entries p"

lemma same_layout_trans: "same_layout p q \<Longrightarrow> same_layout q r \<Longrightarrow> same_layout p r"
  and same_layout_refl [simp]: "same_layout p p"
  by (simp_all add: same_layout_def)

lemma layoutD:
  assumes "same_layout p p'"
  shows "bsize p' = bsize p" "entries p' = entries p" "bufblock p' = bufblock p" "nr_of_maxblocks p' = nr_of_maxblocks p"
    "nr_of_block_sets p' = nr_of_block_sets p"
  using assms by (simp_all add: same_layout_def)

lemma upd_quads_layout: "same_layout p (upd_quads p j f)"
proof -
  have "(xs[j := (xs ! j)\<lparr>quad_block := v\<rparr>]) ! i = (if i = j \<and> j < length xs then (xs ! j)\<lparr>quad_block := v\<rparr> else xs ! i)"
    for xs :: "k_mem_pool_block_set list" and i v by (cases "i = j"; cases "j < length xs") (simp_all add: nth_list_update list_update_beyond)
  then show ?thesis by (simp add: same_layout_def upd_quads_def bsize_def entries_def fun_eq_iff)
qed

lemma upd_quads_sets:
  assumes "j < length (block_set p)"
  shows "quad_block (block_set (upd_quads p j f) ! i) = (if i = j then f (quad_block (block_set p ! j)) else quad_block (block_set p ! i))"
    "i \<noteq> j \<Longrightarrow> block_set (upd_quads p j f) ! i = block_set p ! i"
  using assms by (simp_all add: upd_quads_def nth_list_update)

lemma quads_other: "j < length (block_set p) \<Longrightarrow> i \<noteq> j \<Longrightarrow> quads (upd_quads p j f) i = quads p i"
  by (simp add: quads_def upd_quads_sets)

lemma replace_quads:
  assumes inv: "pool_inv p U" and j: "j < nr_of_block_sets p"
    and f: "f (quad_block (block_set p ! j)) = Q @ R" "\<forall>q \<in> set R. mem_blocks q = NULL" "length Q + length R = entries p j"
    and ok: "quads_ok (bufblock p) (bsize p j) Q"
  shows "quads (upd_quads p j f) i = (if i = j then Q else quads p i)"
    "i < nr_of_block_sets p \<Longrightarrow> set_ok (upd_quads p j f) i"
proof -
  note D = pool_invD[OF inv j]
  have l: "j < length (block_set p)" using D(3) j by simp
  have n: "\<forall>q \<in> set Q. mem_blocks q \<noteq> NULL" using ok by (simp add: quads_ok_def)
  have qj: "quads (upd_quads p j f) j = Q" using takeWhile_split[OF n f(2)] by (simp add: quads_def upd_quads_sets[OF l] f(1))
  then show "quads (upd_quads p j f) i = (if i = j then Q else quads p i)" using quads_other[OF l] by simp
  have lay: "same_layout p (upd_quads p j f)" by (rule upd_quads_layout)
  show "set_ok (upd_quads p j f) i" if "i < nr_of_block_sets p"
  proof (cases "i = j")
    case True
    then show ?thesis using lay f ok D(1) upd_quads_sets(1)[OF l, of f j] by (simp add: set_ok_def qj same_layout_def)
  next
    case False
    then show ?thesis using lay pool_invD(1)[OF inv that] quads_other[OF l False, of f] upd_quads_sets(2)[OF l False, of f]
      by (simp add: set_ok_def same_layout_def)
  qed
qed

text \<open>
  A set gets new quad-blocks, and the accounts still add up for it and for the next larger set.
\<close>

lemma replace_inv:
  assumes inv: "pool_inv p U" and j: "j < nr_of_block_sets p"
    and f: "f (quad_block (block_set p ! j)) = Q @ R" "\<forall>q \<in> set R. mem_blocks q = NULL" "length Q + length R = entries p j"
    and ok: "quads_ok (bufblock p) (bsize p j) Q" and z: "j = 0 \<Longrightarrow> blocks (bsize p 0) Q = blocks (bsize p 0) (quads p 0)"
    and U: "\<And>i. i \<noteq> j \<Longrightarrow> Suc i \<noteq> j \<Longrightarrow> U' i = U i"
    and aj: "accounted (upd_quads p j f) U' j" and ap: "0 < j \<Longrightarrow> accounted (upd_quads p j f) U' (j - 1)"
  shows "pool_inv (upd_quads p j f) U'"
proof -
  let ?p = "upd_quads p j f"
  note r = replace_quads[where f = f, OF inv j f ok]
  have lay: "same_layout p ?p" by (rule upd_quads_layout)
  have "accounted ?p U' i" if i: "i < nr_of_block_sets p" for i
  proof (cases "i = j \<or> Suc i = j")
    case True
    then show ?thesis using aj ap by auto
  next
    case False
    then have "accounted ?p U' i \<longleftrightarrow> accounted p U i"
      using lay U[of i] r(1) by (auto simp: accounted_def same_layout_def split_blocks_def valid_blocks_def)
    then show ?thesis using pool_invD(2)[OF inv i] by simp
  qed
  moreover have "pool_shape ?p" using inv lay unfolding pool_inv_def pool_shape_def same_layout_def by presburger
  moreover have "valid_blocks ?p 0 \<subseteq> blocks (bsize ?p 0) (quads ?p 0)"
    using inv lay z r(1) by (simp add: pool_inv_def valid_blocks_def same_layout_def)
  ultimately show ?thesis using r(2) lay by (simp add: pool_inv_def same_layout_def)
qed

lemma valid_nonnull:
  assumes "pool_inv p U" "j < nr_of_block_sets p" "x \<in> valid_blocks p j"
  shows "x \<noteq> NULL"
proof -
  obtain q where "q \<in> set (quads p j)" "x \<in> quad_blocks (bsize p j) q" using pool_invD(5)[OF assms(1,2)] assms(3) by (auto simp: blocks_def)
  then show ?thesis using quads_okD(2)[OF pool_invD(4)[OF assms(1,2)], of q] by (auto simp: quad_blocks_def)
qed

lemma valid_grid:
  assumes "pool_inv p U" "j < nr_of_block_sets p" "x \<in> valid_blocks p j"
  shows "\<exists>m. x = bufblock p + m * bsize p j"
proof (cases "j = 0")
  case True
  then show ?thesis using assms(3) by (auto simp: valid_blocks_def)
next
  case False
  obtain q b where q: "q \<in> set (quads p j)" "b < 4" "x = mem_blocks q + b * bsize p j"
    using pool_invD(5)[OF assms(1,2)] assms(3) by (auto simp: blocks_def quad_blocks_def)
  then obtain m where "mem_blocks q = bufblock p + m * (4 * bsize p j)" using quads_okD(4)[OF pool_invD(4)[OF assms(1,2)]] by blast
  then have "x = bufblock p + (4 * m + b) * bsize p j" using q(3) by (simp add: algebra_simps)
  then show ?thesis by blast
qed

lemma finite_blocks: "finite (blocks sz Q)" and card_blocks: "card (blocks sz Q) \<le> 4 * length Q"
proof -
  have q: "finite (quad_blocks sz q)" "card (quad_blocks sz q) \<le> 4" for q
    using card_image_le[of "{..<4 :: nat}" "\<lambda>b. mem_blocks q + b * sz"] by (simp_all add: quad_blocks_def)
  show "finite (blocks sz Q)" by (simp add: blocks_def q)
  show "card (blocks sz Q) \<le> 4 * length Q"
  proof (induction Q)
    case (Cons r Q)
    then show ?case using card_Un_le[of "quad_blocks sz r" "blocks sz Q"] q(2)[of r] by simp
  qed simp
qed

text \<open>There is room for a quad-block for every block of the next larger set.\<close>

lemma room_for_split:
  assumes inv: "pool_inv p U" and j: "Suc j < nr_of_block_sets p" and x: "x \<in> U j"
  shows "length (quads p (Suc j)) < entries p (Suc j)" "x \<notin> bases (quads p (Suc j))"
proof -
  have jn: "j < nr_of_block_sets p" using j by simp
  note D = pool_invD[OF inv jn] and D' = pool_invD[OF inv j]
  have sp: "split_blocks p j = bases (quads p (Suc j))" using j by (simp add: split_blocks_def)
  have fin: "finite (valid_blocks p j)" by (simp add: valid_blocks_def finite_blocks)
  have "length (quads p j) \<le> entries p j" using D(1) by (elim set_array) simp
  then have "card (blocks (bsize p j) (quads p j)) \<le> 4 * entries p j" using card_blocks[of "bsize p j" "quads p j"] by linarith
  moreover have "card ((\<lambda>m. bufblock p + m * bsize p 0) ` {..<nr_of_maxblocks p}) \<le> nr_of_maxblocks p"
    using card_image_le[of "{..<nr_of_maxblocks p}"] by fastforce
  ultimately have "card (valid_blocks p j) \<le> (if j = 0 then nr_of_maxblocks p else 4 * entries p j)"
    by (simp add: valid_blocks_def)
  then have cap: "card (valid_blocks p j) \<le> entries p (Suc j)" using inv j by (meson le_trans pool_inv_def pool_shape_def)
  show nx: "x \<notin> bases (quads p (Suc j))" using D(2) x by (auto simp: accounted_def sp)
  have "card (bases (quads p (Suc j))) = length (quads p (Suc j))"
    using D'(4) by (simp add: bases_def quads_ok_def distinct_card flip: set_map)
  moreover have "insert x (bases (quads p (Suc j))) \<subseteq> valid_blocks p j" using D(2,6) x by (auto simp: accounted_def sp)
  then have "card (insert x (bases (quads p (Suc j)))) \<le> card (valid_blocks p j)" by (rule card_mono[OF fin])
  ultimately show "length (quads p (Suc j)) < entries p (Suc j)" using nx cap by (simp add: bases_def)
qed

section \<open>The steps\<close>

text \<open>Marking a block: \<^verbatim>\<open>get_existing_block\<close> on a set.\<close>

lemma get_from_set_step:
  assumes inv: "pool_inv p U" and j: "j < nr_of_block_sets p"
  shows "\<exists>found i p'. get_from_set p j = (found, i, p') \<and> same_layout p p' \<and> (\<forall>l. l \<noteq> j \<longrightarrow> quads p' l = quads p l) \<and>
    (if found = NULL then p' = p \<and> i = length (quads p j) \<and> free_of p j = {}
     else found \<in> valid_blocks p j - U j \<and> pool_inv p' (U(j := insert found (U j))))"
proof -
  note D = pool_invD[OF inv j]
  obtain R where R: "quad_block (block_set p ! j) = quads p j @ R" "\<forall>q \<in> set R. mem_blocks q = NULL"
    "entries p j = length (quads p j) + length R" using D(1) by (elim set_array) simp
  have "quads p j @ R \<noteq> []" using D(1) R(3) by (auto simp: set_ok_def)
  then obtain found n Q' where g: "get_existing_block (bsize p j) (entries p j) 0 (quads p j @ R) = (found, n, Q' @ R)"
    "length Q' = length (quads p j)" "quads_ok (bufblock p) (bsize p j) Q'" "blocks (bsize p j) Q' = blocks (bsize p j) (quads p j)"
    "bases Q' = bases (quads p j)"
    "if found = NULL then n = length (quads p j) \<and> Q' = quads p j \<and> free_of p j = {}
     else found \<in> free_of p j \<and> free_blocks (bsize p j) Q' = free_of p j - {found}"
    using get_existing_spec[OF D(4) R(2), of "entries p j" 0] R(3) by auto
  let ?p = "upd_quads p j (\<lambda>_. Q' @ R)"
  have e: "get_from_set p j = (found, n, ?p)" using g(1) R(1) by (simp add: get_from_set_def Let_def bsize_def entries_def)
  have fin: "length Q' + length R = entries p j" using g(2) R(3) by simp
  note r = replace_quads(1)[where f = "\<lambda>_. Q' @ R", OF inv j refl R(2) fin g(3)]
  have lay: "same_layout p ?p" by (rule upd_quads_layout)
  show ?thesis
  proof (cases "found = NULL")
    case True
    then have "?p = p" using g(6) R(1) by (simp add: upd_quads_def flip: R(1))
    then show ?thesis using True e g(6) by simp
  next
    case False
    then have f: "found \<in> free_of p j" "free_blocks (bsize p j) Q' = free_of p j - {found}" using g(6) by simp_all
    let ?U = "U(j := insert found (U j))"
    note b = layoutD[OF lay]
    have v: "valid_blocks ?p = valid_blocks p" "split_blocks ?p = split_blocks p"
      using g(4,5) by (auto simp: valid_blocks_def split_blocks_def b r fun_eq_iff)
    have fr: "free_of ?p l = (if l = j then free_of p j - {found} else free_of p l)" for l by (simp add: b r f(2))
    have "accounted ?p ?U j" using D(2) f(1) unfolding accounted_def v fr by auto
    moreover have "accounted ?p ?U (j - 1)" if "0 < j"
      using pool_invD(2)[OF inv, of "j - 1"] that j unfolding accounted_def v fr by auto
    ultimately have "pool_inv ?p ?U" using g(4) by (intro replace_inv[OF inv j refl R(2) fin g(3)]) auto
    moreover have "found \<in> valid_blocks p j - U j" using f(1) D(2) by (auto simp: accounted_def)
    ultimately show ?thesis using False e lay r by auto
  qed
qed

text \<open>Splitting a block that is in use: it becomes the first of four smaller ones, and is in use as such.\<close>

lemma bit_available: "bit QUAD_BLOCK_AVAILABLE b \<longleftrightarrow> b < 4"
proof -
  have e: "QUAD_BLOCK_AVAILABLE = mask 4" by (simp add: QUAD_BLOCK_AVAILABLE_def mask_eq_exp_minus_1)
  show ?thesis unfolding e bit_mask_iff by auto
qed

lemma bit_split: "bit (QUAD_BLOCK_AVAILABLE AND NOT 1) b \<longleftrightarrow> b < 4 \<and> b \<noteq> 0"
  by (auto simp: bit_and_iff bit_not_iff bit_available bit_1_iff)

lemma quad_free_split:
  assumes "0 < sz" "mem_status q = QUAD_BLOCK_AVAILABLE AND NOT 1"
  shows "quad_free sz q = quad_blocks sz q - {mem_blocks q}"
proof -
  have "{b. b < 4 \<and> bit (mem_status q) b} = {..<4} - {0}" unfolding assms(2) bit_split by auto
  moreover have "inj (\<lambda>b. mem_blocks q + b * sz)" using assms(1) by (auto intro: injI)
  ultimately show ?thesis by (simp add: quad_free_def quad_blocks_def image_set_diff)
qed

lemma add_quad_step:
  assumes inv: "pool_inv p U" and j: "Suc j < nr_of_block_sets p" and x: "x \<in> U j"
  shows "\<exists>p'. add_quad p (Suc j) (length (quads p (Suc j))) x = Some p' \<and> same_layout p p' \<and>
    (\<forall>l. l \<noteq> Suc j \<longrightarrow> quads p' l = quads p l) \<and> x \<notin> U (Suc j) \<and>
    pool_inv p' (U(j := U j - {x}, Suc j := insert x (U (Suc j))))"
proof -
  have jn: "j < nr_of_block_sets p" using j by simp
  note D = pool_invD[OF inv jn] and D' = pool_invD[OF inv j]
  obtain R where R: "quad_block (block_set p ! Suc j) = quads p (Suc j) @ R" "\<forall>q \<in> set R. mem_blocks q = NULL"
    "entries p (Suc j) = length (quads p (Suc j)) + length R" using D'(1) by (elim set_array) simp
  obtain r R' where R': "R = r # R'" using room_for_split(1)[OF inv j, OF x] R(3) by (cases R) auto
  define q0 where "q0 = \<lparr>mem_blocks = x, mem_status = QUAD_BLOCK_AVAILABLE AND NOT 1\<rparr>"
  have q0: "mem_blocks q0 = x" "mem_status q0 = QUAD_BLOCK_AVAILABLE AND NOT 1" "bit (mem_status q0) b \<longleftrightarrow> b < 4 \<and> b \<noteq> 0" for b
    unfolding q0_def using bit_split[of b] by simp_all
  let ?s = "bsize p (Suc j)"
  let ?f = "\<lambda>qs. qs[length (quads p (Suc j)) := q0]" and ?Q = "quads p (Suc j) @ [q0]"
  let ?p = "upd_quads p (Suc j) ?f" and ?U = "U(j := U j - {x}, Suc j := insert x (U (Suc j)))"
  have e: "add_quad p (Suc j) (length (quads p (Suc j))) x = Some ?p"
    using room_for_split(1)[OF inv j, OF x] unfolding q0_def by (simp add: add_quad_def entries_def)
  have f: "?f (quad_block (block_set p ! Suc j)) = ?Q @ R'" by (simp add: R(1) R')
  have sz: "bsize p j = 4 * ?s" using inv j by (simp add: pool_inv_def pool_shape_def)
  have xv: "x \<in> valid_blocks p j" using D(6) x by blast
  have ok: "quads_ok (bufblock p) ?s ?Q"
    using D'(4) valid_nonnull[OF inv jn, OF xv] valid_grid[OF inv jn, OF xv] room_for_split(2)[OF inv j, OF x]
    by (auto simp: quads_ok_def sz bases_def q0(1,3))
  have lR: "length ?Q + length R' = entries p (Suc j)" "\<forall>q \<in> set R'. mem_blocks q = NULL" using R R' by simp_all
  note r = replace_quads(1)[where f = ?f, OF inv j f lR(2,1) ok]
  have lay: "same_layout p ?p" by (rule upd_quads_layout)
  note b = layoutD[OF lay] and q = quads_ok_split[OF ok]
  have xq: "x \<in> quad_blocks ?s q0" by (auto simp: quad_blocks_def q0(1))
  have new: "free_of ?p (Suc j) = free_of p (Suc j) \<union> (quad_blocks ?s q0 - {x})" "valid_blocks ?p (Suc j) = valid_blocks p (Suc j) \<union> quad_blocks ?s q0"
    "split_blocks ?p (Suc j) = split_blocks p (Suc j)"
    using quad_free_split[OF D'(7) q0(2)] by (simp_all add: q0(1) r b valid_blocks_def split_blocks_def Un_commute)
  have old: "valid_blocks p (Suc j) \<inter> quad_blocks ?s q0 = {}" using q(2) by (simp add: valid_blocks_def Int_commute)
  have up: "free_of ?p j = free_of p j" "valid_blocks ?p j = valid_blocks p j" "split_blocks ?p j = insert x (split_blocks p j)"
    unfolding valid_blocks_def split_blocks_def r b using j by (simp_all add: q0(1))
  have "accounted ?p ?U (Suc j)" using D'(2) old xq unfolding accounted_def new by auto
  moreover have "accounted ?p ?U j" using D(2) x unfolding accounted_def up by auto
  ultimately have "pool_inv ?p ?U" by (intro replace_inv[where f = ?f, OF inv j f lR(2,1) ok]) auto
  moreover have "x \<notin> U (Suc j)" using D'(6) old xq by blast
  ultimately show ?thesis using e lay r by simp
qed

text \<open>Freeing a block in use.\<close>

lemma free_step:
  assumes inv: "pool_inv p U" and j: "j < nr_of_block_sets p" and x: "x \<in> U j"
  shows "\<exists>p'. free_existing_block x p j = Some p' \<and> same_layout p p' \<and> (\<forall>l. l \<noteq> j \<longrightarrow> quads p' l = quads p l) \<and>
    pool_inv p' (U(j := U j - {x}))"
proof -
  note D = pool_invD[OF inv j]
  obtain R where R: "quad_block (block_set p ! j) = quads p j @ R" "\<forall>q \<in> set R. mem_blocks q = NULL"
    "entries p j = length (quads p j) + length R" using D(1) by (elim set_array) simp
  obtain Q' where g: "free_in_quads x (bsize p j) (quads p j @ R) = Some (Q' @ R)" "length Q' = length (quads p j)"
    "quads_ok (bufblock p) (bsize p j) Q'" "blocks (bsize p j) Q' = blocks (bsize p j) (quads p j)"
    "bases Q' = bases (quads p j)" "free_blocks (bsize p j) Q' = insert x (free_of p j)"
    using free_in_quads_spec[OF D(4), of x R] D(5,6) x by blast
  let ?p = "upd_quads p j (\<lambda>_. Q' @ R)" and ?U = "U(j := U j - {x})"
  have e: "free_existing_block x p j = Some ?p" using g(1) R(1) by (simp add: free_existing_block_def bsize_def)
  have fin: "length Q' + length R = entries p j" using g(2) R(3) by simp
  note r = replace_quads(1)[where f = "\<lambda>_. Q' @ R", OF inv j refl R(2) fin g(3)]
  have lay: "same_layout p ?p" by (rule upd_quads_layout)
  note b = layoutD[OF lay]
  have v: "valid_blocks ?p = valid_blocks p" "split_blocks ?p = split_blocks p"
    using g(4,5) by (auto simp: valid_blocks_def split_blocks_def b r fun_eq_iff)
  have fr: "free_of ?p l = (if l = j then insert x (free_of p j) else free_of p l)" for l by (simp add: b r g(6))
  have "accounted ?p ?U j" using D(2) x unfolding accounted_def v fr by auto
  moreover have "accounted ?p ?U (j - 1)" if "0 < j"
    using pool_invD(2)[OF inv, of "j - 1"] that j unfolding accounted_def v fr by auto
  ultimately have "pool_inv ?p ?U" using g(4) by (intro replace_inv[OF inv j refl R(2) fin g(3)]) auto
  then show ?thesis using e lay r by auto
qed

text \<open>Deleting a quad-block of four free blocks: their space is a block in use of the next larger set.\<close>

lemma blocks_mset: "mset Q = mset Q' \<Longrightarrow> blocks sz Q = blocks sz Q' \<and> free_blocks sz Q = free_blocks sz Q' \<and> bases Q = bases Q'"
  by (auto dest!: mset_eq_setD simp: blocks_def free_blocks_def bases_def)

lemma quads_ok_mset: "mset Q = mset Q' \<Longrightarrow> quads_ok buf sz Q \<longleftrightarrow> quads_ok buf sz Q'"
proof -
  assume m: "mset Q = mset Q'"
  then have "mset (map mem_blocks Q) = mset (map mem_blocks Q')" by simp
  then have "distinct (map mem_blocks Q) \<longleftrightarrow> distinct (map mem_blocks Q')" by (metis mset_eq_imp_distinct_iff)
  then show ?thesis using mset_eq_setD[OF m] by (simp add: quads_ok_def)
qed

lemma take_out:
  assumes "F \<union> V \<union> S = A \<union> B" "F = A \<union> G" "A \<inter> B = {}" "G \<subseteq> B" "F \<inter> V = {}" "F \<inter> S = {}"
  shows "G \<union> V \<union> S = B" "G \<inter> V = {}" "G \<inter> S = {}"
proof -
  show "G \<inter> V = {}" "G \<inter> S = {}" using assms(2,5,6) by blast+
  have "V \<inter> A = {}" "S \<inter> A = {}" using assms(2,5,6) by blast+
  moreover have "V \<subseteq> A \<union> B" "S \<subseteq> A \<union> B" "B \<subseteq> F \<union> V \<union> S" using assms(1) by blast+
  ultimately show "G \<union> V \<union> S = B" using assms(2-4) by blast
qed

lemma delete_step:
  assumes inv: "pool_inv p U" and j: "Suc j < nr_of_block_sets p" and i: "i < length (quads p (Suc j))"
    and st: "mem_status (quads p (Suc j) ! i) = QUAD_BLOCK_AVAILABLE"
  defines "p' \<equiv> upd_quads p (Suc j) (delete_quad (entries p (Suc j)) i)" and "a \<equiv> mem_blocks (quads p (Suc j) ! i)"
  shows "pool_inv p' (U(j := insert a (U j))) \<and> a \<notin> U j \<and> length (quads p' (Suc j)) < length (quads p (Suc j)) \<and>
    i \<le> length (quads p' (Suc j)) \<and> take i (quads p' (Suc j)) = take i (quads p (Suc j)) \<and> (\<forall>l. l \<noteq> Suc j \<longrightarrow> quads p' l = quads p l)"
proof -
  have jn: "j < nr_of_block_sets p" using j by simp
  note D = pool_invD[OF inv jn] and D' = pool_invD[OF inv j]
  let ?q = "quads p (Suc j) ! i" and ?s = "bsize p (Suc j)" and ?U = "U(j := insert a (U j))"
  obtain R where R: "quad_block (block_set p ! Suc j) = quads p (Suc j) @ R" "\<forall>q \<in> set R. mem_blocks q = NULL"
    "\<forall>q \<in> set (quads p (Suc j)). mem_blocks q \<noteq> NULL"
    "entries p (Suc j) = length (quads p (Suc j)) + length R" using D'(1) by (elim set_array) simp
  obtain Q' r us vs where d: "delete_quad (entries p (Suc j)) i (quads p (Suc j) @ R) = Q' @ r # R" "mem_blocks r = NULL"
    "length (quads p (Suc j)) = length Q' + 1" "take i Q' = take i (quads p (Suc j))" "quads p (Suc j) = us @ ?q # vs" "mset Q' = mset (us @ vs)"
    using delete_quad_spec[OF R(3,2,4) i] by blast
  have ok0: "quads_ok (bufblock p) ?s (us @ ?q # vs)" using D'(4) d(5) by simp
  note sp = quads_ok_split[OF ok0] and m = blocks_mset[OF d(6), of ?s]
  have ok: "quads_ok (bufblock p) ?s Q'" using sp(1) quads_ok_mset[OF d(6)] by blast
  have f: "delete_quad (entries p (Suc j)) i (quad_block (block_set p ! Suc j)) = Q' @ r # R" using d(1) R(1) by simp
  have lR: "length Q' + length (r # R) = entries p (Suc j)" "\<forall>q \<in> set (r # R). mem_blocks q = NULL" using d(2,3) R(2,4) by simp_all
  note r = replace_quads(1)[where f = "delete_quad (entries p (Suc j)) i", OF inv j f lR(2,1) ok, folded p'_def]
  have lay: "same_layout p p'" unfolding p'_def by (rule upd_quads_layout)
  note b = layoutD[OF lay]
  have Q: "blocks ?s (quads p (Suc j)) = quad_blocks ?s ?q \<union> blocks ?s Q'" "free_of p (Suc j) = quad_blocks ?s ?q \<union> free_blocks ?s Q'"
    "bases (quads p (Suc j)) = insert a (bases Q')" "a \<notin> bases Q'" "quad_blocks ?s ?q \<inter> blocks ?s Q' = {}"
    using arg_cong[OF d(5), of "blocks ?s"] arg_cong[OF d(5), of "free_blocks ?s"] arg_cong[OF d(5), of bases] m sp(2,3)
      quad_all_free[OF st, of ?s] by (simp_all add: a_def)
  have v: "valid_blocks p (Suc j) = quad_blocks ?s ?q \<union> blocks ?s Q'" "valid_blocks p' (Suc j) = blocks ?s Q'"
    "split_blocks p' (Suc j) = split_blocks p (Suc j)" "free_of p' (Suc j) = free_blocks ?s Q'"
    using Q(1) by (simp_all add: valid_blocks_def split_blocks_def b r)
  have "accounted p' ?U (Suc j)"
    using D'(2) take_out[OF _ Q(2,5) free_subset, of "U (Suc j)" "split_blocks p (Suc j)"] unfolding accounted_def v by simp
  moreover have aj: "accounted p' ?U j" "a \<notin> U j" using D(2) j Q(3,4)
    unfolding accounted_def valid_blocks_def split_blocks_def b r by auto
  ultimately have "pool_inv p' ?U" unfolding p'_def
    by (intro replace_inv[where f = "delete_quad (entries p (Suc j)) i", OF inv j f lR(2,1) ok]) (auto simp: p'_def)
  then show ?thesis using aj(2) r d(3,4) i by simp
qed

text \<open>Updates of different sets commute, so deleting may come first.\<close>

lemma upd_quads_commute: "l \<noteq> j \<Longrightarrow> upd_quads (upd_quads p l f) j g = upd_quads (upd_quads p j g) l f"
  by (cases "l < length (block_set p)"; cases "j < length (block_set p)")
    (simp_all add: upd_quads_def list_update_swap list_update_beyond nth_list_update)

lemma free_commute:
  assumes "l \<noteq> j"
  shows "free_existing_block x (upd_quads p j g) l = map_option (\<lambda>p1. upd_quads p1 j g) (free_existing_block x p l)"
proof -
  have "block_set (upd_quads p j g) ! l = block_set p ! l" using assms by (simp add: upd_quads_def)
  then show ?thesis using upd_quads_commute[of j l p] assms by (simp add: free_existing_block_def split: option.splits)
qed

lemma merge_step:
  assumes "pool_inv p U" "Suc j < nr_of_block_sets p" "i < length (quads p (Suc j))"
    "mem_status (quads p (Suc j) ! i) = QUAD_BLOCK_AVAILABLE"
  shows "\<exists>p1. free_existing_block (mem_blocks (quads p (Suc j) ! i)) p j = Some p1 \<and>
    (let p2 = upd_quads p1 (Suc j) (delete_quad (entries p (Suc j)) i)
     in pool_inv p2 U \<and> same_layout p p2 \<and> length (quads p2 (Suc j)) < length (quads p (Suc j)) \<and>
        i \<le> length (quads p2 (Suc j)) \<and> take i (quads p2 (Suc j)) = take i (quads p (Suc j)) \<and> (\<forall>l. l \<noteq> j \<longrightarrow> l \<noteq> Suc j \<longrightarrow> quads p2 l = quads p l))"
proof -
  let ?a = "mem_blocks (quads p (Suc j) ! i)" and ?g = "delete_quad (entries p (Suc j)) i"
  let ?p = "upd_quads p (Suc j) ?g"
  note d = delete_step[OF assms]
  have lay: "same_layout p ?p" by (rule upd_quads_layout)
  obtain p2 where f: "free_existing_block ?a ?p j = Some p2" "same_layout ?p p2" "\<forall>l. l \<noteq> j \<longrightarrow> quads p2 l = quads ?p l"
    "pool_inv p2 ((U(j := insert ?a (U j)))(j := insert ?a (U j) - {?a}))"
    using free_step[of ?p "U(j := insert ?a (U j))" j ?a] d assms(2) layoutD[OF lay] by auto
  have "(U(j := insert ?a (U j)))(j := insert ?a (U j) - {?a}) = U" using d by auto
  moreover obtain p1 where "free_existing_block ?a p j = Some p1" "p2 = upd_quads p1 (Suc j) ?g"
    using f(1) free_commute[of j "Suc j" ?a p ?g] by auto
  ultimately show ?thesis using f d same_layout_trans[OF lay f(2)] by (auto simp: Let_def)
qed

end
