(* ===== verification/Pool_Operations.thy ===== *)
theory Pool_Operations
  imports Pool_Accounts
begin

text \<open>
  The algorithms of a memory pool: defragmentation merges all it can and ends, the recursive search
  returns a block that was not in use or finds that there is none, blocks in use never overlap, a pool
  as defined and initialised has all its memory free, and freed memory is offered to the waiting
  threads.
\<close>

section \<open>Defragmentation\<close>

definition merged :: "k_mem_pool \<Rightarrow> nat \<Rightarrow> bool" where
  "merged p j \<longleftrightarrow> (\<forall>q \<in> set (quads p j). mem_status q \<noteq> QUAD_BLOCK_AVAILABLE)"

lemma defrag_set_ok:
  assumes "pool_inv p U" "Suc j < nr_of_block_sets p" "i \<le> length (quads p (Suc j))" "i < entries p (Suc j)"
    "length (quads p (Suc j)) - i < fuel" "\<forall>q \<in> set (take i (quads p (Suc j))). mem_status q \<noteq> QUAD_BLOCK_AVAILABLE"
  shows "\<exists>p'. defrag_set fuel p (Suc j) i = Some p' \<and> same_layout p p' \<and> pool_inv p' U \<and>
    (\<forall>l. l \<noteq> j \<longrightarrow> l \<noteq> Suc j \<longrightarrow> quads p' l = quads p l) \<and> merged p' (Suc j)"
  using assms
proof (induction fuel arbitrary: p i)
  case (Suc fuel)
  note inv = Suc.prems(1) and j = Suc.prems(2)
  let ?q = "quad_block (block_set p ! Suc j) ! i"
  obtain R where R: "quad_block (block_set p ! Suc j) = quads p (Suc j) @ R" "\<forall>q \<in> set R. mem_blocks q = NULL"
    "\<forall>q \<in> set (quads p (Suc j)). mem_blocks q \<noteq> NULL"
    "entries p (Suc j) = length (quads p (Suc j)) + length R" using pool_invD(1)[OF inv j] by (elim set_array) simp
  have e: "nr_of_entries (block_set p ! Suc j) = entries p (Suc j)" by (simp add: entries_def)
  have l: "\<not> length (quad_block (block_set p ! Suc j)) \<le> i" using R Suc.prems(4) by simp
  note d = defrag_set.simps(2)[of fuel p "Suc j" i, unfolded Let_def e]
  show ?case
  proof (cases "i < length (quads p (Suc j))")
    case False
    then have i: "i = length (quads p (Suc j))" using Suc.prems(3) by simp
    then have "?q \<in> set R" using R(1,4) Suc.prems(4) by (simp add: nth_append)
    then show ?thesis using d l R(2) inv Suc.prems(6) i by (simp add: merged_def)
  next
    case True
    have q: "?q = quads p (Suc j) ! i" using True by (simp add: R(1) nth_append)
    then have nn: "mem_blocks ?q \<noteq> NULL" using R(3) True by simp
    show ?thesis
    proof (cases "mem_status ?q = QUAD_BLOCK_AVAILABLE")
      case av: True
      let ?g = "\<lambda>p1. upd_quads p1 (Suc j) (delete_quad (entries p (Suc j)) i)"
      obtain p1 where m: "free_existing_block (mem_blocks ?q) p j = Some p1" "pool_inv (?g p1) U" "same_layout p (?g p1)"
        "length (quads (?g p1) (Suc j)) < length (quads p (Suc j))" "i \<le> length (quads (?g p1) (Suc j))"
        "take i (quads (?g p1) (Suc j)) = take i (quads p (Suc j))" "\<forall>l. l \<noteq> j \<longrightarrow> l \<noteq> Suc j \<longrightarrow> quads (?g p1) l = quads p l"
        using merge_step[OF inv j True] av q by (auto simp: Let_def)
      have "defrag_set (Suc fuel) p (Suc j) i = defrag_set fuel (?g p1) (Suc j) i"
        using d l nn av m(1) Suc.prems(4) by simp
      moreover have "length (quads (?g p1) (Suc j)) - i < fuel" using m(4,5) Suc.prems(5) True by linarith
      then obtain p' where "defrag_set fuel (?g p1) (Suc j) i = Some p'" "same_layout (?g p1) p'" "pool_inv p' U"
        "\<forall>l. l \<noteq> j \<longrightarrow> l \<noteq> Suc j \<longrightarrow> quads p' l = quads (?g p1) l" "merged p' (Suc j)"
        using Suc.IH[OF m(2), of i] Suc.prems(2,4,6) layoutD[OF m(3)] m(4-6) by auto
      ultimately show ?thesis using same_layout_trans[OF m(3)] m(7) by auto
    next
      case na: False
      have t: "\<forall>q \<in> set (take (Suc i) (quads p (Suc j))). mem_status q \<noteq> QUAD_BLOCK_AVAILABLE"
        using Suc.prems(6) na True q by (auto simp: take_Suc_conv_app_nth)
      show ?thesis
      proof (cases "i + 1 < entries p (Suc j)")
        case True
        then show ?thesis using d l nn na Suc.IH[OF inv j, of "i + 1"] \<open>i < length (quads p (Suc j))\<close> Suc.prems(5) t by simp
      next
        case False
        then have "Suc i = length (quads p (Suc j))" using True Suc.prems(4) R(4) by simp
        then show ?thesis using d l nn na inv False t by (simp add: merged_def)
      qed
    qed
  qed
qed simp

lemma defrag_ok:
  assumes "pool_inv p U" "j < nr_of_block_sets p"
  shows "\<exists>p'. defrag p j last_index = Some p' \<and> same_layout p p' \<and> pool_inv p' U \<and>
    (\<forall>l. l < last_index \<or> j < l \<longrightarrow> quads p' l = quads p l) \<and> (\<forall>l. last_index < l \<and> l \<le> j \<longrightarrow> merged p' l)"
  unfolding defrag_def using assms
proof (induction j arbitrary: p)
  case 0
  then show ?case by (subst defrag_sets.simps) simp
next
  case (Suc j)
  show ?case
  proof (cases "last_index < Suc j")
    case False
    then show ?thesis using Suc.prems by (subst defrag_sets.simps) auto
  next
    case True
    have len: "length (quads p (Suc j)) \<le> entries p (Suc j)" "0 < entries p (Suc j)"
      using pool_invD(1)[OF Suc.prems] by (elim set_array, simp, simp add: set_ok_def)
    obtain p1 where p1: "defrag_set (2 * entries p (Suc j) + 1) p (Suc j) 0 = Some p1" "same_layout p p1" "pool_inv p1 U"
      "\<forall>l. l \<noteq> j \<longrightarrow> l \<noteq> Suc j \<longrightarrow> quads p1 l = quads p l" "merged p1 (Suc j)"
      using defrag_set_ok[OF Suc.prems, of 0 "2 * entries p (Suc j) + 1"] len by auto
    obtain p2 where p2: "defrag_sets p1 j last_index = Some p2" "same_layout p1 p2" "pool_inv p2 U"
      "\<forall>l. l < last_index \<or> j < l \<longrightarrow> quads p2 l = quads p1 l" "\<forall>l. last_index < l \<and> l \<le> j \<longrightarrow> merged p2 l"
      using Suc.IH[OF p1(3)] Suc.prems(2) layoutD[OF p1(2)] by auto
    have "defrag_sets p (Suc j) last_index = Some p2"
      using p1(1) p2(1) True by (subst defrag_sets.simps) (simp add: entries_def)
    moreover have "merged p2 (Suc j)" using p1(5) p2(4) by (simp add: merged_def)
    ultimately show ?thesis using p2 p1(4) same_layout_trans[OF p1(2) p2(2)] True by (auto simp: le_Suc_eq)
  qed
qed

text \<open>When no block is in use, merging leaves no quad-block behind.\<close>

lemma all_free_status:
  assumes ok: "quads_ok buf sz Q" and f: "free_blocks sz Q = blocks sz Q" and q: "q \<in> set Q"
  shows "mem_status q = QUAD_BLOCK_AVAILABLE"
proof (rule bit_eqI)
  fix b
  show "bit (mem_status q) b \<longleftrightarrow> bit QUAD_BLOCK_AVAILABLE b"
  proof (cases "b < 4")
    case True
    then have "mem_blocks q + b * sz \<in> free_blocks sz Q" using f q by (auto simp: blocks_def quad_blocks_def)
    then obtain r d where "r \<in> set Q" "d < 4" "bit (mem_status r) d" "mem_blocks q + b * sz = mem_blocks r + d * sz"
      by (auto simp: free_blocks_def quad_free_def)
    then show ?thesis using blocks_inj[OF ok q, of r b d] True by (auto simp: bit_available)
  next
    case False
    then show ?thesis using quads_okD(3)[OF ok q, of b] by (simp add: bit_available)
  qed
qed

lemma all_merged:
  assumes inv: "pool_inv p U" and U: "\<forall>i. U i = {}" and m: "\<forall>l. 0 < l \<and> l < nr_of_block_sets p \<longrightarrow> merged p l"
  shows "0 < l \<Longrightarrow> l < nr_of_block_sets p \<Longrightarrow> quads p l = []"
proof (induction "nr_of_block_sets p - l" arbitrary: l rule: less_induct)
  case less
  note D = pool_invD[OF inv less.prems(2)]
  have "split_blocks p l = {}" using less.hyps[of "Suc l"] less.prems by (auto simp: split_blocks_def)
  then have "free_of p l = blocks (bsize p l) (quads p l)" using D(2) U less.prems(1) by (simp add: accounted_def valid_blocks_def)
  then have "mem_status q = QUAD_BLOCK_AVAILABLE" if "q \<in> set (quads p l)" for q using all_free_status[OF D(4) _ that] by blast
  then have "q \<notin> set (quads p l)" for q using m less.prems by (auto simp: merged_def)
  then show ?case by (cases "quads p l") auto
qed

section \<open>Finding a block\<close>

text \<open>
  What \<^verbatim>\<open>get_block_recursive\<close> returns: a block of the set it was asked for, which is in use from now on, or null,
  and then there is no free block in that set or in those of larger blocks.
\<close>

definition block_found :: "nat \<Rightarrow> (nat \<Rightarrow> addr set) \<Rightarrow> addr \<times> k_mem_pool \<Rightarrow> bool" where
  "block_found j U = (\<lambda>(r, p).
     if r = NULL then pool_inv p U \<and> (\<forall>l \<le> j. free_of p l = {})
     else r \<notin> U j \<and> pool_inv p (U(j := insert r (U j))))"

lemma split_found:
  assumes "j < nr_of_block_sets p" "pool_inv p U" "free_of p j = {}" "block_found (j - 1) U (r, p3)" "same_layout p p3"
    "\<forall>l \<ge> j. quads p3 l = quads p l" "j = 0 \<Longrightarrow> r = NULL"
  shows "if r = NULL then block_found j U (NULL, p3)
    else \<exists>p4. add_quad p3 j (length (quads p j)) r = Some p4 \<and> same_layout p p4 \<and> (\<forall>l > j. quads p4 l = quads p l) \<and>
      block_found j U (r, p4)"
proof (cases "r = NULL")
  case True
  have "free_of p3 j = {}" using assms(3,5,6) by (simp add: layoutD[OF assms(5)])
  moreover have "l \<le> j \<longleftrightarrow> l = j \<or> l \<le> j - 1" for l by auto
  ultimately show ?thesis using True assms(4) by (auto simp: block_found_def)
next
  case False
  then obtain i where i: "j = Suc i" using assms(7) by (cases j) auto
  have r: "r \<notin> U i" "pool_inv p3 (U(i := insert r (U i)))" using assms(4) False i by (auto simp: block_found_def)
  obtain p4 where "add_quad p3 j (length (quads p j)) r = Some p4" "same_layout p3 p4" "\<forall>l. l \<noteq> j \<longrightarrow> quads p4 l = quads p3 l"
    "r \<notin> U j" "pool_inv p4 ((U(i := insert r (U i)))(i := insert r (U i) - {r}, j := insert r (U j)))"
    using add_quad_step[OF r(2), of i r] assms(1,6) layoutD[OF assms(5)] i by auto
  moreover have "(U(i := insert r (U i)))(i := insert r (U i) - {r}, j := insert r (U j)) = U(j := insert r (U j))"
    using r(1) by auto
  ultimately show ?thesis using False assms(6) same_layout_trans[OF assms(5)] by (auto simp: block_found_def)
qed

lemma get_block_below:
  assumes "pool_inv p U" "int m - 1 < start" "m \<le> nr_of_block_sets p"
  shows "\<exists>r p'. get_block_recursive pol p (int m - 1) start = Some (r, p') \<and> same_layout p p' \<and>
    (\<forall>l \<ge> m. quads p' l = quads p l) \<and> (if m = 0 then r = NULL \<and> p' = p else block_found (m - 1) U (r, p'))"
  using assms
proof (induction m arbitrary: p)
  case 0
  then show ?case by (subst get_block_recursive.simps) simp
next
  case (Suc m)
  have m: "m < nr_of_block_sets p" using Suc.prems(3) by simp
  obtain found i p1 where g: "get_from_set p m = (found, i, p1)" "same_layout p p1" "\<forall>l. l \<noteq> m \<longrightarrow> quads p1 l = quads p l"
    "if found = NULL then p1 = p \<and> i = length (quads p m) \<and> free_of p m = {}
     else found \<in> valid_blocks p m - U m \<and> pool_inv p1 (U(m := insert found (U m)))"
    using get_from_set_step[OF Suc.prems(1) m] by blast
  show ?case
  proof (cases "found = NULL")
    case False
    then show ?thesis using g by (subst get_block_recursive.simps) (auto simp: block_found_def)
  next
    case True
    obtain r p3 where IH: "get_block_recursive pol p (int m - 1) start = Some (r, p3)" "same_layout p p3"
      "\<forall>l \<ge> m. quads p3 l = quads p l" "if m = 0 then r = NULL \<and> p3 = p else block_found (m - 1) U (r, p3)"
      using Suc.IH[OF Suc.prems(1)] Suc.prems(2,3) by auto
    have e: "get_block_recursive pol p (int (Suc m) - 1) start =
        (if r \<noteq> NULL then map_option (\<lambda>p4. (r, p4)) (add_quad p3 m (length (quads p m)) r) else Some (NULL, p3))"
      using g True IH(1) Suc.prems(2) by (subst get_block_recursive.simps) simp
    have "block_found (m - 1) U (r, p3)" using IH(4) g(4) True Suc.prems(1) by (auto simp: block_found_def split: if_splits)
    then have "if r = NULL then block_found m U (NULL, p3)
      else \<exists>p4. add_quad p3 m (length (quads p m)) r = Some p4 \<and> same_layout p p4 \<and> (\<forall>l > m. quads p4 l = quads p l) \<and> block_found m U (r, p4)"
      using split_found[OF m Suc.prems(1)] g(4) True IH by (metis (full_types))
    then show ?thesis unfolding e using IH(2,3) by (auto split: if_splits)
  qed
qed

lemma defrag_retry_ok:
  assumes inv: "pool_inv p U" and j: "j < nr_of_block_sets p"
  shows "\<exists>found i p'. defrag_and_retry p j = Some (found, i, p') \<and> same_layout p p' \<and>
    (if found = NULL then i = length (quads p' j) \<and> pool_inv p' U \<and> free_of p' j = {} \<and> (\<forall>l < j. quads p' l = quads p l)
     else block_found j U (found, p'))"
proof -
  have "nr_of_block_sets p - 1 < nr_of_block_sets p" using j by simp
  then obtain p1 where p1: "defrag p (nr_of_block_sets p - 1) j = Some p1" "same_layout p p1" "pool_inv p1 U"
    "\<forall>l. l < j \<or> nr_of_block_sets p - 1 < l \<longrightarrow> quads p1 l = quads p l" using defrag_ok[OF inv] by blast
  note b = layoutD[OF p1(2)]
  obtain found i p2 where g: "get_from_set p1 j = (found, i, p2)" "same_layout p1 p2"
    "if found = NULL then p2 = p1 \<and> i = length (quads p1 j) \<and> free_of p1 j = {}
     else found \<in> valid_blocks p1 j - U j \<and> pool_inv p2 (U(j := insert found (U j)))"
    using get_from_set_step[OF p1(3)] j b by metis
  then show ?thesis using p1 same_layout_trans[OF p1(2) g(2)]
    by (auto simp: defrag_and_retry_def block_found_def split: if_splits)
qed

lemma split_or_fail:
  assumes inv: "pool_inv p U" and j: "j < nr_of_block_sets p" and f: "free_of p j = {}"
  obtains r p3 where "get_block_recursive pol p (int j - 1) (int j) = Some (r, p3)" "same_layout p p3"
    "if r = NULL then block_found j U (NULL, p3)
     else \<exists>p4. add_quad p3 j (length (quads p j)) r = Some p4 \<and> same_layout p p4 \<and> block_found j U (r, p4)"
proof -
  obtain r p3 where IH: "get_block_recursive pol p (int j - 1) (int j) = Some (r, p3)" "same_layout p p3"
    "\<forall>l \<ge> j. quads p3 l = quads p l" "if j = 0 then r = NULL \<and> p3 = p else block_found (j - 1) U (r, p3)"
    using get_block_below[OF inv, of j "int j" pol] j by auto
  have "block_found (j - 1) U (r, p3)" using IH(4) f inv by (auto simp: block_found_def split: if_splits)
  from split_found[OF j inv f this IH(2,3)] IH(4) show thesis by (intro that[OF IH(1,2)]) (auto split: if_splits)
qed

lemma get_block_ok:
  assumes inv: "pool_inv p U" and j: "j < nr_of_block_sets p"
  shows "\<exists>r p'. get_block_recursive pol p (int j) (int j) = Some (r, p') \<and> same_layout p p' \<and> block_found j U (r, p')"
proof -
  obtain found i p1 where g: "get_from_set p j = (found, i, p1)" "same_layout p p1"
    "if found = NULL then p1 = p \<and> i = length (quads p j) \<and> free_of p j = {}
     else found \<in> valid_blocks p j - U j \<and> pool_inv p1 (U(j := insert found (U j)))"
    using get_from_set_step[OF inv j] by blast
  show ?thesis
  proof (cases "found = NULL")
    case False
    then show ?thesis using g by (subst get_block_recursive.simps) (auto simp: block_found_def)
  next
    case True
    then have g1: "p1 = p" "i = length (quads p j)" "free_of p j = {}" using g(3) by simp_all
    obtain found2 i2 p2 where d: "(if pol = DefragBeforeSplit then defrag_and_retry p j else Some (NULL, i, p)) = Some (found2, i2, p2)"
      "same_layout p p2" "if found2 = NULL then i2 = length (quads p2 j) \<and> pool_inv p2 U \<and> free_of p2 j = {} else block_found j U (found2, p2)"
      using defrag_retry_ok[OF inv j] g1 inv by (cases "pol = DefragBeforeSplit") (auto split: if_splits)
    have e: "get_block_recursive pol p (int j) (int j) = (if found2 \<noteq> NULL then Some (found2, p2)
      else case get_block_recursive pol p2 (int j - 1) (int j) of None \<Rightarrow> None
        | Some (larger_block, p3) \<Rightarrow>
            if larger_block \<noteq> NULL then map_option (\<lambda>p4. (larger_block, p4)) (add_quad p3 j i2 larger_block)
            else if pol = SplitBeforeDefrag then map_option (\<lambda>(found4, i4, p4). (found4, p4)) (defrag_and_retry p3 j)
            else Some (NULL, p3))"
      using d(1) g(1) g1(1) True
      by (subst get_block_recursive.simps) (simp cong: option.case_cong prod.case_cong if_cong split: if_split_asm)
    show ?thesis
    proof (cases "found2 = NULL")
      case False
      then show ?thesis unfolding e using d by auto
    next
      case n2: True
      then have p2: "i2 = length (quads p2 j)" "pool_inv p2 U" "free_of p2 j = {}" using d(3) by simp_all
      have j2: "j < nr_of_block_sets p2" using j layoutD[OF d(2)] by simp
      obtain r p3 where r: "get_block_recursive pol p2 (int j - 1) (int j) = Some (r, p3)" "same_layout p2 p3"
        "if r = NULL then block_found j U (NULL, p3)
         else \<exists>p4. add_quad p3 j (length (quads p2 j)) r = Some p4 \<and> same_layout p2 p4 \<and> block_found j U (r, p4)"
        by (rule split_or_fail[OF p2(2) j2 p2(3)])
      have rest: "\<exists>found4 i4 p4. defrag_and_retry p3 j = Some (found4, i4, p4) \<and> same_layout p3 p4 \<and> block_found j U (found4, p4)"
        if "r = NULL"
      proof -
        have b: "pool_inv p3 U" "\<forall>l \<le> j. free_of p3 l = {}" using r(3) that by (simp_all add: block_found_def)
        have "j < nr_of_block_sets p3" using j2 layoutD[OF r(2)] by simp
        from defrag_retry_ok[OF b(1) this] obtain found4 i4 p4 where
          f: "defrag_and_retry p3 j = Some (found4, i4, p4)" "same_layout p3 p4"
          "if found4 = NULL then pool_inv p4 U \<and> free_of p4 j = {} \<and> (\<forall>l < j. quads p4 l = quads p3 l) else block_found j U (found4, p4)"
          by (metis (full_types))
        have "block_found j U (found4, p4)" using f(3) b(2) layoutD[OF f(2)] by (auto simp: block_found_def le_less split: if_splits)
        then show ?thesis using f by blast
      qed
      show ?thesis unfolding e using n2 r rest p2(1) same_layout_trans[OF d(2)] same_layout_trans[OF same_layout_trans[OF d(2) r(2)]]
        by (cases "r = NULL") auto
    qed
  qed
qed

section \<open>Which set a request is served from\<close>

lemma index_loop_bound:
  "block_set_index_loop d b off = Some r \<Longrightarrow> r \<le> off"
proof -
  have "\<forall>d b off r. block_set_index_loop d b off = Some r \<longrightarrow> r \<le> off"
  proof (intro allI impI)
    fix d b off r assume "block_set_index_loop d b off = Some r"
    then show "r \<le> off"
      by (rule block_set_index_loop.raw_induct[rotated]) (auto split: if_splits, fastforce)
  qed
  then show "block_set_index_loop d b off = Some r \<Longrightarrow> r \<le> off" by blast
qed

lemma signed_in_range: "0 \<le> x \<Longrightarrow> x < 2 ^ 31 \<Longrightarrow> signed_take_bit 31 x = (x :: int)"
  by (simp add: signed_take_bit_int_eq_self)

lemma index_loop_value:
  assumes "d \<le> int (b * 4 ^ k)" "b * 4 ^ k < 2 ^ 31"
  shows "\<exists>m \<le> k. block_set_index_loop d (int b) off = Some (off - int m) \<and> d \<le> int (b * 4 ^ m) \<and> (\<forall>i < m. int (b * 4 ^ i) < d)"
  using assms
proof (induction k arbitrary: b off)
  case 0
  then show ?case by (subst block_set_index_loop.simps) simp
next
  case (Suc k)
  show ?case
  proof (cases "d \<le> int b")
    case True
    then show ?thesis by (subst block_set_index_loop.simps) (auto intro!: exI[of _ 0])
  next
    case False
    have "b * 4 \<le> b * 4 ^ Suc k" by simp
    then have "b * 4 < 2 ^ 31" using Suc.prems(2) by linarith
    then have s: "signed_take_bit 31 (int b * 4) = int (b * 4)" using signed_in_range[of "int (b * 4)"] by simp
    obtain m where m: "m \<le> k" "block_set_index_loop d (int (b * 4)) (off - 1) = Some (off - 1 - int m)"
      "d \<le> int (b * 4 * 4 ^ m)" "\<forall>i < m. int (b * 4 * 4 ^ i) < d"
      using Suc.IH[of "b * 4" "off - 1"] Suc.prems by (auto simp: mult.assoc)
    have "int (b * 4 ^ i) < d" if "i < Suc m" for i using m(4) False that by (cases i) (auto simp: mult.assoc)
    then show ?thesis using m(1-3) False s
      by (intro exI[of _ "Suc m"] conjI) (auto simp: block_set_index_loop.simps[of d "int b" off] mult.assoc)
  qed
qed

lemma set_sizes:
  assumes "pool_shape p" "m < nr_of_block_sets p"
  shows "bsize p (nr_of_block_sets p - 1 - m) = bsize p (nr_of_block_sets p - 1) * 4 ^ m"
  using assms(2)
proof (induction m)
  case (Suc m)
  let ?n = "nr_of_block_sets p"
  have "Suc (?n - 1 - Suc m) = ?n - 1 - m" "?n - 1 - m < ?n" using Suc.prems by auto
  then show ?case using assms(1) Suc unfolding pool_shape_def by (metis Suc_lessD mult.assoc mult.commute power_Suc)
qed simp

section \<open>Blocks do not overlap\<close>

definition region :: "k_mem_pool \<Rightarrow> nat \<Rightarrow> addr \<Rightarrow> addr set" where
  "region p j x = {x..<x + bsize p j}"

lemma grid_disjoint:
  fixes s :: nat
  assumes "x = buf + m * s" "y = buf + n * s" "x \<noteq> y"
  shows "{x..<x + s} \<inter> {y..<y + s} = {}"
proof (cases "m < n")
  case True
  then have "Suc m * s \<le> n * s" by (intro mult_le_mono1) simp
  then show ?thesis using assms by auto
next
  case False
  then have "n < m" using assms by (metis linorder_neqE_nat)
  then have "Suc n * s \<le> m * s" by (intro mult_le_mono1) simp
  then show ?thesis using assms by auto
qed

text \<open>A block of a smaller size lies in a block of any larger size, which is split.\<close>

lemma block_inside:
  assumes inv: "pool_inv p U" and "i < j" "j < nr_of_block_sets p" "y \<in> valid_blocks p j"
  shows "\<exists>z \<in> split_blocks p i. region p j y \<subseteq> region p i z"
  using assms(2-4)
proof (induction j arbitrary: y)
  case (Suc j)
  note D = pool_invD[OF inv Suc.prems(2)]
  have sz: "bsize p j = 4 * bsize p (Suc j)" using inv Suc.prems(2) by (simp add: pool_inv_def pool_shape_def)
  obtain q b where q: "q \<in> set (quads p (Suc j))" "b < 4" "y = mem_blocks q + b * bsize p (Suc j)"
    using D(5) Suc.prems(3) by (auto simp: blocks_def quad_blocks_def)
  have "Suc b * bsize p (Suc j) \<le> 4 * bsize p (Suc j)" using q(2) by (intro mult_le_mono1) simp
  then have r: "region p (Suc j) y \<subseteq> region p j (mem_blocks q)" using q(3) sz by (auto simp: region_def)
  have sp: "mem_blocks q \<in> split_blocks p j" using q(1) Suc.prems(2) by (auto simp: split_blocks_def bases_def)
  show ?case
  proof (cases "i = j")
    case True
    then show ?thesis using r sp by blast
  next
    case False
    have "mem_blocks q \<in> valid_blocks p j" using pool_invD(2)[OF inv, of j] sp Suc.prems(2) unfolding accounted_def by auto
    then show ?thesis using Suc.IH[of "mem_blocks q"] False Suc.prems r by fastforce
  qed
qed simp

lemma in_use_disjoint:
  assumes inv: "pool_inv p U" and j: "i < nr_of_block_sets p" "j < nr_of_block_sets p" and x: "x \<in> U i" "y \<in> U j" "(i, x) \<noteq> (j, y)"
  shows "region p i x \<inter> region p j y = {}"
proof -
  have eq: "region p l x \<inter> region p l z = {}" if "l < nr_of_block_sets p" "x \<in> valid_blocks p l" "z \<in> valid_blocks p l" "x \<noteq> z" for l x z
    using valid_grid[OF inv that(1,2)] valid_grid[OF inv that(1,3)] that(4) grid_disjoint unfolding region_def by metis
  have less: "region p i x \<inter> region p j y = {}"
    if l: "i < j" "j < nr_of_block_sets p" "x \<in> U i" "y \<in> U j" for i j x y
  proof -
    have i: "i < nr_of_block_sets p" using l by simp
    have "y \<in> valid_blocks p j" using pool_invD(6)[OF inv l(2)] l(4) by blast
    then obtain z where z: "z \<in> split_blocks p i" "region p j y \<subseteq> region p i z" using block_inside[OF inv l(1,2)] by blast
    have "z \<in> valid_blocks p i" "z \<noteq> x" "x \<in> valid_blocks p i"
      using pool_invD(2)[OF inv i] z(1) l(3) unfolding accounted_def by blast+
    then show ?thesis using eq[OF i, of x z] z(2) by blast
  qed
  consider "i < j" | "i = j" | "j < i" by linarith
  then show ?thesis
  proof cases
    case 1
    then show ?thesis using less j x by blast
  next
    case 2
    then show ?thesis using eq[of i x y] pool_invD(6)[OF inv j(1)] j x by auto
  next
    case 3
    then show ?thesis using less[of j i y x] j x by blast
  qed
qed

lemma in_buffer:
  assumes inv: "pool_inv p U" and j: "j < nr_of_block_sets p" and x: "x \<in> valid_blocks p j"
  shows "region p j x \<subseteq> {bufblock p..<bufblock p + nr_of_maxblocks p * bsize p 0}"
proof -
  have z: "region p 0 y \<subseteq> {bufblock p..<bufblock p + nr_of_maxblocks p * bsize p 0}" if v: "y \<in> valid_blocks p 0" for y
  proof -
    obtain m where m: "m < nr_of_maxblocks p" "y = bufblock p + m * bsize p 0" using v by (auto simp: valid_blocks_def)
    have "Suc m * bsize p 0 \<le> nr_of_maxblocks p * bsize p 0" using m(1) by (intro mult_le_mono1) simp
    then show ?thesis using m(2) by (auto simp: region_def)
  qed
  show ?thesis
  proof (cases "j = 0")
    case True
    then show ?thesis using z x by simp
  next
    case False
    then obtain y where y: "y \<in> split_blocks p 0" "region p j x \<subseteq> region p 0 y" using block_inside[OF inv _ j x, of 0] by auto
    have "0 < nr_of_block_sets p" using j by simp
    then have "y \<in> valid_blocks p 0" using pool_invD(2)[OF inv, of 0] y(1) unfolding accounted_def by blast
    then show ?thesis using z y(2) by blast
  qed
qed

section \<open>The pool as it is defined and initialised\<close>

lemma build_block_set_sets:
  assumes "0 < min_size" "min_size \<le> s" "s < 4 * min_size"
  shows "length (build_block_set n (s * 4 ^ k) min_size) = Suc k"
    "i \<le> k \<Longrightarrow> build_block_set n (s * 4 ^ k) min_size ! i =
      \<lparr>set_block_size = s * 4 ^ (k - i), nr_of_entries = (n * 4 ^ i + 3) div 4,
       quad_block = replicate ((n * 4 ^ i + 3) div 4) \<lparr>mem_blocks = NULL, mem_status = 0\<rparr>\<rparr>"
proof -
  have e: "(if n mod 4 \<noteq> 0 then n div 4 + 1 else n div 4) = (n + 3) div 4" for n :: nat by presburger
  have "length (build_block_set n (s * 4 ^ k) min_size) = Suc k \<and>
    (\<forall>i \<le> k. build_block_set n (s * 4 ^ k) min_size ! i =
      \<lparr>set_block_size = s * 4 ^ (k - i), nr_of_entries = (n * 4 ^ i + 3) div 4,
       quad_block = replicate ((n * 4 ^ i + 3) div 4) \<lparr>mem_blocks = NULL, mem_status = 0\<rparr>\<rparr>)"
  proof (induction k arbitrary: n)
    case 0
    have "\<not> min_size \<le> s div 4" using assms(3) by presburger
    then show ?case using e[of n] by (subst (1 2) build_block_set.simps) (simp add: Let_def split: if_splits)
  next
    case (Suc k)
    have d: "s * 4 ^ Suc k div 4 = s * 4 ^ k" by simp
    have "s \<le> s * 4 ^ k" by simp
    then have "min_size \<le> s * 4 ^ k" using assms(2) by linarith
    then have b: "build_block_set n (s * 4 ^ Suc k) min_size =
      \<lparr>set_block_size = s * 4 ^ Suc k, nr_of_entries = (n + 3) div 4,
       quad_block = replicate ((n + 3) div 4) \<lparr>mem_blocks = NULL, mem_status = 0\<rparr>\<rparr> # build_block_set (n * 4) (s * 4 ^ k) min_size"
      using assms(1,2) by (subst build_block_set.simps) (simp only: e Let_def d, simp)
    show ?case unfolding b using Suc.IH[of "n * 4"] by (auto simp: less_Suc_eq_0_disj le_Suc_eq nth_Cons mult.assoc split: nat.split)
  qed
  then show "length (build_block_set n (s * 4 ^ k) min_size) = Suc k"
    "i \<le> k \<Longrightarrow> build_block_set n (s * 4 ^ k) min_size ! i =
      \<lparr>set_block_size = s * 4 ^ (k - i), nr_of_entries = (n * 4 ^ i + 3) div 4,
       quad_block = replicate ((n * 4 ^ i + 3) div 4) \<lparr>mem_blocks = NULL, mem_status = 0\<rparr>\<rparr>" by blast+
qed

lemma quads_ok_Cons:
  "quads_ok buf sz Q \<Longrightarrow> 0 < sz \<Longrightarrow> mem_blocks q \<notin> bases Q \<Longrightarrow> mem_blocks q \<noteq> NULL \<Longrightarrow> (\<And>b. b \<ge> 4 \<Longrightarrow> \<not> bit (mem_status q) b) \<Longrightarrow>
     mem_blocks q = buf + m * (4 * sz) \<Longrightarrow> quads_ok buf sz (q # Q)"
  by (auto simp: quads_ok_def bases_def)

lemma init_quads_spec:
  assumes "0 < sz" "mp \<noteq> NULL" "mp = buf + m * (4 * sz)"
  shows "\<exists>Q'. init_quads r sz (length Q) mp (Q @ replicate ((r + 3) div 4) z) = Q @ Q' \<and> length Q' = (r + 3) div 4 \<and>
    free_blocks sz Q' = (\<lambda>b. mp + b * sz) ` {..<r} \<and> quads_ok buf sz Q' \<and> (\<forall>a \<in> bases Q'. mp \<le> a)"
  using assms(2,3)
proof (induction r arbitrary: mp m Q rule: less_induct)
  case (less r)
  consider "r = 0" | "0 < r" "r < 4" | "4 \<le> r" by linarith
  then show ?case
  proof cases
    case 1
    then show ?thesis using assms(1) by (subst init_quads.simps) (simp add: quads_ok_def)
  next
    case 2
    let ?q = "\<lparr>mem_blocks = mp, mem_status = drop_bit (4 - r) QUAD_BLOCK_AVAILABLE\<rparr>"
    have b: "bit (mem_status ?q) b \<longleftrightarrow> b < r" for b using 2 by (auto simp: bit_drop_bit_eq bit_available)
    have "(r + 3) div 4 = 1" using 2 by presburger
    then have "init_quads r sz (length Q) mp (Q @ replicate ((r + 3) div 4) z) = Q @ [?q]" using 2 by (subst init_quads.simps) simp
    moreover have "quads_ok buf sz [?q]"
      using quads_ok_Cons[of buf sz "[]" ?q m] assms(1) less.prems b 2 by (auto simp: quads_ok_def)
    moreover have "{b. b < 4 \<and> bit (mem_status ?q) b} = {..<r}" unfolding b using 2 by auto
    then have "free_blocks sz [?q] = (\<lambda>b. mp + b * sz) ` {..<r}" by (simp add: quad_free_def)
    ultimately show ?thesis using \<open>(r + 3) div 4 = 1\<close> by (intro exI[of _ "[?q]"]) simp
  next
    case 3
    let ?q = "\<lparr>mem_blocks = mp, mem_status = QUAD_BLOCK_AVAILABLE\<rparr>" and ?mp = "mp + sz * 4"
    have l: "(r + 3) div 4 = Suc ((r - 4 + 3) div 4)" using 3 by presburger
    have g: "?mp = buf + (m + 1) * (4 * sz)" using less.prems(2) by (simp add: algebra_simps)
    obtain Q' where IH: "init_quads (r - 4) sz (length (Q @ [?q])) ?mp ((Q @ [?q]) @ replicate ((r - 4 + 3) div 4) z) = (Q @ [?q]) @ Q'"
      "length Q' = (r - 4 + 3) div 4" "free_blocks sz Q' = (\<lambda>b. ?mp + b * sz) ` {..<r - 4}" "quads_ok buf sz Q'" "\<forall>a \<in> bases Q'. ?mp \<le> a"
      using less.IH[of "r - 4" ?mp "m + 1" "Q @ [?q]"] 3 g less.prems(1) by auto
    have i: "init_quads r sz (length Q) mp (Q @ replicate ((r + 3) div 4) z) = Q @ ?q # Q'"
      using IH(1) 3 unfolding l by (subst init_quads.simps) simp
    have "mp \<notin> bases Q'" using IH(5) assms(1) by fastforce
    then have ok: "quads_ok buf sz (?q # Q')"
      using quads_ok_Cons[OF IH(4) assms(1), of ?q m] less.prems bit_available by auto
    have sh: "(\<lambda>b. ?mp + b * sz) ` {..<r - 4} = (\<lambda>b. mp + b * sz) ` {4..<r}"
    proof -
      have "{4..<r} = (+) 4 ` {..<r - 4}" using 3 by (auto simp: image_iff) (metis le_add_diff_inverse diff_less_mono lessThan_iff)
      then show ?thesis by (simp add: image_image algebra_simps)
    qed
    have "free_blocks sz (?q # Q') = (\<lambda>b. mp + b * sz) ` ({..<4} \<union> {4..<r})"
      using IH(3) sh quad_all_free[of ?q sz] by (simp add: quad_blocks_def image_Un)
    moreover have "{..<4} \<union> {4..<r} = {..<r}" using 3 by auto
    ultimately show ?thesis using i ok IH(2,5) l by (intro exI[of _ "?q # Q'"]) fastforce
  qed
qed

lemma init_pool_inv:
  assumes min: "0 < min_size" "min_size \<le> s" "s < 4 * min_size" and n: "0 < n" and buf: "buf \<noteq> NULL"
  shows "pool_inv (fst (init_one_memory_pool (K_MEM_POOL_DEFINE min_size (s * 4 ^ k) n buf w) kn)) (\<lambda>_. {}) \<and>
    free_of (fst (init_one_memory_pool (K_MEM_POOL_DEFINE min_size (s * 4 ^ k) n buf w) kn)) 0 =
      (\<lambda>m. buf + m * (s * 4 ^ k)) ` {..<n} \<and>
    split_blocks (fst (init_one_memory_pool (K_MEM_POOL_DEFINE min_size (s * 4 ^ k) n buf w) kn)) 0 = {}"
proof -
  let ?d = "K_MEM_POOL_DEFINE min_size (s * 4 ^ k) n buf w"
  let ?p = "fst (init_one_memory_pool ?d kn)"
  let ?z = "\<lparr>mem_blocks = NULL, mem_status = 0\<rparr>" and ?e = "\<lambda>i. (n * 4 ^ i + 3) div 4"
  note sets = build_block_set_sets[OF min, where n = n and k = k]
  have p0: "nr_of_block_sets ?d = Suc k" "length (block_set ?d) = Suc k" "bufblock ?d = buf" "nr_of_maxblocks ?d = n"
    "min_block_size ?d = min_size" using sets(1) by (simp_all add: K_MEM_POOL_DEFINE_def Let_def)
  have set: "block_set ?d ! i = \<lparr>set_block_size = s * 4 ^ (k - i), nr_of_entries = ?e i, quad_block = replicate (?e i) ?z\<rparr>" if "i \<le> k" for i
    using sets(2)[OF that] by (simp add: K_MEM_POOL_DEFINE_def Let_def)
  obtain Q where Q: "init_quads n (s * 4 ^ k) 0 buf (replicate (?e 0) ?z) = Q" "length Q = ?e 0"
    "free_blocks (s * 4 ^ k) Q = (\<lambda>b. buf + b * (s * 4 ^ k)) ` {..<n}" "quads_ok buf (s * 4 ^ k) Q"
    using init_quads_spec[of "s * 4 ^ k" buf buf 0 n "[]" ?z] min buf by auto
  have pe: "?p = upd_quads ?d 0 (\<lambda>_. Q)" using Q(1) set[of 0] p0 by (simp add: init_one_memory_pool_def upd_quads_def)
  note lay = layoutD[OF upd_quads_layout[of ?d 0 "\<lambda>_. Q"], folded pe]
  have len: "length (block_set ?p) = Suc k" using p0(2) by (simp add: pe upd_quads_def)
  have mb: "min_block_size ?p = min_size" using p0(5) by (simp add: pe upd_quads_def)
  have qb: "quad_block (block_set ?p ! i) = (if i = 0 then Q else replicate (?e i) ?z)" if "i \<le> k" for i
    using upd_quads_sets(1)[of 0 ?d "\<lambda>_. Q" i] set[OF that] p0 unfolding pe by simp
  have be: "bsize ?p i = s * 4 ^ (k - i)" "entries ?p i = ?e i" if "i \<le> k" for i
    unfolding lay using set[OF that] by (simp_all add: bsize_def entries_def)
  have nn: "\<forall>q \<in> set Q. mem_blocks q \<noteq> NULL" using Q(4) by (simp add: quads_ok_def)
  have qs: "quads ?p i = (if i = 0 then Q else [])" if "i \<le> k" for i
    using qb[OF that] takeWhile_split[OF nn, of "[]"] by (auto simp: quads_def)
  have e0: "0 < ?e i" for i using n by (simp add: div_greater_zero_iff)
  have "set_ok ?p i" if "i \<le> k" for i
    using that be[OF that] qs[OF that] qb[OF that] Q(2,4) e0[of i] min by (auto simp: set_ok_def lay p0 quads_ok_def)
  moreover have "accounted ?p (\<lambda>_. {}) i" if "i \<le> k" for i
    using that be[OF that] qs[OF that] qs[of "Suc i"] be[of 0] Q(3) by (auto simp: accounted_def valid_blocks_def split_blocks_def lay p0)
  moreover have "(n * 4 ^ Suc i + 3) div 4 = n * 4 ^ i" for i by simp
  then have "4 * ((n * 4 ^ j + 3) div 4) \<le> (n * 4 ^ Suc j + 3) div 4" if "0 < j" for j using that by (cases j) auto
  then have "pool_shape ?p"
    using min be len mb by (auto simp: pool_shape_def lay p0 Suc_diff_Suc power_Suc[symmetric] simp del: power_Suc)
  moreover have "valid_blocks ?p 0 \<subseteq> blocks (bsize ?p 0) (quads ?p 0)"
    using be[of 0] qs[of 0] Q(3) free_subset[of "s * 4 ^ k" Q] by (simp add: valid_blocks_def lay p0)
  ultimately show ?thesis using be[of 0] qs[of 0] qs[of 1] Q(3) by (simp add: pool_inv_def split_blocks_def lay p0 less_Suc_eq_le)
qed

section \<open>The operations\<close>

lemma get_block_any:
  assumes inv: "pool_inv p U" and o: "off < int (nr_of_block_sets p)"
  obtains r p' where "get_block_recursive pol p off off = Some (r, p')" "same_layout p p'"
    "if r = NULL then pool_inv p' U \<and> (\<forall>l. int l \<le> off \<longrightarrow> free_of p' l = {})
     else 0 \<le> off \<and> r \<notin> U (nat off) \<and> pool_inv p' (U(nat off := insert r (U (nat off))))"
proof (cases "0 \<le> off")
  case True
  then have n: "nat off < nr_of_block_sets p" "int (nat off) = off" using o by auto
  obtain r p' where r: "get_block_recursive pol p off off = Some (r, p')" "same_layout p p'" "block_found (nat off) U (r, p')"
    using get_block_ok[OF inv n(1), of pol] n(2) by auto
  have "int l \<le> off \<longleftrightarrow> l \<le> nat off" for l using True by auto
  then show thesis using that[OF r(1,2)] r(3) True by (simp add: block_found_def split: if_splits)
next
  case False
  then have "get_block_recursive pol p off off = Some (NULL, p)" by (subst get_block_recursive.simps) simp
  then show thesis using that[of NULL p] inv False by auto
qed

lemma compute_index_bound:
  "compute_block_set_index p sz = Some off \<Longrightarrow> off < int (nr_of_block_sets p)"
  using index_loop_bound by (fastforce simp: compute_block_set_index_def)

lemma compute_index_layout: "same_layout p p' \<Longrightarrow> compute_block_set_index p' sz = compute_block_set_index p sz"
  by (simp add: compute_block_set_index_def same_layout_def)

text \<open>A request that fits the largest block gets a set whose blocks are large enough.\<close>

lemma compute_index_value:
  assumes sh: "pool_shape p" and sz: "sint sz \<le> int (min_block_size p * 4 ^ (nr_of_block_sets p - 1))"
    "min_block_size p * 4 ^ (nr_of_block_sets p - 1) < 2 ^ 31"
  shows "\<exists>j < nr_of_block_sets p. compute_block_set_index p sz = Some (int j) \<and> sint sz \<le> int (bsize p j)"
proof -
  let ?n = "nr_of_block_sets p"
  obtain m where m: "m \<le> ?n - 1" "compute_block_set_index p sz = Some (int ?n - 1 - int m)" "sint sz \<le> int (min_block_size p * 4 ^ m)"
    using index_loop_value[OF sz, of "int ?n - 1"] by (auto simp: compute_block_set_index_def)
  have n: "0 < ?n" "min_block_size p \<le> bsize p (?n - 1)" using sh by (simp_all add: pool_shape_def)
  have "int (min_block_size p * 4 ^ m) \<le> int (bsize p (?n - 1) * 4 ^ m)" using n(2) unfolding of_nat_le_iff by simp
  then have "sint sz \<le> int (bsize p (?n - 1) * 4 ^ m)" using m(3) by linarith
  then have "sint sz \<le> int (bsize p (?n - 1 - m))" using m(1) n(1) set_sizes[OF sh, of m] by simp
  moreover have "int ?n - 1 - int m = int (?n - 1 - m)" using m(1) n(1) by simp
  ultimately show ?thesis using m(2) n(1) by (intro exI[of _ "?n - 1 - m"]) auto
qed

lemma handed_first:
  "ready_thread c (snd (abort_thread_timeout (unpend_thread (set_thread_return_value_with_data k t v d) t) t)) t = handed c k t v d"
proof -
  have "unpend_thread (set_thread_return_value_with_data k t v d) t = set_thread_return_value_with_data (unpend_thread k t) t v d"
    by (cases "thread k t") (simp add: unpend_thread_def mark_defs upd_thread_def unlink_node_def)
  then show ?thesis using handed_early(1) by simp
qed

text \<open>
  The waiting threads are offered a block one after the other: those that get one are woken with it,
  and what they get was not in use.
\<close>

definition got_block :: "k_mem_pool \<Rightarrow> 'z kernel_scheme \<Rightarrow> 'z kernel_scheme \<Rightarrow> (nat \<Rightarrow> addr set) \<Rightarrow> (nat \<Rightarrow> addr set) \<Rightarrow> tid \<Rightarrow> bool" where
  "got_block p k k' U U' t \<longleftrightarrow> swap_return_value (thread k' t) = 0 \<and>
     (\<exists>j. compute_block_set_index p (of_nat (swap_data (thread k t))) = Some (int j) \<and> swap_data (thread k' t) \<in> U' j - U j)"

lemma got_block_weaken:
  assumes "got_block p1 k1 k' V U' t" "compute_block_set_index p1 = compute_block_set_index p"
    "swap_data (thread k1 t) = swap_data (thread k t)" "\<And>j. U j \<subseteq> V j"
  shows "got_block p k k' U U' t"
  using assms unfolding got_block_def by (metis DiffD1 DiffD2 DiffI subsetD)

definition offered ::
  "kconfig \<Rightarrow> tid set \<Rightarrow> wqid \<Rightarrow> tid list \<Rightarrow> k_mem_pool \<times> 'z kernel_scheme \<Rightarrow> (nat \<Rightarrow> addr set) \<Rightarrow>
     k_mem_pool \<times> 'z kernel_scheme \<Rightarrow> (nat \<Rightarrow> addr set) \<Rightarrow> bool" where
  "offered c X w ws s U s' U' \<longleftrightarrow> (case (s, s') of ((p, k), (p', k')) \<Rightarrow>
     same_layout p p' \<and> pool_inv p' U' \<and> (\<forall>j. U j \<subseteq> U' j) \<and> kernel_inv c X k' \<and> current k' = current k \<and>
     (thread_ctx X k \<longrightarrow> thread_ctx X k') \<and>
     (\<forall>t \<in> set ws. t \<notin> set (queues k' (WaitQ w)) \<longrightarrow> got_block p k k' U U' t) \<and>
     (\<forall>t. t \<in> set (queues k' (WaitQ w)) \<longrightarrow> t \<in> set (queues k (WaitQ w)) \<and> swap_data (thread k' t) = swap_data (thread k t)) \<and>
     (\<forall>t. t \<notin> set ws \<longrightarrow> (t \<in> set (queues k' (WaitQ w)) \<longleftrightarrow> t \<in> set (queues k (WaitQ w))) \<and>
        swap_data (thread k' t) = swap_data (thread k t) \<and> swap_return_value (thread k' t) = swap_return_value (thread k t)))"

lemma offered_failed:
  assumes "offered c X w ws (p1, k) U (p', k') U'" "same_layout p p1" "t \<in> set (queues k (WaitQ w))" "t \<notin> set ws"
  shows "offered c X w (t # ws) (p, k) U (p', k') U'"
proof -
  have ci: "compute_block_set_index p1 = compute_block_set_index p" using compute_index_layout[OF assms(2)] by blast
  have "got_block p k k' U U' u" if g: "got_block p1 k k' U U' u" for u by (rule got_block_weaken[OF g ci]) auto
  then show ?thesis using assms same_layout_trans[OF assms(2)] by (auto simp: offered_def)
qed

lemma offered_taken:
  assumes o: "offered c X w ws (p1, handed c k t 0 r) (U(j := insert r (U j))) (p', k') U'"
    and "same_layout p p1" "t \<notin> set ws" "distinct (queues k (WaitQ w))" "r \<notin> U j" "kernel_inv c X k" "is_thread_pending k t" "t \<notin> X"
    and c: "compute_block_set_index p (of_nat (swap_data (thread k t))) = Some (int j)"
  shows "offered c X w (t # ws) (p, k) U (p', k') U'"
proof -
  let ?U = "U(j := insert r (U j))" and ?k = "handed c k t 0 r"
  have q: "set (queues ?k (WaitQ w)) = set (queues k (WaitQ w)) - {t}" using assms(4) by simp
  have rv: "u \<noteq> t \<Longrightarrow> swap_return_value (thread ?k u) = swap_return_value (thread k u)" for u by (simp add: handed_def mark_defs)
  have ci: "compute_block_set_index p1 = compute_block_set_index p" using compute_index_layout[OF assms(2)] by blast
  have sub: "\<And>i. U i \<subseteq> ?U i" by auto
  have up: "?U i \<subseteq> U' i" for i using o unfolding offered_def by (simp del: fun_upd_apply)
  then have mono: "U i \<subseteq> U' i" for i using sub by (rule subset_trans[rotated])
  have "got_block p k k' U U' u" if "u \<in> set ws" "u \<notin> set (queues k' (WaitQ w))" for u
  proof -
    have g: "got_block p1 ?k k' ?U U' u" "u \<noteq> t" using o that assms(3) by (auto simp: offered_def)
    then show ?thesis by (intro got_block_weaken[OF g(1) ci _ sub]) simp
  qed
  moreover have "swap_data (thread k' t) = r" "swap_return_value (thread k' t) = 0" "r \<in> U' j"
    using o assms(3) up[of j] by (auto simp: offered_def)
  then have "got_block p k k' U U' t" using c assms(5) by (auto simp: got_block_def intro!: exI[of _ j])
  moreover have "thread_ctx X k \<longrightarrow> thread_ctx X ?k"
    using wake_thread_ctx[OF assms(6-8)] unfolding handed_def by (simp add: mark_defs)
  ultimately show ?thesis using o mono assms(2) same_layout_trans[OF assms(2)] q rv by (auto simp: offered_def)
qed

lemma waiters_loop_ok:
  assumes "kernel_inv c X k" "pool_inv p U" "distinct ws" "set ws \<subseteq> set (queues k (WaitQ w))"
    "\<forall>t \<in> set ws. compute_block_set_index p (of_nat (swap_data (thread k t))) \<noteq> None"
  shows "\<exists>p' k' U'. block_waiters_loop pol c ws (p, k) = Some (p', k') \<and> offered c X w ws (p, k) U (p', k') U'"
  using assms
proof (induction ws arbitrary: p k U)
  case Nil
  then show ?case by (intro exI[of _ p] exI[of _ k] exI[of _ U]) (simp add: offered_def)
next
  case (Cons t ws)
  note kinv = Cons.prems(1) and inv = Cons.prems(2)
  have s: "sched_inv c X k" using kinv by (simp add: kernel_inv_def)
  have tq: "t \<in> set (queues k (WaitQ w))" "t \<notin> set ws" "distinct ws" using Cons.prems(3,4) by simp_all
  then have t: "is_thread_pending k t" "t \<notin> X" using sched_invD(7)[OF s, of t "WaitQ w"] sched_invD(8)[OF s, of t w] by auto
  have dq: "distinct (queues k (WaitQ w))" using sched_invD(2)[OF s] by (auto simp: queues_wf_def)
  obtain off where off: "compute_block_set_index p (of_nat (swap_data (thread k t))) = Some off" using Cons.prems(5) by auto
  obtain r p1 where r: "get_block_recursive pol p off off = Some (r, p1)" "same_layout p p1"
    "if r = NULL then pool_inv p1 U \<and> (\<forall>l. int l \<le> off \<longrightarrow> free_of p1 l = {})
     else 0 \<le> off \<and> r \<notin> U (nat off) \<and> pool_inv p1 (U(nat off := insert r (U (nat off))))"
    by (rule get_block_any[OF inv compute_index_bound[OF off]])
  note ci = compute_index_layout[OF r(2)]
  show ?case
  proof (cases "r = NULL")
    case True
    then obtain p' k' U' where "block_waiters_loop pol c ws (p1, k) = Some (p', k')" "offered c X w ws (p1, k) U (p', k') U'"
      using Cons.IH[OF kinv, of p1 U] r(3) Cons.prems(3-5) ci by auto
    then show ?thesis using off r(1) True offered_failed[OF _ r(2) tq(1,2)] by simp blast
  next
    case False
    let ?U = "U(nat off := insert r (U (nat off)))" and ?k = "handed c k t 0 r"
    have k1: "kernel_inv c X ?k" using wake_inv(1)[OF kinv t] unfolding handed_def by blast
    have i1: "pool_inv p1 ?U" "r \<notin> U (nat off)" "0 \<le> off" using r(3) False by simp_all
    have cp: "\<forall>u \<in> set ws. compute_block_set_index p1 (of_nat (swap_data (thread ?k u))) \<noteq> None"
      using Cons.prems(5) ci tq(2) by (metis handed_frame(7) list.set_intros(2))
    have sub: "set ws \<subseteq> set (queues ?k (WaitQ w))" using dq Cons.prems(4) tq(2) by auto
    obtain p' k' U' where IH: "block_waiters_loop pol c ws (p1, ?k) = Some (p', k')" "offered c X w ws (p1, ?k) ?U (p', k') U'"
      using Cons.IH[OF k1 i1(1) tq(3) sub cp] by blast
    have "offered c X w (t # ws) (p, k) U (p', k') U'"
      by (rule offered_taken[OF IH(2) r(2) tq(2) dq i1(2) kinv t]) (simp add: off i1(3))
    then show ?thesis using off r(1) False IH(1) by (auto simp: Let_def handed_first)
  qed
qed

end
