(* ===== verification/Pool_Properties.thy ===== *)
theory Pool_Properties
  imports Pool_Operations Sample_System
begin

text \<open>
  Properties of memory pools: what a defined pool starts with, that an allocation returns memory nobody
  else uses, that freed memory reaches the waiting threads, and that defragmentation undoes all
  splitting.
\<close>

text \<open>A pool and its waiting threads: the request of each waiting thread, in its swap data, has an answer.\<close>

definition pool_ok :: "kconfig \<Rightarrow> tid set \<Rightarrow> (nat \<Rightarrow> addr set) \<Rightarrow> k_mem_pool \<times> 'z kernel_scheme \<Rightarrow> bool" where
  "pool_ok c X U = (\<lambda>(p, k). kernel_inv c X k \<and> pool_inv p U \<and>
     (\<forall>t \<in> set (queues k (WaitQ (pool_wait_q p))). compute_block_set_index p (of_nat (swap_data (thread k t))) \<noteq> None))"





lemma pool_ok_layout:
  assumes "pool_ok c X U (p, k)" "same_layout p p'" "pool_inv p' U'" "kernel_inv c X k'"
    "\<forall>t \<in> set (queues k' (WaitQ (pool_wait_q p))). t \<in> set (queues k (WaitQ (pool_wait_q p))) \<and> swap_data (thread k' t) = swap_data (thread k t)"
  shows "pool_ok c X U' (p', k')"
  using assms compute_index_layout[OF assms(2)] by (auto simp: pool_ok_def same_layout_def)

section \<open>Definition and initialisation\<close>

text \<open>A pool defined with \<^verbatim>\<open>K_MEM_POOL_DEFINE\<close>, whose largest block size is a power of four times a
  size between the minimal one and four times that, starts after initialisation with every block of the
  largest size free, none in use and none split.\<close>

theorem pool_starts_free:
  assumes "0 < min_size" "min_size \<le> s" "s < 4 * min_size" "0 < n" "buf \<noteq> NULL"
    "init_one_memory_pool (K_MEM_POOL_DEFINE min_size (s * 4 ^ i) n buf w) k = (p, k')"
  shows "pool_inv p (\<lambda>_. {}) \<and> free_of p 0 = (\<lambda>m. buf + m * (s * 4 ^ i)) ` {..<n} \<and> split_blocks p 0 = {} \<and>
    queues k' (WaitQ w) = []"
  using init_pool_inv[OF assms(1-5), of i w k] assms(6)
  by (auto simp: init_one_memory_pool_def K_MEM_POOL_DEFINE_def Let_def)


section \<open>Allocation\<close>





definition block0 :: k_mem_block where
  "block0 = \<lparr>pool_id = 100, addr_in_pool = 0x1000, block_data = 0x1000, req_size = 256\<rparr>"



section \<open>Freeing\<close>

lemma waiters_offered:
  assumes ok: "pool_ok c X U (p, k)" and p1: "same_layout p p1" "pool_inv p1 V" and w: "w = pool_wait_q p"
  obtains p2 k2 U' where "block_waiters_check pol c (p1, k_sched_lock k) = Some (p2, k2)"
    "offered c X w (queues k (WaitQ w)) (p1, k_sched_lock k) V (p2, k2) U'" "queues k (WaitQ w) = [] \<longrightarrow> p2 = p1 \<and> U' = V"
proof -
  let ?k = "k_sched_lock k" and ?ws = "queues k (WaitQ w)"
  have kinv: "kernel_inv c X k" using ok by (simp add: pool_ok_def)
  have w1: "pool_wait_q p1 = w" using p1(1) w by (simp add: same_layout_def)
  have q: "queues ?k = queues k" "swap_data (thread ?k t) = swap_data (thread k t)" for t by (simp_all add: k_sched_lock_def)
  have e: "block_waiters_check pol c (p1, ?k) = block_waiters_loop pol c ?ws (p1, ?k)"
    by (simp add: block_waiters_check_def w1 q)
  have "sched_inv c X k" using kinv by (simp add: kernel_inv_def)
  then have d: "distinct ?ws" using sched_invD(2) by (auto simp: queues_wf_def)
  have c: "\<forall>t \<in> set ?ws. compute_block_set_index p1 (of_nat (swap_data (thread ?k t))) \<noteq> None"
    using ok compute_index_layout[OF p1(1)] by (auto simp: pool_ok_def w q)
  have l: "set ?ws \<subseteq> set (queues ?k (WaitQ w))" by (simp add: q)
  show thesis
  proof (cases "?ws = []")
    case True
    then show thesis using that[of p1 ?k V] p1(2) sched_lock_inv(1)[OF kinv] e by (auto simp: offered_def)
  next
    case False
    then show thesis using waiters_loop_ok[OF sched_lock_inv(1)[OF kinv] p1(2) d l c] that e by metis
  qed
qed

lemma waiters_served:
  assumes ok: "pool_ok c X U (p, k)" and ctx: "thread_ctx X k" and p1: "same_layout p p1" "pool_inv p1 V" and w: "w = pool_wait_q p"
  shows "\<exists>p' k2 U'. block_waiters_check pol c (p1, k_sched_lock k) = Some (p', k2) \<and>
    pool_ok c X U' (p', k_sched_unlock c k2) \<and> well_scheduled c X (k_sched_unlock c k2) \<and>
    (\<forall>i. V i \<subseteq> U' i) \<and> (queues k (WaitQ w) = [] \<longrightarrow> p' = p1 \<and> U' = V) \<and>
    (\<forall>t \<in> set (queues k (WaitQ w)). t \<notin> set (queues (k_sched_unlock c k2) (WaitQ w)) \<longrightarrow>
       got_block p k (k_sched_unlock c k2) V U' t)"
proof -
  obtain p2 k2 U' where o: "block_waiters_check pol c (p1, k_sched_lock k) = Some (p2, k2)"
    "offered c X w (queues k (WaitQ w)) (p1, k_sched_lock k) V (p2, k2) U'" "queues k (WaitQ w) = [] \<longrightarrow> p2 = p1 \<and> U' = V"
    by (rule waiters_offered[OF ok p1 w])
  let ?l = "k_sched_lock k" and ?k = "k_sched_unlock c k2"
  let ?u = "upd_thread k2 (current k2) (\<lambda>th. th\<lparr>sched_locked := sched_locked th - 1\<rparr>)"
  have lk: "queues ?l = queues k" "swap_data (thread ?l t) = swap_data (thread k t)" "current ?l = current k" for t
    by (simp_all add: k_sched_lock_def)
  have uk: "queues ?k = queues k2" "swap_data (thread ?k t) = swap_data (thread k2 t)"
    "t \<noteq> current k \<Longrightarrow> swap_return_value (thread ?k t) = swap_return_value (thread k2 t)" for t
    using o(2) by (auto simp: k_sched_unlock_def reschedule_threads_def Swap_return_value offered_def lk)
  have ctx2: "thread_ctx X ?u" using o(2) ctx by (simp add: offered_def k_sched_lock_def)
  have ku: "kernel_inv c X ?u" using o(2) by (simp add: offered_def kernel_inv_upd_thread)
  have lay: "same_layout p p2" using o(2) same_layout_trans[OF p1(1)] by (simp add: offered_def)
  have "pool_ok c X U' (p2, ?k)"
    using o(2) lk by (intro pool_ok_layout[OF ok lay]) (auto simp: offered_def uk sched_lock_inv w)
  moreover have "well_scheduled c X ?k" unfolding k_sched_unlock_def by (rule reschedule_well_scheduled[OF ku ctx2])
  moreover have "got_block p k ?k V U' t" if "t \<in> set (queues k (WaitQ w))" "t \<notin> set (queues ?k (WaitQ w))" for t
  proof -
    have g: "got_block p1 ?l k2 V U' t" using o(2) that uk(1) by (simp add: offered_def)
    have "is_thread_pending k t" using ok that(1) sched_invD(8) by (auto simp: pool_ok_def kernel_inv_def)
    then have "t \<noteq> current k" using ctx pending_not_ready by (auto simp: thread_ctx_def)
    then have g': "got_block p1 ?l ?k V U' t" using g uk by (simp add: got_block_def)
    show ?thesis by (rule got_block_weaken[OF g' _ lk(2)]) (use compute_index_layout[OF p1(1)] in auto)
  qed
  moreover have "\<forall>i. V i \<subseteq> U' i" using o(2) by (simp add: offered_def)
  ultimately show ?thesis using o(1,3) by (intro exI[of _ p2] exI[of _ k2] exI[of _ U'] conjI) blast+
qed






section \<open>Defragmentation\<close>

text \<open>Property C29: defragmenting a pool nobody waits for ends, takes no block away from its user, leaves no four free
  blocks that could be merged, and makes all memory available as blocks of the largest size when no
  block is in use.\<close>

theorem pool_defrag_merges:
  assumes "pool_ok c X U (p, k)" "thread_ctx X k" "queues k (WaitQ (pool_wait_q p)) = []"
  shows "\<exists>p' k'. k_mem_pool_defrag pol c (p, k) = Some (p', k') \<and> pool_ok c X U (p', k') \<and>
    (\<forall>l. 0 < l \<and> l < nr_of_block_sets p \<longrightarrow> merged p' l) \<and>
    ((\<forall>i. U i = {}) \<longrightarrow> free_of p' 0 = (\<lambda>m. bufblock p + m * bsize p 0) ` {..<nr_of_maxblocks p})"
proof -
  have inv: "pool_inv p U" using assms(1) by (simp add: pool_ok_def)
  then have n: "nr_of_block_sets p - 1 < nr_of_block_sets p" by (simp add: pool_inv_def pool_shape_def)
  obtain p1 where p1: "defrag p (nr_of_block_sets p - 1) 0 = Some p1" "same_layout p p1" "pool_inv p1 U"
    "\<forall>l. 0 < l \<and> l \<le> nr_of_block_sets p - 1 \<longrightarrow> merged p1 l" using defrag_ok[OF inv n, of 0] by blast
  note lay = layoutD[OF p1(2)]
  obtain k2 where k2: "block_waiters_check pol c (p1, k_sched_lock k) = Some (p1, k2)" "pool_ok c X U (p1, k_sched_unlock c k2)"
    using waiters_served[OF assms(1,2) p1(2,3) refl, of pol] assms(3) by auto
  have "l \<le> nr_of_block_sets p - 1 \<longleftrightarrow> l < nr_of_block_sets p" for l using n by auto
  then have m: "\<forall>l. 0 < l \<and> l < nr_of_block_sets p1 \<longrightarrow> merged p1 l" using p1(4) lay(5) by simp
  have "free_of p1 0 = valid_blocks p1 0" if U: "\<forall>i. U i = {}"
  proof -
    have n1: "0 < nr_of_block_sets p1" using n lay by simp
    have "split_blocks p1 0 = {}" using all_merged[OF p1(3) U m, of 1] by (simp add: split_blocks_def)
    then show ?thesis using pool_invD(2)[OF p1(3) n1] U by (simp add: accounted_def)
  qed
  then have "(\<forall>i. U i = {}) \<longrightarrow> free_of p1 0 = (\<lambda>m. bufblock p + m * bsize p 0) ` {..<nr_of_maxblocks p}"
    by (simp add: valid_blocks_def lay)
  then show ?thesis using p1(1) k2 m lay by (simp add: k_mem_pool_defrag_def)
qed

definition pool2 :: k_mem_pool where
  "pool2 = fst (init_one_memory_pool (K_MEM_POOL_DEFINE 64 256 2 0x1000 200) sys0)"

lemma pool2_layout:
  "pool_wait_q pool2 = 200" "bsize pool2 0 = 256" "bufblock pool2 = 0x1000" "nr_of_maxblocks pool2 = 2"
  by (simp_all add: pool2_def init_one_memory_pool_def K_MEM_POOL_DEFINE_def build_block_set.simps Let_def upd_quads_def bsize_def)

lemma pool2_ok: "pool_ok cfg0 X0 (\<lambda>_. {}) (pool2, sys0)"
  using init_pool_inv[of 64 64 2 "0x1000" 1 200 sys0] sys0_inv by (simp add: pool_ok_def sys0_queues pool2_layout, simp add: pool2_def)

theorem pool_defrag_merges_witness:
  "\<exists>p' k'. k_mem_pool_defrag DefragBeforeSplit cfg0 (pool2, sys0) = Some (p', k') \<and> pool_ok cfg0 X0 (\<lambda>_. {}) (p', k') \<and>
    free_of p' 0 = {0x1000, 0x1100}"
proof -
  have "{..<2} = {0, 1 :: nat}" by auto
  moreover have "queues sys0 (WaitQ (pool_wait_q pool2)) = []" by (simp add: pool2_layout sys0_queues)
  ultimately show ?thesis using pool_defrag_merges[OF pool2_ok sys0_ctx(1), of DefragBeforeSplit] by (auto simp: pool2_layout)
qed

section \<open>The heap\<close>

lemma sint_neg: "2 ^ 31 \<le> unat (w :: u32) \<Longrightarrow> sint w < 0"
proof -
  assume "2 ^ 31 \<le> unat w"
  moreover have "unat w < 2 ^ 32" using unsigned_less[of w] by simp
  ultimately have "unat w div 2 ^ 31 = 1" by (intro div_nat_eqI) simp_all
  then have "bit (unat w) 31" by (simp add: bit_iff_odd)
  then have "bit w 31" by (simp add: bit_unsigned_iff)
  then show ?thesis by (simp add: sint_uint signed_take_bit_negative_iff bit_uint_iff)
qed

lemma huge_size:
  fixes sz :: u32
  assumes "2 ^ 31 - sizeof_k_mem_block \<le> unat sz" "sizeof_k_mem_block \<le> m"
  shows "sint (sz + of_nat sizeof_k_mem_block) \<le> int m"
proof (cases "unat sz + 16 < 2 ^ 32")
  case True
  then have "unat (sz + 16) = unat sz + 16" by (simp add: unat_word_ariths)
  then have "sint (sz + 16) < 0" using assms(1) by (intro sint_neg) (simp add: sizeof_k_mem_block_def)
  then show ?thesis by (simp add: sizeof_k_mem_block_def)
next
  case False
  have b: "unat sz < 2 ^ 32" using unsigned_less[of sz] by simp
  have "unat (sz + 16) = (unat sz + 16) mod 2 ^ 32" by (simp add: unat_word_ariths)
  also have "\<dots> = unat sz + 16 - 2 ^ 32" using False b by (simp add: mod_if)
  finally have u: "unat (sz + 16) < 16" using b by simp
  then have "int (unat (sz + 16)) < int 16" unfolding of_nat_less_iff .
  then have "uint (sz + 16) < 16" by simp
  then have "sint (sz + 16) < 16" using signed_in_range[of "uint (sz + 16)"] by (simp add: sint_uint)
  then show ?thesis using assms(2) by (simp add: sizeof_k_mem_block_def)
qed

text \<open>Property C37: a request for so much memory that its size with the descriptor is not a positive 32-bit integer
  does not fail: \<^verbatim>\<open>k_malloc\<close> returns a pointer into a block of the smallest size, if one is free.\<close>

theorem malloc_huge_gets_small_block:
  assumes "pool_ok c X U (p, k)" "2 ^ 31 - sizeof_k_mem_block \<le> unat sz" "sizeof_k_mem_block \<le> min_block_size p"
    "free_of p (nr_of_block_sets p - 1) \<noteq> {}" "bsize p (nr_of_block_sets p - 1) < 2 ^ 30"
  shows "\<exists>a desc' p' k'. k_malloc pol c b0 desc (p, k) sz = Some (a + sizeof_k_mem_block, desc', p', k') \<and>
    a \<in> valid_blocks p (nr_of_block_sets p - 1) - U (nr_of_block_sets p - 1) \<and> bsize p (nr_of_block_sets p - 1) < unat sz"
proof -
  let ?n = "nr_of_block_sets p - 1" and ?s = "sz + of_nat sizeof_k_mem_block"
  have inv: "pool_inv p U" using assms(1) by (simp add: pool_ok_def)
  then have n: "?n < nr_of_block_sets p" by (simp add: pool_inv_def pool_shape_def)
  have i: "compute_block_set_index p ?s = Some (int ?n)"
    using n huge_size[OF assms(2,3)] by (subst compute_block_set_index_def, subst block_set_index_loop.simps) auto
  obtain found i p1 where g: "get_from_set p ?n = (found, i, p1)" "found \<noteq> NULL" "found \<in> valid_blocks p ?n - U ?n"
    using get_from_set_step[OF inv n] assms(4) by (auto split: if_splits)
  have "get_block_recursive pol p (int ?n) (int ?n) = Some (found, p1)"
    using g(1,2) by (subst get_block_recursive.simps) simp
  then show ?thesis using i g(2,3) assms(2,5)
    by (auto simp: k_malloc_def k_mem_pool_alloc_def Let_def fill_block_def sizeof_k_mem_block_def)
qed

definition pool3 :: k_mem_pool where
  "pool3 = fst (init_one_memory_pool (K_MEM_POOL_DEFINE 64 64 1 0x1000 200) sys0)"

lemma pool3_layout: "pool_wait_q pool3 = 200" "nr_of_block_sets pool3 = 1" "bsize pool3 0 = 64" "min_block_size pool3 = 64"
  by (simp_all add: pool3_def init_one_memory_pool_def K_MEM_POOL_DEFINE_def build_block_set.simps Let_def upd_quads_def bsize_def)

lemma pool3_ok: "pool_ok cfg0 X0 (\<lambda>_. {}) (pool3, sys0)" "free_of pool3 0 \<noteq> {}"
proof -
  note i = init_pool_inv[of 64 64 1 "0x1000" 0 200 sys0, simplified, folded pool3_def[simplified]]
  show "free_of pool3 0 \<noteq> {}" using i by (simp add: lessThan_Suc)
  show "pool_ok cfg0 X0 (\<lambda>_. {}) (pool3, sys0)" using i sys0_inv by (simp add: pool_ok_def sys0_queues pool3_layout)
qed

theorem malloc_huge_gets_small_block_witness:
  "\<exists>a desc' p' k'. k_malloc NoDefrag cfg0 block0 (\<lambda>_. block0) (pool3, sys0) 0xFFFFFFF8 = Some (a + sizeof_k_mem_block, desc', p', k') \<and>
    a \<in> valid_blocks pool3 0"
  using malloc_huge_gets_small_block[OF pool3_ok(1), of "0xFFFFFFF8" NoDefrag block0 "\<lambda>_. block0"] pool3_ok(2)
  by (auto simp: pool3_layout sizeof_k_mem_block_def)

end
