(* ===== verification/Pipe.thy ===== *)
theory Pipe
  imports Wait_Queue Libc_String
begin

text \<open>
  Pipes, \<^verbatim>\<open>kernel/unified/pipes.c\<close>: a stream of bytes through a circular buffer, which writers and
  readers that wait bypass: data are copied from the waiting writers and to the waiting readers
  directly.  The configuration is the one without asynchronous messages,
  \<^verbatim>\<open>CONFIG_NUM_PIPE_ASYNC_MSGS = 0\<close>.  While data are copied the scheduler is locked and only interrupts
  can run; a call is one step of the model.
\<close>

section \<open>Data\<close>

record k_pipe =
  pipe_buffer :: addr
  pipe_size :: nat
  bytes_used :: nat
  pipe_read_index :: nat
  pipe_write_index :: nat
  pipe_readers :: wqid
  pipe_writers :: wqid

record k_pipe_desc =
  desc_buffer :: addr
  bytes_to_xfer :: nat

text \<open>The descriptor of a waiting thread is a variable on its stack, at the address its swap data hold.\<close>

type_synonym descs = "addr \<Rightarrow> k_pipe_desc"
type_synonym 'z pipe_state = "k_pipe \<times> bytes \<times> descs \<times> 'z kernel_scheme"

abbreviation desc_of :: "descs \<Rightarrow> 'z kernel_scheme \<Rightarrow> tid \<Rightarrow> k_pipe_desc" where
  "desc_of ds k t \<equiv> ds (swap_data (thread k t))"

section \<open>The circular buffer\<close>

definition k_pipe_init :: "k_pipe \<Rightarrow> addr \<Rightarrow> nat \<Rightarrow> 'z kernel_scheme \<Rightarrow> k_pipe \<times> 'z kernel_scheme" where
  "k_pipe_init p buffer size1 k =
     (p\<lparr>pipe_buffer := buffer, pipe_size := size1, bytes_used := 0, pipe_read_index := 0, pipe_write_index := 0\<rparr>,
      upd_queue (upd_queue k (WaitQ (pipe_writers p)) (\<lambda>_. [])) (WaitQ (pipe_readers p)) (\<lambda>_. []))"

fun xfer_loop :: "bytes \<Rightarrow> addr \<Rightarrow> addr \<Rightarrow> nat \<Rightarrow> bytes" where
  "xfer_loop h dest src 0 = h"
| "xfer_loop h dest src (Suc n) = xfer_loop (h(dest := h src)) (dest + 1) (src + 1) n"

definition pipe_xfer :: "bytes \<Rightarrow> addr \<Rightarrow> nat \<Rightarrow> addr \<Rightarrow> nat \<Rightarrow> nat \<times> bytes" where
  "pipe_xfer h dest dest_size src src_size =
     (let num_bytes = min dest_size src_size in (num_bytes, xfer_loop h dest src num_bytes))"

text \<open>One round of the loop of \<^verbatim>\<open>_pipe_buffer_put\<close>, which runs twice, and of \<^verbatim>\<open>_pipe_buffer_get\<close>.\<close>

definition put_round :: "addr \<Rightarrow> nat \<Rightarrow> nat \<times> k_pipe \<times> bytes \<Rightarrow> nat \<times> k_pipe \<times> bytes" where
  "put_round src src_size = (\<lambda>(num, p, h).
     let run_length = min (pipe_size p - bytes_used p) (pipe_size p - pipe_write_index p)
     in case pipe_xfer h (pipe_buffer p + pipe_write_index p) run_length (src + num) (src_size - num) of
          (bytes_copied, h1) \<Rightarrow>
            let w = pipe_write_index p + bytes_copied
            in (num + bytes_copied,
                p\<lparr>bytes_used := bytes_used p + bytes_copied, pipe_write_index := if w = pipe_size p then 0 else w\<rparr>, h1))"

definition pipe_buffer_put :: "k_pipe \<Rightarrow> bytes \<Rightarrow> addr \<Rightarrow> nat \<Rightarrow> nat \<times> k_pipe \<times> bytes" where
  "pipe_buffer_put p h src src_size = put_round src src_size (put_round src src_size (0, p, h))"

definition get_round :: "addr \<Rightarrow> nat \<Rightarrow> nat \<times> k_pipe \<times> bytes \<Rightarrow> nat \<times> k_pipe \<times> bytes" where
  "get_round dest dest_size = (\<lambda>(num, p, h).
     let run_length = min (bytes_used p) (pipe_size p - pipe_read_index p)
     in case pipe_xfer h (dest + num) (dest_size - num) (pipe_buffer p + pipe_read_index p) run_length of
          (bytes_copied, h1) \<Rightarrow>
            let r = pipe_read_index p + bytes_copied
            in (num + bytes_copied,
                p\<lparr>bytes_used := bytes_used p - bytes_copied, pipe_read_index := if r = pipe_size p then 0 else r\<rparr>, h1))"

definition pipe_buffer_get :: "k_pipe \<Rightarrow> bytes \<Rightarrow> addr \<Rightarrow> nat \<Rightarrow> nat \<times> k_pipe \<times> bytes" where
  "pipe_buffer_get p h dest dest_size = get_round dest dest_size (get_round dest dest_size (0, p, h))"

section \<open>The waiting threads\<close>

text \<open>The loop of \<^verbatim>\<open>_pipe_xfer_prepare\<close> that adds up what the waiting threads could transfer.\<close>

fun no_wait_bytes :: "descs \<Rightarrow> 'z kernel_scheme \<Rightarrow> nat \<Rightarrow> tid list \<Rightarrow> nat \<Rightarrow> nat" where
  "no_wait_bytes ds k to_xfer [] num = num"
| "no_wait_bytes ds k to_xfer (t # ts) num =
     (let n = num + bytes_to_xfer (desc_of ds k t)
      in if n \<ge> to_xfer then n else no_wait_bytes ds k to_xfer ts n)"

text \<open>
  The loop that takes the threads off the wait queue whose requests can be met: the bytes, the threads
  taken off, and the thread it stopped at or null.
\<close>

function prepare_loop ::
  "descs \<Rightarrow> wqid \<Rightarrow> nat \<Rightarrow> nat \<Rightarrow> tid list \<Rightarrow> 'z kernel_scheme \<Rightarrow> nat \<times> tid list \<times> tid \<times> 'z kernel_scheme" where
  "prepare_loop ds w to_xfer num xfer_list k =
     (case queues k (WaitQ w) of
        [] \<Rightarrow> (num, xfer_list, NULL, k)
      | t # ts \<Rightarrow>
          let n = num + bytes_to_xfer (desc_of ds k t)
          in if n > to_xfer then (n, xfer_list, t, k)
             else prepare_loop ds w to_xfer n (xfer_list @ [t]) (snd (abort_thread_timeout (unpend_thread k t) t)))"
  by pat_completeness auto
termination
  by (relation "measure (\<lambda>(ds, w, b, n, xs, k). length (queues k (WaitQ w)))") (auto simp: abort_thread_timeout_def)

declare prepare_loop.simps [simp del]

definition pipe_xfer_prepare ::
  "descs \<Rightarrow> wqid \<Rightarrow> nat \<Rightarrow> nat \<Rightarrow> nat \<Rightarrow> int \<Rightarrow> 'z kernel_scheme \<Rightarrow> (tid list \<times> tid \<times> 'z kernel_scheme) option" where
  "pipe_xfer_prepare ds w pipe_space to_xfer min_xfer timeout k =
     (if timeout = K_NO_WAIT \<and> no_wait_bytes ds k to_xfer (queues k (WaitQ w)) 0 + pipe_space < min_xfer then None
      else case prepare_loop ds w to_xfer 0 [] k of
             (num, xfer_list, t, k1) \<Rightarrow> Some (xfer_list, if num > to_xfer then t else NULL, k1))"

definition pipe_return_code :: "nat \<Rightarrow> nat \<Rightarrow> nat \<Rightarrow> int" where
  "pipe_return_code min_xfer bytes_remaining bytes_requested =
     (if bytes_requested - bytes_remaining \<ge> min_xfer then 0 else - EAGAIN)"

definition desc_advance :: "descs \<Rightarrow> addr \<Rightarrow> nat \<Rightarrow> descs" where
  "desc_advance ds a n = ds(a := \<lparr>desc_buffer = desc_buffer (ds a) + n, bytes_to_xfer = bytes_to_xfer (ds a) - n\<rparr>)"

section \<open>Writing\<close>

text \<open>Copying data to one waiting reader: bytes written so far, memory, descriptors.\<close>

definition give_reader :: "'z kernel_scheme \<Rightarrow> addr \<Rightarrow> nat \<Rightarrow> tid \<Rightarrow> nat \<times> bytes \<times> descs \<Rightarrow> nat \<times> bytes \<times> descs" where
  "give_reader k data to_write t = (\<lambda>(n, h, ds).
     let a = swap_data (thread k t)
     in case pipe_xfer h (desc_buffer (ds a)) (bytes_to_xfer (ds a)) (data + n) (to_write - n) of
          (bytes_copied, h1) \<Rightarrow> (n + bytes_copied, h1, desc_advance ds a bytes_copied))"

fun give_readers ::
  "kconfig \<Rightarrow> addr \<Rightarrow> nat \<Rightarrow> tid list \<Rightarrow> (nat \<times> bytes \<times> descs) \<times> 'z kernel_scheme \<Rightarrow> (nat \<times> bytes \<times> descs) \<times> 'z kernel_scheme" where
  "give_readers c data to_write [] s = s"
| "give_readers c data to_write (t # ts) (s, k) =
     give_readers c data to_write ts (give_reader k data to_write t s, ready_thread c k t)"

text \<open>
  \<^verbatim>\<open>_k_pipe_put_internal\<close>.  The result is the return code and the number of bytes written, or \<open>None\<close> while
  the call is blocked; \<open>desc\<close> is the address of its local descriptor.
\<close>

definition k_pipe_put_internal ::
  "kconfig \<Rightarrow> 'z pipe_state \<Rightarrow> addr \<Rightarrow> addr \<Rightarrow> nat \<Rightarrow> nat \<Rightarrow> int \<Rightarrow> (int \<times> nat) option \<times> 'z pipe_state" where
  "k_pipe_put_internal c = (\<lambda>(p, h, ds, k) desc data to_write min_xfer timeout.
     case pipe_xfer_prepare ds (pipe_readers p) (pipe_size p - bytes_used p) to_write min_xfer timeout k of
       None \<Rightarrow> (Some (- EIO, 0), p, h, ds, k)
     | Some (xfer_list, reader, k1) \<Rightarrow>
         (case give_readers c data to_write xfer_list ((0, h, ds), k_sched_lock k1) of
            (s2, k2) \<Rightarrow>
              (case (if reader \<noteq> NULL then give_reader k2 data to_write reader s2 else s2) of
                 (n3, h3, ds3) \<Rightarrow>
                   (case pipe_buffer_put p h3 (data + n3) (to_write - n3) of
                      (m, p4, h4) \<Rightarrow>
                        let n4 = n3 + m
                        in if n4 = to_write then (Some (0, n4), p4, h4, ds3, k_sched_unlock c k2)
                           else let ds4 = ds3(desc := \<lparr>desc_buffer = data + n4, bytes_to_xfer = to_write - n4\<rparr>)
                                in if timeout \<noteq> K_NO_WAIT
                                   then let k3 = upd_thread k2 (current k2) (\<lambda>th. th\<lparr>swap_data := desc\<rparr>);
                                            k4 = sched_unlock_no_reschedule k3;
                                            k5 = pend_current_thread c k4 (pipe_writers p4) timeout
                                        in (None, p4, h4, ds4, Swap c k5)
                                   else (Some (pipe_return_code min_xfer (to_write - n4) to_write, n4),
                                         p4, h4, ds4, k_sched_unlock c k2)))))"

definition k_pipe_put ::
  "kconfig \<Rightarrow> 'z pipe_state \<Rightarrow> addr \<Rightarrow> addr \<Rightarrow> nat \<Rightarrow> nat \<Rightarrow> int \<Rightarrow> (int \<times> nat) option \<times> 'z pipe_state" where
  "k_pipe_put c s desc data to_write min_xfer timeout = k_pipe_put_internal c s desc data to_write min_xfer timeout"

section \<open>Reading\<close>

definition take_writer :: "'z kernel_scheme \<Rightarrow> addr \<Rightarrow> nat \<Rightarrow> tid \<Rightarrow> nat \<times> bytes \<times> descs \<Rightarrow> nat \<times> bytes \<times> descs" where
  "take_writer k data to_read t = (\<lambda>(n, h, ds).
     let a = swap_data (thread k t)
     in case pipe_xfer h (data + n) (to_read - n) (desc_buffer (ds a)) (bytes_to_xfer (ds a)) of
          (bytes_copied, h1) \<Rightarrow> (n + bytes_copied, h1, desc_advance ds a bytes_copied))"

text \<open>The first loop of \<^verbatim>\<open>k_pipe_get\<close> ends with the threads that are still to be served.\<close>

fun take_writers ::
  "kconfig \<Rightarrow> addr \<Rightarrow> nat \<Rightarrow> tid list \<Rightarrow> (nat \<times> bytes \<times> descs) \<times> 'z kernel_scheme \<Rightarrow>
     tid list \<times> (nat \<times> bytes \<times> descs) \<times> 'z kernel_scheme" where
  "take_writers c data to_read [] s = ([], s)"
| "take_writers c data to_read (t # ts) (s, k) =
     (if fst s < to_read
      then let s1 = take_writer k data to_read t s
           in if fst s1 = to_read then (t # ts, s1, k)
              else take_writers c data to_read ts (s1, ready_thread c k t)
      else (t # ts, s, k))"

definition refill_writer :: "'z kernel_scheme \<Rightarrow> tid \<Rightarrow> k_pipe \<times> bytes \<times> descs \<Rightarrow> k_pipe \<times> bytes \<times> descs" where
  "refill_writer k t = (\<lambda>(p, h, ds).
     let a = swap_data (thread k t)
     in case pipe_buffer_put p h (desc_buffer (ds a)) (bytes_to_xfer (ds a)) of
          (bytes_copied, p1, h1) \<Rightarrow> (p1, h1, desc_advance ds a bytes_copied))"

fun refill_writers ::
  "kconfig \<Rightarrow> tid list \<Rightarrow> (k_pipe \<times> bytes \<times> descs) \<times> 'z kernel_scheme \<Rightarrow> (k_pipe \<times> bytes \<times> descs) \<times> 'z kernel_scheme" where
  "refill_writers c [] s = s"
| "refill_writers c (t # ts) (s, k) = refill_writers c ts (refill_writer k t s, ready_thread c k t)"

definition k_pipe_get ::
  "kconfig \<Rightarrow> 'z pipe_state \<Rightarrow> addr \<Rightarrow> addr \<Rightarrow> nat \<Rightarrow> nat \<Rightarrow> int \<Rightarrow> (int \<times> nat) option \<times> 'z pipe_state" where
  "k_pipe_get c = (\<lambda>(p, h, ds, k) desc data to_read min_xfer timeout.
     case pipe_xfer_prepare ds (pipe_writers p) (bytes_used p) to_read min_xfer timeout k of
       None \<Rightarrow> (Some (- EIO, 0), p, h, ds, k)
     | Some (xfer_list, writer, k1) \<Rightarrow>
         (case pipe_buffer_get p h data to_read of
            (n1, p1, h1) \<Rightarrow>
              (case take_writers c data to_read xfer_list ((n1, h1, ds), k_sched_lock k1) of
                 (rest, s2, k2) \<Rightarrow>
                   (case (if writer \<noteq> NULL \<and> fst s2 < to_read then take_writer k2 data to_read writer s2 else s2) of
                      (n3, h3, ds3) \<Rightarrow>
                        (case refill_writers c rest ((p1, h3, ds3), k2) of
                           (s4, k4) \<Rightarrow>
                             (case (if writer \<noteq> NULL then refill_writer k4 writer s4 else s4) of
                                (p5, h5, ds5) \<Rightarrow>
                                  if n3 = to_read then (Some (0, n3), p5, h5, ds5, k_sched_unlock c k4)
                                  else let ds6 = ds5(desc := \<lparr>desc_buffer = data + n3, bytes_to_xfer = to_read - n3\<rparr>)
                                       in if timeout \<noteq> K_NO_WAIT
                                          then let k5 = upd_thread k4 (current k4) (\<lambda>th. th\<lparr>swap_data := desc\<rparr>);
                                                   k6 = sched_unlock_no_reschedule k5;
                                                   k7 = pend_current_thread c k6 (pipe_readers p5) timeout
                                               in (None, p5, h5, ds6, Swap c k7)
                                          else (Some (pipe_return_code min_xfer (to_read - n3) to_read, n3),
                                                p5, h5, ds6, k_sched_unlock c k4)))))))"

text \<open>What a blocked put or get returns when its thread runs again.\<close>

definition k_pipe_resume :: "descs \<Rightarrow> addr \<Rightarrow> nat \<Rightarrow> nat \<Rightarrow> int \<times> nat" where
  "k_pipe_resume ds desc requested min_xfer =
     (pipe_return_code min_xfer (bytes_to_xfer (ds desc)) requested, requested - bytes_to_xfer (ds desc))"

end
