(* ===== verification/Pipe_Stream.thy ===== *)
theory Pipe_Stream
  imports Pipe
begin

text \<open>
  The data in a pipe as one stream: the bytes of the circular buffer, then those of the waiting writers in
  the order of their wait queue.  Each step of a put or a get is shown to move bytes without losing,
  adding or reordering any.
\<close>

section \<open>The bytes in the pipe\<close>

definition area :: "bytes \<Rightarrow> addr \<Rightarrow> nat \<Rightarrow> u8 list" where
  "area h a n = map h [a..<a + n]"

definition contents :: "k_pipe \<Rightarrow> bytes \<Rightarrow> u8 list" where
  "contents p h = map (\<lambda>i. h (pipe_buffer p + (pipe_read_index p + i) mod pipe_size p)) [0..<bytes_used p]"

definition in_buffer :: "k_pipe \<Rightarrow> addr \<Rightarrow> bool" where
  "in_buffer p a \<longleftrightarrow> pipe_buffer p \<le> a \<and> a < pipe_buffer p + pipe_size p"

definition pipe_ok :: "k_pipe \<Rightarrow> bool" where
  "pipe_ok p \<longleftrightarrow> bytes_used p \<le> pipe_size p \<and>
     (if pipe_size p = 0 then pipe_read_index p = 0 \<and> pipe_write_index p = 0
      else pipe_read_index p < pipe_size p \<and> pipe_write_index p = (pipe_read_index p + bytes_used p) mod pipe_size p)"

lemma area_simps [simp]: "length (area h a n) = n" "area h a 0 = []"
  by (simp_all add: area_def)

lemma area_nth [simp]: "i < n \<Longrightarrow> area h a n ! i = h (a + i)"
  by (simp add: area_def)

lemma area_add: "area h a (m + n) = area h a m @ area h (a + m) n"
  by (rule nth_equalityI) (auto simp: nth_append)

lemma area_take: "m \<le> n \<Longrightarrow> take m (area h a n) = area h a m" and area_drop: "m \<le> n \<Longrightarrow> drop m (area h a n) = area h (a + m) (n - m)"
  by (rule nth_equalityI; simp add: add.assoc)+

lemma area_cong: "(\<And>b. a \<le> b \<Longrightarrow> b < a + n \<Longrightarrow> h b = h' b) \<Longrightarrow> area h a n = area h' a n"
  by (simp add: area_def)

lemma contents_simps [simp]: "length (contents p h) = bytes_used p" 
  "i < bytes_used p \<Longrightarrow> contents p h ! i = h (pipe_buffer p + (pipe_read_index p + i) mod pipe_size p)"
  by (simp_all add: contents_def)

lemma contents_cong:
  "pipe_ok p \<Longrightarrow> (\<And>a. in_buffer p a \<Longrightarrow> h a = h' a) \<Longrightarrow> contents p h = contents p h'"
  by (rule nth_equalityI) (auto simp: in_buffer_def pipe_ok_def split: if_splits)

section \<open>Copying\<close>

lemma xfer_loop_eq: "disjoint_areas d s n \<Longrightarrow> xfer_loop h d s n = copied h d s n"
proof -
  have "xfer_loop h d s n = copy_bytes h d s n" by (induction n arbitrary: h d s) (subst copy_bytes.simps, simp)+
  then show "disjoint_areas d s n \<Longrightarrow> xfer_loop h d s n = copied h d s n" using copy_bytes_eq by simp
qed

lemma copied_area: "disjoint_areas d s n \<Longrightarrow> area (copied h d s n) d n = area h s n"
  by (rule nth_equalityI) (auto simp: copied_def)

lemma copied_other: "a < d \<or> d + n \<le> a \<Longrightarrow> copied h d s n a = h a"
  by (auto simp: copied_def)

text \<open>An area none of whose bytes is in the buffer.\<close>

definition outside_buffer :: "k_pipe \<Rightarrow> addr \<Rightarrow> nat \<Rightarrow> bool" where
  "outside_buffer p a n \<longleftrightarrow> a + n \<le> pipe_buffer p \<or> pipe_buffer p + pipe_size p \<le> a \<or> n = 0 \<or> pipe_size p = 0"

definition same_pipe :: "k_pipe \<Rightarrow> k_pipe \<Rightarrow> bool" where
  "same_pipe p p' \<longleftrightarrow> pipe_buffer p' = pipe_buffer p \<and> pipe_size p' = pipe_size p \<and> pipe_readers p' = pipe_readers p \<and>
     pipe_writers p' = pipe_writers p"

lemma wrap_mod: "r < s \<Longrightarrow> n \<le> s \<Longrightarrow> (r + n) mod s = (if r + n < s then r + n else r + n - s)" for r :: nat
  by (simp add: mod_if)

lemma pipe_okD:
  assumes "pipe_ok p" "0 < pipe_size p"
  shows "bytes_used p \<le> pipe_size p" "pipe_read_index p < pipe_size p" "pipe_write_index p < pipe_size p"
    "pipe_write_index p = (if pipe_read_index p + bytes_used p < pipe_size p then pipe_read_index p + bytes_used p
       else pipe_read_index p + bytes_used p - pipe_size p)"
  using assms by (auto simp: pipe_ok_def wrap_mod split: if_splits)

lemma pipe_le:
  assumes "pipe_ok p"
  shows "bytes_used p \<le> pipe_size p" "pipe_read_index p \<le> pipe_size p" "pipe_write_index p \<le> pipe_size p"
  using assms pipe_okD(2,3)[OF assms] by (cases "pipe_size p = 0"; simp add: pipe_ok_def)+

text \<open>One round of a put appends bytes, one round of a get removes them.\<close>

definition put_bytes :: "k_pipe \<Rightarrow> nat \<Rightarrow> k_pipe" where
  "put_bytes p m = p\<lparr>bytes_used := bytes_used p + m,
     pipe_write_index := if pipe_write_index p + m = pipe_size p then 0 else pipe_write_index p + m\<rparr>"

definition get_bytes :: "k_pipe \<Rightarrow> nat \<Rightarrow> k_pipe" where
  "get_bytes p m = p\<lparr>bytes_used := bytes_used p - m,
     pipe_read_index := if pipe_read_index p + m = pipe_size p then 0 else pipe_read_index p + m\<rparr>"

lemma put_bytes_ok:
  assumes "pipe_ok p" "m \<le> pipe_size p - bytes_used p" "m \<le> pipe_size p - pipe_write_index p"
  shows "pipe_ok (put_bytes p m)"
proof (cases "pipe_size p = 0")
  case False
  then show ?thesis using pipe_okD[OF assms(1)] assms(2,3) by (auto simp: pipe_ok_def put_bytes_def wrap_mod)
qed (use assms in \<open>auto simp: pipe_ok_def put_bytes_def\<close>)

lemma get_bytes_ok:
  assumes "pipe_ok p" "m \<le> bytes_used p" "m \<le> pipe_size p - pipe_read_index p"
  shows "pipe_ok (get_bytes p m)"
proof (cases "pipe_size p = 0")
  case False
  then show ?thesis using pipe_okD[OF assms(1)] assms(2,3) by (auto simp: pipe_ok_def get_bytes_def wrap_mod)
qed (use assms in \<open>auto simp: pipe_ok_def get_bytes_def\<close>)

lemma put_bytes_contents:
  assumes ok: "pipe_ok p" and m: "m \<le> pipe_size p - bytes_used p" "m \<le> pipe_size p - pipe_write_index p"
  shows "contents (put_bytes p m) (copied h (pipe_buffer p + pipe_write_index p) src m) = contents p h @ area h src m"
proof (rule nth_equalityI)
  let ?h = "copied h (pipe_buffer p + pipe_write_index p) src m"
  fix i assume "i < length (contents (put_bytes p m) ?h)"
  then have i: "i < bytes_used p + m" by (simp add: put_bytes_def)
  then have s: "0 < pipe_size p" using ok m by (cases "pipe_size p = 0") (auto simp: pipe_ok_def)
  note D = pipe_okD[OF ok s]
  have a: "(pipe_read_index p + i) mod pipe_size p =
      (if pipe_read_index p + i < pipe_size p then pipe_read_index p + i else pipe_read_index p + i - pipe_size p)"
    by (rule wrap_mod) (use D i m in auto)
  show "contents (put_bytes p m) ?h ! i = (contents p h @ area h src m) ! i"
  proof (cases "i < bytes_used p")
    case True
    have "?h (pipe_buffer p + (pipe_read_index p + i) mod pipe_size p) = h (pipe_buffer p + (pipe_read_index p + i) mod pipe_size p)"
      unfolding a by (rule copied_other) (use True D m in \<open>auto split: if_splits\<close>)
    then show ?thesis using True i by (simp add: put_bytes_def nth_append)
  next
    case False
    then obtain j where j: "i = bytes_used p + j" "j < m" using i by (metis add_less_cancel_left le_Suc_ex not_less)
    then have "(pipe_read_index p + i) mod pipe_size p = pipe_write_index p + j" unfolding a using D m by (auto split: if_splits)
    moreover have "?h (pipe_buffer p + (pipe_write_index p + j)) = h (src + j)" using j(2) by (simp add: copied_def)
    ultimately show ?thesis using j by (simp add: put_bytes_def nth_append)
  qed
qed (simp add: put_bytes_def)

lemma get_bytes_contents:
  assumes ok: "pipe_ok p" and m: "m \<le> bytes_used p" "m \<le> pipe_size p - pipe_read_index p"
  shows "contents p h = area h (pipe_buffer p + pipe_read_index p) m @ contents (get_bytes p m) h"
proof (rule nth_equalityI)
  fix i assume "i < length (contents p h)"
  then have i: "i < bytes_used p" by simp
  then have s: "0 < pipe_size p" using ok by (cases "pipe_size p = 0") (auto simp: pipe_ok_def)
  note D = pipe_okD[OF ok s]
  have a: "(pipe_read_index p + i) mod pipe_size p =
      (if pipe_read_index p + i < pipe_size p then pipe_read_index p + i else pipe_read_index p + i - pipe_size p)"
    by (rule wrap_mod) (use D i in auto)
  show "contents p h ! i = (area h (pipe_buffer p + pipe_read_index p) m @ contents (get_bytes p m) h) ! i"
  proof (cases "i < m")
    case True
    then show ?thesis using i D m a by (simp add: nth_append add.assoc)
  next
    case False
    have "((if pipe_read_index p + m = pipe_size p then 0 else pipe_read_index p + m) + (i - m)) mod pipe_size p =
        (pipe_read_index p + i) mod pipe_size p"
    proof (cases "pipe_read_index p + m = pipe_size p")
      case True
      then have "pipe_read_index p + i = pipe_size p + (i - m)" using False by simp
      then show ?thesis using True by (simp only: mod_add_self1 add_0 simp_thms if_True)
    qed (use False in simp)
    then show ?thesis using False i m by (simp add: nth_append get_bytes_def)
  qed
qed (use m in \<open>simp add: get_bytes_def\<close>)

lemma put_round_step:
  fixes h :: bytes
  assumes ok: "pipe_ok p" and num: "num \<le> sz" and out: "outside_buffer p src sz"
  defines "m \<equiv> min (min (pipe_size p - bytes_used p) (pipe_size p - pipe_write_index p)) (sz - num)"
  defines "h' \<equiv> copied h (pipe_buffer p + pipe_write_index p) (src + num) m"
  shows "put_round src sz (num, p, h) = (num + m, put_bytes p m, h')" "\<And>a. \<not> in_buffer p a \<Longrightarrow> h' a = h a"
proof -
  have ws: "pipe_write_index p + m \<le> pipe_size p" "m \<le> sz - num"
    using pipe_le[OF ok] unfolding m_def by linarith+
  have dis: "disjoint_areas (pipe_buffer p + pipe_write_index p) (src + num) m"
    using out ws num by (cases "m = 0") (auto simp: outside_buffer_def disjoint_areas_def)
  show "put_round src sz (num, p, h) = (num + m, put_bytes p m, h')"
    using xfer_loop_eq[OF dis] by (simp add: put_round_def pipe_xfer_def Let_def m_def put_bytes_def h'_def)
  show "h' a = h a" if "\<not> in_buffer p a" for a
    unfolding h'_def by (rule copied_other) (use that ws in \<open>auto simp: in_buffer_def\<close>)
qed

lemma get_round_step:
  fixes h :: bytes
  assumes ok: "pipe_ok p" and num: "num \<le> sz" and out: "outside_buffer p dest sz"
  defines "m \<equiv> min (sz - num) (min (bytes_used p) (pipe_size p - pipe_read_index p))"
  defines "h' \<equiv> copied h (dest + num) (pipe_buffer p + pipe_read_index p) m"
  shows "get_round dest sz (num, p, h) = (num + m, get_bytes p m, h')" "\<And>a. in_buffer p a \<Longrightarrow> h' a = h a"
    "area h' dest (num + m) = area h dest num @ area h (pipe_buffer p + pipe_read_index p) m"
    "\<And>a. a < dest \<or> dest + sz \<le> a \<Longrightarrow> h' a = h a"
proof -
  have ws: "pipe_read_index p + m \<le> pipe_size p" "m \<le> sz - num"
    using pipe_le[OF ok] unfolding m_def by linarith+
  have dis: "disjoint_areas (dest + num) (pipe_buffer p + pipe_read_index p) m"
    using out ws num by (cases "m = 0") (auto simp: outside_buffer_def disjoint_areas_def)
  show "get_round dest sz (num, p, h) = (num + m, get_bytes p m, h')"
    using xfer_loop_eq[OF dis] by (simp add: get_round_def pipe_xfer_def Let_def m_def get_bytes_def h'_def)
  show "h' a = h a" if "in_buffer p a" for a
    unfolding h'_def by (cases "m = 0", simp, rule copied_other) (use that ws out num in \<open>auto simp: in_buffer_def outside_buffer_def\<close>)
  show "h' a = h a" if "a < dest \<or> dest + sz \<le> a" for a
    unfolding h'_def by (rule copied_other) (use that ws num in auto)
  have "area h' dest num = area h dest num" unfolding h'_def by (intro area_cong copied_other) simp
  then show "area h' dest (num + m) = area h dest num @ area h (pipe_buffer p + pipe_read_index p) m"
    using copied_area[OF dis, of h] by (simp add: area_add h'_def)
qed

lemma put_round_contents:
  assumes ok: "pipe_ok p" and num: "num \<le> sz" and out: "outside_buffer p src sz" and pr: "put_round src sz (num, p, h) = (n, p', h')"
  shows "pipe_ok p'" "same_pipe p p'" "contents p' h' = contents p h @ area h (src + num) (n - num)" "num \<le> n" "n \<le> sz"
    "bytes_used p' = bytes_used p + (n - num)" "pipe_read_index p' = pipe_read_index p" "\<And>a. \<not> in_buffer p a \<Longrightarrow> h' a = h a"
    "n = sz \<or> bytes_used p' = pipe_size p \<or> pipe_write_index p' = 0"
    "n = num + min (min (pipe_size p - bytes_used p) (pipe_size p - pipe_write_index p)) (sz - num)"
proof -
  define m where "m = min (min (pipe_size p - bytes_used p) (pipe_size p - pipe_write_index p)) (sz - num)"
  have e: "n = num + m" "p' = put_bytes p m" "h' = copied h (pipe_buffer p + pipe_write_index p) (src + num) m"
    using put_round_step(1)[OF ok num out, of h] pr by (simp_all add: m_def)
  have m: "m \<le> pipe_size p - bytes_used p" "m \<le> pipe_size p - pipe_write_index p" "m \<le> sz - num" by (simp_all add: m_def)
  show "pipe_ok p'" unfolding e by (rule put_bytes_ok[OF ok m(1,2)])
  show "contents p' h' = contents p h @ area h (src + num) (n - num)" using put_bytes_contents[OF ok m(1,2)] by (simp add: e)
  show "same_pipe p p'" "bytes_used p' = bytes_used p + (n - num)" "pipe_read_index p' = pipe_read_index p" "num \<le> n" "n \<le> sz"
    using m(3) num by (simp_all add: e put_bytes_def same_pipe_def)
  show "h' a = h a" if "\<not> in_buffer p a" for a using put_round_step(2)[OF ok num out that, of h] by (simp add: e m_def)
  show "n = num + min (min (pipe_size p - bytes_used p) (pipe_size p - pipe_write_index p)) (sz - num)" by (simp add: e m_def)
  show "n = sz \<or> bytes_used p' = pipe_size p \<or> pipe_write_index p' = 0"
    using num pipe_le[OF ok] by (auto simp: e put_bytes_def m_def min_def)
qed

lemma get_round_contents:
  assumes ok: "pipe_ok p" and num: "num \<le> sz" and out: "outside_buffer p dest sz" and pr: "get_round dest sz (num, p, h) = (n, p', h')"
  shows "pipe_ok p'" "same_pipe p p'" "area h dest num @ contents p h = area h' dest n @ contents p' h'" "num \<le> n" "n \<le> sz"
    "bytes_used p' = bytes_used p - (n - num)" "\<And>a. in_buffer p a \<Longrightarrow> h' a = h a" "\<And>a. a < dest \<or> dest + sz \<le> a \<Longrightarrow> h' a = h a"
    "n = sz \<or> bytes_used p' = 0 \<or> pipe_read_index p' = 0"
    "n = num + min (sz - num) (min (bytes_used p) (pipe_size p - pipe_read_index p))"
proof -
  define m where "m = min (sz - num) (min (bytes_used p) (pipe_size p - pipe_read_index p))"
  note st = get_round_step[where h = h, OF ok num out, folded m_def]
  have e: "n = num + m" "p' = get_bytes p m" "h' = copied h (dest + num) (pipe_buffer p + pipe_read_index p) m" using st(1) pr by simp_all
  have m: "m \<le> bytes_used p" "m \<le> pipe_size p - pipe_read_index p" "m \<le> sz - num" by (simp_all add: m_def)
  show ok': "pipe_ok p'" unfolding e by (rule get_bytes_ok[OF ok m(1,2)])
  show sp: "same_pipe p p'" and "bytes_used p' = bytes_used p - (n - num)" "num \<le> n" "n \<le> sz"
    using m(3) num by (simp_all add: e get_bytes_def same_pipe_def)
  show "h' a = h a" if "in_buffer p a" for a using st(2)[OF that] by (simp add: e)
  then have "contents p' h' = contents p' h" using sp by (intro contents_cong[OF ok']) (simp add: in_buffer_def same_pipe_def)
  then show "area h dest num @ contents p h = area h' dest n @ contents p' h'"
    using get_bytes_contents[OF ok m(1,2), of h] st(3) by (simp add: e)
  show "h' a = h a" if "a < dest \<or> dest + sz \<le> a" for a using st(4)[OF that] by (simp add: e)
  show "n = num + min (sz - num) (min (bytes_used p) (pipe_size p - pipe_read_index p))" by (simp add: e m_def)
  show "n = sz \<or> bytes_used p' = 0 \<or> pipe_read_index p' = 0"
    using num pipe_le[OF ok] by (auto simp: e get_bytes_def m_def min_def)
qed

lemma outside_same: "same_pipe p p' \<Longrightarrow> outside_buffer p' a n \<longleftrightarrow> outside_buffer p a n"
  and in_buffer_same: "same_pipe p p' \<Longrightarrow> in_buffer p' a \<longleftrightarrow> in_buffer p a"
  and same_pipe_trans: "same_pipe p p' \<Longrightarrow> same_pipe p' p'' \<Longrightarrow> same_pipe p p''"
  by (simp_all add: outside_buffer_def in_buffer_def same_pipe_def)

lemma outside_area: "outside_buffer p a n \<Longrightarrow> (\<And>b. \<not> in_buffer p b \<Longrightarrow> h' b = h b) \<Longrightarrow> area h' a n = area h a n"
  by (rule area_cong) (auto simp: outside_buffer_def in_buffer_def)

lemma buffer_put_spec:
  assumes ok: "pipe_ok p" and out: "outside_buffer p src sz"
  obtains n p' h' where "pipe_buffer_put p h src sz = (n, p', h')" "n = min sz (pipe_size p - bytes_used p)"
    "pipe_ok p'" "same_pipe p p'" "bytes_used p' = bytes_used p + n" "contents p' h' = contents p h @ area h src n"
    "\<forall>a. \<not> in_buffer p a \<longrightarrow> h' a = h a"
proof -
  obtain n1 p1 h1 where r1: "put_round src sz (0, p, h) = (n1, p1, h1)" by (metis prod_cases3)
  note s1 = put_round_contents[OF ok le0 out r1]
  obtain n2 p2 h2 where r2: "put_round src sz (n1, p1, h1) = (n2, p2, h2)" by (metis prod_cases3)
  have out1: "outside_buffer p1 src sz" using out outside_same[OF s1(2)] by simp
  note s2 = put_round_contents[OF s1(1) s1(5) out1 r2]
  have z: "pipe_size p1 = pipe_size p" using s1(2) by (simp add: same_pipe_def)
  have "n2 = min sz (pipe_size p - bytes_used p)"
    using s1(9)
  proof (elim disjE)
    assume "n1 = sz"
    then show ?thesis using s1(10) s2(4,5) by linarith
  next
    assume "bytes_used p1 = pipe_size p"
    then show ?thesis using s1(5,6) s2(10) pipe_le(1)[OF ok] z by simp
  next
    assume w: "pipe_write_index p1 = 0"
    have "n2 = n1 + min (min (pipe_size p - bytes_used p1) (pipe_size p)) (sz - n1)" using s2(10) w z by simp
    moreover have "bytes_used p1 = bytes_used p + n1" "n1 \<le> sz" "n1 \<le> pipe_size p - bytes_used p" using s1(5,6,10) by linarith+
    ultimately show ?thesis by linarith
  qed
  moreover have "area h1 (src + n1) (n2 - n1) = area h (src + n1) (n2 - n1)"
    by (rule outside_area[OF _ s1(8)]) (use out s2(4,5) in \<open>auto simp: outside_buffer_def\<close>)
  then have "contents p2 h2 = contents p h @ area h src n2"
    using s1(3) s2(3) area_add[of h src n1 "n2 - n1"] s2(4) by simp
  moreover have "bytes_used p2 = bytes_used p + n2" using s1(4,6) s2(4,6) by simp
  moreover have "h2 a = h a" if "\<not> in_buffer p a" for a using that s1(8) s2(8) in_buffer_same[OF s1(2)] by simp
  moreover have "pipe_buffer_put p h src sz = (n2, p2, h2)" by (simp add: pipe_buffer_put_def r1 r2)
  ultimately show thesis using that[of n2 p2 h2] s2(1) same_pipe_trans[OF s1(2) s2(2)] by blast
qed

lemma buffer_get_spec:
  assumes ok: "pipe_ok p" and out: "outside_buffer p dest sz"
  obtains n p' h' where "pipe_buffer_get p h dest sz = (n, p', h')" "n = min sz (bytes_used p)"
    "pipe_ok p'" "same_pipe p p'" "bytes_used p' = bytes_used p - n" "contents p h = area h' dest n @ contents p' h'"
    "\<forall>a. a < dest \<or> dest + sz \<le> a \<longrightarrow> h' a = h a"
proof -
  obtain n1 p1 h1 where r1: "get_round dest sz (0, p, h) = (n1, p1, h1)" by (metis prod_cases3)
  note s1 = get_round_contents[OF ok le0 out r1]
  obtain n2 p2 h2 where r2: "get_round dest sz (n1, p1, h1) = (n2, p2, h2)" by (metis prod_cases3)
  have out1: "outside_buffer p1 dest sz" using out outside_same[OF s1(2)] by simp
  note s2 = get_round_contents[OF s1(1) s1(5) out1 r2]
  have z: "pipe_size p1 = pipe_size p" using s1(2) by (simp add: same_pipe_def)
  have "n2 = min sz (bytes_used p)"
    using s1(9)
  proof (elim disjE)
    assume "n1 = sz"
    then show ?thesis using s1(10) s2(4,5) by linarith
  next
    assume "bytes_used p1 = 0"
    then show ?thesis using s1(5,6,10) s2(10) by simp
  next
    assume r: "pipe_read_index p1 = 0"
    have "n2 = n1 + min (sz - n1) (min (bytes_used p1) (pipe_size p))" using s2(10) r z by simp
    moreover have "bytes_used p1 = bytes_used p - n1" "n1 \<le> sz" "n1 \<le> bytes_used p" "bytes_used p1 \<le> pipe_size p"
      using s1(5,6,10) pipe_le(1)[OF s1(1)] z by linarith+
    ultimately show ?thesis by linarith
  qed
  moreover have "contents p h = area h2 dest n2 @ contents p2 h2" using s1(3) s2(3) by simp
  moreover have "bytes_used p2 = bytes_used p - n2" using s1(4,6) s2(4,6) by simp
  moreover have "h2 a = h a" if "a < dest \<or> dest + sz \<le> a" for a using that s1(8) s2(8) by simp
  moreover have "pipe_buffer_get p h dest sz = (n2, p2, h2)" by (simp add: pipe_buffer_get_def r1 r2)
  ultimately show thesis using that[of n2 p2 h2] s2(1) same_pipe_trans[OF s1(2) s2(2)] by blast
qed

section \<open>Threads between the queues\<close>

text \<open>
  \<^verbatim>\<open>_pipe_xfer_prepare\<close> takes threads off the wait queue and puts them on a list of its own; they become
  ready later.  The threads \<open>L\<close> are on no queue of the kernel.
\<close>

definition limbo :: "kconfig \<Rightarrow> tid set \<Rightarrow> tid set \<Rightarrow> 'z kernel_scheme \<Rightarrow> bool" where
  "limbo c X L k \<longleftrightarrow> sched_inv c (L \<union> X) k \<and> idle_ready c (L \<union> X) k \<and>
     (\<forall>t \<in> L. t \<notin> X \<and> t \<noteq> NULL \<and> valid_prio c (prio (thread k t)) \<and> delta k (ThreadTO t) = -1)"

definition taken_off :: "'z kernel_scheme \<Rightarrow> tid \<Rightarrow> 'z kernel_scheme" where
  "taken_off k t = snd (abort_thread_timeout (unpend_thread k t) t)"

lemma limbo_empty: "limbo c X {} k \<longleftrightarrow> kernel_inv c X k"
  by (simp add: limbo_def kernel_inv_def)

lemma taken_off_frame [simp]:
  "in_isr (taken_off k t) = in_isr k" "current (taken_off k t) = current k"
  "prio (thread (taken_off k t) u) = prio (thread k u)" "swap_data (thread (taken_off k t) u) = swap_data (thread k u)"
  "queues (taken_off k t) q = remove1 t (queues k q)"
  "flags (thread (taken_off k t) u) = (if u = t then flags (thread k t) AND NOT K_PENDING else flags (thread k u))"
  by (simp_all add: taken_off_def abort_thread_timeout_def)

lemma limbo_take:
  assumes l: "limbo c X L k" and t: "t \<in> set (queues k (WaitQ w))"
  shows "limbo c X (insert t L) (taken_off k t)" "t \<notin> L" "t \<notin> X" "t \<noteq> NULL" "is_thread_pending k t"
    "u \<noteq> t \<Longrightarrow> is_thread_ready (taken_off k t) u \<longleftrightarrow> is_thread_ready k u"
proof -
  let ?k1 = "unpend_thread k t" and ?k2 = "taken_off k t"
  have s: "sched_inv c (L \<union> X) k" and id: "idle_ready c (L \<union> X) k" using l by (simp_all add: limbo_def)
  show p: "is_thread_pending k t" using sched_invD(8)[OF s t] .
  have n: "t \<notin> L \<union> X" using sched_invD(7)[OF s] t by blast
  then show "t \<notin> L" "t \<notin> X" by simp_all
  have i1: "sched_inv c (insert t (L \<union> X)) ?k1" by (rule unpend_thread_inv[OF s p])
  then have i2: "sched_inv c (insert t (L \<union> X)) ?k2"
    using abort_thread_timeout_inv[OF i1, of t] sched_invD(7)[OF i1, of t] by (simp add: taken_off_def)
  have v: "t \<noteq> NULL" "valid_prio c (prio (thread k t))" using sched_invD(5,10)[OF s] n by metis+
  then show "t \<noteq> NULL" by simp
  have d: "delta ?k2 (ThreadTO t) = -1" by (simp add: taken_off_def abort_thread_timeout_def delta_abort_self)
  have "expiry ?k2 = (expiry k)(ThreadTO t := None)"
    using expiry_abort[OF sched_invD(4)[OF i1], of "ThreadTO t"] by (simp add: taken_off_def abort_thread_timeout_def)
  then have du: "delta ?k2 (ThreadTO u) = -1 \<longleftrightarrow> delta k (ThreadTO u) = -1" if "u \<noteq> t" for u
    using expiry_active[OF sched_invD(4)[OF i2], of "ThreadTO u"] expiry_active[OF sched_invD(4)[OF s], of "ThreadTO u"] that by simp
  then show "u \<noteq> t \<Longrightarrow> is_thread_ready ?k2 u \<longleftrightarrow> is_thread_ready k u" by (simp add: ready_bits)
  have ni: "t \<noteq> idle_thread c" using id p pending_not_ready by (auto simp: idle_ready_def)
  then have "idle_ready c (insert t (L \<union> X)) ?k2"
    using du[of "idle_thread c"] by (intro idle_other(1)[OF id]) auto
  moreover have "delta ?k2 (ThreadTO u) = -1" if "u \<in> L" for u using that l d du[of u] by (cases "u = t") (auto simp: limbo_def)
  ultimately show "limbo c X (insert t L) ?k2" using i2 v d n l by (auto simp: limbo_def)
qed

lemma limbo_ready:
  assumes l: "limbo c X L k" and t: "t \<in> L"
  shows "limbo c X (L - {t}) (ready_thread c k t)" "u \<noteq> t \<Longrightarrow> is_thread_ready (ready_thread c k t) u \<longleftrightarrow> is_thread_ready k u"
proof -
  have s: "sched_inv c (L \<union> X) k" and id: "idle_ready c (L \<union> X) k" and v: "t \<notin> X" "t \<noteq> NULL" "valid_prio c (prio (thread k t))" "delta k (ThreadTO t) = -1"
    using assms by (auto simp: limbo_def)
  show "u \<noteq> t \<Longrightarrow> is_thread_ready (ready_thread c k t) u \<longleftrightarrow> is_thread_ready k u" by (simp add: ready_bits)
  have e: "L \<union> X - {t} = (L - {t}) \<union> X" using v(1) by auto
  have "sched_inv c ((L - {t}) \<union> X) (ready_thread c k t)" using ready_thread_inv[OF s, of t] t v unfolding e by simp
  moreover have "idle_ready c ((L - {t}) \<union> X) (ready_thread c k t)"
    using idle_other(3)[OF id, of t "ready_thread c k t"] id t unfolding e by (auto simp: idle_ready_def)
  ultimately show "limbo c X (L - {t}) (ready_thread c k t)" using l by (simp add: limbo_def)
qed

definition all_ready :: "kconfig \<Rightarrow> tid list \<Rightarrow> 'z kernel_scheme \<Rightarrow> 'z kernel_scheme" where
  "all_ready c ts k = fold (\<lambda>t k. ready_thread c k t) ts k"

lemma all_ready_simps [simp]: "all_ready c [] k = k" "all_ready c (t # ts) k = all_ready c ts (ready_thread c k t)"
  "all_ready c (ts @ us) k = all_ready c us (all_ready c ts k)"
  by (simp_all add: all_ready_def)

lemma all_ready_frame [simp]:
  "in_isr (all_ready c ts k) = in_isr k" "current (all_ready c ts k) = current k"
  "swap_data (thread (all_ready c ts k) u) = swap_data (thread k u)" "queues (all_ready c ts k) (WaitQ w) = queues k (WaitQ w)"
  by (induction ts arbitrary: k) simp_all

lemma limbo_all_ready:
  "limbo c X L k \<Longrightarrow> set ts \<subseteq> L \<Longrightarrow> distinct ts \<Longrightarrow> limbo c X (L - set ts) (all_ready c ts k) \<and>
     (\<forall>u. u \<notin> set ts \<longrightarrow> is_thread_ready (all_ready c ts k) u \<longleftrightarrow> is_thread_ready k u)"
proof (induction ts arbitrary: k L)
  case (Cons t ts)
  have "limbo c X (L - {t}) (ready_thread c k t)" using limbo_ready(1)[OF Cons.prems(1)] Cons.prems(2) by simp
  moreover have "set ts \<subseteq> L - {t}" using Cons.prems(2,3) by auto
  moreover have "L - {t} - set ts = L - set (t # ts)" by auto
  ultimately show ?case using Cons.IH[of "L - {t}" "ready_thread c k t"] Cons.prems(3) limbo_ready(2)[OF Cons.prems(1)] Cons.prems(2) by simp
qed simp

text \<open>
  What is prepared: the longest part of the wait queue whose requests fit, and the thread behind it.
\<close>

definition wants :: "descs \<Rightarrow> 'z kernel_scheme \<Rightarrow> tid list \<Rightarrow> nat" where
  "wants ds k ts = sum_list (map (\<lambda>t. bytes_to_xfer (desc_of ds k t)) ts)"

lemma wants_simps [simp]: "wants ds k [] = 0" "wants ds k (t # ts) = bytes_to_xfer (desc_of ds k t) + wants ds k ts"
  "wants ds k (ts @ us) = wants ds k ts + wants ds k us"
  by (simp_all add: wants_def)

definition prepared ::
  "kconfig \<Rightarrow> tid set \<Rightarrow> descs \<Rightarrow> wqid \<Rightarrow> nat \<Rightarrow> nat \<Rightarrow> tid list \<Rightarrow> tid list \<Rightarrow> tid list \<Rightarrow>
     'z kernel_scheme \<Rightarrow> 'z kernel_scheme \<Rightarrow> bool" where
  "prepared c X ds w B num acc xs rest k k' \<longleftrightarrow>
     num + wants ds k xs \<le> B \<and> (rest \<noteq> [] \<longrightarrow> B < num + wants ds k (xs @ [hd rest])) \<and>
     limbo c X (set (acc @ xs)) k' \<and> distinct (acc @ xs) \<and> queues k' (WaitQ w) = rest \<and> current k' = current k \<and> in_isr k' = in_isr k \<and>
     (\<forall>u. swap_data (thread k' u) = swap_data (thread k u)) \<and> (\<forall>v. v \<noteq> w \<longrightarrow> queues k' (WaitQ v) = queues k (WaitQ v)) \<and>
     (\<forall>u. is_thread_ready k u \<longrightarrow> is_thread_ready k' u)"

lemma prepared_step:
  assumes l: "limbo c X (set acc) k" and t: "t \<in> set (queues k (WaitQ w))"
    and p: "prepared c X ds w B (num + bytes_to_xfer (desc_of ds k t)) (acc @ [t]) xs rest (taken_off k t) k'"
  shows "prepared c X ds w B num acc (t # xs) rest k k'"
proof -
  note lt = limbo_take[OF l t]
  have wk: "wants ds (taken_off k t) ys = wants ds k ys" for ys by (simp add: wants_def)
  have "queues (taken_off k t) (WaitQ v) = queues k (WaitQ v)" if "v \<noteq> w" for v
  proof -
    have "sched_inv c (set acc \<union> X) k" using l by (simp add: limbo_def)
    then have "t \<notin> set (queues k (WaitQ v))" using sched_invD(2) t that unfolding queues_wf_def by blast
    then show ?thesis by (simp add: remove1_idem)
  qed
  moreover have "is_thread_ready k u \<longrightarrow> is_thread_ready (taken_off k t) u" for u
    using lt(5) lt(6)[of u] pending_not_ready by (cases "u = t") auto
  ultimately show ?thesis using p by (auto simp: prepared_def wk)
qed

lemma prepare_loop_spec:
  assumes "limbo c X (set acc) k" "queues k (WaitQ w) = ws" "distinct ws" "distinct acc" "num \<le> B"
  shows "\<exists>n xs rest k'. prepare_loop ds w B num acc k = (n, acc @ xs, if rest = [] then NULL else hd rest, k') \<and> ws = xs @ rest \<and>
    (B < n \<longleftrightarrow> rest \<noteq> []) \<and> prepared c X ds w B num acc xs rest k k'"
  using assms
proof (induction ws arbitrary: acc num k)
  case Nil
  then have "prepare_loop ds w B num acc k = (num, acc @ [], NULL, k)" by (subst prepare_loop.simps) simp
  then show ?case using Nil by (intro exI[of _ num] exI[of _ "[]"] exI[of _ k]) (simp add: prepared_def)
next
  case (Cons t ws)
  let ?n = "num + bytes_to_xfer (desc_of ds k t)"
  show ?case
  proof (cases "?n > B")
    case True
    then have "prepare_loop ds w B num acc k = (?n, acc @ [], t, k)" using Cons.prems(2) by (subst prepare_loop.simps) (simp add: Let_def)
    moreover have "prepared c X ds w B num acc [] (t # ws) k k" using True Cons.prems by (simp add: prepared_def)
    ultimately show ?thesis using True by (intro exI[of _ ?n] exI[of _ "[]"] exI[of _ "t # ws"] exI[of _ k]) simp
  next
    case False
    have t: "t \<in> set (queues k (WaitQ w))" using Cons.prems(2) by simp
    note lt = limbo_take[OF Cons.prems(1) t]
    have e: "prepare_loop ds w B num acc k = prepare_loop ds w B ?n (acc @ [t]) (taken_off k t)"
      using Cons.prems(2) False by (subst prepare_loop.simps) (simp add: Let_def taken_off_def)
    have l1: "limbo c X (set (acc @ [t])) (taken_off k t)" using lt(1) by simp
    obtain n xs rest k' where IH:
      "prepare_loop ds w B ?n (acc @ [t]) (taken_off k t) = (n, (acc @ [t]) @ xs, if rest = [] then NULL else hd rest, k')"
      "ws = xs @ rest" "B < n \<longleftrightarrow> rest \<noteq> []" "prepared c X ds w B ?n (acc @ [t]) xs rest (taken_off k t) k'"
      using Cons.IH[OF l1, of ?n] Cons.prems(2-5) lt(2) False by auto
    show ?thesis unfolding e using IH(1-3) prepared_step[OF Cons.prems(1) t IH(4)]
      by (intro exI[of _ n] exI[of _ "t # xs"] exI[of _ rest] exI[of _ k']) simp
  qed
qed

lemma prepare_spec:
  assumes kinv: "kernel_inv c X k"
  shows "(\<exists>xs rest k'. queues k (WaitQ w) = xs @ rest \<and> prepared c X ds w B 0 [] xs rest k k' \<and>
      (rest \<noteq> [] \<longrightarrow> hd rest \<noteq> NULL) \<and>
      pipe_xfer_prepare ds w space B min_xfer timeout k =
        (if timeout = K_NO_WAIT \<and> no_wait_bytes ds k B (queues k (WaitQ w)) 0 + space < min_xfer then None
         else Some (xs, if rest = [] then NULL else hd rest, k')))"
proof -
  have l: "limbo c X (set []) k" using kinv by (simp add: limbo_empty)
  have s: "sched_inv c X k" using kinv by (simp add: kernel_inv_def)
  have d: "distinct (queues k (WaitQ w))" "NULL \<notin> set (queues k (WaitQ w))" using sched_invD(2)[OF s] by (auto simp: queues_wf_def)
  obtain n xs rest k' where p: "prepare_loop ds w B 0 [] k = (n, [] @ xs, if rest = [] then NULL else hd rest, k')" "queues k (WaitQ w) = xs @ rest"
    "B < n \<longleftrightarrow> rest \<noteq> []" "prepared c X ds w B 0 [] xs rest k k'"
    using prepare_loop_spec[OF l refl d(1)] by (metis distinct.simps(1) le0)
  have "rest \<noteq> [] \<longrightarrow> hd rest \<noteq> NULL" using d(2) p(2) by (cases rest) auto
  then show ?thesis using p
    by (intro exI[of _ xs] exI[of _ rest] exI[of _ k']) (auto simp: pipe_xfer_prepare_def)
qed

section \<open>The data of the waiting threads\<close>

definition apart :: "addr \<Rightarrow> nat \<Rightarrow> addr \<Rightarrow> nat \<Rightarrow> bool" where
  "apart a m b n \<longleftrightarrow> a + m \<le> b \<or> b + n \<le> a"

abbreviation desc_data :: "bytes \<Rightarrow> k_pipe_desc \<Rightarrow> u8 list" where
  "desc_data h d \<equiv> area h (desc_buffer d) (bytes_to_xfer d)"

definition waiting_data :: "bytes \<Rightarrow> descs \<Rightarrow> 'z kernel_scheme \<Rightarrow> tid list \<Rightarrow> u8 list" where
  "waiting_data h ds k ts = concat (map (\<lambda>t. desc_data h (desc_of ds k t)) ts)"

lemma waiting_data_simps [simp]:
  "waiting_data h ds k [] = []" "waiting_data h ds k (t # ts) = desc_data h (desc_of ds k t) @ waiting_data h ds k ts"
  "waiting_data h ds k (ts @ us) = waiting_data h ds k ts @ waiting_data h ds k us" "length (waiting_data h ds k ts) = wants ds k ts"
  by (simp_all add: waiting_data_def wants_def length_concat comp_def)

lemma waiting_cong:
  assumes "\<And>t. t \<in> set ts \<Longrightarrow> swap_data (thread k' t) = swap_data (thread k t)" "\<And>t. t \<in> set ts \<Longrightarrow> desc_of ds' k t = desc_of ds k t"
    "\<And>t. t \<in> set ts \<Longrightarrow> desc_data h' (desc_of ds k t) = desc_data h (desc_of ds k t)"
  shows "waiting_data h' ds' k' ts = waiting_data h ds k ts" "wants ds' k' ts = wants ds k ts"
  using assms by (simp_all add: waiting_data_def wants_def cong: map_cong)

lemma advance_simps [simp]:
  "desc_buffer (desc_advance ds a n a) = desc_buffer (ds a) + n" "bytes_to_xfer (desc_advance ds a n a) = bytes_to_xfer (ds a) - n"
  "b \<noteq> a \<Longrightarrow> desc_advance ds a n b = ds b"
  by (simp_all add: desc_advance_def)

text \<open>Areas the data of a waiting writer may be in: neither where they are read to nor in the pipe's buffer.\<close>

definition src_ok :: "k_pipe \<Rightarrow> addr \<Rightarrow> nat \<Rightarrow> k_pipe_desc \<Rightarrow> bool" where
  "src_ok p data B d \<longleftrightarrow> outside_buffer p (desc_buffer d) (bytes_to_xfer d) \<and> apart data B (desc_buffer d) (bytes_to_xfer d)"

lemma src_ok_advance: "src_ok p data B (ds a) \<Longrightarrow> n \<le> bytes_to_xfer (ds a) \<Longrightarrow> src_ok p data B (desc_advance ds a n a)"
  by (auto simp: src_ok_def outside_buffer_def apart_def)

lemma take_writer_step:
  assumes ok: "src_ok p data B (desc_of ds k t)" and n: "n \<le> B"
  defines "d \<equiv> desc_of ds k t" and "m \<equiv> min (B - n) (bytes_to_xfer (desc_of ds k t))"
  obtains h' where "take_writer k data B t (n, h, ds) = (n + m, h', desc_advance ds (swap_data (thread k t)) m)"
    "area h' data (n + m) @ desc_data h' (desc_advance ds (swap_data (thread k t)) m (swap_data (thread k t))) = area h data n @ desc_data h d"
    "\<forall>x. x < data \<or> data + B \<le> x \<longrightarrow> h' x = h x"
proof -
  have m: "m \<le> bytes_to_xfer d" "n + m \<le> B" using n by (auto simp: m_def d_def)
  have dis: "disjoint_areas (data + n) (desc_buffer d) m"
    using ok m by (auto simp: src_ok_def apart_def disjoint_areas_def d_def)
  let ?h = "copied h (data + n) (desc_buffer d) m"
  have e: "take_writer k data B t (n, h, ds) = (n + m, ?h, desc_advance ds (swap_data (thread k t)) m)"
    using xfer_loop_eq[OF dis] by (simp add: take_writer_def pipe_xfer_def Let_def m_def d_def)
  have fr: "?h x = h x" if "x < data \<or> data + B \<le> x" for x by (rule copied_other) (use that m in auto)
  have a: "area ?h data (n + m) = area h data n @ area h (desc_buffer d) m"
    using copied_area[OF dis, of h] by (simp add: area_add) (rule area_cong, rule copied_other, simp)
  have "area ?h (desc_buffer d + m) (bytes_to_xfer d - m) = area h (desc_buffer d + m) (bytes_to_xfer d - m)"
    by (rule area_cong, rule fr) (use ok m in \<open>auto simp: src_ok_def apart_def d_def\<close>)
  then have "area ?h data (n + m) @ desc_data ?h (desc_advance ds (swap_data (thread k t)) m (swap_data (thread k t))) = area h data n @ desc_data h d"
    using a m(1) area_add[of h "desc_buffer d" m "bytes_to_xfer d - m"] by (simp add: d_def)
  then show thesis using that[OF e] fr by blast
qed

lemma waiting_other:
  assumes "\<forall>t \<in> set ts. src_ok p data B (desc_of ds k t)" "a \<notin> (\<lambda>t. swap_data (thread k t)) ` set ts" "\<And>b. b \<noteq> a \<Longrightarrow> ds' b = ds b"
    "\<forall>x. x < data \<or> data + B \<le> x \<longrightarrow> h' x = h x"
  shows "waiting_data h' ds' k ts = waiting_data h ds k ts" "wants ds' k ts = wants ds k ts"
proof -
  have d: "desc_of ds' k t = desc_of ds k t" if "t \<in> set ts" for t using assms(2) that by (intro assms(3)) auto
  have "desc_data h' (desc_of ds k t) = desc_data h (desc_of ds k t)" if "t \<in> set ts" for t
    using assms(1) that by (intro area_cong assms(4)[rule_format]) (auto simp: src_ok_def apart_def)
  then show "waiting_data h' ds' k ts = waiting_data h ds k ts" "wants ds' k ts = wants ds k ts" using d by (intro waiting_cong; simp)+
qed

text \<open>The first loop of a read moves data from the writers behind the data read so far.\<close>

definition drained ::
  "k_pipe \<Rightarrow> addr \<Rightarrow> nat \<Rightarrow> 'z kernel_scheme \<Rightarrow> tid list \<Rightarrow> nat \<times> bytes \<times> descs \<Rightarrow> tid list \<Rightarrow> nat \<times> bytes \<times> descs \<Rightarrow> bool" where
  "drained p data B k xs s ys s' \<longleftrightarrow> (case (s, s') of ((n, h, ds), (n', h', ds')) \<Rightarrow>
     n' = min B (n + wants ds k xs) \<and> n' + wants ds' k ys = n + wants ds k xs \<and>
     area h' data n' @ waiting_data h' ds' k ys = area h data n @ waiting_data h ds k xs \<and>
     (\<forall>x. x < data \<or> data + B \<le> x \<longrightarrow> h' x = h x) \<and> (\<forall>a. a \<notin> (\<lambda>t. swap_data (thread k t)) ` set xs \<longrightarrow> ds' a = ds a) \<and>
     (\<forall>t \<in> set ys. src_ok p data B (desc_of ds' k t)))"

lemma drained_first:
  assumes ok: "\<forall>u \<in> set (t # ts). src_ok p data B (desc_of ds k u)" and d: "distinct (map (\<lambda>t. swap_data (thread k t)) (t # ts))" and n: "n \<le> B"
  obtains m h1 where "m = min (B - n) (bytes_to_xfer (desc_of ds k t))"
    "take_writer k data B t (n, h, ds) = (n + m, h1, desc_advance ds (swap_data (thread k t)) m)"
    "area h1 data (n + m) @ waiting_data h1 (desc_advance ds (swap_data (thread k t)) m) k (t # ts) = area h data n @ waiting_data h ds k (t # ts)"
    "\<forall>x. x < data \<or> data + B \<le> x \<longrightarrow> h1 x = h x" "m + wants (desc_advance ds (swap_data (thread k t)) m) k (t # ts) = wants ds k (t # ts)"
    "\<forall>u \<in> set (t # ts). src_ok p data B (desc_of (desc_advance ds (swap_data (thread k t)) m) k u)"
proof -
  define a where "a = swap_data (thread k t)"
  define m where "m = min (B - n) (bytes_to_xfer (ds a))"
  have ok': "src_ok p data B (ds a)" "\<forall>u \<in> set ts. src_ok p data B (desc_of ds k u)" using ok by (simp_all add: a_def)
  obtain h1 where s: "take_writer k data B t (n, h, ds) = (n + m, h1, desc_advance ds a m)"
    "area h1 data (n + m) @ desc_data h1 (desc_advance ds a m a) = area h data n @ desc_data h (ds a)"
    "\<forall>x. x < data \<or> data + B \<le> x \<longrightarrow> h1 x = h x"
    by (rule take_writer_step[where ds = ds and k = k and t = t and h = h, folded a_def, OF ok'(1) n, folded m_def])
  have na: "a \<notin> (\<lambda>t. swap_data (thread k t)) ` set ts" using d by (simp add: a_def)
  have w: "waiting_data h1 (desc_advance ds a m) k ts = waiting_data h ds k ts" "wants (desc_advance ds a m) k ts = wants ds k ts"
    by (rule waiting_other[OF ok'(2) na _ s(3)]; simp)+
  have "src_ok p data B (desc_of (desc_advance ds a m) k u)" if "u \<in> set (t # ts)" for u
  proof (cases "swap_data (thread k u) = a")
    case True
    then show ?thesis using src_ok_advance[where ds = ds and a = a, OF ok'(1)] by (simp add: m_def)
  next
    case False
    then show ?thesis using ok that by auto
  qed
  moreover have "m + wants (desc_advance ds a m) k (t # ts) = wants ds k (t # ts)" using w(2) by (simp add: m_def flip: a_def)
  moreover have "area h1 data (n + m) @ waiting_data h1 (desc_advance ds a m) k (t # ts) = area h data n @ waiting_data h ds k (t # ts)"
    using s(2) w(1) by (simp flip: a_def)
  ultimately show thesis using that[of m h1] s(1,3) by (simp add: m_def a_def)
qed

lemma take_writers_spec:
  assumes "\<forall>t \<in> set xs. src_ok p data B (desc_of ds k t)" "distinct (map (\<lambda>t. swap_data (thread k t)) xs)" "n \<le> B"
  shows "\<exists>zs ys s'. xs = zs @ ys \<and> take_writers c data B xs ((n, h, ds), k) = (ys, s', all_ready c zs k) \<and> drained p data B k xs (n, h, ds) ys s'"
  using assms
proof (induction xs arbitrary: n h ds k)
  case Nil
  then show ?case by (intro exI[of _ "[]"] exI[of _ "(n, h, ds)"]) (simp add: drained_def)
next
  case (Cons t ts)
  show ?case
  proof (cases "n < B")
    case False
    then show ?thesis using Cons.prems
      by (intro exI[of _ "[]"] exI[of _ "t # ts"] exI[of _ "(n, h, ds)"]) (simp add: drained_def)
  next
    case True
    let ?a = "swap_data (thread k t)"
    obtain m h1 where m: "m = min (B - n) (bytes_to_xfer (desc_of ds k t))" "take_writer k data B t (n, h, ds) = (n + m, h1, desc_advance ds ?a m)"
      "area h1 data (n + m) @ waiting_data h1 (desc_advance ds ?a m) k (t # ts) = area h data n @ waiting_data h ds k (t # ts)"
      "\<forall>x. x < data \<or> data + B \<le> x \<longrightarrow> h1 x = h x" "m + wants (desc_advance ds ?a m) k (t # ts) = wants ds k (t # ts)"
      "\<forall>u \<in> set (t # ts). src_ok p data B (desc_of (desc_advance ds ?a m) k u)"
      by (rule drained_first[OF Cons.prems])
    let ?d = "desc_advance ds ?a m"
    show ?thesis
    proof (cases "n + m = B")
      case full: True
      then have "take_writers c data B (t # ts) ((n, h, ds), k) = (t # ts, (B, h1, ?d), all_ready c [] k)" using m(2) True by simp
      moreover have "drained p data B k (t # ts) (n, h, ds) (t # ts) (B, h1, ?d)"
        unfolding drained_def using m(3-6) full by (simp del: wants_simps(2) waiting_data_simps(2))
      ultimately show ?thesis by (intro exI[of _ "[]"] exI[of _ "t # ts"] exI[of _ "(B, h1, ?d)"]) simp
    next
      case part: False
      let ?k = "ready_thread c k t"
      have ml: "m = bytes_to_xfer (desc_of ds k t)" "n + m \<le> B" using m(1) part Cons.prems(3) by linarith+
      have wk: "wants e ?k us = wants e k us" "waiting_data g e ?k us = waiting_data g e k us" for e g us
        by (simp_all add: wants_def waiting_data_def)
      have dk: "drained p data B ?k us s vs s' \<longleftrightarrow> drained p data B k us s vs s'" for us s vs s' by (simp add: drained_def wk)
      obtain zs ys s' where IH: "ts = zs @ ys" "take_writers c data B ts ((n + m, h1, ?d), ?k) = (ys, s', all_ready c zs ?k)"
        "drained p data B k ts (n + m, h1, ?d) ys s'"
        using Cons.IH[of ?d ?k "n + m" h1] m(6) Cons.prems(2) ml(2) unfolding dk by auto
      have "take_writers c data B (t # ts) ((n, h, ds), k) = (ys, s', all_ready c (t # zs) k)"
        using m(2) True part IH(2) by simp
      moreover have "drained p data B k (t # ts) (n, h, ds) ys s'"
        using IH(3) m(3-5) ml(1) by (auto simp: drained_def)
      ultimately show ?thesis using IH(1) by (intro exI[of _ "t # zs"] exI[of _ ys] exI[of _ s']) simp
    qed
  qed
qed

text \<open>The second loop moves data of the writers into the buffer.\<close>

definition outside_all :: "k_pipe \<Rightarrow> descs \<Rightarrow> 'z kernel_scheme \<Rightarrow> tid list \<Rightarrow> bool" where
  "outside_all p ds k ts \<longleftrightarrow> (\<forall>t \<in> set ts. outside_buffer p (desc_buffer (desc_of ds k t)) (bytes_to_xfer (desc_of ds k t)))"

lemma distinct_key: "distinct (map f (t # ts)) \<Longrightarrow> u \<in> set ts \<Longrightarrow> f u \<noteq> f t"
  by (metis distinct.simps(2) image_eqI list.simps(9) set_map)

lemma refill_writer_step:
  assumes ok: "pipe_ok p" and out: "outside_all p ds k (t # ts)" and d: "distinct (map (\<lambda>t. swap_data (thread k t)) (t # ts))"
  obtains m p' h' where "m = min (bytes_to_xfer (desc_of ds k t)) (pipe_size p - bytes_used p)"
    "refill_writer k t (p, h, ds) = (p', h', desc_advance ds (swap_data (thread k t)) m)" "pipe_ok p'" "same_pipe p p'"
    "bytes_used p' = bytes_used p + m"
    "contents p' h' @ waiting_data h' (desc_advance ds (swap_data (thread k t)) m) k (t # ts) = contents p h @ waiting_data h ds k (t # ts)"
    "\<forall>x. \<not> in_buffer p x \<longrightarrow> h' x = h x" "outside_all p' (desc_advance ds (swap_data (thread k t)) m) k (t # ts)"
    "m + wants (desc_advance ds (swap_data (thread k t)) m) k (t # ts) = wants ds k (t # ts)"
proof -
  define a where "a = swap_data (thread k t)"
  have o: "outside_buffer p (desc_buffer (ds a)) (bytes_to_xfer (ds a))" using out by (simp add: outside_all_def a_def)
  obtain m p' h' where b: "pipe_buffer_put p h (desc_buffer (ds a)) (bytes_to_xfer (ds a)) = (m, p', h')"
    "m = min (bytes_to_xfer (ds a)) (pipe_size p - bytes_used p)" "pipe_ok p'" "same_pipe p p'" "bytes_used p' = bytes_used p + m"
    "contents p' h' = contents p h @ area h (desc_buffer (ds a)) m" "\<forall>x. \<not> in_buffer p x \<longrightarrow> h' x = h x"
    by (rule buffer_put_spec[where h = h, OF ok o])
  let ?d = "desc_advance ds a m"
  have na: "swap_data (thread k u) \<noteq> a" if "u \<in> set ts" for u using distinct_key[OF d that] by (simp add: a_def)
  have "area h' (desc_buffer (desc_of ds k u)) (bytes_to_xfer (desc_of ds k u)) = desc_data h (desc_of ds k u)" if "u \<in> set ts" for u
    using out that by (intro outside_area[OF _ b(7)[rule_format]]) (auto simp: outside_all_def)
  then have w: "waiting_data h' ?d k ts = waiting_data h ds k ts" "wants ?d k ts = wants ds k ts"
    using na by (intro waiting_cong; simp)+
  have "area h' (desc_buffer (ds a) + m) (bytes_to_xfer (ds a) - m) = area h (desc_buffer (ds a) + m) (bytes_to_xfer (ds a) - m)"
    by (rule outside_area[OF _ b(7)[rule_format]]) (use o b(2) in \<open>auto simp: outside_buffer_def\<close>)
  then have "contents p' h' @ waiting_data h' ?d k (t # ts) = contents p h @ waiting_data h ds k (t # ts)"
    using b(2,6) w(1) area_add[of h "desc_buffer (ds a)" m "bytes_to_xfer (ds a) - m"] by (simp flip: a_def)
  moreover have "outside_all p' ?d k (t # ts)"
    using out o b(2) na outside_same[OF b(4)] by (auto simp: outside_all_def a_def[symmetric]) (auto simp: outside_buffer_def)
  moreover have "m + wants ?d k (t # ts) = wants ds k (t # ts)" using w(2) b(2) by (simp flip: a_def)
  ultimately show thesis using that[of m p' h'] b by (simp add: refill_writer_def Let_def a_def)
qed

definition refilled ::
  "'z kernel_scheme \<Rightarrow> tid list \<Rightarrow> tid list \<Rightarrow> k_pipe \<times> bytes \<times> descs \<Rightarrow> k_pipe \<times> bytes \<times> descs \<Rightarrow> bool" where
  "refilled k ys ts s s' \<longleftrightarrow> (case (s, s') of ((p, h, ds), (p', h', ds')) \<Rightarrow>
     pipe_ok p' \<and> same_pipe p p' \<and> bytes_used p' = bytes_used p + wants ds k ys \<and>
     contents p' h' @ waiting_data h' ds' k ts = contents p h @ waiting_data h ds k (ys @ ts) \<and> (\<forall>x. \<not> in_buffer p x \<longrightarrow> h' x = h x) \<and>
     outside_all p' ds' k ts \<and> wants ds' k ts = wants ds k ts \<and> (\<forall>a. a \<notin> (\<lambda>t. swap_data (thread k t)) ` set ys \<longrightarrow> ds' a = ds a))"

lemma refill_writers_spec:
  assumes "pipe_ok p" "outside_all p ds k (ys @ ts)" "distinct (map (\<lambda>t. swap_data (thread k t)) (ys @ ts))"
    "wants ds k ys \<le> pipe_size p - bytes_used p"
  shows "\<exists>s'. refill_writers c ys ((p, h, ds), k) = (s', all_ready c ys k) \<and> refilled k ys ts (p, h, ds) s'"
  using assms
proof (induction ys arbitrary: p h ds k)
  case Nil
  then show ?case by (simp add: refilled_def same_pipe_def)
next
  case (Cons t ys)
  let ?a = "swap_data (thread k t)" and ?k = "ready_thread c k t"
  have ap: "outside_all p ds k (t # ys @ ts)" "distinct (map (\<lambda>t. swap_data (thread k t)) (t # ys @ ts))" using Cons.prems(2,3) by simp_all
  obtain m p1 h1 where s: "m = min (bytes_to_xfer (desc_of ds k t)) (pipe_size p - bytes_used p)"
    "refill_writer k t (p, h, ds) = (p1, h1, desc_advance ds ?a m)" "pipe_ok p1" "same_pipe p p1" "bytes_used p1 = bytes_used p + m"
    "contents p1 h1 @ waiting_data h1 (desc_advance ds ?a m) k (t # ys @ ts) = contents p h @ waiting_data h ds k (t # ys @ ts)"
    "\<forall>x. \<not> in_buffer p x \<longrightarrow> h1 x = h x" "outside_all p1 (desc_advance ds ?a m) k (t # ys @ ts)"
    "m + wants (desc_advance ds ?a m) k (t # ys @ ts) = wants ds k (t # ys @ ts)"
    by (rule refill_writer_step[where h = h, OF Cons.prems(1) ap])
  let ?d = "desc_advance ds ?a m"
  have m: "m = bytes_to_xfer (desc_of ds k t)" using s(1) Cons.prems(4) by simp
  have na: "swap_data (thread k u) \<noteq> ?a" if "u \<in> set (ys @ ts)" for u by (rule distinct_key[OF ap(2) that])
  have wd: "wants ?d k ys = wants ds k ys" "wants ?d k ts = wants ds k ts"
    using na by (auto simp: wants_def intro!: arg_cong[of _ _ sum_list])
  have wk: "wants e ?k us = wants e k us" "waiting_data g e ?k us = waiting_data g e k us" "outside_all q e ?k us = outside_all q e k us"
    for e g us q by (simp_all add: wants_def waiting_data_def outside_all_def)
  have sz: "pipe_size p1 = pipe_size p" using s(4) by (simp add: same_pipe_def)
  have o: "outside_all p1 ?d k (ys @ ts)" using s(8) by (simp add: outside_all_def)
  have sp: "wants ?d k ys \<le> pipe_size p1 - bytes_used p1" using Cons.prems(4) s(5) sz wd(1) m by simp
  have "distinct (map (\<lambda>t. swap_data (thread ?k t)) (ys @ ts))" using ap(2) by simp
  from Cons.IH[where ds = ?d and k = ?k and h = h1, unfolded wk, OF s(3) o this sp] obtain s' where
    IH: "refill_writers c ys ((p1, h1, ?d), ?k) = (s', all_ready c ys ?k)" "refilled k ys ts (p1, h1, ?d) s'"
    by (auto simp: refilled_def wk)
  have "contents p1 h1 @ waiting_data h1 ?d k (ys @ ts) = contents p h @ waiting_data h ds k (t # ys @ ts)" using s(6) m by simp
  then have "refilled k (t # ys) ts (p, h, ds) s'"
    using IH(2) s(4,5,7) wd m same_pipe_trans[OF s(4)] in_buffer_same[OF s(4)] by (auto simp: refilled_def)
  then show ?case using s(2) IH(1) by (intro exI[of _ s']) simp
qed

section \<open>Reading: the stream\<close>

definition stream :: "'z pipe_state \<Rightarrow> u8 list" where
  "stream = (\<lambda>(p, h, ds, k). contents p h @ waiting_data h ds k (queues k (WaitQ (pipe_writers p))))"

lemma same_swap:
  assumes "\<And>u. swap_data (thread k' u) = swap_data (thread k u)"
  shows "wants ds k' = wants ds k" "waiting_data h ds k' = waiting_data h ds k" "outside_all p ds k' = outside_all p ds k"
    "drained p data B k' = drained p data B k" "refilled k' = refilled k"
proof -
  show w: "wants ds k' = wants ds k" "waiting_data h ds k' = waiting_data h ds k" "outside_all p ds k' = outside_all p ds k" for h ds p
    by (simp_all add: wants_def waiting_data_def outside_all_def assms fun_eq_iff)
  show "drained p data B k' = drained p data B k" "refilled k' = refilled k"
    by (simp_all add: drained_def refilled_def w assms fun_eq_iff)
qed

lemma src_ok_area:
  assumes "\<forall>t \<in> set ts. src_ok p data B (desc_of ds k t)" "\<forall>x. x < data \<or> data + B \<le> x \<longrightarrow> h' x = h x"
    "\<forall>t \<in> set ts. desc_of ds' k t = desc_of ds k t"
  shows "waiting_data h' ds' k ts = waiting_data h ds k ts" "wants ds' k ts = wants ds k ts"
proof -
  have "desc_data h' (desc_of ds k t) = desc_data h (desc_of ds k t)" if "t \<in> set ts" for t
    using assms(1) that by (intro area_cong assms(2)[rule_format]) (auto simp: src_ok_def apart_def)
  then show "waiting_data h' ds' k ts = waiting_data h ds k ts" "wants ds' k ts = wants ds k ts"
    using assms(3) by (intro waiting_cong; simp)+
qed

text \<open>
  Taking data from the writers that can be served and then from the one behind them: all in all, from
  the first writer that has data left.
\<close>

lemma take_all:
  assumes ok: "\<forall>t \<in> set (xs @ rest). src_ok p data B (desc_of ds k t)" and d: "distinct (map (\<lambda>t. swap_data (thread k t)) (xs @ rest))" and n: "n \<le> B"
    and w: "w = (if rest = [] then NULL else hd rest)" "rest \<noteq> [] \<Longrightarrow> hd rest \<noteq> NULL"
    and sw: "\<And>u. swap_data (thread k1 u) = swap_data (thread k u)"
  obtains zs ys s2 n3 h3 ds3 where "xs = zs @ ys" "take_writers c data B xs ((n, h, ds), k1) = (ys, s2, all_ready c zs k1)"
    "(if w \<noteq> NULL \<and> fst s2 < B then take_writer (all_ready c zs k1) data B w s2 else s2) = (n3, h3, ds3)"
    "n3 = min B (n + wants ds k (if rest = [] then xs else xs @ [w]))" "wants ds3 k ys + min B (n + wants ds k xs) = n + wants ds k xs"
    "area h3 data n3 @ waiting_data h3 ds3 k (ys @ rest) = area h data n @ waiting_data h ds k (xs @ rest)"
    "\<forall>x. x < data \<or> data + B \<le> x \<longrightarrow> h3 x = h x" "\<forall>t \<in> set (ys @ rest). src_ok p data B (desc_of ds3 k t)"
    "\<forall>a. a \<notin> (\<lambda>t. swap_data (thread k t)) ` set (if rest = [] then xs else xs @ [w]) \<longrightarrow> ds3 a = ds a"
proof -
  have okx: "\<forall>t \<in> set xs. src_ok p data B (desc_of ds k1 t)" "distinct (map (\<lambda>t. swap_data (thread k1 t)) xs)" using ok d by (simp_all add: sw)
  from take_writers_spec[OF okx n, of c h] obtain zs ys n2 h2 ds2 where t: "xs = zs @ ys"
    "take_writers c data B xs ((n, h, ds), k1) = (ys, (n2, h2, ds2), all_ready c zs k1)" "drained p data B k xs (n, h, ds) ys (n2, h2, ds2)"
    unfolding same_swap[OF sw] by auto
  have D: "n2 = min B (n + wants ds k xs)" "n2 + wants ds2 k ys = n + wants ds k xs"
    "area h2 data n2 @ waiting_data h2 ds2 k ys = area h data n @ waiting_data h ds k xs"
    "\<forall>x. x < data \<or> data + B \<le> x \<longrightarrow> h2 x = h x" "\<forall>a. a \<notin> (\<lambda>t. swap_data (thread k t)) ` set xs \<longrightarrow> ds2 a = ds a"
    "\<forall>t \<in> set ys. src_ok p data B (desc_of ds2 k t)" using t(3) unfolding drained_def prod.case by blast+
  have nr: "\<forall>t \<in> set rest. desc_of ds2 k t = desc_of ds k t" using D(5) d by fastforce
  have okr: "\<forall>t \<in> set rest. src_ok p data B (desc_of ds k t)" using ok by simp
  have r2: "waiting_data h2 ds2 k rest = waiting_data h ds k rest" "wants ds2 k rest = wants ds k rest" by (rule src_ok_area[OF okr D(4) nr])+
  have okr2: "\<forall>t \<in> set rest. src_ok p data B (desc_of ds2 k t)" using okr nr by simp
  show thesis
  proof (cases "w \<noteq> NULL \<and> n2 < B")
    case False
    show thesis
    proof (rule that[OF t(1,2), of n2 h2 ds2])
      show "n2 = min B (n + wants ds k (if rest = [] then xs else xs @ [w]))" using False D(1) w by (cases "rest = []") auto
      show "area h2 data n2 @ waiting_data h2 ds2 k (ys @ rest) = area h data n @ waiting_data h ds k (xs @ rest)" using D(3) r2(1) by simp
      show "wants ds2 k ys + min B (n + wants ds k xs) = n + wants ds k xs" using D(1,2) by simp
    qed (use False D(4-6) okr2 in auto)
  next
    case True
    then obtain ts where rest: "rest = w # ts" using w(1) by (cases rest) auto
    have "\<forall>u \<in> set (w # ts). src_ok p data B (desc_of ds2 k u)" "distinct (map (\<lambda>t. swap_data (thread k t)) (w # ts))" "n2 \<le> B"
      using okr2 d True rest by simp_all
    from drained_first[where h = h2, OF this] obtain m h3 where m: "m = min (B - n2) (bytes_to_xfer (desc_of ds2 k w))"
      "take_writer k data B w (n2, h2, ds2) = (n2 + m, h3, desc_advance ds2 (swap_data (thread k w)) m)"
      "area h3 data (n2 + m) @ waiting_data h3 (desc_advance ds2 (swap_data (thread k w)) m) k rest = area h2 data n2 @ waiting_data h2 ds2 k rest"
      "\<forall>x. x < data \<or> data + B \<le> x \<longrightarrow> h3 x = h2 x"
      "\<forall>u \<in> set rest. src_ok p data B (desc_of (desc_advance ds2 (swap_data (thread k w)) m) k u)"
      unfolding rest by metis
    let ?d = "desc_advance ds2 (swap_data (thread k w)) m"
    have y0: "wants ds2 k ys = 0" using D(1,2) conjunct2[OF True] by linarith
    have "swap_data (thread k w) \<notin> (\<lambda>t. swap_data (thread k t)) ` set ys" using d t(1) rest by auto
    then have na: "swap_data (thread k u) \<noteq> swap_data (thread k w)" if "u \<in> set ys" for u using that by (metis image_eqI)
    have y1: "wants ?d k ys = 0" "waiting_data h2 ds2 k ys = []" "waiting_data h3 ?d k ys = []" "\<forall>u \<in> set ys. src_ok p data B (desc_of ?d k u)"
      using y0 na D(6) by (auto simp: wants_def waiting_data_def)
    have "take_writer (all_ready c zs k1) data B w (n2, h2, ds2) = (n2 + m, h3, ?d)" using m(2) by (simp add: take_writer_def sw)
    moreover have "n2 + m = min B (n + wants ds k (if rest = [] then xs else xs @ [w]))" using m(1) D(1) True nr rest by auto
    moreover have "\<forall>a. a \<notin> (\<lambda>t. swap_data (thread k t)) ` set (if rest = [] then xs else xs @ [w]) \<longrightarrow> ?d a = ds a"
      using D(5) rest by auto
    moreover have "area h3 data (n2 + m) @ waiting_data h3 ?d k (ys @ rest) = area h data n @ waiting_data h ds k (xs @ rest)"
      using D(3) m(3) y1 r2(1) by simp
    moreover have "wants ?d k ys + min B (n + wants ds k xs) = n + wants ds k xs" using D(1,2) y0 y1(1) by simp
    moreover have "\<forall>t \<in> set (ys @ rest). src_ok p data B (desc_of ?d k t)" using y1(4) m(5) by auto
    ultimately show thesis using True D(4) m(4) by (intro that[OF t(1,2), of "n2 + m" h3 ?d]) auto
  qed
qed

text \<open>
  Moving the data that are left into the buffer: first those of the writers that are served, then as much
  as fits of the next one's, which fills the buffer.
\<close>

lemma refill_all:
  assumes ok: "pipe_ok p" and out: "outside_all p ds k (ys @ rest)" and d: "distinct (map (\<lambda>t. swap_data (thread k t)) (ys @ rest))"
    and sp: "wants ds k ys \<le> pipe_size p - bytes_used p"
    and w: "w = (if rest = [] then NULL else hd rest)" "rest \<noteq> [] \<Longrightarrow> hd rest \<noteq> NULL"
    and full: "rest \<noteq> [] \<Longrightarrow> pipe_size p < bytes_used p + wants ds k (ys @ [w])"
    and sw: "\<And>u. swap_data (thread k1 u) = swap_data (thread k u)"
  obtains s4 p5 h5 ds5 where "refill_writers c ys ((p, h, ds), k1) = (s4, all_ready c ys k1)"
    "(if w \<noteq> NULL then refill_writer (all_ready c ys k1) w s4 else s4) = (p5, h5, ds5)"
    "pipe_ok p5" "same_pipe p p5" "rest \<noteq> [] \<longrightarrow> bytes_used p5 = pipe_size p" "outside_all p5 ds5 k rest"
    "contents p5 h5 @ waiting_data h5 ds5 k rest = contents p h @ waiting_data h ds k (ys @ rest)"
    "\<forall>x. \<not> in_buffer p x \<longrightarrow> h5 x = h x" "\<forall>a. a \<notin> (\<lambda>t. swap_data (thread k t)) ` set (if rest = [] then ys else ys @ [w]) \<longrightarrow> ds5 a = ds a"
    "rest \<noteq> [] \<longrightarrow> 0 < bytes_to_xfer (desc_of ds5 k w)"
proof -
  have d1: "distinct (map (\<lambda>t. swap_data (thread k1 t)) (ys @ rest))" using d by (simp add: sw)
  from refill_writers_spec[where c = c and h = h and k = k1, unfolded same_swap[OF sw], OF ok out d1 sp] obtain p4 h4 ds4 where
    r: "refill_writers c ys ((p, h, ds), k1) = ((p4, h4, ds4), all_ready c ys k1)" "refilled k ys rest (p, h, ds) (p4, h4, ds4)" by auto
  have R: "pipe_ok p4" "same_pipe p p4" "bytes_used p4 = bytes_used p + wants ds k ys"
    "contents p4 h4 @ waiting_data h4 ds4 k rest = contents p h @ waiting_data h ds k (ys @ rest)" "\<forall>x. \<not> in_buffer p x \<longrightarrow> h4 x = h x"
    "outside_all p4 ds4 k rest" "wants ds4 k rest = wants ds k rest" "\<forall>a. a \<notin> (\<lambda>t. swap_data (thread k t)) ` set ys \<longrightarrow> ds4 a = ds a"
    using r(2) unfolding refilled_def prod.case by blast+
  show thesis
  proof (cases rest)
    case Nil
    show thesis by (rule that[OF r(1), of p4 h4 ds4]) (use Nil w R in auto)
  next
    case (Cons u ts)
    then have u: "u = w" "w \<noteq> NULL" using w by simp_all
    have "outside_all p4 ds4 k (w # ts)" "distinct (map (\<lambda>t. swap_data (thread k t)) (w # ts))" using R(6) d Cons u by simp_all
    from refill_writer_step[where h = h4, OF R(1) this] obtain m p5 h5 where m:
      "m = min (bytes_to_xfer (desc_of ds4 k w)) (pipe_size p4 - bytes_used p4)"
      "refill_writer k w (p4, h4, ds4) = (p5, h5, desc_advance ds4 (swap_data (thread k w)) m)" "pipe_ok p5" "same_pipe p4 p5"
      "bytes_used p5 = bytes_used p4 + m"
      "contents p5 h5 @ waiting_data h5 (desc_advance ds4 (swap_data (thread k w)) m) k (w # ts) = contents p4 h4 @ waiting_data h4 ds4 k (w # ts)"
      "\<forall>x. \<not> in_buffer p4 x \<longrightarrow> h5 x = h4 x" "outside_all p5 (desc_advance ds4 (swap_data (thread k w)) m) k (w # ts)"
      by metis
    let ?d = "desc_advance ds4 (swap_data (thread k w)) m"
    have z: "pipe_size p4 = pipe_size p" using R(2) by (simp add: same_pipe_def)
    have dw: "desc_of ds4 k w = desc_of ds k w" using R(8) d Cons u by fastforce
    have "pipe_size p < bytes_used p4 + bytes_to_xfer (desc_of ds4 k w)" using full Cons R(3) dw by simp
    then have "pipe_size p - bytes_used p4 < bytes_to_xfer (desc_of ds4 k w)" using pipe_le(1)[OF R(1)] z by linarith
    then have fm: "m = pipe_size p - bytes_used p4" "m < bytes_to_xfer (desc_of ds4 k w)" using m(1) z by simp_all
    have "refill_writer (all_ready c ys k1) w (p4, h4, ds4) = (p5, h5, ?d)" using m(2) by (simp add: refill_writer_def sw)
    then have e: "(if w \<noteq> NULL then refill_writer (all_ready c ys k1) w (p4, h4, ds4) else (p4, h4, ds4)) = (p5, h5, ?d)" using u(2) by simp
    have uf: "rest \<noteq> [] \<longrightarrow> bytes_used p5 = pipe_size p" using m(5) fm(1) pipe_le(1)[OF R(1)] z by simp
    have c5: "contents p5 h5 @ waiting_data h5 ?d k rest = contents p h @ waiting_data h ds k (ys @ rest)" using m(6) R(4) Cons u(1) by simp
    have fr: "\<forall>x. \<not> in_buffer p x \<longrightarrow> h5 x = h x" using m(7) R(5) in_buffer_same[OF R(2)] by simp
    show thesis
      by (rule that[OF r(1) e m(3) same_pipe_trans[OF R(2) m(4)] uf _ c5 fr]) (use m(8) Cons u(1) R(8) fm(2) in auto)
  qed
qed

end
