(* ===== verification/Pipe_Operations.thy ===== *)
theory Pipe_Operations
  imports Pipe_Stream
begin

text \<open>
  The invariant of a pipe with its waiting threads, and reading: a get takes the first bytes of the stream,
  with the threads it serves and the thread it blocks.
\<close>

section \<open>The invariant\<close>

definition pipe_inv :: "kconfig \<Rightarrow> tid set \<Rightarrow> 'z pipe_state \<Rightarrow> bool" where
  "pipe_inv c X = (\<lambda>(p, h, ds, k).
     let rs = queues k (WaitQ (pipe_readers p)); ws = queues k (WaitQ (pipe_writers p))
     in kernel_inv c X k \<and> pipe_ok p \<and> pipe_readers p \<noteq> pipe_writers p \<and>
        (rs \<noteq> [] \<longrightarrow> bytes_used p = 0 \<and> ws = []) \<and> (ws \<noteq> [] \<longrightarrow> bytes_used p = pipe_size p) \<and>
        distinct (map (\<lambda>t. swap_data (thread k t)) (rs @ ws)) \<and> (\<forall>t \<in> set (rs @ ws). 0 < bytes_to_xfer (desc_of ds k t)) \<and>
        outside_all p ds k (rs @ ws))"

text \<open>Data go through the pipe in order when the scheduler steps after it are left aside.\<close>

definition read_ok :: "addr \<Rightarrow> nat \<Rightarrow> 'z pipe_state \<Rightarrow> bool" where
  "read_ok data B = (\<lambda>(p, h, ds, k). outside_buffer p data B \<and>
     (\<forall>t \<in> set (queues k (WaitQ (pipe_writers p))). apart data B (desc_buffer (desc_of ds k t)) (bytes_to_xfer (desc_of ds k t))))"

lemma area_prefix: "area h' a n @ xs = area h a n @ ys \<Longrightarrow> area h' a n = area h a n \<and> xs = ys"
  by (simp add: append_eq_append_conv)

lemma area_outside: "outside_buffer p a n \<Longrightarrow> m \<le> n \<Longrightarrow> (\<forall>x. \<not> in_buffer p x \<longrightarrow> h' x = h x) \<Longrightarrow> area h' a m = area h a m"
  by (rule outside_area[of p]) (auto simp: outside_buffer_def)

text \<open>
  The data moved by a read, with the threads \<open>xs @ rest\<close> waiting to write: \<open>n3\<close> bytes are read, the
  threads \<open>xs\<close> are served.
\<close>

lemma read_data:
  assumes ok: "pipe_ok p" and out: "outside_all p ds k (xs @ rest)" and d: "distinct (map (\<lambda>t. swap_data (thread k t)) (xs @ rest))"
    and full: "xs @ rest \<noteq> [] \<longrightarrow> bytes_used p = pipe_size p"
    and ap: "outside_buffer p data B" "\<forall>t \<in> set (xs @ rest). apart data B (desc_buffer (desc_of ds k t)) (bytes_to_xfer (desc_of ds k t))"
    and pre: "wants ds k xs \<le> B" "rest \<noteq> [] \<longrightarrow> B < wants ds k (xs @ [hd rest])"
    and w: "w = (if rest = [] then NULL else hd rest)" "rest \<noteq> [] \<Longrightarrow> hd rest \<noteq> NULL"
    and sw: "\<And>u. swap_data (thread k1 u) = swap_data (thread k u)"
  obtains n1 p1 h1 ys s2 k2 n3 h3 ds3 s4 p5 h5 ds5 where "pipe_buffer_get p h data B = (n1, p1, h1)"
    "take_writers c data B xs ((n1, h1, ds), k1) = (ys, s2, k2)"
    "(if w \<noteq> NULL \<and> fst s2 < B then take_writer k2 data B w s2 else s2) = (n3, h3, ds3)"
    "refill_writers c ys ((p1, h3, ds3), k2) = (s4, all_ready c xs k1)"
    "(if w \<noteq> NULL then refill_writer (all_ready c xs k1) w s4 else s4) = (p5, h5, ds5)"
    "pipe_ok p5" "same_pipe p p5" "rest \<noteq> [] \<longrightarrow> bytes_used p5 = pipe_size p" "outside_all p5 ds5 k rest"
    "n3 = min B (bytes_used p + wants ds k (xs @ rest))"
    "area h5 data n3 @ contents p5 h5 @ waiting_data h5 ds5 k rest = contents p h @ waiting_data h ds k (xs @ rest)"
    "\<forall>a. a \<notin> (\<lambda>t. swap_data (thread k t)) ` set (xs @ rest) \<longrightarrow> ds5 a = ds a"
    "\<forall>a. a \<in> (\<lambda>t. swap_data (thread k t)) ` set (tl rest) \<longrightarrow> ds5 a = ds a"
    "rest \<noteq> [] \<longrightarrow> 0 < bytes_to_xfer (desc_of ds5 k w)"
proof -
  obtain n1 p1 h1 where g: "pipe_buffer_get p h data B = (n1, p1, h1)" "n1 = min B (bytes_used p)" "pipe_ok p1" "same_pipe p p1"
    "bytes_used p1 = bytes_used p - n1" "contents p h = area h1 data n1 @ contents p1 h1" "\<forall>a. a < data \<or> data + B \<le> a \<longrightarrow> h1 a = h a"
    by (rule buffer_get_spec[where h = h, OF ok ap(1)])
  have src: "\<forall>t \<in> set (xs @ rest). src_ok p data B (desc_of ds k t)" using out ap(2) by (simp add: src_ok_def outside_all_def)
  have nB: "n1 \<le> B" using g(2) by simp
  obtain zs ys s2 n3 h3 ds3 where t: "xs = zs @ ys" "take_writers c data B xs ((n1, h1, ds), k1) = (ys, s2, all_ready c zs k1)"
    "(if w \<noteq> NULL \<and> fst s2 < B then take_writer (all_ready c zs k1) data B w s2 else s2) = (n3, h3, ds3)"
    "n3 = min B (n1 + wants ds k (if rest = [] then xs else xs @ [w]))" "wants ds3 k ys + min B (n1 + wants ds k xs) = n1 + wants ds k xs"
    "area h3 data n3 @ waiting_data h3 ds3 k (ys @ rest) = area h1 data n1 @ waiting_data h1 ds k (xs @ rest)"
    "\<forall>x. x < data \<or> data + B \<le> x \<longrightarrow> h3 x = h1 x" "\<forall>t \<in> set (ys @ rest). src_ok p data B (desc_of ds3 k t)"
    "\<forall>a. a \<notin> (\<lambda>t. swap_data (thread k t)) ` set (if rest = [] then xs else xs @ [w]) \<longrightarrow> ds3 a = ds a"
    by (rule take_all[where h = h1 and c = c, OF src d nB w sw])
  let ?f = "\<lambda>t. swap_data (thread k t)" and ?xw = "if rest = [] then xs else xs @ [w]"
  have z: "pipe_size p1 = pipe_size p" using g(4) by (simp add: same_pipe_def)
  have tw: "rest \<noteq> [] \<Longrightarrow> rest = w # tl rest" using w(1) by (cases rest) auto
  have ft: "?f u \<notin> ?f ` set ?xw" if "u \<in> set (tl rest)" for u
  proof -
    have "distinct (map ?f ((xs @ [w]) @ tl rest))" using d tw that by (cases rest) auto
    then show ?thesis using that by (auto simp: image_iff)
  qed
  have wt: "wants ds3 k (tl rest) = wants ds k (tl rest)" using t(9) ft by (auto simp: wants_def intro!: arg_cong[of _ _ sum_list])
  have wh: "waiting_data h1 ds k (xs @ rest) = waiting_data h ds k (xs @ rest)" by (rule src_ok_area(1)[OF src g(7)]) simp
  have ch: "contents p1 h3 = contents p1 h1"
    using t(7) ap(1) g(4) by (intro contents_cong[OF g(3)]) (auto simp: same_pipe_def in_buffer_def outside_buffer_def)
  have E: "area h3 data n3 @ contents p1 h3 @ waiting_data h3 ds3 k (ys @ rest) = contents p h @ waiting_data h ds k (xs @ rest)"
  proof (cases "n1 = B")
    case True
    then have "n3 = B" using t(4) by simp
    then show ?thesis using area_prefix[of h3 data B] t(6) True g(6) wh ch by simp
  next
    case False
    then have "contents p1 h3 = []" using g(2,5) by (simp add: contents_def)
    then show ?thesis using t(6) g(6) wh ch by simp
  qed
  have len: "n3 + wants ds3 k (ys @ rest) = n1 + wants ds k (xs @ rest)" using arg_cong[OF t(6), of length] by simp
  have sp: "wants ds3 k ys \<le> pipe_size p1 - bytes_used p1"
  proof (cases "xs @ rest = []")
    case False
    then have "pipe_size p1 - bytes_used p1 = n1" using full g(2,5) z by simp
    then show ?thesis using t(5) pre(1) by linarith
  qed (use t(1) in simp)
  have fl: "pipe_size p1 < bytes_used p1 + wants ds3 k (ys @ [w])" if "rest \<noteq> []"
  proof -
    have u: "bytes_used p1 = pipe_size p - n1" "n1 \<le> pipe_size p" "B < wants ds k (xs @ [w])" "n3 \<le> B" using that full pre(2) w(1) g(2,5) t(4) by auto
    have "wants e k (us @ rest) = wants e k (us @ [w]) + wants e k (tl rest)" for e us
      by (subst tw[OF that]) simp
    then have "n3 + wants ds3 k (ys @ [w]) = n1 + wants ds k (xs @ [w])" using len wt by simp
    then show ?thesis using u z by linarith
  qed
  have o1: "outside_all p1 ds3 k (ys @ rest)" using t(8) outside_same[OF g(4)] by (simp add: outside_all_def src_ok_def)
  have d1: "distinct (map ?f (ys @ rest))" using d t(1) by simp
  have sw2: "swap_data (thread (all_ready c zs k1) u) = swap_data (thread k u)" for u using sw by simp
  obtain s4 p5 h5 ds5 where r: "refill_writers c ys ((p1, h3, ds3), all_ready c zs k1) = (s4, all_ready c ys (all_ready c zs k1))"
    "(if w \<noteq> NULL then refill_writer (all_ready c ys (all_ready c zs k1)) w s4 else s4) = (p5, h5, ds5)"
    "pipe_ok p5" "same_pipe p1 p5" "rest \<noteq> [] \<longrightarrow> bytes_used p5 = pipe_size p1" "outside_all p5 ds5 k rest"
    "contents p5 h5 @ waiting_data h5 ds5 k rest = contents p1 h3 @ waiting_data h3 ds3 k (ys @ rest)"
    "\<forall>x. \<not> in_buffer p1 x \<longrightarrow> h5 x = h3 x" "\<forall>a. a \<notin> ?f ` set (if rest = [] then ys else ys @ [w]) \<longrightarrow> ds5 a = ds3 a"
    "rest \<noteq> [] \<longrightarrow> 0 < bytes_to_xfer (desc_of ds5 k w)"
    by (rule refill_all[where h = h3 and c = c, OF g(3) o1 d1 sp w fl sw2])
  have n3: "n3 = min B (bytes_used p + wants ds k (xs @ rest))"
  proof (cases "rest = []")
    case False
    then have "B < wants ds k (xs @ [w])" "wants ds k (xs @ rest) = wants ds k (xs @ [w]) + wants ds k (tl rest)"
      using pre(2) w(1) by (simp, cases rest, simp_all)
    then show ?thesis using t(4) False by simp
  qed (use t(4) g(2) in \<open>simp add: min_def\<close>)
  have "area h5 data n3 = area h3 data n3"
    using t(4) ap(1) r(8) in_buffer_same[OF g(4)] by (intro area_outside[of p data B]) auto
  then have st: "area h5 data n3 @ contents p5 h5 @ waiting_data h5 ds5 k rest = contents p h @ waiting_data h ds k (xs @ rest)" using E r(7) by simp
  have d5: "ds5 a = ds a" if "a \<notin> ?f ` set ?xw" for a using that r(9) t(1,9) by (auto split: if_splits)
  have "set ?xw \<subseteq> set (xs @ rest)" using w(1) by (cases rest) auto
  then have "\<forall>a. a \<notin> ?f ` set (xs @ rest) \<longrightarrow> ds5 a = ds a" "\<forall>a. a \<in> ?f ` set (tl rest) \<longrightarrow> ds5 a = ds a" using ft d5 by blast+
  moreover have e: "all_ready c ys (all_ready c zs k1) = all_ready c xs k1" by (simp add: t(1))
  ultimately show thesis using that[OF g(1) t(2,3), of s4 p5 h5 ds5] r(1-6,10)[unfolded e] n3 st z g(4) by (simp add: same_pipe_def)
qed

section \<open>The threads\<close>

text \<open>A call with the threads \<open>xs\<close> taken off the wait queue \<open>w\<close> and made ready, the scheduler locked.\<close>

definition served :: "kconfig \<Rightarrow> tid list \<Rightarrow> 'z kernel_scheme \<Rightarrow> 'z kernel_scheme" where
  "served c xs k = all_ready c xs (k_sched_lock k)"

lemma limbo_lock: "limbo c X L k \<Longrightarrow> limbo c X L (k_sched_lock k)"
  using is_thread_ready_cong[of "k_sched_lock k" _ k]
  by (simp add: limbo_def k_sched_lock_def sched_inv_upd_thread idle_ready_def)

lemma served_ok:
  assumes kinv: "kernel_inv c X k" and p: "prepared c X ds w B 0 [] xs rest k k1"
  shows "kernel_inv c X (served c xs k1)" "current (served c xs k1) = current k" "in_isr (served c xs k1) = in_isr k"
    "swap_data (thread (served c xs k1) u) = swap_data (thread k u)"
    "queues (served c xs k1) (WaitQ v) = (if v = w then rest else queues k (WaitQ v))"
    "thread_ctx X k \<Longrightarrow> queues k (WaitQ w) = xs @ rest \<Longrightarrow> thread_ctx X (served c xs k1)"
    "may_block c X k \<Longrightarrow> queues k (WaitQ w) = xs @ rest \<Longrightarrow> may_block c X (served c xs k1)"
proof -
  have l: "limbo c X (set xs) (k_sched_lock k1)" and d: "distinct xs" using p limbo_lock by (auto simp: prepared_def)
  note r = limbo_all_ready[OF l subset_refl d]
  show ki: "kernel_inv c X (served c xs k1)" using r by (simp add: served_def limbo_empty)
  show cu: "current (served c xs k1) = current k" and isr: "in_isr (served c xs k1) = in_isr k"
    "swap_data (thread (served c xs k1) u) = swap_data (thread k u)"
    "queues (served c xs k1) (WaitQ v) = (if v = w then rest else queues k (WaitQ v))"
    using p by (auto simp: served_def prepared_def)
  show tc: "thread_ctx X (served c xs k1)" if "thread_ctx X k" "queues k (WaitQ w) = xs @ rest"
  proof -
    have "current k \<notin> set xs"
      using that kinv sched_invD(8)[of c X k "current k" w] pending_not_ready by (auto simp: thread_ctx_def kernel_inv_def)
    then show ?thesis using that(1) r p cu isr by (simp add: thread_ctx_def prepared_def served_def)
  qed
  show "may_block c X k \<Longrightarrow> queues k (WaitQ w) = xs @ rest \<Longrightarrow> may_block c X (served c xs k1)"
    using tc ki cu by (simp add: may_block_def)
qed

text \<open>The current thread blocks with its descriptor at \<open>desc\<close>.\<close>

definition blocked_on :: "kconfig \<Rightarrow> wqid \<Rightarrow> addr \<Rightarrow> int \<Rightarrow> 'z kernel_scheme \<Rightarrow> 'z kernel_scheme" where
  "blocked_on c w desc timeout k = Swap c (pend_current_thread c (sched_unlock_no_reschedule
     (upd_thread k (current k) (\<lambda>th. th\<lparr>swap_data := desc\<rparr>))) w timeout)"

lemma blocked_on_ok:
  assumes "may_block c X k" "timeout_ok c timeout"
  shows "kernel_inv c X (blocked_on c w desc timeout k)"
    "queues (blocked_on c w desc timeout k) (WaitQ v) =
       (if v = w then insert_by_prio (\<lambda>x. prio (thread k x)) (current k) (queues k (WaitQ w)) else queues k (WaitQ v))"
    "swap_data (thread (blocked_on c w desc timeout k) u) = (if u = current k then desc else swap_data (thread k u))"
proof -
  let ?k = "sched_unlock_no_reschedule (upd_thread k (current k) (\<lambda>th. th\<lparr>swap_data := desc\<rparr>))"
  have "kernel_inv c X ?k" using assms(1) by (simp add: may_block_def sched_unlock_no_reschedule_def kernel_inv_upd_thread)
  moreover have "thread_ctx X ?k" using assms(1) is_thread_ready_cong[of "?k" _ k] by (simp add: may_block_def thread_ctx_def sched_unlock_no_reschedule_def)
  ultimately have b: "may_block c X ?k" using assms(1) by (simp add: may_block_def)
  show "kernel_inv c X (blocked_on c w desc timeout k)" using block_inv(1)[OF b assms(2)] by (simp add: blocked_on_def)
  have pr: "(\<lambda>x. prio (thread ?k x)) = (\<lambda>x. prio (thread k x))" by (auto simp: fun_eq_iff)
  show "queues (blocked_on c w desc timeout k) (WaitQ v) =
       (if v = w then insert_by_prio (\<lambda>x. prio (thread k x)) (current k) (queues k (WaitQ w)) else queues k (WaitQ v))"
    "swap_data (thread (blocked_on c w desc timeout k) u) = (if u = current k then desc else swap_data (thread k u))"
    using pend_current_waitq(1)[OF b, unfolded pr] by (simp_all add: blocked_on_def)
qed

section \<open>Reading\<close>

text \<open>The check that a get that must not wait makes, in terms of the stream.\<close>

lemma no_wait_bytes_eq: "num < B \<Longrightarrow> no_wait_bytes ds k B ts num = num + wants ds k ts \<and> num + wants ds k ts < B \<or>
    B \<le> no_wait_bytes ds k B ts num \<and> B \<le> num + wants ds k ts"
proof (induction ts arbitrary: num)
  case (Cons t ts)
  show ?case
  proof (cases "num + bytes_to_xfer (desc_of ds k t) < B")
    case True then show ?thesis using Cons.IH[OF True] by (simp add: Let_def add.assoc)
  qed (simp add: Let_def)
qed simp

lemma no_wait_few:
  assumes "m \<le> B"
  shows "no_wait_bytes ds k B ts 0 + space < m \<longleftrightarrow> space + wants ds k ts < m"
  using no_wait_bytes_eq[of 0 B ds k ts] assms by (cases "B = 0") auto

lemma waiting_length [simp]: "length (stream (p, h, ds, k)) = bytes_used p + wants ds k (queues k (WaitQ (pipe_writers p)))"
  by (simp add: stream_def)

lemma pipe_invD:
  assumes "pipe_inv c X (p, h, ds, k)" "queues k (WaitQ (pipe_readers p)) = rs" "queues k (WaitQ (pipe_writers p)) = ws"
  shows "kernel_inv c X k" "pipe_ok p" "pipe_readers p \<noteq> pipe_writers p" "rs \<noteq> [] \<longrightarrow> bytes_used p = 0 \<and> ws = []"
    "ws \<noteq> [] \<longrightarrow> bytes_used p = pipe_size p" "distinct (map (\<lambda>t. swap_data (thread k t)) (rs @ ws))"
    "\<forall>t \<in> set (rs @ ws). 0 < bytes_to_xfer (desc_of ds k t)" "outside_all p ds k (rs @ ws)"
  using assms by (simp_all add: pipe_inv_def Let_def)

text \<open>What a get does, up to the point where it returns or blocks.\<close>

lemma pipe_get_moves:
  assumes inv: "pipe_inv c X (p, h, ds, k)" and rd: "read_ok data B (p, h, ds, k)" and m: "m \<le> B"
    and go: "\<not> (timeout = K_NO_WAIT \<and> length (stream (p, h, ds, k)) < m)"
  obtains n p' h' ds' k1 xs rest where "queues k (WaitQ (pipe_writers p)) = xs @ rest" "prepared c X ds (pipe_writers p) B 0 [] xs rest k k1"
    "k_pipe_get c (p, h, ds, k) desc data B m timeout =
       (if n = B then (Some (0, n), p', h', ds', k_sched_unlock c (served c xs k1))
        else let ds2 = ds'(desc := \<lparr>desc_buffer = data + n, bytes_to_xfer = B - n\<rparr>)
             in if timeout \<noteq> K_NO_WAIT then (None, p', h', ds2, blocked_on c (pipe_readers p') desc timeout (served c xs k1))
                else (Some (pipe_return_code m (B - n) B, n), p', h', ds2, k_sched_unlock c (served c xs k1)))"
    "n = min B (length (stream (p, h, ds, k)))"
    "area h' data n @ contents p' h' @ waiting_data h' ds' k rest = stream (p, h, ds, k)"
    "pipe_ok p'" "same_pipe p p'" "rest \<noteq> [] \<longrightarrow> bytes_used p' = pipe_size p" "outside_all p' ds' k rest"
    "\<forall>a. a \<notin> (\<lambda>t. swap_data (thread k t)) ` set (xs @ rest) \<longrightarrow> ds' a = ds a" "\<forall>t \<in> set rest. 0 < bytes_to_xfer (desc_of ds' k t)"
proof -
  let ?w = "pipe_writers p"
  note iD = pipe_invD[OF inv refl refl]
  obtain xs rest k1 where q: "queues k (WaitQ ?w) = xs @ rest" "prepared c X ds ?w B 0 [] xs rest k k1" "rest \<noteq> [] \<longrightarrow> hd rest \<noteq> NULL"
    "pipe_xfer_prepare ds ?w (bytes_used p) B m timeout k =
        (if timeout = K_NO_WAIT \<and> no_wait_bytes ds k B (queues k (WaitQ ?w)) 0 + bytes_used p < m then None
         else Some (xs, if rest = [] then NULL else hd rest, k1))"
    using prepare_spec[OF iD(1), of ?w ds B "bytes_used p" m timeout] by blast
  have pp: "pipe_xfer_prepare ds ?w (bytes_used p) B m timeout k = Some (xs, if rest = [] then NULL else hd rest, k1)"
    using q(4) go no_wait_few[OF m, of ds k "xs @ rest" "bytes_used p"] q(1) by auto
  define w where w: "w = (if rest = [] then NULL else hd rest)"
  have ap: "outside_buffer p data B" "\<forall>t \<in> set (xs @ rest). apart data B (desc_buffer (desc_of ds k t)) (bytes_to_xfer (desc_of ds k t))"
    using rd q(1) by (simp_all add: read_ok_def)
  have pre: "wants ds k xs \<le> B" "rest \<noteq> [] \<longrightarrow> B < wants ds k (xs @ [hd rest])"
    and sw: "\<And>u. swap_data (thread (k_sched_lock k1) u) = swap_data (thread k u)" using q(2) by (simp_all add: prepared_def)
  have oa: "outside_all p ds k (xs @ rest)" and d: "distinct (map (\<lambda>t. swap_data (thread k t)) (xs @ rest))"
    and fu: "xs @ rest \<noteq> [] \<longrightarrow> bytes_used p = pipe_size p" using iD(5,6,8) q(1) by (auto simp: outside_all_def)
  have nn: "rest \<noteq> [] \<Longrightarrow> hd rest \<noteq> NULL" using q(3) by simp
  obtain n1 p1 h1 ys s2 k2 n3 h3 ds3 s4 p5 h5 ds5 where r: "pipe_buffer_get p h data B = (n1, p1, h1)"
    "take_writers c data B xs ((n1, h1, ds), k_sched_lock k1) = (ys, s2, k2)"
    "(if w \<noteq> NULL \<and> fst s2 < B then take_writer k2 data B w s2 else s2) = (n3, h3, ds3)"
    "refill_writers c ys ((p1, h3, ds3), k2) = (s4, all_ready c xs (k_sched_lock k1))"
    "(if w \<noteq> NULL then refill_writer (all_ready c xs (k_sched_lock k1)) w s4 else s4) = (p5, h5, ds5)"
    "pipe_ok p5" "same_pipe p p5" "rest \<noteq> [] \<longrightarrow> bytes_used p5 = pipe_size p" "outside_all p5 ds5 k rest"
    "n3 = min B (bytes_used p + wants ds k (xs @ rest))"
    "area h5 data n3 @ contents p5 h5 @ waiting_data h5 ds5 k rest = contents p h @ waiting_data h ds k (xs @ rest)"
    "\<forall>a. a \<notin> (\<lambda>t. swap_data (thread k t)) ` set (xs @ rest) \<longrightarrow> ds5 a = ds a"
    "\<forall>a. a \<in> (\<lambda>t. swap_data (thread k t)) ` set (tl rest) \<longrightarrow> ds5 a = ds a"
    "rest \<noteq> [] \<longrightarrow> 0 < bytes_to_xfer (desc_of ds5 k w)"
    by (rule read_data[where h = h and c = c, OF iD(2) oa d fu ap pre w nn sw])
  have "0 < bytes_to_xfer (desc_of ds5 k t)" if "t \<in> set rest" for t
  proof (cases "t = w")
    case False
    then have "t \<in> set (tl rest)" using that w by (cases rest) auto
    then show ?thesis using r(13) iD(7) q(1) that by simp
  qed (use r(14) that in auto)
  moreover note r(1-5) pp[folded w]
  ultimately show thesis
    using that[OF q(1,2), of n3 p5 h5 ds5] r(6-12) q(1)
    by (simp add: k_pipe_get_def served_def blocked_on_def stream_def Let_def)
qed

definition fresh_desc :: "addr \<Rightarrow> 'z pipe_state \<Rightarrow> bool" where
  "fresh_desc desc = (\<lambda>(p, h, ds, k). desc \<notin> (\<lambda>t. swap_data (thread k t)) ` set (queues k (WaitQ (pipe_readers p)) @ queues k (WaitQ (pipe_writers p))))"

lemma pipe_inv_change:
  assumes inv: "pipe_inv c X (p, h, ds, k)" and k': "kernel_inv c X k'" "queues k' (WaitQ (pipe_readers p)) = xs'" "queues k' (WaitQ (pipe_writers p)) = ys'"
    and p': "pipe_ok p'" "same_pipe p p'" "xs' \<noteq> [] \<longrightarrow> bytes_used p' = 0 \<and> ys' = []" "ys' \<noteq> [] \<longrightarrow> bytes_used p' = pipe_size p"
    and d: "distinct (map (\<lambda>t. swap_data (thread k' t)) (xs' @ ys'))" "\<forall>t \<in> set (xs' @ ys'). 0 < bytes_to_xfer (desc_of ds' k' t)"
    "outside_all p ds' k' (xs' @ ys')"
  shows "pipe_inv c X (p', h', ds', k')"
  using pipe_invD(3)[OF inv refl refl] k' p' d outside_same[OF p'(2)] by (simp add: pipe_inv_def Let_def same_pipe_def outside_all_def)

lemma pipe_get_returns:
  assumes inv: "pipe_inv c X (p, h, ds, k)" and fr: "fresh_desc desc (p, h, ds, k)" 
    and q: "queues k (WaitQ (pipe_writers p)) = xs @ rest" 
    and k': "kernel_inv c X k'" "\<And>u. swap_data (thread k' u) = swap_data (thread k u)"
      "\<And>v. queues k' (WaitQ v) = (if v = pipe_writers p then rest else queues k (WaitQ v))"
    and e: "contents p' h' @ waiting_data h' ds' k rest = drop n (stream (p, h, ds, k))"
    and p': "pipe_ok p'" "same_pipe p p'" "rest \<noteq> [] \<longrightarrow> bytes_used p' = pipe_size p" "outside_all p' ds' k rest"
    and ds: "\<forall>a. a \<notin> (\<lambda>t. swap_data (thread k t)) ` set (xs @ rest) \<longrightarrow> ds' a = ds a" "\<forall>t \<in> set rest. 0 < bytes_to_xfer (desc_of ds' k t)"
    and ds2: "\<forall>a. a \<noteq> desc \<longrightarrow> ds2 a = ds' a"
  shows "pipe_inv c X (p', h', ds2, k')" "stream (p', h', ds2, k') = drop n (stream (p, h, ds, k))"
proof -
  let ?rs = "queues k (WaitQ (pipe_readers p))" and ?f = "\<lambda>t. swap_data (thread k t)"
  note iD = pipe_invD[OF inv refl refl]
  have r: "desc_of ds2 k t = desc_of ds' k t" if "t \<in> set (?rs @ rest)" for t
    using ds2 fr that q by (auto simp: fresh_desc_def)
  have rs: "desc_of ds' k t = desc_of ds k t" if "t \<in> set ?rs" for t
  proof -
    have "?f t \<notin> ?f ` set (xs @ rest)" using iD(4,6) q that by (cases "xs @ rest = []") auto
    then show ?thesis using ds(1) by simp
  qed
  have w: "waiting_data h' ds2 k' rest = waiting_data h' ds' k rest"
    using r k'(2) by (intro waiting_cong(1)) auto
  then show "stream (p', h', ds2, k') = drop n (stream (p, h, ds, k))" using e k'(3) p'(2) by (simp add: stream_def same_pipe_def)
  have "bytes_used p' = 0 \<and> rest = []" if "?rs \<noteq> []"
    using arg_cong[OF e, of length] iD(4) that q by simp
  moreover have "distinct (map ?f (?rs @ rest))" using iD(6) q by auto
  moreover have "0 < bytes_to_xfer (desc_of ds2 k t)" "outside_buffer p (desc_buffer (desc_of ds2 k t)) (bytes_to_xfer (desc_of ds2 k t))"
    if "t \<in> set (?rs @ rest)" for t
    using that iD(7,8) p'(4) ds(2) r[OF that] rs[of t] outside_same[OF p'(2)] by (auto simp: outside_all_def)
  ultimately show "pipe_inv c X (p', h', ds2, k')"
    using k'(3) p'(3) iD(3)
    by (intro pipe_inv_change[OF inv k'(1) refl refl p'(1,2)]) (simp_all add: k'(2) outside_all_def)
qed

lemma pipe_get_blocks:
  assumes inv: "pipe_inv c X (p, h, ds, k)" and fr: "fresh_desc desc (p, h, ds, k)"
    and q: "queues k (WaitQ (pipe_writers p)) = xs" and mb: "may_block c X k1" "timeout_ok c timeout" "current k1 = current k" "is_thread_ready k (current k)"
    and k1: "\<And>u. swap_data (thread k1 u) = swap_data (thread k u)" "\<And>v. queues k1 (WaitQ v) = (if v = pipe_writers p then [] else queues k (WaitQ v))"
    and p': "pipe_ok p'" "same_pipe p p'" "bytes_used p' = 0" and d: "outside_buffer p data n" "0 < n"
    and ds: "\<forall>a. a \<notin> (\<lambda>t. swap_data (thread k t)) ` set xs \<longrightarrow> ds' a = ds a"
  defines "k' \<equiv> blocked_on c (pipe_readers p) desc timeout k1"
  shows "pipe_inv c X (p', h', ds'(desc := \<lparr>desc_buffer = data, bytes_to_xfer = n\<rparr>), k')" "stream (p', h', ds'(desc := d2), k') = []"
    "current k \<in> set (queues k' (WaitQ (pipe_readers p)))" "swap_data (thread k' (current k)) = desc"
proof -
  let ?rs = "queues k (WaitQ (pipe_readers p))" and ?f = "\<lambda>t. swap_data (thread k t)" and ?ds = "ds'(desc := \<lparr>desc_buffer = data, bytes_to_xfer = n\<rparr>)"
  note iD = pipe_invD[OF inv refl refl] and b = blocked_on_ok[OF mb(1,2), of "pipe_readers p" desc, folded k'_def]
  have sw: "swap_data (thread k' u) = (if u = current k then desc else ?f u)" for u using b(3) k1(1) mb(3) by simp
  have cr: "current k \<notin> set ?rs" using sched_invD(8)[of c X k "current k"] pending_not_ready mb(4) iD(1) by (auto simp: kernel_inv_def)
  have rq: "set (queues k' (WaitQ (pipe_readers p))) = insert (current k) (set ?rs)" "queues k' (WaitQ (pipe_writers p)) = []"
    "distinct (queues k' (WaitQ (pipe_readers p)))" using b(2) k1(2) mb(3) iD(3,6) cr by (simp_all add: distinct_map)
  then show "current k \<in> set (queues k' (WaitQ (pipe_readers p)))" "swap_data (thread k' (current k)) = desc" using sw by simp_all
  show "stream (p', h', ds'(desc := d2), k') = []" using p' rq by (simp add: stream_def same_pipe_def contents_def)
  have rd: "desc_of ?ds k' t = desc_of ds k t" "swap_data (thread k' t) = ?f t" "?f t \<noteq> desc" if "t \<in> set ?rs" for t
  proof -
    have "?f t \<notin> ?f ` set xs" using iD(4,6) q that by (cases "xs = []") auto
    moreover show "?f t \<noteq> desc" using fr that by (auto simp: fresh_desc_def)
    moreover show "swap_data (thread k' t) = ?f t" using sw cr that by auto
    ultimately show "desc_of ?ds k' t = desc_of ds k t" using ds by simp
  qed
  have "inj_on (\<lambda>t. swap_data (thread k' t)) (set ?rs)" using iD(6) rd(2) inj_on_cong[of "set ?rs" "\<lambda>t. swap_data (thread k' t)" ?f] by (simp add: distinct_map)
  moreover have "desc \<notin> (\<lambda>t. swap_data (thread k' t)) ` set ?rs" using rd(2,3) by force
  ultimately have "inj_on (\<lambda>t. swap_data (thread k' t)) (insert (current k) (set ?rs))" using sw[of "current k"] cr by simp
  then show "pipe_inv c X (p', h', ?ds, k')"
    using rq rd(1) iD(7,8) p'(3) d sw[of "current k"]
    by (intro pipe_inv_change[OF inv b(1) refl rq(2) p'(1,2)]) (auto simp: outside_all_def distinct_map)
qed

text \<open>
  What a get should do: \<open>n\<close> bytes of the stream go to the reader, in order, and the rest of the stream is
  left; or the reader has to wait, with the address and number of the bytes it still wants in its
  descriptor.
\<close>

definition reads :: "addr \<Rightarrow> addr \<Rightarrow> nat \<Rightarrow> int \<Rightarrow> 'z pipe_state \<Rightarrow> (int \<times> nat) option \<times> 'z pipe_state \<Rightarrow> bool" where
  "reads desc data B timeout = (\<lambda>(p, h, ds, k) (r, p', h', ds', k').
     let s = stream (p, h, ds, k); n = min B (length s)
     in area h' data n = take n s \<and> stream (p', h', ds', k') = drop n s \<and>
        (if n = B \<or> timeout = K_NO_WAIT then r = Some (0, n)
         else r = None \<and> current k \<in> set (queues k' (WaitQ (pipe_readers p))) \<and>
           desc_of ds' k' (current k) = \<lparr>desc_buffer = data + n, bytes_to_xfer = B - n\<rparr>))"

lemma pipe_get_refuses:
  assumes "m \<le> B" "timeout = K_NO_WAIT" "length (stream (p, h, ds, k)) < m"
  shows "k_pipe_get c (p, h, ds, k) desc data B m timeout = (Some (- EIO, 0), p, h, ds, k)"
  using assms by (simp add: k_pipe_get_def pipe_xfer_prepare_def no_wait_few)

lemma pipe_get_reads:
  assumes inv: "pipe_inv c X (p, h, ds, k)" and rd: "read_ok data B (p, h, ds, k)" and m: "m \<le> B"
    and t: "timeout = K_NO_WAIT \<or> may_block c X k \<and> timeout_ok c timeout" and fr: "fresh_desc desc (p, h, ds, k)"
    and go: "\<not> (timeout = K_NO_WAIT \<and> length (stream (p, h, ds, k)) < m)"
  shows "pipe_inv c X (snd (k_pipe_get c (p, h, ds, k) desc data B m timeout)) \<and>
    reads desc data B timeout (p, h, ds, k) (k_pipe_get c (p, h, ds, k) desc data B m timeout)"
proof -
  obtain n p' h' ds' k1 xs rest where q: "queues k (WaitQ (pipe_writers p)) = xs @ rest" "prepared c X ds (pipe_writers p) B 0 [] xs rest k k1"
    and g: "k_pipe_get c (p, h, ds, k) desc data B m timeout =
       (if n = B then (Some (0, n), p', h', ds', k_sched_unlock c (served c xs k1))
        else let ds2 = ds'(desc := \<lparr>desc_buffer = data + n, bytes_to_xfer = B - n\<rparr>)
             in if timeout \<noteq> K_NO_WAIT then (None, p', h', ds2, blocked_on c (pipe_readers p') desc timeout (served c xs k1))
                else (Some (pipe_return_code m (B - n) B, n), p', h', ds2, k_sched_unlock c (served c xs k1)))"
    and n: "n = min B (length (stream (p, h, ds, k)))"
    and e: "area h' data n @ contents p' h' @ waiting_data h' ds' k rest = stream (p, h, ds, k)"
    and p': "pipe_ok p'" "same_pipe p p'" "rest \<noteq> [] \<longrightarrow> bytes_used p' = pipe_size p" "outside_all p' ds' k rest"
    and d: "\<forall>a. a \<notin> (\<lambda>t. swap_data (thread k t)) ` set (xs @ rest) \<longrightarrow> ds' a = ds a" "\<forall>t \<in> set rest. 0 < bytes_to_xfer (desc_of ds' k t)"
    by (rule pipe_get_moves[OF inv rd m go])
  define ds2 where "ds2 = ds'(desc := \<lparr>desc_buffer = data + n, bytes_to_xfer = B - n\<rparr>)"
  note iD = pipe_invD[OF inv refl refl] and sv = served_ok[OF pipe_invD(1)[OF inv refl refl] q(2)]
  have e2: "area h' data n = take n (stream (p, h, ds, k))" "contents p' h' @ waiting_data h' ds' k rest = drop n (stream (p, h, ds, k))"
    unfolding e[symmetric] by simp_all
  show ?thesis
  proof (cases "n = B \<or> timeout = K_NO_WAIT")
    case True
    have "m \<le> n" "n \<le> B" using go True n m by auto
    then have "pipe_return_code m (B - n) B = 0" by (simp add: pipe_return_code_def)
    then have "k_pipe_get c (p, h, ds, k) desc data B m timeout = (Some (0, n), p', h', if n = B then ds' else ds2, k_sched_unlock c (served c xs k1))"
      using g True by (auto simp: ds2_def Let_def)
    moreover have "\<forall>a. a \<noteq> desc \<longrightarrow> (if n = B then ds' else ds2) a = ds' a" by (simp add: ds2_def)
    note pipe_get_returns[OF inv fr q(1) _ _ _ e2(2) p' d this, of "k_sched_unlock c (served c xs k1)"]
    ultimately show ?thesis using True sched_lock_inv(2)[OF sv(1)] sv(4,5) e2(1) n by (simp add: reads_def Let_def)
  next
    case False
    then have "drop n (stream (p, h, ds, k)) = []" "n < B" using n by auto
    then have z: "bytes_used p' = 0" "rest = []" using arg_cong[OF e2(2), of length] d(2) by (cases rest, auto)+
    have mb: "may_block c X (served c xs k1)" "timeout_ok c timeout" "is_thread_ready k (current k)"
      using t False sv(7) q(1) by (auto simp: may_block_def thread_ctx_def)
    have ob: "outside_buffer p (data + n) (B - n)" using rd \<open>n < B\<close> by (auto simp: read_ok_def outside_buffer_def)
    have "0 < B - n" using \<open>n < B\<close> by simp
    note b = pipe_get_blocks[OF inv fr q(1) mb(1,2) sv(2) mb(3) sv(4) _ p'(1,2) z(1) ob this d(1)]
    have "k_pipe_get c (p, h, ds, k) desc data B m timeout = (None, p', h', ds2, blocked_on c (pipe_readers p) desc timeout (served c xs k1))"
      using g False p'(2) by (simp add: ds2_def Let_def same_pipe_def)
    then show ?thesis using b(1,2)[where h' = h'] b(3,4) sv(5) z(2) False e2(1) n \<open>drop n (stream (p, h, ds, k)) = []\<close>
      by (simp add: reads_def Let_def ds2_def)
  qed
qed

end
