(* ===== verification/Pipe_Writing.thy ===== *)
theory Pipe_Writing
  imports Pipe_Operations
begin

text \<open>
  Writing to a pipe: the first bytes go to the waiting readers, at the addresses they wait for, the next
  ones to the circular buffer, and for the rest the writer waits.
\<close>

section \<open>The addresses that are written\<close>

text \<open>The addresses the waiting readers still want bytes at, in the order they are to be filled.\<close>

abbreviation desc_area :: "k_pipe_desc \<Rightarrow> addr list" where
  "desc_area d \<equiv> [desc_buffer d..<desc_buffer d + bytes_to_xfer d]"

definition targets :: "descs \<Rightarrow> 'z kernel_scheme \<Rightarrow> tid list \<Rightarrow> addr list" where
  "targets ds k ts = concat (map (\<lambda>t. desc_area (desc_of ds k t)) ts)"

definition off_data :: "addr \<Rightarrow> nat \<Rightarrow> addr list \<Rightarrow> bool" where
  "off_data data W xs \<longleftrightarrow> (\<forall>x \<in> set xs. x < data \<or> data + W \<le> x)"

lemma targets_simps [simp]: "targets ds k [] = []" "targets ds k (t # ts) = desc_area (desc_of ds k t) @ targets ds k ts"
  "targets ds k (ts @ us) = targets ds k ts @ targets ds k us" "length (targets ds k ts) = wants ds k ts"
  by (simp_all add: targets_def wants_def length_concat comp_def)

lemma targets_cong: "(\<And>t. t \<in> set ts \<Longrightarrow> desc_of ds' k t = desc_of ds k t) \<Longrightarrow> targets ds' k ts = targets ds k ts"
  by (simp add: targets_def cong: map_cong)

lemma off_data_simps [simp]: "off_data data W []" "off_data data W (xs @ ys) \<longleftrightarrow> off_data data W xs \<and> off_data data W ys"
  by (auto simp: off_data_def)

lemma map_upt_area: "map h [a..<a + n] = area h a n"
  by (rule nth_equalityI) simp_all

lemma off_data_area: "off_data data W xs \<Longrightarrow> (\<forall>x. x \<notin> set xs \<longrightarrow> h' x = h x) \<Longrightarrow> m \<le> n \<Longrightarrow> n \<le> W \<Longrightarrow> area h' (data + m) (n - m) = area h (data + m) (n - m)"
proof (rule area_cong)
  fix b assume "off_data data W xs" "\<forall>x. x \<notin> set xs \<longrightarrow> h' x = h x" "m \<le> n" "n \<le> W" "data + m \<le> b" "b < data + m + (n - m)"
  moreover from this have "\<not> (b < data \<or> data + W \<le> b)" by linarith
  ultimately have "b \<notin> set xs" unfolding off_data_def by blast
  then show "h' b = h b" using \<open>\<forall>x. x \<notin> set xs \<longrightarrow> h' x = h x\<close> by blast
qed

lemma give_reader_step:
  assumes off: "off_data data W (desc_area (desc_of ds k t))" and n: "n \<le> W"
  defines "d \<equiv> desc_of ds k t" and "m \<equiv> min (bytes_to_xfer (desc_of ds k t)) (W - n)"
  obtains h' where "give_reader k data W t (n, h, ds) = (n + m, h', desc_advance ds (swap_data (thread k t)) m)"
    "map h' (take m (desc_area d)) = area h (data + n) m" "\<forall>x. x \<notin> set (take m (desc_area d)) \<longrightarrow> h' x = h x"
proof -
  have m: "m \<le> bytes_to_xfer d" "n + m \<le> W" using n by (auto simp: m_def d_def)
  have o: "x < data \<or> data + W \<le> x" if "desc_buffer d \<le> x" "x < desc_buffer d + m" for x
    using off that m by (simp add: off_data_def d_def)
  have "m = 0 \<or> desc_buffer d + m \<le> data \<or> data + W \<le> desc_buffer d" using o[of "desc_buffer d"] o[of data] m by linarith
  then have dis: "disjoint_areas (desc_buffer d) (data + n) m" using m(2) by (auto simp: disjoint_areas_def)
  let ?h = "copied h (desc_buffer d) (data + n) m"
  have tk: "take m (desc_area d) = [desc_buffer d..<desc_buffer d + m]" using m(1) by (simp add: take_upt)
  have "give_reader k data W t (n, h, ds) = (n + m, ?h, desc_advance ds (swap_data (thread k t)) m)"
    using xfer_loop_eq[OF dis] by (simp add: give_reader_def pipe_xfer_def Let_def m_def d_def)
  moreover have "map ?h (take m (desc_area d)) = area h (data + n) m" unfolding tk map_upt_area by (rule copied_area[OF dis])
  moreover have "?h x = h x" if "x \<notin> set (take m (desc_area d))" for x by (rule copied_other) (use that in \<open>auto simp: tk\<close>)
  ultimately show thesis using that by blast
qed

text \<open>The loop over the readers whose requests are met in full.\<close>

definition given :: "addr \<Rightarrow> nat \<Rightarrow> bytes \<Rightarrow> addr list \<Rightarrow> nat \<Rightarrow> bytes \<Rightarrow> bool" where
  "given data n h xs m h' \<longleftrightarrow> map h' xs = area h (data + n) m \<and> (\<forall>x. x \<notin> set xs \<longrightarrow> h' x = h x)"

lemma given_append:
  assumes g: "given data n h xs m h1" "given data (n + m) h1 ys l h2" and d: "distinct (xs @ ys)" "off_data data W (xs @ ys)" "n + m + l \<le> W"
  shows "given data n h (xs @ ys) (m + l) h2"
proof -
  have "map h2 xs = map h1 xs" by (rule map_cong) (use g(2) d(1) in \<open>auto simp: given_def\<close>)
  then have "map h2 xs = area h (data + n) m" using g(1) unfolding given_def by simp
  moreover have "area h1 (data + (n + m)) l = area h (data + (n + m)) l"
    using off_data_area[of data W xs h1 h "n + m" "n + m + l"] g(1) d by (simp add: given_def)
  moreover have "\<forall>x. x \<notin> set (xs @ ys) \<longrightarrow> h2 x = h x" using g unfolding given_def by simp
  moreover have "map h2 ys = area h1 (data + (n + m)) l" using g(2) unfolding given_def by simp
  ultimately show ?thesis unfolding given_def by (simp add: area_add add.assoc)
qed

lemma give_readers_spec:
  assumes "n + wants ds k xs \<le> W" "distinct (map (\<lambda>t. swap_data (thread k t)) xs)" "distinct (targets ds k xs)" "off_data data W (targets ds k xs)"
    "\<And>u. swap_data (thread k1 u) = swap_data (thread k u)"
  shows "\<exists>h' ds'. give_readers c data W xs ((n, h, ds), k1) = ((n + wants ds k xs, h', ds'), all_ready c xs k1) \<and>
    given data n h (targets ds k xs) (wants ds k xs) h' \<and> (\<forall>a. a \<notin> (\<lambda>t. swap_data (thread k t)) ` set xs \<longrightarrow> ds' a = ds a)"
  using assms
proof (induction xs arbitrary: n h ds k1)
  case (Cons t xs)
  let ?d = "desc_of ds k t" and ?a = "swap_data (thread k t)"
  have off: "off_data data W (desc_area (desc_of ds k1 t))" "n \<le> W" using Cons.prems(1,4,5) by simp_all
  obtain h1 where g: "give_reader k1 data W t (n, h, ds) = (n + bytes_to_xfer ?d, h1, desc_advance ds ?a (bytes_to_xfer ?d))"
    "given data n h (desc_area ?d) (bytes_to_xfer ?d) h1"
    using give_reader_step[where h = h and n = n and data = data and W = W and ds = ds and t = t and k = k1, OF off] Cons.prems(1,5)
    by (simp add: given_def) blast
  let ?ds = "desc_advance ds ?a (bytes_to_xfer ?d)"
  have o: "desc_of ?ds k u = desc_of ds k u" if "u \<in> set xs" for u
    using distinct_key[OF Cons.prems(2) that] by (metis advance_simps(3))
  have e: "targets ?ds k xs = targets ds k xs" by (rule targets_cong) (rule o)
  then have w: "wants ?ds k xs = wants ds k xs" by (metis targets_simps(4))
  obtain h2 ds2 where r: "give_readers c data W xs ((n + bytes_to_xfer ?d, h1, ?ds), ready_thread c k1 t) =
      ((n + bytes_to_xfer ?d + wants ds k xs, h2, ds2), all_ready c xs (ready_thread c k1 t))"
    "given data (n + bytes_to_xfer ?d) h1 (targets ds k xs) (wants ds k xs) h2"
    "\<forall>a. a \<notin> (\<lambda>t. swap_data (thread k t)) ` set xs \<longrightarrow> ds2 a = ?ds a"
    using Cons.IH[of "n + bytes_to_xfer ?d" ?ds "ready_thread c k1 t" h1] Cons.prems e w by (auto simp: add.assoc)
  have "given data n h (desc_area ?d @ targets ds k xs) (bytes_to_xfer ?d + wants ds k xs) h2"
    by (rule given_append[OF g(2) r(2), of W]) (use Cons.prems in simp_all)
  then show ?case using g(1) r(1,3) by (intro exI[of _ h2] exI[of _ ds2]) (auto simp: add.assoc)
qed (simp add: given_def)

text \<open>
  The data moved by a write, with the threads \<open>xs @ rest\<close> waiting to read: \<open>n3\<close> bytes go to readers and
  \<open>m\<close> bytes to the buffer.
\<close>

definition write_ok :: "addr \<Rightarrow> nat \<Rightarrow> 'z pipe_state \<Rightarrow> bool" where
  "write_ok data W = (\<lambda>(p, h, ds, k). let ts = targets ds k (queues k (WaitQ (pipe_readers p)))
     in outside_buffer p data W \<and> distinct ts \<and> off_data data W ts)"

lemma give_rest:
  assumes d: "distinct (map (\<lambda>t. swap_data (thread k t)) (xs @ rest))" and t: "distinct (targets ds k (xs @ rest))" "off_data data W (targets ds k (xs @ rest))"
    and pre: "wants ds k xs \<le> W" "rest \<noteq> [] \<longrightarrow> W < wants ds k (xs @ [hd rest])"
    and w: "w = (if rest = [] then NULL else hd rest)" "rest \<noteq> [] \<Longrightarrow> hd rest \<noteq> NULL"
    and sw: "\<And>u. swap_data (thread k1 u) = swap_data (thread k u)"
  obtains s2 h3 ds3 where "give_readers c data W xs ((0, h, ds), k1) = (s2, all_ready c xs k1)"
    "(if w \<noteq> NULL then give_reader (all_ready c xs k1) data W w s2 else s2) = (min W (wants ds k (xs @ rest)), h3, ds3)"
    "given data 0 h (take W (targets ds k (xs @ rest))) (min W (wants ds k (xs @ rest))) h3"
    "targets ds3 k rest = drop W (targets ds k (xs @ rest))"
    "\<forall>a. a \<notin> (\<lambda>t. swap_data (thread k t)) ` set (xs @ rest) \<longrightarrow> ds3 a = ds a"
    "\<forall>t \<in> set (tl rest). desc_of ds3 k t = desc_of ds k t" "rest \<noteq> [] \<longrightarrow> 0 < bytes_to_xfer (desc_of ds3 k w)"
    "rest \<noteq> [] \<longrightarrow> (\<exists>n \<le> bytes_to_xfer (desc_of ds k w). desc_of ds3 k w = desc_advance ds (swap_data (thread k w)) n (swap_data (thread k w)))"
proof -
  let ?f = "\<lambda>t. swap_data (thread k t)"
  obtain h2 ds2 where g: "give_readers c data W xs ((0, h, ds), k1) = ((wants ds k xs, h2, ds2), all_ready c xs k1)"
    "given data 0 h (targets ds k xs) (wants ds k xs) h2" "\<forall>a. a \<notin> ?f ` set xs \<longrightarrow> ds2 a = ds a"
    using give_readers_spec[of 0 ds k xs W data k1 c h] d t pre(1) sw by auto
  show thesis
  proof (cases rest)
    case Nil
    then show thesis using that[OF g(1), of h2 ds2] g(2,3) w(1) pre(1) by simp
  next
    case (Cons v vs)
    have v: "w = v" "v \<noteq> NULL" using w Cons by simp_all
    have k2: "desc_of ds2 (all_ready c xs k1) v = desc_of ds k v" using g(3) d Cons sw by auto
    let ?m = "W - wants ds k xs" and ?a = "?f v"
    have m: "?m < bytes_to_xfer (desc_of ds k v)" using pre Cons by simp
    have off: "off_data data W (desc_area (desc_of ds2 (all_ready c xs k1) v))" using t(2) Cons k2 by simp
    obtain h3 where r: "give_reader (all_ready c xs k1) data W v (wants ds k xs, h2, ds2) = (W, h3, desc_advance ds2 ?a ?m)"
      "given data (wants ds k xs) h2 (take ?m (desc_area (desc_of ds k v))) ?m h3"
      using give_reader_step[where h = h2 and n = "wants ds k xs" and data = data and W = W and ds = ds2 and t = v and k = "all_ready c xs k1", OF off pre(1)] m pre(1) k2 sw
      by (simp add: given_def min_def) blast
    have r2: "given data (0 + wants ds k xs) h2 (take ?m (desc_area (desc_of ds k v))) ?m h3" using r(2) by simp
    have "set (take ?m (desc_area (desc_of ds k v))) \<subseteq> set (desc_area (desc_of ds k v))" by (rule set_take_subset)
    then have G: "given data 0 h (targets ds k xs @ take ?m (desc_area (desc_of ds k v))) (wants ds k xs + ?m) h3"
      using t Cons pre(1) by (intro given_append[OF g(2) r2, of W]) (auto simp: off_data_def)
    have T: "take W (targets ds k (xs @ rest)) = targets ds k xs @ take ?m (desc_area (desc_of ds k v))"
      "drop W (targets ds k (xs @ rest)) = drop ?m (desc_area (desc_of ds k v)) @ targets ds k vs" using Cons m pre(1) by simp_all
    have o: "desc_of (desc_advance ds2 ?a ?m) k u = desc_of ds k u" if "u \<in> set vs" for u
    proof -
      have "?f u \<in> ?f ` set vs" using that by (rule imageI)
      then have "?f u \<noteq> ?a" "?f u \<notin> ?f ` set xs" using d Cons by auto
      then show ?thesis using g(3) by (simp add: desc_advance_def)
    qed
    then have tv: "targets (desc_advance ds2 ?a ?m) k vs = targets ds k vs" by (rule targets_cong)
    have dv: "desc_of (desc_advance ds2 ?a ?m) k v = desc_advance ds ?a ?m ?a" using g(3) d Cons by (auto simp: desc_advance_def)
    have W: "min W (wants ds k (xs @ rest)) = W" "wants ds k xs + ?m = W" using Cons m pre(1) by auto
    show thesis
    proof (rule that[OF g(1), of h3 "desc_advance ds2 ?a ?m"])
      show "targets (desc_advance ds2 ?a ?m) k rest = drop W (targets ds k (xs @ rest))"
        using T(2) Cons tv dv m by (simp add: drop_upt)
      show "\<forall>a. a \<notin> ?f ` set (xs @ rest) \<longrightarrow> desc_advance ds2 ?a ?m a = ds a" using g(3) Cons by (auto simp: desc_advance_def)
      show "rest \<noteq> [] \<longrightarrow> (\<exists>n \<le> bytes_to_xfer (desc_of ds k w). desc_of (desc_advance ds2 ?a ?m) k w = desc_advance ds (?f w) n (?f w))"
        using dv v m by (intro impI exI[of _ ?m]) simp
    qed (use G T(1) W r(1) v o dv m Cons in simp_all)
  qed
qed

lemma targets_outside: "outside_all p ds k ts \<Longrightarrow> x \<in> set (targets ds k ts) \<Longrightarrow> \<not> in_buffer p x"
  by (auto simp: outside_all_def targets_def in_buffer_def outside_buffer_def)

text \<open>What a put does, up to the point where it returns or blocks.\<close>

definition put_effect :: "addr \<Rightarrow> addr list \<Rightarrow> nat \<Rightarrow> nat \<Rightarrow> k_pipe \<times> bytes \<Rightarrow> k_pipe \<times> bytes \<Rightarrow> bool" where
  "put_effect data ts n m = (\<lambda>(p, h) (p', h').
     map h' (take n ts) = area h data n \<and> contents p' h' = contents p h @ area h (data + n) m \<and>
     (\<forall>x. x \<notin> set (take n ts) \<and> \<not> in_buffer p x \<longrightarrow> h' x = h x))"

lemma buffer_effect:
  assumes g: "given data 0 h (take W ts) n h3" and n: "n = min W (length ts)" and W: "n + m \<le> W" and d: "distinct ts" "off_data data W ts"
    and o: "\<And>x. x \<in> set ts \<Longrightarrow> \<not> in_buffer p x" and p: "pipe_ok p"
    and b: "contents p' h' = contents p h3 @ area h3 (data + n) m" "\<forall>x. \<not> in_buffer p x \<longrightarrow> h' x = h3 x"
  shows "put_effect data ts n m (p, h) (p', h')"
proof -
  have t: "take W ts = take n ts" using n by (simp add: min_def)
  have o2: "x \<in> set (take n ts) \<Longrightarrow> \<not> in_buffer p x" for x using o set_take_subset[of n ts] by blast
  have g3: "map h3 (take n ts) = area h data n" "\<forall>x. x \<notin> set (take n ts) \<longrightarrow> h3 x = h x" using g unfolding given_def t by simp_all
  have "map h' (take n ts) = map h3 (take n ts)" by (rule map_cong) (use b(2) o2 in auto)
  then have "map h' (take n ts) = area h data n" using g3(1) by (rule trans)
  moreover have "contents p h3 = contents p h" using g3(2) o2 by (intro contents_cong[OF p]) blast
  moreover have "off_data data W (take n ts)" using d(2) in_set_takeD[of _ n ts] unfolding off_data_def by blast
  then have "area h3 (data + n) m = area h (data + n) m" using off_data_area[of data W "take n ts" h3 h n "n + m"] g3(2) W by simp
  moreover have "\<forall>x. x \<notin> set (take n ts) \<and> \<not> in_buffer p x \<longrightarrow> h' x = h x" using g3(2) b(2) by simp
  ultimately show ?thesis unfolding put_effect_def prod.case b(1) by simp
qed

lemma pipe_put_moves:
  assumes inv: "pipe_inv c X (p, h, ds, k)" and wr: "write_ok data W (p, h, ds, k)" and m: "m0 \<le> W"
  defines "ts \<equiv> targets ds k (queues k (WaitQ (pipe_readers p)))"
  assumes go: "\<not> (timeout = K_NO_WAIT \<and> length ts + (pipe_size p - bytes_used p) < m0)"
  obtains n m p' h' ds' k1 xs rest where "queues k (WaitQ (pipe_readers p)) = xs @ rest" "prepared c X ds (pipe_readers p) W 0 [] xs rest k k1"
    "k_pipe_put c (p, h, ds, k) desc data W m0 timeout =
       (if n + m = W then (Some (0, n + m), p', h', ds', k_sched_unlock c (served c xs k1))
        else let ds2 = ds'(desc := \<lparr>desc_buffer = data + (n + m), bytes_to_xfer = W - (n + m)\<rparr>)
             in if timeout \<noteq> K_NO_WAIT then (None, p', h', ds2, blocked_on c (pipe_writers p') desc timeout (served c xs k1))
                else (Some (pipe_return_code m0 (W - (n + m)) W, n + m), p', h', ds2, k_sched_unlock c (served c xs k1)))"
    "n = min W (length ts)" "m = min (W - n) (pipe_size p - bytes_used p)" "put_effect data ts n m (p, h) (p', h')"
    "pipe_ok p'" "same_pipe p p'" "bytes_used p' = bytes_used p + m" "targets ds' k rest = drop n ts" "rest \<noteq> [] \<longrightarrow> n = W"
    "\<forall>a. a \<notin> (\<lambda>t. swap_data (thread k t)) ` set (xs @ rest) \<longrightarrow> ds' a = ds a" "\<forall>t \<in> set rest. 0 < bytes_to_xfer (desc_of ds' k t)"
    "outside_all p ds' k rest"
proof -
  let ?r = "pipe_readers p"
  note iD = pipe_invD[OF inv refl refl]
  obtain xs rest k1 where q: "queues k (WaitQ ?r) = xs @ rest" "prepared c X ds ?r W 0 [] xs rest k k1" "rest \<noteq> [] \<longrightarrow> hd rest \<noteq> NULL"
    "pipe_xfer_prepare ds ?r (pipe_size p - bytes_used p) W m0 timeout k =
        (if timeout = K_NO_WAIT \<and> no_wait_bytes ds k W (queues k (WaitQ ?r)) 0 + (pipe_size p - bytes_used p) < m0 then None
         else Some (xs, if rest = [] then NULL else hd rest, k1))"
    using prepare_spec[OF iD(1), of ?r ds W "pipe_size p - bytes_used p" m0 timeout] by blast
  have ts: "ts = targets ds k (xs @ rest)" "length ts = wants ds k (xs @ rest)" using q(1) by (simp_all add: ts_def)
  have pp: "pipe_xfer_prepare ds ?r (pipe_size p - bytes_used p) W m0 timeout k = Some (xs, if rest = [] then NULL else hd rest, k1)"
    using q(4) go no_wait_few[OF m, of ds k "xs @ rest" "pipe_size p - bytes_used p"] ts(2) unfolding q(1) by (auto simp: add.commute)
  define w where w: "w = (if rest = [] then NULL else hd rest)"
  have t: "outside_buffer p data W" "distinct ts" "off_data data W ts" using wr by (simp_all add: write_ok_def ts_def Let_def)
  have pre: "wants ds k xs \<le> W" "rest \<noteq> [] \<longrightarrow> W < wants ds k (xs @ [hd rest])"
    and sw: "\<And>u. swap_data (thread (k_sched_lock k1) u) = swap_data (thread k u)" using q(2) by (simp_all add: prepared_def)
  have oa: "outside_all p ds k (xs @ rest)" and d: "distinct (map (\<lambda>t. swap_data (thread k t)) (xs @ rest))"
    using iD(6,8) q(1) by (auto simp: outside_all_def)
  have nn: "rest \<noteq> [] \<Longrightarrow> hd rest \<noteq> NULL" using q(3) by simp
  let ?n = "min W (length ts)"
  obtain s2 h3 ds3 where g: "give_readers c data W xs ((0, h, ds), k_sched_lock k1) = (s2, all_ready c xs (k_sched_lock k1))"
    "(if w \<noteq> NULL then give_reader (all_ready c xs (k_sched_lock k1)) data W w s2 else s2) = (?n, h3, ds3)"
    "given data 0 h (take W ts) ?n h3" "targets ds3 k rest = drop W ts"
    "\<forall>a. a \<notin> (\<lambda>t. swap_data (thread k t)) ` set (xs @ rest) \<longrightarrow> ds3 a = ds a"
    "\<forall>t \<in> set (tl rest). desc_of ds3 k t = desc_of ds k t" "rest \<noteq> [] \<longrightarrow> 0 < bytes_to_xfer (desc_of ds3 k w)"
    "rest \<noteq> [] \<longrightarrow> (\<exists>n \<le> bytes_to_xfer (desc_of ds k w). desc_of ds3 k w = desc_advance ds (swap_data (thread k w)) n (swap_data (thread k w)))"
    unfolding ts(2) unfolding ts(1) by (rule give_rest[where h = h and c = c, OF d t(2,3)[unfolded ts(1)] pre w nn sw])
  have ob: "outside_buffer p (data + ?n) (W - ?n)" using t(1) by (auto simp: outside_buffer_def)
  obtain m p' h' where b: "pipe_buffer_put p h3 (data + ?n) (W - ?n) = (m, p', h')" "m = min (W - ?n) (pipe_size p - bytes_used p)"
    "pipe_ok p'" "same_pipe p p'" "bytes_used p' = bytes_used p + m" "contents p' h' = contents p h3 @ area h3 (data + ?n) m"
    "\<forall>a. \<not> in_buffer p a \<longrightarrow> h' a = h3 a"
    by (rule buffer_put_spec[where h = h3, OF iD(2) ob])
  have e: "put_effect data ts ?n m (p, h) (p', h')"
    using b(2) targets_outside[OF oa] ts(1) by (intro buffer_effect[OF g(3) refl _ t(2,3) _ iD(2) b(6,7)]) auto
  have w0: "\<forall>t \<in> set rest. 0 < bytes_to_xfer (desc_of ds3 k t)" "outside_all p ds3 k rest"
  proof -
    have "0 < bytes_to_xfer (desc_of ds3 k t) \<and> outside_buffer p (desc_buffer (desc_of ds3 k t)) (bytes_to_xfer (desc_of ds3 k t))" if "t \<in> set rest" for t
    proof (cases "t = w")
      case True
      then show ?thesis using that g(7,8) oa by (auto simp: outside_all_def outside_buffer_def)
    next
      case False
      then have "t \<in> set (tl rest)" using that w by (cases rest) auto
      then show ?thesis using g(6) iD(7) oa q(1) that by (simp add: outside_all_def)
    qed
    then show "\<forall>t \<in> set rest. 0 < bytes_to_xfer (desc_of ds3 k t)" "outside_all p ds3 k rest" by (simp_all add: outside_all_def)
  qed
  have E: "k_pipe_put c (p, h, ds, k) desc data W m0 timeout =
       (if ?n + m = W then (Some (0, ?n + m), p', h', ds3, k_sched_unlock c (served c xs k1))
        else let ds2 = ds3(desc := \<lparr>desc_buffer = data + (?n + m), bytes_to_xfer = W - (?n + m)\<rparr>)
             in if timeout \<noteq> K_NO_WAIT then (None, p', h', ds2, blocked_on c (pipe_writers p') desc timeout (served c xs k1))
                else (Some (pipe_return_code m0 (W - (?n + m)) W, ?n + m), p', h', ds2, k_sched_unlock c (served c xs k1)))"
    unfolding k_pipe_put_def k_pipe_put_internal_def prod.case pp[folded w] option.case g(1,2) b(1) by (simp add: served_def blocked_on_def Let_def)
  have "targets ds3 k rest = drop ?n ts" using g(4) by (simp add: min_def)
  moreover have "rest \<noteq> [] \<longrightarrow> ?n = W" using pre(2) ts(2) by (cases rest) auto
  ultimately show thesis by (rule that[OF q(1,2) E refl b(2) e b(3-5) _ _ g(5) w0])
qed

lemma pipe_put_returns:
  assumes inv: "pipe_inv c X (p, h, ds, k)" and fr: "fresh_desc desc (p, h, ds, k)"
    and q: "queues k (WaitQ (pipe_readers p)) = xs @ rest"
    and k': "kernel_inv c X k'" "\<And>u. swap_data (thread k' u) = swap_data (thread k u)"
      "\<And>v. queues k' (WaitQ v) = (if v = pipe_readers p then rest else queues k (WaitQ v))"
    and p': "pipe_ok p'" "same_pipe p p'" "bytes_used p' = bytes_used p + m" "m \<le> pipe_size p - bytes_used p" "rest \<noteq> [] \<longrightarrow> m = 0"
    and ds: "\<forall>a. a \<notin> (\<lambda>t. swap_data (thread k t)) ` set (xs @ rest) \<longrightarrow> ds' a = ds a" "\<forall>t \<in> set rest. 0 < bytes_to_xfer (desc_of ds' k t)"
      "outside_all p ds' k rest"
    and ds2: "\<forall>a. a \<noteq> desc \<longrightarrow> ds2 a = ds' a"
  shows "pipe_inv c X (p', h', ds2, k')" "targets ds2 k' rest = targets ds' k rest"
proof -
  let ?ws = "queues k (WaitQ (pipe_writers p))" and ?f = "\<lambda>t. swap_data (thread k t)"
  note iD = pipe_invD[OF inv refl refl]
  have r: "desc_of ds2 k t = desc_of ds' k t" if "t \<in> set (rest @ ?ws)" for t
    using ds2 fr that q by (auto simp: fresh_desc_def)
  then show "targets ds2 k' rest = targets ds' k rest" using k'(2) by (simp add: targets_def cong: map_cong)
  have ws: "desc_of ds' k t = desc_of ds k t" if "t \<in> set ?ws" for t
  proof -
    have "?f t \<in> ?f ` set ?ws" using that by (rule imageI)
    then have "?f t \<notin> ?f ` set (xs @ rest)" using iD(6) q by auto
    then show ?thesis using ds(1) by simp
  qed
  have "rest \<noteq> [] \<longrightarrow> bytes_used p' = 0 \<and> ?ws = []" "?ws \<noteq> [] \<longrightarrow> bytes_used p' = pipe_size p" using iD(4,5) q p'(3-5) by auto
  moreover have "distinct (map ?f (rest @ ?ws))" using iD(6) q by auto
  moreover have "0 < bytes_to_xfer (desc_of ds2 k t)" "outside_buffer p (desc_buffer (desc_of ds2 k t)) (bytes_to_xfer (desc_of ds2 k t))"
    if "t \<in> set (rest @ ?ws)" for t
    using that iD(7,8) ds(2,3) r[OF that] ws[of t] by (auto simp: outside_all_def)
  ultimately show "pipe_inv c X (p', h', ds2, k')"
    using k'(3) iD(3)[symmetric] by (intro pipe_inv_change[OF inv k'(1) refl refl p'(1,2)]) (simp_all add: k'(2) outside_all_def)
qed

lemma pipe_put_blocks:
  assumes inv: "pipe_inv c X (p, h, ds, k)" and fr: "fresh_desc desc (p, h, ds, k)"
    and q: "queues k (WaitQ (pipe_readers p)) = xs" and mb: "may_block c X k1" "timeout_ok c timeout" "current k1 = current k" "is_thread_ready k (current k)"
    and k1: "\<And>u. swap_data (thread k1 u) = swap_data (thread k u)" "\<And>v. queues k1 (WaitQ v) = (if v = pipe_readers p then [] else queues k (WaitQ v))"
    and p': "pipe_ok p'" "same_pipe p p'" "bytes_used p' = pipe_size p" and d: "outside_buffer p data n" "0 < n"
    and ds: "\<forall>a. a \<notin> (\<lambda>t. swap_data (thread k t)) ` set xs \<longrightarrow> ds' a = ds a"
  defines "k' \<equiv> blocked_on c (pipe_writers p) desc timeout k1"
  shows "pipe_inv c X (p', h', ds'(desc := \<lparr>desc_buffer = data, bytes_to_xfer = n\<rparr>), k')" "queues k' (WaitQ (pipe_readers p)) = []"
    "current k \<in> set (queues k' (WaitQ (pipe_writers p)))" "swap_data (thread k' (current k)) = desc"
proof -
  let ?ws = "queues k (WaitQ (pipe_writers p))" and ?f = "\<lambda>t. swap_data (thread k t)" and ?ds = "ds'(desc := \<lparr>desc_buffer = data, bytes_to_xfer = n\<rparr>)"
  note iD = pipe_invD[OF inv refl refl] and b = blocked_on_ok[OF mb(1,2), of "pipe_writers p" desc, folded k'_def]
  have sw: "swap_data (thread k' u) = (if u = current k then desc else ?f u)" for u using b(3) k1(1) mb(3) by simp
  have cr: "current k \<notin> set ?ws" using sched_invD(8)[of c X k "current k"] pending_not_ready mb(4) iD(1) by (auto simp: kernel_inv_def)
  show r0: "queues k' (WaitQ (pipe_readers p)) = []" using b(2) k1(2) iD(3) by simp
  have rq: "set (queues k' (WaitQ (pipe_writers p))) = insert (current k) (set ?ws)" 
    "distinct (queues k' (WaitQ (pipe_writers p)))" using b(2) k1(2) mb(3) iD(3,6) cr by (simp_all add: distinct_map)
  then show "current k \<in> set (queues k' (WaitQ (pipe_writers p)))" "swap_data (thread k' (current k)) = desc" using sw by simp_all
  have rd: "desc_of ?ds k' t = desc_of ds k t" "swap_data (thread k' t) = ?f t" "?f t \<noteq> desc" if "t \<in> set ?ws" for t
  proof -
    have "?f t \<in> ?f ` set ?ws" using that by (rule imageI)
    then have "?f t \<notin> ?f ` set xs" using iD(6) q by auto
    moreover show "?f t \<noteq> desc" using fr that by (auto simp: fresh_desc_def)
    moreover show "swap_data (thread k' t) = ?f t" using sw cr that by auto
    ultimately show "desc_of ?ds k' t = desc_of ds k t" using ds by simp
  qed
  have "inj_on (\<lambda>t. swap_data (thread k' t)) (set ?ws)" using iD(6) rd(2) inj_on_cong[of "set ?ws" "\<lambda>t. swap_data (thread k' t)" ?f] by (simp add: distinct_map)
  moreover have "desc \<notin> (\<lambda>t. swap_data (thread k' t)) ` set ?ws" using rd(2,3) by force
  ultimately have "inj_on (\<lambda>t. swap_data (thread k' t)) (insert (current k) (set ?ws))" using sw[of "current k"] cr by simp
  then show "pipe_inv c X (p', h', ?ds, k')"
    using rq rd(1) iD(7,8) p'(3) d sw[of "current k"]
    by (intro pipe_inv_change[OF inv b(1) r0 refl p'(1,2)]) (auto simp: outside_all_def distinct_map)
qed

text \<open>
  What a put should do: with \<open>ts\<close> the addresses the waiting readers want bytes at, the first \<open>n\<close> bytes go
  there, the next \<open>m\<close> bytes to the end of the buffer's contents, and no other memory changes.
\<close>

definition writes :: "addr \<Rightarrow> addr \<Rightarrow> nat \<Rightarrow> int \<Rightarrow> 'z pipe_state \<Rightarrow> (int \<times> nat) option \<times> 'z pipe_state \<Rightarrow> bool" where
  "writes desc data W timeout = (\<lambda>(p, h, ds, k) (r, p', h', ds', k').
     let ts = targets ds k (queues k (WaitQ (pipe_readers p))); n = min W (length ts); m = min (W - n) (pipe_size p - bytes_used p)
     in put_effect data ts n m (p, h) (p', h') \<and> targets ds' k' (queues k' (WaitQ (pipe_readers p))) = drop n ts \<and>
        (if n + m = W \<or> timeout = K_NO_WAIT then r = Some (0, n + m)
         else r = None \<and> current k \<in> set (queues k' (WaitQ (pipe_writers p))) \<and>
           desc_of ds' k' (current k) = \<lparr>desc_buffer = data + (n + m), bytes_to_xfer = W - (n + m)\<rparr>))"

lemma pipe_put_refuses:
  assumes "m0 \<le> W" "timeout = K_NO_WAIT" "length (targets ds k (queues k (WaitQ (pipe_readers p)))) + (pipe_size p - bytes_used p) < m0"
  shows "k_pipe_put c (p, h, ds, k) desc data W m0 timeout = (Some (- EIO, 0), p, h, ds, k)"
proof -
  have "pipe_size p - bytes_used p + wants ds k (queues k (WaitQ (pipe_readers p))) < m0" using assms(3) by simp
  then show ?thesis using assms(1,2) by (simp add: k_pipe_put_def k_pipe_put_internal_def pipe_xfer_prepare_def no_wait_few)
qed

lemma pipe_put_writes:
  assumes inv: "pipe_inv c X (p, h, ds, k)" and wr: "write_ok data W (p, h, ds, k)" and m0: "m0 \<le> W"
    and t: "timeout = K_NO_WAIT \<or> may_block c X k \<and> timeout_ok c timeout" and fr: "fresh_desc desc (p, h, ds, k)"
  defines "ts \<equiv> targets ds k (queues k (WaitQ (pipe_readers p)))"
  assumes go: "\<not> (timeout = K_NO_WAIT \<and> length ts + (pipe_size p - bytes_used p) < m0)"
  shows "pipe_inv c X (snd (k_pipe_put c (p, h, ds, k) desc data W m0 timeout)) \<and>
    writes desc data W timeout (p, h, ds, k) (k_pipe_put c (p, h, ds, k) desc data W m0 timeout)"
proof -
  obtain n m p' h' ds' k1 xs rest where q: "queues k (WaitQ (pipe_readers p)) = xs @ rest" "prepared c X ds (pipe_readers p) W 0 [] xs rest k k1"
    and g: "k_pipe_put c (p, h, ds, k) desc data W m0 timeout =
       (if n + m = W then (Some (0, n + m), p', h', ds', k_sched_unlock c (served c xs k1))
        else let ds2 = ds'(desc := \<lparr>desc_buffer = data + (n + m), bytes_to_xfer = W - (n + m)\<rparr>)
             in if timeout \<noteq> K_NO_WAIT then (None, p', h', ds2, blocked_on c (pipe_writers p') desc timeout (served c xs k1))
                else (Some (pipe_return_code m0 (W - (n + m)) W, n + m), p', h', ds2, k_sched_unlock c (served c xs k1)))"
    and n: "n = min W (length ts)" and m: "m = min (W - n) (pipe_size p - bytes_used p)" and e: "put_effect data ts n m (p, h) (p', h')"
    and p': "pipe_ok p'" "same_pipe p p'" "bytes_used p' = bytes_used p + m" "targets ds' k rest = drop n ts" "rest \<noteq> [] \<longrightarrow> n = W"
    and d: "\<forall>a. a \<notin> (\<lambda>t. swap_data (thread k t)) ` set (xs @ rest) \<longrightarrow> ds' a = ds a" "\<forall>t \<in> set rest. 0 < bytes_to_xfer (desc_of ds' k t)"
    "outside_all p ds' k rest"
    by (rule pipe_put_moves[OF inv wr m0 go[unfolded ts_def], folded ts_def])
  define ds2 where "ds2 = ds'(desc := \<lparr>desc_buffer = data + (n + m), bytes_to_xfer = W - (n + m)\<rparr>)"
  note iD = pipe_invD[OF inv refl refl] and sv = served_ok[OF pipe_invD(1)[OF inv refl refl] q(2)]
  have nm: "n + m \<le> W" "m \<le> pipe_size p - bytes_used p" "rest \<noteq> [] \<longrightarrow> m = 0" using n m p'(5) by auto
  have wr_eq: "writes desc data W timeout (p, h, ds, k) (r, p', h', e', k') \<longleftrightarrow>
      put_effect data ts n m (p, h) (p', h') \<and> targets e' k' (queues k' (WaitQ (pipe_readers p))) = drop n ts \<and>
      (if n + m = W \<or> timeout = K_NO_WAIT then r = Some (0, n + m)
       else r = None \<and> current k \<in> set (queues k' (WaitQ (pipe_writers p))) \<and>
         desc_of e' k' (current k) = \<lparr>desc_buffer = data + (n + m), bytes_to_xfer = W - (n + m)\<rparr>)" for r e' k'
    unfolding writes_def prod.case Let_def ts_def[symmetric] n[symmetric] m[symmetric] ..
  show ?thesis
  proof (cases "n + m = W \<or> timeout = K_NO_WAIT")
    case True
    have "m0 \<le> n + m" using go True n m m0 by (auto simp: min_def)
    then have "pipe_return_code m0 (W - (n + m)) W = 0" using nm(1) by (simp add: pipe_return_code_def)
    then have E: "k_pipe_put c (p, h, ds, k) desc data W m0 timeout = (Some (0, n + m), p', h', if n + m = W then ds' else ds2, k_sched_unlock c (served c xs k1))"
      using g True by (auto simp: ds2_def Let_def)
    have "\<forall>a. a \<noteq> desc \<longrightarrow> (if n + m = W then ds' else ds2) a = ds' a" by (simp add: ds2_def)
    note r = pipe_put_returns[OF inv fr q(1) _ _ _ p'(1-3) nm(2,3) d this, of "k_sched_unlock c (served c xs k1)"]
    show ?thesis unfolding E wr_eq using r True sched_lock_inv(2)[OF sv(1)] sv(4,5) e p'(4) by simp
  next
    case False
    then have l: "n + m < W" using nm(1) by linarith
    then have z: "rest = []" "0 < W - (n + m)" using p'(5) by auto
    have "m = pipe_size p - bytes_used p" using m l by linarith
    then have u: "bytes_used p' = pipe_size p" using p'(3) pipe_le(1)[OF iD(2)] by linarith
    have mb: "may_block c X (served c xs k1)" "timeout_ok c timeout" "is_thread_ready k (current k)"
      using t False sv(7)[OF _ q(1)] unfolding may_block_def thread_ctx_def by blast+
    have ob: "outside_buffer p (data + (n + m)) (W - (n + m))" using wr nm(1) by (auto simp: write_ok_def outside_buffer_def Let_def)
    note b = pipe_put_blocks[OF inv fr q(1) mb(1,2) sv(2) mb(3) sv(4) _ p'(1,2) u ob z(2) d(1), folded ds2_def]
    have E: "k_pipe_put c (p, h, ds, k) desc data W m0 timeout = (None, p', h', ds2, blocked_on c (pipe_writers p) desc timeout (served c xs k1))"
      using g False p'(2) by (simp add: ds2_def Let_def same_pipe_def)
    show ?thesis unfolding E wr_eq using b(1)[where h' = h'] b(2-4) sv(5) z(1) False e p'(4) by (simp add: ds2_def)
  qed
qed

end
