(* ===== verification/Pipe_Properties.thy ===== *)
theory Pipe_Properties
  imports Pipe_Writing Sample_System
begin

text \<open>Properties of pipes: the bytes written come out in the order they went in, none lost and none twice.\<close>

section \<open>Reading\<close>

text \<open>Property C7: \<^verbatim>\<open>k_pipe_get\<close> takes the first bytes of the pipe's stream, that is of the bytes in the circular
  buffer followed by those of the waiting writers in the order they wait, as many as it wants or there
  are, into the reader's area and leaves the rest of the stream as it was, whatever had to move from
  writers to the buffer meanwhile.  It returns when it has all bytes or must not wait; otherwise the
  thread waits for the missing bytes at the end of its area.  A call that must not wait and cannot have
  the bytes it needs changes nothing.  The pipe's invariant is kept.\<close>

theorem pipe_get_stream:
  assumes "pipe_inv c X (p, h, ds, k)" "read_ok data B (p, h, ds, k)" "m \<le> B"
    "timeout = K_NO_WAIT \<or> may_block c X k \<and> timeout_ok c timeout" "fresh_desc desc (p, h, ds, k)"
  shows "case k_pipe_get c (p, h, ds, k) desc data B m timeout of (r, p', h', ds', k') \<Rightarrow>
    pipe_inv c X (p', h', ds', k') \<and>
    (let s = stream (p, h, ds, k); n = min B (length s) in
     if timeout = K_NO_WAIT \<and> length s < m then r = Some (- EIO, 0) \<and> (p', h', ds', k') = (p, h, ds, k)
     else area h' data n = take n s \<and> stream (p', h', ds', k') = drop n s \<and>
       (if n = B \<or> timeout = K_NO_WAIT then r = Some (0, n)
        else r = None \<and> current k \<in> set (queues k' (WaitQ (pipe_readers p))) \<and>
          desc_of ds' k' (current k) = \<lparr>desc_buffer = data + n, bytes_to_xfer = B - n\<rparr>))"
proof (cases "timeout = K_NO_WAIT \<and> length (stream (p, h, ds, k)) < m")
  case True
  then have "k_pipe_get c (p, h, ds, k) desc data B m timeout = (Some (- EIO, 0), p, h, ds, k)" by (intro pipe_get_refuses[OF assms(3)]) simp_all
  then show ?thesis using True assms(1) by (simp add: Let_def)
next
  case False
  then show ?thesis using pipe_get_reads[OF assms False] unfolding reads_def by (auto simp: Let_def split: prod.splits)
qed

text \<open>The sample system with the descriptors of the threads 4 and 5, which wait on queue 100.\<close>

definition pipe_sys0 :: kernel where
  "pipe_sys0 = upd_thread (upd_thread sys0 4 (\<lambda>th. th\<lparr>swap_data := 900\<rparr>)) 5 (\<lambda>th. th\<lparr>swap_data := 910\<rparr>)"

definition descs0 :: descs where
  "descs0 = (\<lambda>_. \<lparr>desc_buffer = 0, bytes_to_xfer = 0\<rparr>)(900 := \<lparr>desc_buffer = 5000, bytes_to_xfer = 3\<rparr>,
     910 := \<lparr>desc_buffer = 5100, bytes_to_xfer = 2\<rparr>)"

definition full_pipe0 :: k_pipe where
  "full_pipe0 = \<lparr>pipe_buffer = 2000, pipe_size = 4, bytes_used = 4, pipe_read_index = 1, pipe_write_index = 1,
     pipe_readers = 101, pipe_writers = 100\<rparr>"

lemma pipe_sys0_simps:
  "kernel_inv cfg0 X0 pipe_sys0" "queues pipe_sys0 (WaitQ w) = (if w = 100 then [4, 5] else [])"
  "swap_data (thread pipe_sys0 4) = 900" "swap_data (thread pipe_sys0 5) = 910" "current pipe_sys0 = 2"
  by (simp_all add: pipe_sys0_def kernel_inv_upd_thread sys0_inv sys0_queues)

theorem pipe_get_stream_witness:
  "case k_pipe_get cfg0 (full_pipe0, of_nat, descs0, pipe_sys0) 920 3000 6 6 K_NO_WAIT of (r, p', h', ds', k') \<Rightarrow>
     pipe_inv cfg0 X0 (p', h', ds', k') \<and> r = Some (0, 6) \<and> area h' 3000 6 = map of_nat [2001, 2002, 2003, 2000, 5000, 5001] \<and>
     stream (p', h', ds', k') = map of_nat [5002, 5100, 5101]"
proof -
  have "pipe_inv cfg0 X0 (full_pipe0, of_nat, descs0, pipe_sys0)" "read_ok 3000 6 (full_pipe0, of_nat, descs0, pipe_sys0)"
    "fresh_desc 920 (full_pipe0, of_nat, descs0, pipe_sys0)"
    by (simp_all add: pipe_inv_def read_ok_def fresh_desc_def full_pipe0_def descs0_def pipe_sys0_simps pipe_ok_def Let_def
        outside_all_def outside_buffer_def apart_def)
  moreover have "stream (full_pipe0, of_nat, descs0, pipe_sys0) = map of_nat [2001, 2002, 2003, 2000, 5000, 5001, 5002, 5100, 5101]"
    by (simp add: stream_def contents_def waiting_data_def area_def full_pipe0_def descs0_def pipe_sys0_simps upt_rec)
  moreover have six: "Suc (Suc (Suc (Suc (Suc (Suc 0))))) = 6" by simp
  ultimately show ?thesis using pipe_get_stream[of cfg0 X0 full_pipe0 of_nat descs0 pipe_sys0 3000 6 6 K_NO_WAIT 920]
    by (auto simp: Let_def six split: prod.splits)
qed

section \<open>Writing\<close>

text \<open>Property C8: \<^verbatim>\<open>k_pipe_put\<close> gives its first bytes to the waiting readers, at the addresses they wait for bytes
  at and in the order they wait, appends the next bytes to the contents of the circular buffer as far as
  there is room, and changes no other memory.  It returns when it has written all bytes or must not
  wait; otherwise the thread waits with what is left.  A call that must not wait and cannot write the
  bytes it has to changes nothing.  The pipe's invariant is kept.\<close>

theorem pipe_put_stream:
  assumes "pipe_inv c X (p, h, ds, k)" "write_ok data W (p, h, ds, k)" "m0 \<le> W"
    "timeout = K_NO_WAIT \<or> may_block c X k \<and> timeout_ok c timeout" "fresh_desc desc (p, h, ds, k)"
  shows "case k_pipe_put c (p, h, ds, k) desc data W m0 timeout of (r, p', h', ds', k') \<Rightarrow>
    pipe_inv c X (p', h', ds', k') \<and>
    (let ts = targets ds k (queues k (WaitQ (pipe_readers p))); space = pipe_size p - bytes_used p;
         n = min W (length ts); m = min (W - n) space in
     if timeout = K_NO_WAIT \<and> length ts + space < m0 then r = Some (- EIO, 0) \<and> (p', h', ds', k') = (p, h, ds, k)
     else map h' (take n ts) = area h data n \<and> targets ds' k' (queues k' (WaitQ (pipe_readers p))) = drop n ts \<and>
       contents p' h' = contents p h @ area h (data + n) m \<and>
       (\<forall>x. x \<notin> set (take n ts) \<and> \<not> in_buffer p x \<longrightarrow> h' x = h x) \<and>
       (if n + m = W \<or> timeout = K_NO_WAIT then r = Some (0, n + m)
        else r = None \<and> current k \<in> set (queues k' (WaitQ (pipe_writers p))) \<and>
          desc_of ds' k' (current k) = \<lparr>desc_buffer = data + (n + m), bytes_to_xfer = W - (n + m)\<rparr>))"
proof (cases "timeout = K_NO_WAIT \<and> length (targets ds k (queues k (WaitQ (pipe_readers p)))) + (pipe_size p - bytes_used p) < m0")
  case True
  then have "k_pipe_put c (p, h, ds, k) desc data W m0 timeout = (Some (- EIO, 0), p, h, ds, k)"
    by (intro pipe_put_refuses[OF assms(3)]) simp_all
  then show ?thesis using True assms(1) by (simp add: Let_def)
next
  case False
  then show ?thesis using pipe_put_writes[OF assms False]
    unfolding writes_def put_effect_def Let_def by (auto simp del: targets_simps split: prod.splits)
qed

definition empty_pipe0 :: k_pipe where
  "empty_pipe0 = \<lparr>pipe_buffer = 2000, pipe_size = 4, bytes_used = 0, pipe_read_index = 3, pipe_write_index = 3,
     pipe_readers = 100, pipe_writers = 101\<rparr>"

theorem pipe_put_stream_witness:
  "case k_pipe_put cfg0 (empty_pipe0, of_nat, descs0, pipe_sys0) 920 3000 7 7 K_NO_WAIT of (r, p', h', ds', k') \<Rightarrow>
     pipe_inv cfg0 X0 (p', h', ds', k') \<and> r = Some (0, 7) \<and>
     map h' [5000, 5001, 5002, 5100, 5101] = map of_nat [3000, 3001, 3002, 3003, 3004] \<and> contents p' h' = map of_nat [3005, 3006]"
proof -
  have t: "targets descs0 pipe_sys0 (queues pipe_sys0 (WaitQ (pipe_readers empty_pipe0))) = [5000, 5001, 5002, 5100, 5101]"
    by (simp add: targets_def descs0_def empty_pipe0_def pipe_sys0_simps upt_rec)
  have "pipe_inv cfg0 X0 (empty_pipe0, of_nat, descs0, pipe_sys0)" "fresh_desc 920 (empty_pipe0, of_nat, descs0, pipe_sys0)"
    by (simp_all add: pipe_inv_def fresh_desc_def empty_pipe0_def descs0_def pipe_sys0_simps pipe_ok_def Let_def
        outside_all_def outside_buffer_def)
  moreover have "write_ok 3000 7 (empty_pipe0, of_nat, descs0, pipe_sys0)"
    unfolding write_ok_def prod.case t by (simp add: empty_pipe0_def outside_buffer_def off_data_def)
  moreover have "contents empty_pipe0 of_nat = []" "pipe_size empty_pipe0 - bytes_used empty_pipe0 = 4" by (simp_all add: contents_def empty_pipe0_def)
  moreover have "area of_nat 3000 5 = map of_nat [3000, 3001, 3002, 3003, 3004]" "area of_nat 3005 2 = map of_nat [3005, 3006]"
    by (simp_all add: area_def upt_rec)
  moreover have five: "Suc (Suc (Suc (Suc (Suc 0)))) = 5" by simp
  ultimately show ?thesis
    using pipe_put_stream[of cfg0 X0 empty_pipe0 of_nat descs0 pipe_sys0 3000 7 7 K_NO_WAIT 920]
    unfolding t by (auto simp: Let_def five split: prod.splits)
qed

end
