(* ===== verification/Spec2Isabelle.thy ===== *)
theory Spec2Isabelle
  imports Sys_Dlist System Logger_Properties Mailbox_Properties Clock_Properties Object_Properties Passing_Properties Library_Properties Pool_Properties Pipe_Properties
begin

text \<open>
  This development verifies the unified kernel of the Zephyr tree in this repository
  (\<^verbatim>\<open>src/kernel/unified\<close>, with the parts of \<^verbatim>\<open>src/include\<close>, \<^verbatim>\<open>src/arch/arm/core\<close>, \<^verbatim>\<open>src/misc\<close> and
  \<^verbatim>\<open>src/lib/libc/minimal\<close> it is built on), as configured for the Cortex-M board of the project.

  \<^bold>\<open>The program.\<close>  The kernel multiplexes one processor among threads of different priorities.  A ready queue
  (\<^verbatim>\<open>sched.c\<close>) holds the runnable threads; a timeout queue (\<^verbatim>\<open>timeout_q.h\<close>), driven by the tick handler
  (\<^verbatim>\<open>sys_clock.c\<close>), wakes sleeping threads and runs timers; kernel objects (semaphores, mutexes, FIFOs, LIFOs,
  stacks, message queues, pipes, mailboxes, memory slabs and pools) block the running thread on a wait queue and make
  the first waiter ready again.  Work queues run deferred calls in a thread of their own, alerts and delayed
  work use them.  Every operation runs with interrupts or the scheduler locked, so each is one step of the
  system up to the point where its thread is switched out.

  \<^bold>\<open>The model.\<close>  C functions are HOL functions of the same name, without leading underscores, on an explicit state.
  \<open>kernel\<close> (theory \<open>Kernel_State\<close>) is the record of \<^verbatim>\<open>struct _kernel\<close> with the threads, the lists of the
  kernel and the timeouts; \<open>timed\<close>, \<open>worked\<close> and \<open>clocked\<close> extend it by timers, work queues and the clock,
  and every function is polymorphic in the extension, so that one definition serves all of them.  Kconfig
  values and link-time constants are the record \<open>kconfig\<close>, the first argument \<open>c\<close>.  Addresses are natural
  numbers with 0 for the null pointer; machine integers are words where they can wrap (bitmaps, counts,
  ticks, sizes, indices).  A call that switches its thread out returns \<open>None\<close>, and what it does when the thread
  runs again is a function of its own with suffix \<open>_resume\<close>.  Calls of application code (handlers of timers,
  work, alerts and aborts) go through a parameter.  Lists of the kernel are HOL lists; that the pointer code
  implements them is shown in \<open>Sys_Dlist\<close>.

  \<^item> \<open>Zephyr_Prelude\<close>: types, collections of definitions, shared lemmas on lists and words.
  \<^item> \<open>Sys_Dlist\<close>, \<open>Sys_Slist\<close>: \<^verbatim>\<open>include/misc/dlist.h\<close> and \<^verbatim>\<open>slist.h\<close> on a heap of links; the pointer operations
    implement the list operations, and the search of \<^verbatim>\<open>sys_dlist_insert_at\<close> ends on well-formed lists.
  \<^item> \<open>Kernel_State\<close>, \<open>Ready_Queue\<close>, \<open>Timeout_Queue\<close>, \<open>Scheduler\<close>: \<^verbatim>\<open>kernel_structs.h\<close>, \<^verbatim>\<open>ksched.h\<close>, \<^verbatim>\<open>sched.c\<close>,
    \<^verbatim>\<open>timeout_q.h\<close>, \<^verbatim>\<open>swap.S\<close>, \<^verbatim>\<open>exc_exit.S\<close>.  \<open>rq_inv\<close> relates bitmap, queues and cache; the queue implements a
    FIFO by priority (locale \<open>prio_fifo\<close>).  \<open>timeout_inv\<close> and \<open>expiry\<close> read the list of differences as absolute
    times (locale \<open>deadline_queue\<close>).  \<open>kernel_inv\<close> is the invariant of all of them: a live thread is on the ready
    queue exactly when its flags say it is ready; \<open>well_scheduled\<close> says that the right thread runs.
  \<^item> \<open>Wait_Queue\<close>: the two halves of every blocking operation, with the locale \<open>blocking_resource\<close>, which
    states what a kernel object promises its users; it is interpreted by semaphores, FIFOs, LIFOs, stacks and slabs.
  \<^item> \<open>Timeout_Expiry\<close>, \<open>Timer\<close>, \<open>Work_Queue\<close>, \<open>Sys_Clock\<close>: \<^verbatim>\<open>sys_clock.c\<close>, \<^verbatim>\<open>timer.c\<close>, \<^verbatim>\<open>work_q.c\<close>.  The locale
    \<open>timeout_handlers\<close> states what the handler of a timeout may do; under it a tick announcement ends and serves exactly
    the timeouts that are due.  It is interpreted for the timers and work of \<open>clocked\<close> and for threads only.
  \<^item> \<open>Threads\<close>: \<^verbatim>\<open>thread.c\<close>, \<^verbatim>\<open>init.c\<close>, \<^verbatim>\<open>arch/arm/core/thread.c\<close> and \<^verbatim>\<open>thread_abort.c\<close>: creation, start, cancellation,
    suspension, abortion, groups, booting.
  \<^item> \<open>System\<close>: the kernel as a transition system of calls by threads and interrupt handlers, on which reachability
    of bad states is refuted by rule induction.
  \<^item> \<open>Sem\<close>, \<open>Mutex\<close>, \<open>Fifo\<close>, \<open>Lifo\<close>, \<open>Kstack\<close>, \<open>Msgq\<close>, \<open>Mem_Slab\<close>, \<open>Alert\<close>: \<^verbatim>\<open>sem.c\<close>, \<^verbatim>\<open>mutex.c\<close>, \<^verbatim>\<open>fifo.c\<close>, \<^verbatim>\<open>lifo.c\<close>,
    \<^verbatim>\<open>stack.c\<close>, \<^verbatim>\<open>msg_q.c\<close>, \<^verbatim>\<open>mem_slab.c\<close>, \<^verbatim>\<open>alert.c\<close> with \<^verbatim>\<open>system_work_q.c\<close>; each with its invariant and that every
    operation keeps it.
  \<^item> \<open>Mem_Pool\<close>, \<open>Pool_Accounts\<close>, \<open>Pool_Operations\<close>: \<^verbatim>\<open>mem_pool.c\<close>; which blocks the quad-block arrays stand for, and
    that the recursive search, splitting, merging and freeing keep every block free, in use or split and only one of these.
  \<^item> \<open>Pipe\<close>, \<open>Pipe_Stream\<close>, \<open>Pipe_Operations\<close>, \<open>Pipe_Writing\<close>: \<^verbatim>\<open>pipes.c\<close>; the bytes of the buffer and of the waiting
    writers as one stream.
  \<^item> \<open>Mailbox\<close>: \<^verbatim>\<open>mailbox.c\<close>: matching of senders and receivers, and the hand-over of data.
  \<^item> \<open>Ring_Buffer\<close>, \<open>Event_Logger\<close>: \<^verbatim>\<open>misc/ring_buffer.c\<close> as a queue of items, and \<^verbatim>\<open>event_logger.c\<close> on top of it.
  \<^item> \<open>Atomic\<close>: \<^verbatim>\<open>atomic_c.c\<close> and the bit arrays of \<^verbatim>\<open>include/atomic.h\<close>.
  \<^item> \<open>Libc_String\<close>, \<open>Libc_Search\<close> and \<open>Libc_Stdlib\<close>: \<^verbatim>\<open>lib/libc/minimal/source/string\<close> and \<^verbatim>\<open>stdlib\<close> on a memory of bytes.
  \<^item> \<open>Sample_System\<close>: a small concrete system, the input of the witnesses.
  \<^item> The properties are in the theories with suffix \<open>_Properties\<close> and, where they are about the kernel as a whole,
    below.

  \<^bold>\<open>Loops.\<close>  Structural recursion where the source walks a list or counts; \<open>function\<close> with a measure where it does not:
  waiters left (\<open>put_list_loop\<close>, \<open>purge_loop\<close>, \<open>prepare_loop\<close>), bitmap words left (\<open>find_bitmap\<close>), block sets left
  (\<open>get_block_recursive\<close>), the largest length of an item (\<open>get_words\<close>).  The scan of one array of
  quad-blocks by the defragmentation, \<open>defrag_set\<close>, has fuel: twice the number of entries, since a round moves on
  or merges four blocks; \<open>pool_defrag_merges\<close> shows that it is enough.  Loops that may run forever are options
  (\<open>partial_function\<close>): the search of \<^verbatim>\<open>sys_dlist_insert_at\<close> on a malformed list, string functions on memory
  without a terminator, \<open>block_set_index_loop\<close>, busy waiting, the expiry loop and the delivery of alerts;
  that they return is proved.  Numeric bounds in hypotheses are those of the types: ticks
  and timeouts below $2^{31}$, counts below $2^{32}$, ring buffers of at most $2^{31}$ words, where 32-bit sums of an
  index and a length do not wrap.

  \<^bold>\<open>Not modelled.\<close>  Register contents and stack frames (the context switch is modelled by the thread it selects), device
  drivers, power management and the idle loop's processor sleep (hardware); the tracing lists and the
  kernel event logger's hooks (debugging); asynchronous puts on pipes; the \<^verbatim>\<open>legacy.h\<close> interface, which renames
  kernel calls; \<^verbatim>\<open>printf\<close> and \<^verbatim>\<open>printk\<close>, whose variable argument lists and output device are outside the
  model; networking, Bluetooth, file systems, sensors, samples and tests, which are users of the kernel; other
  architectures.  Assertions of the source are not branches of the model, since they are compiled out by default:
  where a result depends on one, it is a hypothesis.
\<close>

section \<open>The system\<close>






section \<open>Scheduling\<close>

text \<open>Property C2: after the scheduling point that ends every operation that may ready a thread, the
  running thread is ready, the kernel's invariant holds, and unless the running thread is
  cooperative or holds the scheduler lock no ready thread has a higher priority.\<close>

theorem reschedule_runs_highest:
  assumes "kernel_inv c X k" "thread_ctx X k"
  shows "kernel_inv c X (reschedule_threads c k) \<and> well_scheduled c X (reschedule_threads c k)"
  using reschedule_inv[OF assms(1)] reschedule_well_scheduled[OF assms] by blast

theorem reschedule_runs_highest_witness:
  "kernel_inv cfg0 X0 (reschedule_threads cfg0 sys0) \<and> well_scheduled cfg0 X0 (reschedule_threads cfg0 sys0)"
  by (rule reschedule_runs_highest[OF sys0_inv sys0_ctx(1)])

text \<open>Property C3: the ready queue with its priority bitmap, its per-priority lists and its cache
  implements a list of threads ordered by priority, first come first served within a priority: adding
  a thread inserts it behind its equals, removing a thread deletes it, the next thread to run is the
  head.\<close>

theorem ready_queue_refines:
  assumes "rq_inv c k" "t \<noteq> NULL" "\<And>q. t \<notin> set (queues k q)" "valid_prio c (prio (thread k t))"
  shows "rq_inv c (add_thread_to_ready_q c k t) \<and>
    ready_list c (add_thread_to_ready_q c k t) = insert_by_prio (\<lambda>u. prio (thread k u)) t (ready_list c k) \<and>
    sorted (map (\<lambda>u. prio (thread k u)) (ready_list c (add_thread_to_ready_q c k t))) \<and>
    (\<forall>u. ready_list c (remove_thread_from_ready_q c (add_thread_to_ready_q c k t) u) =
       remove1 u (ready_list c (add_thread_to_ready_q c k t))) \<and>
    fst (get_next_ready_thread c (add_thread_to_ready_q c k t)) = hd (ready_list c (add_thread_to_ready_q c k t))"
proof -
  let ?k = "add_thread_to_ready_q c k t"
  have i: "rq_inv c ?k" using assms by (intro add_thread_inv) auto
  note l = ready_list_add[OF assms(1,4)]
  have "sorted (map (\<lambda>u. prio (thread ?k u)) (ready_list c ?k))"
    using i by (intro ready_list_sorted) (simp add: rq_inv_def)
  moreover have "ready_list c ?k \<noteq> []" unfolding l by (simp add: insert_by_prio_def)
  ultimately show ?thesis using i l ready_list_remove[OF i] ready_list_hd[OF i] by simp
qed

theorem ready_queue_refines_witness:
  "ready_list cfg0 (add_thread_to_ready_q cfg0 sys0 6) = [2, 6, 3, 7] \<and>
   fst (get_next_ready_thread cfg0 (add_thread_to_ready_q cfg0 sys0 6)) = 2"
proof -
  have q: "6 \<notin> set (queues sys0 q)" for q by (cases q) (simp_all add: sys0_queues)
  have "ready_list cfg0 sys0 = [2, 3, 7]" by (simp add: ready_list_def sys0_queues upt_rec)
  then show ?thesis using ready_queue_refines[OF sys0_rq, of 6] q
    by (simp add: insert_by_prio_def sys0_prio valid_prio_def)
qed

text \<open>\<^verbatim>\<open>k_yield\<close> moves the running thread behind the ready threads of its own priority and
  runs the first of the resulting order, so that it returns to itself exactly when no other ready
  thread has its priority or a higher one.\<close>

theorem yield_round_robin:
  assumes "kernel_inv c X k" "thread_ctx X k"
  shows "kernel_inv c X (k_yield c k) \<and> well_scheduled c X (k_yield c k) \<and>
    current (k_yield c k) =
      hd (insert_by_prio (\<lambda>u. prio (thread k u)) (current k) (remove1 (current k) (ready_list c k)))"
  using k_yield_eq[OF assms] by blast

text \<open>Property C13: \<^verbatim>\<open>k_sleep\<close> for a non-zero time takes the running thread off the ready queue and runs
  the best of the others; its timeout is due one tick after the duration in ticks, rounded up, and the
  timeout of nobody else moves.\<close>

theorem sleep_until_due:
  assumes "kernel_inv c X k" "thread_ctx X k" "current k \<noteq> idle_thread c" "0 < ms" "ms < 2 ^ 31 - 1"
    "0 \<le> sys_clock_ticks_per_sec c" "sys_clock_ticks_per_sec c \<le> 1000"
  shows "kernel_inv c X (k_sleep c k ms) \<and> well_scheduled c X (k_sleep c k ms) \<and>
    ready_list c (k_sleep c k ms) = remove1 (current k) (ready_list c k) \<and>
    expiry (k_sleep c k ms) =
      (expiry k)(ThreadTO (current k) \<mapsto> 1 + (ms * sys_clock_ticks_per_sec c + 999) div 1000)"
  using k_sleep_inv[OF assms(1-3), of ms] ms_to_ticks_bounds[of ms c] assms(4-7) by simp

theorem sleep_until_due_witness:
  "ready_list cfg0 (k_sleep cfg0 sys0 55) = [3, 7] \<and> expiry (k_sleep cfg0 sys0 55) (ThreadTO 2) = Some 7 \<and>
   expiry (k_sleep cfg0 sys0 55) (ThreadTO 6) = expiry sys0 (ThreadTO 6)"
proof -
  have "ready_list cfg0 sys0 = [2, 3, 7]" by (simp add: ready_list_def sys0_queues upt_rec)
  then show ?thesis using sleep_until_due[OF sys0_inv sys0_ctx(1), of 55] by simp
qed

text \<open>Property C11: a timeout set on the delta queue is due after its number of ticks whatever the other
  timeouts are, moves none of them, and aborting it gives the queue back its old expiries.\<close>

theorem timeout_arm_abort:
  assumes "timeout_inv k" "expiry k x = None" "0 < n" "n < 2 ^ 31"
  shows "timeout_inv (add_timeout k t x w n) \<and> expiry (add_timeout k t x w n) = (expiry k)(x \<mapsto> n) \<and>
    get_next_timeout_expiry (add_timeout k t x w n) \<le> n \<and>
    fst (abort_timeout (add_timeout k t x w n) x) = 0 \<and>
    timeout_inv (snd (abort_timeout (add_timeout k t x w n) x)) \<and>
    expiry (snd (abort_timeout (add_timeout k t x w n) x)) = expiry k"
proof -
  let ?k = "add_timeout k t x w n"
  have i: "timeout_inv ?k" using assms by (intro add_timeout_inv) auto
  have e: "expiry ?k = (expiry k)(x \<mapsto> n)" by (rule expiry_add[OF assms(1,2)])
  have "delta ?k x \<noteq> -1" using e expiry_active[OF i, of x] by simp
  then have "fst (abort_timeout ?k x) = 0" by (simp add: abort_timeout_def Let_def)
  moreover have "(expiry k)(x := None) = expiry k" using assms(2) by (simp add: fun_upd_idem)
  ultimately show ?thesis
    using i e abort_timeout_inv[OF i, of x] expiry_abort[OF i, of x] next_timeout_expiry_least(1)[OF i, of x n] by simp
qed

theorem timeout_arm_abort_witness:
  "expiry (add_timeout sys0 3 (ThreadTO 3) NULL 25) (ThreadTO 3) = Some 25 \<and>
   expiry (add_timeout sys0 3 (ThreadTO 3) NULL 25) (ThreadTO 6) = Some 30"
proof -
  have "expiry sys0 (ThreadTO 3) = None" "expiry sys0 (ThreadTO 6) = Some 30"
    by (simp_all add: expiry_def expiries_def) (simp_all add: sys0_def timeout0_def)
  then show ?thesis using timeout_arm_abort[OF sys0_timeouts, of "ThreadTO 3" 25 3 NULL] by simp
qed



section \<open>Threads\<close>

text \<open>\<^verbatim>\<open>k_thread_spawn\<close> with a delay puts the new thread into the scheduler's hands with its
  timeout set and not runnable; \<^verbatim>\<open>k_thread_cancel\<close> before the delay has passed succeeds and gives the
  thread's memory back with every other timeout as it was.\<close>

theorem spawn_then_cancel:
  assumes "kernel_inv c X k" "t \<in> X" "t \<noteq> NULL" "delta k (ThreadTO t) = -1" "valid_prio c p"
    "opts AND K_PENDING = 0" "0 < delay" "delay < 2 ^ 31 - 1"
    "0 \<le> sys_clock_ticks_per_sec c" "sys_clock_ticks_per_sec c \<le> 1000"
  shows "kernel_inv c (X - {t}) (snd (k_thread_spawn c k t p opts delay)) \<and>
    expiry (snd (k_thread_spawn c k t p opts delay)) =
      (expiry k)(ThreadTO t \<mapsto> 1 + (delay * sys_clock_ticks_per_sec c + 999) div 1000) \<and>
    \<not> is_thread_ready (snd (k_thread_spawn c k t p opts delay)) t \<and>
    fst (k_thread_cancel (snd (k_thread_spawn c k t p opts delay)) t) = 0 \<and>
    kernel_inv c X (snd (k_thread_cancel (snd (k_thread_spawn c k t p opts delay)) t)) \<and>
    expiry (snd (k_thread_cancel (snd (k_thread_spawn c k t p opts delay)) t)) = expiry k"
proof -
  let ?n = "1 + ms_to_ticks c delay" and ?k1 = "new_thread k t p opts"
  define k2 where "k2 = snd (k_thread_spawn c k t p opts delay)"
  note n = ms_to_ticks_bounds[of delay c]
  have k2: "k2 = add_timeout ?k1 t (ThreadTO t) NULL ?n"
    using assms(7) by (simp add: k2_def k_thread_spawn_def schedule_new_thread_def add_thread_timeout_def TICK_ALIGN_def)
  have i: "kernel_inv c (X - {t}) k2" unfolding k2_def using assms n by (intro k_thread_spawn_inv) auto
  have s: "sched_inv c X k" using assms(1) by (simp add: kernel_inv_def)
  note ti = sched_invD(4)[OF s] sched_invD(4)[OF new_thread_inv[OF s assms(2,4), of p opts]]
  have "delta ?k1 x = delta k x" for x using assms(4) by (cases "x = ThreadTO t") simp_all
  then have e1: "expiry ?k1 = expiry k" by (simp add: expiry_def expiries_def fun_eq_iff)
  have e0: "expiry k (ThreadTO t) = None" using assms(4) expiry_active[OF ti(1)] by simp
  have e: "expiry k2 = (expiry k)(ThreadTO t \<mapsto> ?n)" using expiry_add[OF ti(2)] e0 e1 by (simp add: k2)
  have ti2: "timeout_inv k2" using i sched_invD(4) by (auto simp: kernel_inv_def)
  have a: "is_thread_timeout_active k2 t"
    using e expiry_active[OF ti2, of "ThreadTO t"] by (simp add: is_thread_timeout_active_def)
  have f: "flags (thread k2 t) = opts OR K_PRESTART" by (simp add: k2)
  have "\<not> bit opts 13" using assms(6) by (simp add: flag_tests)
  then have np: "\<not> is_thread_pending k2 t" "\<not> has_thread_started k2 t" "\<not> is_thread_ready k2 t"
    by (simp_all add: pending_bit started_bit ready_bits f bit_or_iff bit_flags)
  have "insert t (X - {t}) = X" using assms(2) by auto
  then show ?thesis using k_thread_cancel_inv[OF i np(2) a np(1)] i e e0 np n assms(7-10)
    unfolding k2_def by (simp add: fun_upd_idem)
qed

text \<open>Property C15: suspending a ready thread other than the running one takes it off the ready queue
  and resuming it puts it back, behind the ready threads of its priority, and reschedules.\<close>

theorem suspend_then_resume:
  assumes "kernel_inv c X k" "thread_ctx X k" "t \<notin> X" "t \<noteq> idle_thread c" "is_thread_ready k t" "t \<noteq> current k"
  shows "kernel_inv c X (k_thread_suspend c k t) \<and>
    ready_list c (k_thread_suspend c k t) = remove1 t (ready_list c k) \<and>
    kernel_inv c X (k_thread_resume c (k_thread_suspend c k t) t) \<and>
    well_scheduled c X (k_thread_resume c (k_thread_suspend c k t) t) \<and>
    ready_list c (k_thread_resume c (k_thread_suspend c k t) t) =
      insert_by_prio (\<lambda>u. prio (thread k u)) t (remove1 t (ready_list c k))"
proof -
  let ?r = "remove_thread_from_ready_q c k t" and ?k1 = "k_thread_single_suspend c k t"
  let ?k2 = "mark_thread_as_not_suspended ?k1 t" and ?k3 = "k_thread_single_resume c ?k1 t"
  have s: "sched_inv c X k" using assms(1) by (simp add: kernel_inv_def)
  have v: "valid_prio c (prio (thread k t))" using sched_invD(10)[OF s] assms(3) by blast
  have k1: "k_thread_suspend c k t = ?k1" "?k1 = mark_thread_as_suspended ?r t"
    using assms(5,6) by (simp_all add: k_thread_suspend_def k_thread_single_suspend_def mark_defs)
  note i1 = single_suspend_inv(1)[OF assms(1,3,4)]
  have sus: "bit (flags (thread ?k1 t)) 16" unfolding k1(2) by (rule bit_suspended)
  have l1: "ready_list c ?k1 = remove1 t (ready_list c k)"
    using ready_list_remove[OF sched_invD(1)[OF s], of t] by (simp add: k1(2) mark_defs ready_list_def)
  note i3 = single_resume_inv[OF i1 assms(3) sus]
  have r2: "is_thread_ready ?k2 t" using assms(5) by (simp add: k1(2) mark_defs ready_bits bit_ops_flags)
  then have k3: "?k3 = add_thread_to_ready_q c ?k2 t" by (simp add: k_thread_single_resume_def)
  have "rq_inv c ?k2" using i1 sched_invD(1) by (auto simp: kernel_inv_def mark_defs rq_inv_upd_thread)
  moreover have p: "prio (thread ?k2 u) = prio (thread k u)" for u by (simp add: mark_defs k1(2))
  moreover have "ready_list c ?k2 = ready_list c ?k1" by (simp add: mark_defs ready_list_def)
  ultimately have l3: "ready_list c ?k3 = insert_by_prio (\<lambda>u. prio (thread k u)) t (remove1 t (ready_list c k))"
    using ready_list_add[of c ?k2 t] v l1 by (simp add: k3)
  have "thread_ctx X ?k3"
    using assms(2,6) unfolding k3 thread_ctx_def ready_bits by (simp add: k1(2) mark_defs)
  then show ?thesis using i1 l1 i3 l3 reschedule_inv[OF i3] reschedule_well_scheduled[OF i3]
    by (simp add: k1(1) k_thread_resume_def)
qed

theorem suspend_then_resume_witness:
  "ready_list cfg0 (k_thread_suspend cfg0 sys0 3) = [2, 7] \<and>
   ready_list cfg0 (k_thread_resume cfg0 (k_thread_suspend cfg0 sys0 3) 3) = [2, 3, 7]"
proof -
  have "ready_list cfg0 sys0 = [2, 3, 7]" by (simp add: ready_list_def sys0_queues upt_rec)
  then show ?thesis using suspend_then_resume[OF sys0_inv sys0_ctx(1), of 3]
    by (simp add: sys0_ready insert_by_prio_def sys0_prio)
qed



text \<open>Booting.  From a kernel in its power-on state, building the main and the idle
  thread and switching to the main thread establishes the kernel's invariant and runs the main
  thread, when the main thread's priority is above the idle thread's.\<close>

theorem boot_runs_main:
  assumes "cold k" "m \<noteq> NULL" "m \<noteq> idle_thread c" "idle_thread c \<noteq> NULL" "d \<noteq> m" "d \<noteq> idle_thread c"
    "valid_prio c p" "p < int (NUM_PREEMPT_PRIORITIES c)"
  shows "kernel_inv c (UNIV - {m, idle_thread c}) (switch_to_main_thread c (prepare_multithreading c d m p k)) \<and>
    well_scheduled c (UNIV - {m, idle_thread c}) (switch_to_main_thread c (prepare_multithreading c d m p k)) \<and>
    current (switch_to_main_thread c (prepare_multithreading c d m p k)) = m"
proof -
  let ?X = "UNIV - {m, idle_thread c}" and ?k = "prepare_multithreading c d m p k"
  note b = boot_inv[OF assms(1-7)]
  have "well_scheduled c ?X (Swap c ?k)" by (rule Swap_well_scheduled[OF b(1,5)])
  moreover have "current (Swap c ?k) = m"
  proof -
    have "current (Swap c ?k) \<in> {m, idle_thread c}" using Swap_inv(3)[OF b(1)] by blast
    moreover have "prio (thread ?k (current (Swap c ?k))) \<le> p"
      using hd_ready_highest[of c ?X ?k m] b Swap_inv(2)[OF b(1)] by (simp add: kernel_inv_def)
    moreover have "prio (thread ?k (idle_thread c)) = int (NUM_PREEMPT_PRIORITIES c)"
      using assms(3) by (simp add: prepare_multithreading_def Let_def mark_defs)
    ultimately show ?thesis using assms(8) by force
  qed
  ultimately show ?thesis using Swap_inv(1)[OF b(1)] by (simp add: switch_to_main_thread_def)
qed

section \<open>Waiting without the scheduler\<close>

text \<open>Property C21: \<^verbatim>\<open>k_busy_wait\<close> returns, at the first read of the cycle counter that is the wanted
  number of cycles after the first one, across a wrap of the 32-bit counter too, if the counter
  moves between reads and no step jumps over the end of the wait.\<close>

theorem busy_wait_returns:
  assumes "\<And>i. cyc (Suc i) \<noteq> cyc i" "\<And>i. unat (cyc (Suc i) - cyc i) + unat (cycles_to_wait usec hz) \<le> 2 ^ 32"
  shows "\<exists>m. k_busy_wait hz cyc usec = Some m \<and> cyc m - cyc 0 \<ge> cycles_to_wait usec hz \<and>
    (\<forall>l. 1 \<le> l \<and> l < m \<longrightarrow> cyc l - cyc 0 < cycles_to_wait usec hz)"
  using counter_arrives[of cyc "cycles_to_wait usec hz", OF assms] busy_wait_loop_result[of "cycles_to_wait usec hz" cyc _ "cyc 0" 1]
  unfolding k_busy_wait_def by blast

theorem busy_wait_returns_witness:
  "\<exists>m. k_busy_wait 8000000 (\<lambda>i. 0xFFFFFF00 + of_nat i) 25 = Some m \<and>
     (0xFFFFFF00 + of_nat m) - (0xFFFFFF00 :: u32) \<ge> 200"
proof -
  have w: "cycles_to_wait 25 8000000 = 200" by (simp add: cycles_to_wait_def)
  show ?thesis using busy_wait_returns[of "\<lambda>i. 0xFFFFFF00 + of_nat i" 25 8000000] unfolding w by auto
qed

end
